(* ===== verification/Prelude.thy ===== *)
theory Prelude
  imports Main "HOL-Library.Word" "HOL-Library.Monad_Syntax"
begin

text \<open>
  Shared vocabulary of the development: the machine types of the x86-64 build, the
  encoding of kernel failures, the error numbers of
  \<^verbatim>\<open>include/asm-generic/errno-base.h\<close>, block copies, and the generic facts on words,
  lists and options that the component theories use.

  A function that can bring the kernel down (\<^verbatim>\<open>BUG_ON\<close>, a null or wild pointer, a copy
  outside its buffer) returns an \<open>option\<close>: \<open>None\<close> is the crash, \<open>Some r\<close> a normal
  return. Error returns of the source are ordinary values inside \<open>Some\<close>.
\<close>

unbundle bit_operations_syntax

section \<open>Machine types\<close>

type_synonym u8 = "8 word"
type_synonym u16 = "16 word"
type_synonym u32 = "32 word"
type_synonym ulong = "64 word"

section \<open>Failures\<close>

text \<open>\<^verbatim>\<open>BUG_ON(condition)\<close>: the kernel stops when the condition holds.\<close>

definition BUG_ON :: "bool \<Rightarrow> unit option" where
  "BUG_ON c = (if c then None else Some ())"

lemma BUG_ON_simps [simp]:
  "BUG_ON False = Some ()" "BUG_ON True = None"
  by (simp_all add: BUG_ON_def)

lemma BUG_ON_eq_Some [simp]: "BUG_ON c = Some u \<longleftrightarrow> \<not> c"
  by (simp add: BUG_ON_def)

lemma BUG_ON_bind [simp]: "(BUG_ON c \<bind> f) = (if c then None else f ())"
  by (simp add: BUG_ON_def)

lemma bind_Some_iff: "(m \<bind> f) = Some y \<longleftrightarrow> (\<exists>x. m = Some x \<and> f x = Some y)"
  by (cases m) auto

section \<open>Error numbers\<close>

abbreviation (input) EPERM :: int where "EPERM \<equiv> 1"
abbreviation (input) ENOENT :: int where "ENOENT \<equiv> 2"
abbreviation (input) EINTR :: int where "EINTR \<equiv> 4"
abbreviation (input) E2BIG :: int where "E2BIG \<equiv> 7"
abbreviation (input) EAGAIN :: int where "EAGAIN \<equiv> 11"
abbreviation (input) ENOMEM :: int where "ENOMEM \<equiv> 12"
abbreviation (input) EACCES :: int where "EACCES \<equiv> 13"
abbreviation (input) EFAULT :: int where "EFAULT \<equiv> 14"
abbreviation (input) EBUSY :: int where "EBUSY \<equiv> 16"
abbreviation (input) EEXIST :: int where "EEXIST \<equiv> 17"
abbreviation (input) EINVAL :: int where "EINVAL \<equiv> 22"
abbreviation (input) EFBIG :: int where "EFBIG \<equiv> 27"
abbreviation (input) ENOSPC :: int where "ENOSPC \<equiv> 28"
abbreviation (input) ERANGE :: int where "ERANGE \<equiv> 34"
abbreviation (input) EIDRM :: int where "EIDRM \<equiv> 43"

section \<open>Block copies\<close>

text \<open>
  \<^verbatim>\<open>memcpy(dst + off, src + soff, n)\<close> on arrays: \<open>None\<close> when the copy would leave one of
  the two arrays.
\<close>

definition memcpy :: "'a list \<Rightarrow> nat \<Rightarrow> 'a list \<Rightarrow> nat \<Rightarrow> nat \<Rightarrow> 'a list option" where
  "memcpy dst off src soff n =
     (if off + n \<le> length dst \<and> soff + n \<le> length src
      then Some (take off dst @ take n (drop soff src) @ drop (off + n) dst)
      else None)"

lemma memcpy_Some:
  "off + n \<le> length dst \<Longrightarrow> soff + n \<le> length src \<Longrightarrow>
   memcpy dst off src soff n = Some (take off dst @ take n (drop soff src) @ drop (off + n) dst)"
  by (simp add: memcpy_def)

lemma memcpy_ex:
  "off + n \<le> length dst \<Longrightarrow> soff + n \<le> length src \<Longrightarrow> \<exists>r. memcpy dst off src soff n = Some r"
  by (simp add: memcpy_def)

lemma memcpy_length: "memcpy dst off src soff n = Some r \<Longrightarrow> length r = length dst"
  by (auto simp: memcpy_def split: if_splits)

lemma memcpy_nth:
  assumes "memcpy dst off src soff n = Some r" and "i < length dst"
  shows "r ! i = (if off \<le> i \<and> i < off + n then src ! (soff + (i - off)) else dst ! i)"
  using assms by (auto simp: memcpy_def nth_append split: if_splits)

section \<open>Words\<close>

named_theorems word_mask \<open>masks of the form \<^verbatim>\<open>size - 1\<close> read as remainders\<close>

lemma unat_bound: "unat (x :: 'a::len word) < 2 ^ LENGTH('a)"
  by (rule unsigned_less)

lemma unat_exp: "k < LENGTH('a) \<Longrightarrow> unat (2 ^ k :: 'a::len word) = 2 ^ k"
  using of_nat_inverse [of "2 ^ k", where 'a = 'a] by simp

lemma mask_is_mod:
  fixes x s :: "'a::len word"
  assumes "unat s = 2 ^ k"
  shows "unat (x AND (s - 1)) = unat x mod 2 ^ k"
proof -
  have k: "k < LENGTH('a)"
    using assms unsigned_less [of s] by (metis power_strict_increasing_iff one_less_numeral_iff semiring_norm(76))
  have "unat (2 ^ k :: 'a word) = 2 ^ k"
    using k by (rule unat_exp)
  then have "s = 2 ^ k"
    using assms by (simp add: word_unat_eq_iff)
  then have "x AND (s - 1) = take_bit k x"
    by (simp add: take_bit_eq_mask mask_eq_decr_exp)
  then show ?thesis
    by (simp only: unsigned_take_bit_eq take_bit_eq_mod [of k "unat x"])
qed

lemma nat_pow2_test:
  "0 < n \<Longrightarrow> n AND (n - 1) = (0::nat) \<Longrightarrow> \<exists>k. n = 2 ^ k"
proof (induction n rule: less_induct)
  case (less n)
  show ?case
  proof (cases "even n")
    case True
    then obtain m where m: "n = 2 * m" by blast
    have "(2 * m) AND (2 * m - 1) = 2 * (m AND (m - 1))"
    proof -
      have "(2 * m - 1) div 2 = m - 1" using less.prems(1) m by linarith
      then show ?thesis by (subst and_nat_unfold) simp
    qed
    then have "m AND (m - 1) = 0" "0 < m" "m < n"
      using less.prems m by auto
    from less.IH [OF this(3,2,1)] obtain k where "m = 2 ^ k" by blast
    then have "n = 2 ^ Suc k" using m by simp
    then show ?thesis by blast
  next
    case False
    then obtain m where m: "n = 2 * m + 1" using oddE by blast
    have "(2 * m + 1) AND (2 * m) = 2 * m"
      by (subst and_nat_unfold) auto
    then have "n = 2 ^ 0" using less.prems m by simp
    then show ?thesis by blast
  qed
qed

lemma word_pow2_test:
  fixes s :: "'a::len word"
  assumes "s AND (s - 1) = 0" and "s \<noteq> 0"
  shows "\<exists>k. unat s = 2 ^ k"
proof -
  have pos: "0 < unat s" using assms(2) by (simp add: unat_gt_0)
  have "unat (s AND (s - 1)) = unat s AND (unat s - 1)"
    using assms(2) by (simp add: unsigned_and_eq unat_minus_one)
  then have "unat s AND (unat s - 1) = 0" using assms(1) by simp
  with nat_pow2_test [OF pos] show ?thesis by blast
qed

lemma unat_sub_add_cancel:
  fixes a b n :: "'a::len word"
  assumes "unat (a - b) + unat n < 2 ^ LENGTH('a)"
  shows "unat (a + n - b) = unat (a - b) + unat n"
proof -
  have "a + n - b = (a - b) + n" by simp
  also have "unat ((a - b) + n) = (unat (a - b) + unat n) mod 2 ^ LENGTH('a)"
    by (rule unat_word_ariths)
  finally show ?thesis using assms by simp
qed

lemma unat_sub_sub:
  fixes a b n :: "'a::len word"
  assumes "unat n \<le> unat (a - b)"
  shows "unat (a - (b + n)) = unat (a - b) - unat n"
proof -
  have "a - (b + n) = (a - b) - n" by simp
  also have "unat \<dots> = unat (a - b) - unat n"
    using assms by (intro unat_sub) (simp add: word_le_nat_alt)
  finally show ?thesis .
qed

lemma unat_ucast_small:
  fixes x :: "'a::len word"
  assumes "unat x < 2 ^ LENGTH('b)"
  shows "unat (ucast x :: 'b::len word) = unat x"
  using assms by (simp only: unsigned_ucast_eq) (simp add: take_bit_eq_mod)

lemma exp_pow2_test:
  fixes s :: "'a::len word"
  assumes "unat s = 2 ^ k"
  shows "s AND (s - 1) = 0"
proof -
  have "unat (s AND (s - 1)) = 0" using mask_is_mod [OF assms, of s] assms by simp
  then show ?thesis by (simp add: unat_eq_0)
qed

section \<open>Invariants of transition systems\<close>

text \<open>
  The contract between a component's start states, its steps and an invariant, with the one
  consequence every component uses: the invariant holds in each state that can be reached.
\<close>

locale invariant_system =
  fixes start :: "'s \<Rightarrow> bool" and step :: "'s \<Rightarrow> 's \<Rightarrow> bool" and inv :: "'s \<Rightarrow> bool"
  assumes start_inv: "start s \<Longrightarrow> inv s"
    and step_inv: "step s t \<Longrightarrow> inv s \<Longrightarrow> inv t"
begin

lemma steps_inv: "step\<^sup>*\<^sup>* s t \<Longrightarrow> inv s \<Longrightarrow> inv t"
  by (induction rule: rtranclp_induct) (auto intro: step_inv)

lemma reach_inv: "start s \<Longrightarrow> step\<^sup>*\<^sup>* s t \<Longrightarrow> inv t"
  by (blast intro: steps_inv start_inv)

end

end
