(* ===== verification/Kfifo.thy ===== *)
theory Kfifo
  imports Prelude
begin

text \<open>
  The kernel byte FIFO: \<^verbatim>\<open>kernel/kfifo.c\<close> and the inline functions of
  \<^verbatim>\<open>include/linux/kfifo.h\<close>. The two indices run freely over 32 bits and are reduced to a
  buffer offset by a mask, which is right because the size is a power of two. The spin lock is a
  no-op of the uniprocessor build and has no field here; the lock-free use the comments promise
  for one reader and one writer is the step relation \<open>spsc_step\<close>.
\<close>

section \<open>Bit search\<close>

text \<open>\<^verbatim>\<open>fls(int x)\<close>, which is \<^verbatim>\<open>generic_fls\<close> on x86-64: the position of the highest set bit.\<close>

definition fls_step :: "u32 \<Rightarrow> nat \<Rightarrow> u32 \<times> nat \<Rightarrow> u32 \<times> nat" where
  "fls_step m c xr =
     (case xr of (x, r) \<Rightarrow> if x AND m = 0 then (push_bit c x, r - c) else (x, r))"

definition generic_fls :: "u32 \<Rightarrow> nat" where
  "generic_fls x =
     (if x = 0 then 0
      else snd (fls_step 0x80000000 1 (fls_step 0xc0000000 2 (fls_step 0xf0000000 4
             (fls_step 0xff000000 8 (fls_step 0xffff0000 16 (x, 32)))))))"

text \<open>\<^verbatim>\<open>roundup_pow_of_two\<close>: the argument of \<^verbatim>\<open>fls\<close> is converted to \<^verbatim>\<open>int\<close>.\<close>

definition roundup_pow_of_two :: "ulong \<Rightarrow> ulong" where
  "roundup_pow_of_two x = push_bit (generic_fls (ucast (x - 1))) 1"

section \<open>The FIFO\<close>

record kfifo =
  kf_buffer :: "u8 list"
  kf_size :: u32
  kf_in :: u32
  kf_out :: u32

text \<open>
  What the code does to the allocator: the buffers and the \<^verbatim>\<open>struct kfifo\<close> objects that are
  live. The allocator itself is a parameter of the operations that call it.
\<close>

record kmem =
  live_buffers :: nat
  live_structs :: nat

definition kfifo_init :: "bool \<Rightarrow> u8 list \<Rightarrow> u32 \<Rightarrow> kmem \<Rightarrow> ((int + kfifo) \<times> kmem) option" where
  "kfifo_init struct_ok buf sz m = do {
     BUG_ON (sz AND (sz - 1) \<noteq> 0);
     if \<not> struct_ok then Some (Inl (- ENOMEM), m)
     else Some (Inr \<lparr>kf_buffer = buf, kf_size = sz, kf_in = 0, kf_out = 0\<rparr>,
                m\<lparr>live_structs := Suc (live_structs m)\<rparr>)
   }"

definition kfifo_alloc ::
  "(nat \<Rightarrow> u8 list option) \<Rightarrow> bool \<Rightarrow> u32 \<Rightarrow> kmem \<Rightarrow> ((int + kfifo) \<times> kmem) option" where
  "kfifo_alloc kmalloc struct_ok sz m = do {
     sz \<leftarrow> (if sz AND (sz - 1) \<noteq> 0
           then do { BUG_ON (sz > 0x80000000); Some (ucast (roundup_pow_of_two (ucast sz))) }
           else Some sz);
     (case kmalloc (unat sz) of
        None \<Rightarrow> Some (Inl (- ENOMEM), m)
      | Some buf \<Rightarrow> do {
          (ret, m) \<leftarrow> kfifo_init struct_ok buf sz (m\<lparr>live_buffers := Suc (live_buffers m)\<rparr>);
          (case ret of
             Inl e \<Rightarrow> Some (Inl e, m\<lparr>live_buffers := live_buffers m - 1\<rparr>)
           | Inr f \<Rightarrow> Some (Inr f, m))
        })
   }"

definition kfifo_free :: "kfifo \<Rightarrow> kmem \<Rightarrow> kmem" where
  "kfifo_free f m =
     m\<lparr>live_buffers := live_buffers m - 1, live_structs := live_structs m - 1\<rparr>"

text \<open>
  \<^verbatim>\<open>__kfifo_put\<close> first copies the data behind the write index, then moves the index. The
  copy, which is all that the other side cannot see yet, is a definition of its own.
\<close>

definition kfifo_put_copy :: "kfifo \<Rightarrow> u8 list \<Rightarrow> u32 \<Rightarrow> (u32 \<times> kfifo) option" where
  "kfifo_put_copy f b len0 =
     (let len = min len0 (kf_size f - kf_in f + kf_out f);
          l = min len (kf_size f - (kf_in f AND (kf_size f - 1)))
      in do {
        buf \<leftarrow> memcpy (kf_buffer f) (unat (kf_in f AND (kf_size f - 1))) b 0 (unat l);
        buf \<leftarrow> memcpy buf 0 b (unat l) (unat (len - l));
        Some (len, f\<lparr>kf_buffer := buf\<rparr>)
      })"

definition kfifo_put_nolock :: "kfifo \<Rightarrow> u8 list \<Rightarrow> u32 \<Rightarrow> (u32 \<times> kfifo) option" where
  "kfifo_put_nolock f b len0 = do {
     (len, f) \<leftarrow> kfifo_put_copy f b len0;
     Some (len, f\<lparr>kf_in := kf_in f + len\<rparr>)
   }"

text \<open>\<^verbatim>\<open>__kfifo_get\<close>: the destination array \<open>b\<close> is returned as the copies leave it.\<close>

definition kfifo_get_copy :: "kfifo \<Rightarrow> u8 list \<Rightarrow> u32 \<Rightarrow> (u32 \<times> u8 list) option" where
  "kfifo_get_copy f b len0 =
     (let len = min len0 (kf_in f - kf_out f);
          l = min len (kf_size f - (kf_out f AND (kf_size f - 1)))
      in do {
        b \<leftarrow> memcpy b 0 (kf_buffer f) (unat (kf_out f AND (kf_size f - 1))) (unat l);
        b \<leftarrow> memcpy b (unat l) (kf_buffer f) 0 (unat (len - l));
        Some (len, b)
      })"

definition kfifo_get_nolock :: "kfifo \<Rightarrow> u8 list \<Rightarrow> u32 \<Rightarrow> (u32 \<times> u8 list \<times> kfifo) option" where
  "kfifo_get_nolock f b len0 = do {
     (len, b) \<leftarrow> kfifo_get_copy f b len0;
     Some (len, b, f\<lparr>kf_out := kf_out f + len\<rparr>)
   }"

definition kfifo_reset_nolock :: "kfifo \<Rightarrow> kfifo" where
  "kfifo_reset_nolock f = f\<lparr>kf_in := 0, kf_out := 0\<rparr>"

definition kfifo_len_nolock :: "kfifo \<Rightarrow> u32" where
  "kfifo_len_nolock f = kf_in f - kf_out f"

text \<open>The locked entry points of the header file; taking the lock does nothing here.\<close>

definition kfifo_reset :: "kfifo \<Rightarrow> kfifo" where
  "kfifo_reset f = kfifo_reset_nolock f"

definition kfifo_put :: "kfifo \<Rightarrow> u8 list \<Rightarrow> u32 \<Rightarrow> (u32 \<times> kfifo) option" where
  "kfifo_put f b len = kfifo_put_nolock f b len"

definition kfifo_get :: "kfifo \<Rightarrow> u8 list \<Rightarrow> u32 \<Rightarrow> (u32 \<times> u8 list \<times> kfifo) option" where
  "kfifo_get f b len = do {
     (ret, b, f) \<leftarrow> kfifo_get_nolock f b len;
     Some (ret, b, if kf_in f = kf_out f then f\<lparr>kf_in := 0, kf_out := 0\<rparr> else f)
   }"

definition kfifo_len :: "kfifo \<Rightarrow> u32" where
  "kfifo_len f = kfifo_len_nolock f"

section \<open>Invariant and abstraction\<close>

definition kfifo_inv :: "kfifo \<Rightarrow> bool" where
  "kfifo_inv f \<longleftrightarrow>
     length (kf_buffer f) = unat (kf_size f) \<and>
     kf_size f AND (kf_size f - 1) = 0 \<and>
     kf_in f - kf_out f \<le> kf_size f \<and>
     (kf_size f = 0 \<longrightarrow> kf_in f = 0 \<and> kf_out f = 0)"

definition contents :: "kfifo \<Rightarrow> u8 list" where
  "contents f =
     map (\<lambda>i. kf_buffer f ! ((unat (kf_out f) + i) mod unat (kf_size f)))
         [0..<unat (kf_in f - kf_out f)]"

lemma length_contents [simp]: "length (contents f) = unat (kf_in f - kf_out f)"
  by (simp add: contents_def)

section \<open>Highest set bit\<close>

lemma and_top_bits_0:
  fixes x :: u32
  assumes "c < 32" and "m = NOT (mask (32 - c))"
  shows "x AND m = 0 \<longleftrightarrow> unat x < 2 ^ (32 - c)"
proof -
  have "x AND m = 0 \<longleftrightarrow> x = take_bit (32 - c) x"
    using assms(2)
    by (auto simp: bit_eq_iff bit_simps)
  also have "\<dots> \<longleftrightarrow> unat x = unat x mod 2 ^ (32 - c)"
    by (simp only: word_unat_eq_iff unsigned_take_bit_eq take_bit_eq_mod [of _ "unat x"])
  also have "\<dots> \<longleftrightarrow> unat x < 2 ^ (32 - c)"
    by (metis mod_less mod_less_divisor zero_less_numeral zero_less_power)
  finally show ?thesis .
qed

text \<open>
  One halving step: the value stays the original one shifted left by \<open>32 - r\<close>, and its
  lower bound moves up to the next test.
\<close>

lemma fls_step_inv:
  assumes step: "fls_step m c (x, r) = (x', r')"
    and m: "m = NOT (mask (32 - c))" and c: "c < 32" "c \<le> r" "r \<le> 32"
    and val: "unat x = X * 2 ^ (32 - r)" and low: "2 ^ (32 - 2 * c) \<le> unat x" "2 * c \<le> 32"
  shows "unat x' = X * 2 ^ (32 - r') \<and> 2 ^ (32 - c) \<le> unat x' \<and> r' \<le> r \<and> r - c \<le> r'"
proof (cases "x AND m = 0")
  case True
  then have lt: "unat x < 2 ^ (32 - c)" using and_top_bits_0 [OF c(1) m] by simp
  have "unat x * 2 ^ c < 2 ^ (32 - c) * 2 ^ c" using lt by simp
  also have "\<dots> = 2 ^ 32" using c(1) by (simp flip: power_add)
  finally have b: "unat x * 2 ^ c < 2 ^ 32" .
  have x': "x' = push_bit c x" and r': "r' = r - c"
    using step True by (auto simp: fls_step_def)
  have "unat x' = unat x * 2 ^ c"
    using b by (simp only: x' unsigned_push_bit_eq) (simp add: push_bit_eq_mult take_bit_eq_mod)
  moreover have "2 ^ (32 - c) \<le> unat x * 2 ^ c"
  proof -
    have "2 ^ (32 - c) = 2 ^ (32 - 2 * c) * (2::nat) ^ c"
      using low(2) by (simp flip: power_add)
    then show ?thesis using mult_le_mono1 [OF low(1), of "2 ^ c"] by simp
  qed
  moreover have "X * 2 ^ (32 - r) * 2 ^ c = X * 2 ^ (32 - r')"
    using r' c by (simp flip: power_add)
  ultimately show ?thesis using val r' by simp
next
  case False
  then have "2 ^ (32 - c) \<le> unat x" using and_top_bits_0 [OF c(1) m] by simp
  with False step val show ?thesis by (auto simp: fls_step_def)
qed

lemma generic_fls_bounds:
  assumes "x \<noteq> 0"
  shows "2 ^ (generic_fls x - 1) \<le> unat x \<and> unat x < 2 ^ generic_fls x \<and>
         1 \<le> generic_fls x \<and> generic_fls x \<le> 32"
proof -
  obtain x1 r1 where s1: "fls_step 0xffff0000 16 (x, 32) = (x1, r1)" by fastforce
  obtain x2 r2 where s2: "fls_step 0xff000000 8 (x1, r1) = (x2, r2)" by fastforce
  obtain x3 r3 where s3: "fls_step 0xf0000000 4 (x2, r2) = (x3, r3)" by fastforce
  obtain x4 r4 where s4: "fls_step 0xc0000000 2 (x3, r3) = (x4, r4)" by fastforce
  obtain x5 r5 where s5: "fls_step 0x80000000 1 (x4, r4) = (x5, r5)" by fastforce
  have r: "generic_fls x = r5"
    using assms by (simp add: generic_fls_def s1 s2 s3 s4 s5 del: One_nat_def)
  have p: "2 ^ (32 - 2 * 16) \<le> unat x" using assms by (simp add: unat_gt_0 Suc_le_eq)
  have m: "0xffff0000 = NOT (mask (32 - 16) :: u32)" "0xff000000 = NOT (mask (32 - 8) :: u32)"
    "0xf0000000 = NOT (mask (32 - 4) :: u32)" "0xc0000000 = NOT (mask (32 - 2) :: u32)"
    "0x80000000 = NOT (mask (32 - 1) :: u32)"
    by (simp_all add: mask_eq_exp_minus_1)
  note i1 = fls_step_inv [OF s1 m(1), of "unat x", simplified]
  note i2 = fls_step_inv [OF s2 m(2), of "unat x", simplified]
  note i3 = fls_step_inv [OF s3 m(3), of "unat x", simplified]
  note i4 = fls_step_inv [OF s4 m(4), of "unat x", simplified]
  note i5 = fls_step_inv [OF s5 m(5), of "unat x", simplified]
  from i1 p have a1: "unat x1 = unat x * 2 ^ (32 - r1)" "65536 \<le> unat x1" "r1 \<le> 32" "16 \<le> r1"
    by auto
  from i2 a1 have a2: "unat x2 = unat x * 2 ^ (32 - r2)" "16777216 \<le> unat x2" "r2 \<le> 32" "8 \<le> r2"
    by auto
  from i3 a2 have a3: "unat x3 = unat x * 2 ^ (32 - r3)" "268435456 \<le> unat x3" "r3 \<le> 32" "4 \<le> r3"
    by auto
  from i4 a3 have a4: "unat x4 = unat x * 2 ^ (32 - r4)" "1073741824 \<le> unat x4" "r4 \<le> 32" "2 \<le> r4"
    by auto
  from i5 a4 have a5: "unat x5 = unat x * 2 ^ (32 - r5)" "2147483648 \<le> unat x5" "r5 \<le> 32" "1 \<le> r5"
    by auto
  have lo: "(2::nat) ^ (r5 - 1) * 2 ^ (32 - r5) = 2147483648"
    and hi: "(2::nat) ^ r5 * 2 ^ (32 - r5) = 2 ^ 32"
    using a5 by (simp_all flip: power_add)
  have "2 ^ (r5 - 1) * 2 ^ (32 - r5) \<le> unat x * 2 ^ (32 - r5)"
    using a5 lo by simp
  moreover have "unat x * 2 ^ (32 - r5) < 2 ^ r5 * 2 ^ (32 - r5)"
    using a5(1) hi unat_bound [of x5] by simp
  ultimately show ?thesis using r a5 by simp
qed

lemma roundup_pow_of_two_least:
  assumes "1 < x" "x \<le> 0x80000000"
  obtains k where "k \<le> 31" "unat (roundup_pow_of_two x) = 2 ^ k"
    "2 ^ (k - 1) < unat x" "unat x \<le> 2 ^ k"
proof -
  let ?y = "ucast (x - 1) :: u32"
  have ux: "1 < unat x" "unat x \<le> 2147483648"
    using assms by (simp_all add: word_less_nat_alt word_le_nat_alt)
  have "unat (x - 1) = unat x - 1"
    using ux by (metis unat_minus_one less_zeroE unsigned_0)
  then have uy: "unat ?y = unat x - 1"
    using ux by (simp only: unsigned_ucast_eq) (simp add: take_bit_eq_mod)
  then have "?y \<noteq> 0" using ux by auto
  note b = generic_fls_bounds [OF this]
  have "(2::nat) ^ (generic_fls ?y - 1) < 2 ^ 31"
  proof -
    have "2 ^ (generic_fls ?y - 1) \<le> unat x - 1" using b uy by simp
    also have "\<dots> < 2 ^ 31" using ux by simp
    finally show ?thesis .
  qed
  then have "generic_fls ?y - 1 < 31" by (rule power_less_imp_less_exp [rotated]) simp
  then have k: "generic_fls ?y \<le> 31" by simp
  show thesis
  proof (rule that [OF k])
    show "unat (roundup_pow_of_two x) = 2 ^ generic_fls ?y"
      using k by (simp add: roundup_pow_of_two_def unat_exp)
  qed (use b uy ux in auto)
qed

section \<open>Ring arithmetic\<close>

text \<open>The invariant in terms of natural numbers, for a buffer that is not empty.\<close>

lemma kfifo_invE:
  assumes "kfifo_inv f"
  obtains (zero) "kf_size f = 0" "kf_in f = 0" "kf_out f = 0" "kf_buffer f = []"
    | (ring) k where "unat (kf_size f) = 2 ^ k" "k < 32" "length (kf_buffer f) = 2 ^ k"
        "unat (kf_in f - kf_out f) \<le> 2 ^ k"
proof (cases "kf_size f = 0")
  case True
  then show thesis using assms by (intro zero) (auto simp: kfifo_inv_def)
next
  case False
  then obtain k where k: "unat (kf_size f) = 2 ^ k"
    using assms word_pow2_test [of "kf_size f"] by (auto simp: kfifo_inv_def)
  moreover have "(2::nat) ^ k < 2 ^ 32" using k unat_bound [of "kf_size f"] by simp
  then have "k < 32" by (rule power_less_imp_less_exp [rotated]) simp
  ultimately show thesis using assms
    by (intro ring [of k]) (auto simp: kfifo_inv_def word_le_nat_alt)
qed

lemma ring_index:
  fixes i o' :: u32
  assumes "k < 32"
  shows "(unat o' + unat (i - o')) mod 2 ^ k = unat i mod 2 ^ k"
proof -
  have dvd: "(2::nat) ^ k dvd 2 ^ 32" using assms by (intro le_imp_power_dvd) simp
  have "unat i = unat (o' + (i - o'))" by simp
  also have "\<dots> = (unat o' + unat (i - o')) mod 2 ^ 32"
    by (subst unat_word_ariths(1)) simp
  finally show ?thesis using dvd by (simp add: mod_mod_cancel)
qed

lemma mod_ring_split:
  fixes a t s :: nat
  assumes "t < s"
  shows "(a + t) mod s = (if a mod s + t < s then a mod s + t else a mod s + t - s)"
proof -
  have "(a + t) mod s = (a mod s + t) mod s" by (simp add: mod_add_left_eq)
  moreover have "(a mod s + t - s) mod s = a mod s + t - s"
  proof (rule mod_less)
    have "a mod s < s" using assms by simp
    then show "a mod s + t - s < s" using assms by linarith
  qed
  ultimately show ?thesis by (simp add: le_mod_geq)
qed

lemma mod_ring_inj:
  fixes a t u s :: nat
  assumes "t < s" "u < s" "(a + t) mod s = (a + u) mod s"
  shows "t = u"
  using assms mod_ring_split [of t s a] mod_ring_split [of u s a]
  by (simp split: if_splits)

text \<open>
  The two copies of a put, seen through the ring: byte \<open>t\<close> of the source goes to ring
  position \<open>a + t\<close> and every other position keeps its byte.
\<close>

lemma ring_write:
  assumes len: "length buf = s" "n \<le> s" "n \<le> length b"
    and l: "l = min n (s - a mod s)" and s: "0 < s"
  shows "\<exists>buf1 buf2. memcpy buf (a mod s) b 0 l = Some buf1 \<and> memcpy buf1 0 b l (n - l) = Some buf2 \<and>
           length buf2 = s \<and>
           (\<forall>t. t < s \<longrightarrow> buf2 ! ((a + t) mod s) = (if t < n then b ! t else buf ! ((a + t) mod s)))"
proof -
  have am: "a mod s < s" using s by simp
  have ln: "l \<le> n" "a mod s + l \<le> s" "n - l \<le> s" using l am len(2) by auto
  obtain buf1 where m1: "memcpy buf (a mod s) b 0 l = Some buf1"
    using memcpy_ex [of "a mod s" l buf 0 b] len ln by auto
  have l1: "length buf1 = s" using memcpy_length [OF m1] len by simp
  obtain buf2 where m2: "memcpy buf1 0 b l (n - l) = Some buf2"
    using memcpy_ex [of 0 "n - l" buf1 l b] len ln l1 by auto
  have l2: "length buf2 = s" using memcpy_length [OF m2] l1 by simp
  have "buf2 ! ((a + t) mod s) = (if t < n then b ! t else buf ! ((a + t) mod s))" if "t < s" for t
  proof -
    let ?j = "(a + t) mod s"
    have j: "?j < s" using s by simp
    have "buf2 ! ?j = (if ?j < n - l then b ! (l + ?j) else buf1 ! ?j)"
      using memcpy_nth [OF m2, of ?j] j l1 by simp
    moreover have "buf1 ! ?j = (if a mod s \<le> ?j \<and> ?j < a mod s + l then b ! (?j - a mod s) else buf ! ?j)"
      using memcpy_nth [OF m1, of ?j] j len by simp
    ultimately have r: "buf2 ! ?j = (if ?j < n - l then b ! (l + ?j)
        else if a mod s \<le> ?j \<and> ?j < a mod s + l then b ! (?j - a mod s) else buf ! ?j)"
      by simp
    show ?thesis
    proof (cases "a mod s + t < s")
      case True
      then have e: "?j = a mod s + t" using mod_ring_split [OF that, of a] by simp
      have "\<not> ?j < n - l" "t < l \<longleftrightarrow> t < n" using e l len(2) True by linarith+
      moreover have "a mod s \<le> ?j \<and> ?j < a mod s + l \<longleftrightarrow> t < l" "?j - a mod s = t" using e by auto
      ultimately show ?thesis using r by metis
    next
      case False
      then have e: "?j = a mod s + t - s" using mod_ring_split [OF that, of a] by simp
      have ns: "\<not> a mod s \<le> ?j" using e that False by linarith
      show ?thesis
      proof (cases "t < n")
        case True
        then have "l = s - a mod s" using l False by linarith
        then have "?j < n - l" "l + ?j = t" using e True False am by linarith+
        then show ?thesis using r True by simp
      next
        case nt: False
        then have "\<not> ?j < n - l" using e l False by linarith
        then show ?thesis using r nt ns by simp
      qed
    qed
  qed
  with m1 m2 l2 show ?thesis by blast
qed

lemma ring_read:
  assumes len: "length buf = s" "n \<le> s" "n \<le> length b"
    and l: "l = min n (s - a mod s)" and s: "0 < s"
  shows "\<exists>b1 b2. memcpy b 0 buf (a mod s) l = Some b1 \<and> memcpy b1 l buf 0 (n - l) = Some b2 \<and>
           b2 = map (\<lambda>t. buf ! ((a + t) mod s)) [0..<n] @ drop n b"
proof -
  have am: "a mod s < s" using s by simp
  have ln: "l \<le> n" "a mod s + l \<le> s" "n - l \<le> s" using l am len(2) by auto
  obtain b1 where m1: "memcpy b 0 buf (a mod s) l = Some b1"
    using memcpy_ex [of 0 l b "a mod s" buf] len ln by auto
  have l1: "length b1 = length b" by (rule memcpy_length [OF m1])
  obtain b2 where m2: "memcpy b1 l buf 0 (n - l) = Some b2"
    using memcpy_ex [of l "n - l" b1 0 buf] len ln l1 by auto
  have l2: "length b2 = length b" using memcpy_length [OF m2] l1 by simp
  have "b2 = map (\<lambda>t. buf ! ((a + t) mod s)) [0..<n] @ drop n b"
  proof (rule nth_equalityI)
    fix i assume i: "i < length b2"
    have "b2 ! i = (if l \<le> i \<and> i < n then buf ! (i - l) else b1 ! i)"
      using memcpy_nth [OF m2, of i] i l1 l2 ln by simp
    moreover have "b1 ! i = (if i < l then buf ! (a mod s + i) else b ! i)"
      using memcpy_nth [OF m1, of i] i l2 by simp
    moreover have "(a + i) mod s = (if i < l then a mod s + i else i - l)" if "i < n"
    proof -
      have "i < s" using that len by simp
      then show ?thesis using mod_ring_split [of i s a] that l am by auto
    qed
    ultimately show "b2 ! i = (map (\<lambda>t. buf ! ((a + t) mod s)) [0..<n] @ drop n b) ! i"
      using len(3) ln(1) by (auto simp: nth_append)
  qed (use l2 len in simp)
  with m1 m2 show ?thesis by blast
qed

section \<open>Put and get\<close>

text \<open>The free space and the split point of a put, without wrap-around.\<close>

lemma put_space:
  assumes "kfifo_inv f"
  shows "unat (kf_size f - kf_in f + kf_out f) = unat (kf_size f) - length (contents f)"
proof -
  have "kf_size f - kf_in f + kf_out f = kf_size f - (kf_in f - kf_out f)" by simp
  also have "unat \<dots> = unat (kf_size f) - unat (kf_in f - kf_out f)"
    using assms by (intro unat_sub) (simp add: kfifo_inv_def)
  finally show ?thesis by simp
qed

lemma ring_split_point:
  fixes n :: u32
  assumes "unat (kf_size f) = 2 ^ k"
  shows "unat (min n (kf_size f - (x AND (kf_size f - 1)))) =
         min (unat n) (2 ^ k - unat x mod 2 ^ k)"
proof -
  have m: "unat (x AND (kf_size f - 1)) = unat x mod 2 ^ k"
    using assms by (rule mask_is_mod)
  have "unat x mod 2 ^ k < 2 ^ k" by simp
  then have "x AND (kf_size f - 1) \<le> kf_size f"
    using m assms by (simp add: word_le_nat_alt)
  then show ?thesis
    using m assms by (simp add: unat_sub word_le_nat_alt min_def)
qed

text \<open>
  What the copy phase of a put establishes: nothing of the queue changes, and the bytes that
  will be published stand behind the write index.
\<close>

definition staged :: "kfifo \<Rightarrow> u8 list \<Rightarrow> bool" where
  "staged f d \<longleftrightarrow> length d \<le> unat (kf_size f) - length (contents f) \<and>
     (\<forall>t < length d. kf_buffer f ! ((unat (kf_in f) + t) mod unat (kf_size f)) = d ! t)"

text \<open>
  Ring position of queue element \<open>q\<close>, counted from the write index: the queued bytes are
  the last ones a writer would reach.
\<close>

lemma queue_position:
  assumes "k < 32" and "q < unat (kf_in f - kf_out f)" and "unat (kf_in f - kf_out f) \<le> 2 ^ k"
  shows "(unat (kf_out f) + q) mod 2 ^ k =
         (unat (kf_in f) + (q + 2 ^ k - unat (kf_in f - kf_out f))) mod 2 ^ k"
proof -
  let ?c = "unat (kf_in f - kf_out f)"
  have "(unat (kf_in f) + (q + 2 ^ k - ?c)) mod 2 ^ k
      = ((unat (kf_out f) + ?c) mod 2 ^ k + (q + 2 ^ k - ?c)) mod 2 ^ k"
    by (metis ring_index [OF assms(1)] mod_add_left_eq)
  also have "\<dots> = (unat (kf_out f) + ?c + (q + 2 ^ k - ?c)) mod 2 ^ k"
    by (simp add: mod_add_left_eq)
  also have "unat (kf_out f) + ?c + (q + 2 ^ k - ?c) = unat (kf_out f) + q + 2 ^ k"
    using assms by simp
  finally show ?thesis by simp
qed

lemma put_copy:
  assumes inv: "kfifo_inv f" and len: "unat len0 \<le> length b"
  obtains n f' where "kfifo_put_copy f b len0 = Some (n, f')"
    "unat n = min (unat len0) (unat (kf_size f) - length (contents f))"
    "kf_size f' = kf_size f" "kf_in f' = kf_in f" "kf_out f' = kf_out f"
    "kfifo_inv f'" "contents f' = contents f" "staged f' (take (unat n) b)"
  using inv
proof (cases rule: kfifo_invE)
  case zero
  then show thesis
    using inv by (intro that [of 0 f]) (auto simp: kfifo_put_copy_def memcpy_def staged_def)
next
  case (ring k)
  let ?s = "2 ^ k :: nat" and ?c = "unat (kf_in f - kf_out f)"
  let ?n = "min len0 (kf_size f - kf_in f + kf_out f)"
  let ?l = "min ?n (kf_size f - (kf_in f AND (kf_size f - 1)))"
  have n: "unat ?n = min (unat len0) (?s - ?c)"
    using put_space [OF inv] ring by (simp add: word_le_nat_alt min_def)
  have l: "unat ?l = min (unat ?n) (?s - unat (kf_in f) mod ?s)"
    using ring(1) by (rule ring_split_point)
  have m: "unat (kf_in f AND (kf_size f - 1)) = unat (kf_in f) mod ?s"
    using ring(1) by (rule mask_is_mod)
  have nl: "unat (?n - ?l) = unat ?n - unat ?l" by (intro unat_sub min.cobounded1)
  have pos: "0 < ?s" by simp
  have ns: "unat ?n \<le> ?s" "unat ?n \<le> length b" using n len by auto
  obtain buf1 buf2 where w: "memcpy (kf_buffer f) (unat (kf_in f) mod ?s) b 0 (unat ?l) = Some buf1"
      "memcpy buf1 0 b (unat ?l) (unat ?n - unat ?l) = Some buf2" "length buf2 = ?s"
      "\<And>t. t < ?s \<Longrightarrow> buf2 ! ((unat (kf_in f) + t) mod ?s) =
          (if t < unat ?n then b ! t else kf_buffer f ! ((unat (kf_in f) + t) mod ?s))"
    using ring_write [OF ring(3) ns l pos] by blast
  let ?f = "f\<lparr>kf_buffer := buf2\<rparr>"
  have "kfifo_put_copy f b len0 = Some (?n, ?f)"
    using w(1,2) by (simp add: kfifo_put_copy_def Let_def m nl)
  moreover have "contents ?f = contents f"
  proof (rule nth_equalityI)
    fix q assume "q < length (contents ?f)"
    then have q: "q < ?c" by simp
    have "buf2 ! ((unat (kf_out f) + q) mod ?s) = kf_buffer f ! ((unat (kf_out f) + q) mod ?s)"
    proof -
      have "q + ?s - ?c < ?s" "\<not> q + ?s - ?c < unat ?n" using q n ring(4) by linarith+
      then show ?thesis
        unfolding queue_position [OF ring(2) q ring(4)] using w(4) [of "q + ?s - ?c"] by presburger
    qed
    then show "contents ?f ! q = contents f ! q" using q ring(1) by (simp add: contents_def)
  qed simp
  moreover have "staged ?f (take (unat ?n) b)"
    using w(4) n len ring by (auto simp: staged_def)
  moreover have "kfifo_inv ?f" using inv w(3) ring by (simp add: kfifo_inv_def)
  ultimately show thesis using n ring by (intro that [of ?n ?f]) simp_all
qed

text \<open>Publishing staged bytes appends them to the queue.\<close>

lemma publish:
  assumes inv: "kfifo_inv f" and st: "staged f d" and n: "unat n = length d"
  shows "kfifo_inv (f\<lparr>kf_in := kf_in f + n\<rparr>) \<and> contents (f\<lparr>kf_in := kf_in f + n\<rparr>) = contents f @ d"
  using inv
proof (cases rule: kfifo_invE)
  case zero
  then have "d = []" "n = 0" using st n by (auto simp: staged_def unat_eq_0)
  then show ?thesis using inv by simp
next
  case (ring k)
  let ?s = "2 ^ k :: nat" and ?c = "unat (kf_in f - kf_out f)" and ?f = "f\<lparr>kf_in := kf_in f + n\<rparr>"
  have "length d \<le> ?s - ?c" using st ring by (simp add: staged_def)
  then have d: "?c + length d \<le> ?s" using ring(4) by linarith
  have "?s < 2 ^ 32" using ring(2) by (intro power_strict_increasing) simp_all
  then have c': "unat (kf_in f + n - kf_out f) = ?c + length d"
    using d n by (intro unat_sub_add_cancel [THEN trans]) simp_all
  have "contents ?f = contents f @ d"
  proof (rule nth_equalityI)
    fix q assume "q < length (contents ?f)"
    then have q: "q < ?c + length d" using c' by simp
    show "contents ?f ! q = (contents f @ d) ! q"
    proof (cases "q < ?c")
      case True
      then show ?thesis using q c' by (simp add: contents_def nth_append)
    next
      case False
      then obtain t where t: "q = ?c + t" "t < length d" using q by (metis add_diff_inverse_nat nat_add_left_cancel_less)
      have "(unat (kf_out f) + (?c + t)) mod ?s = (unat (kf_in f) + t) mod ?s"
        by (metis add.assoc mod_add_left_eq ring_index [OF ring(2)])
      then show ?thesis using t c' st ring(1) by (simp add: contents_def staged_def nth_append)
    qed
  qed (simp add: c')
  moreover have "kfifo_inv ?f"
    using inv c' d ring by (auto simp: kfifo_inv_def word_le_nat_alt)
  ultimately show ?thesis by simp
qed

lemma get_copy:
  assumes inv: "kfifo_inv f" and len: "unat len0 \<le> length b"
  obtains n where "kfifo_get_copy f b len0 = Some (n, take (unat n) (contents f) @ drop (unat n) b)"
    "unat n = min (unat len0) (length (contents f))"
  using inv
proof (cases rule: kfifo_invE)
  case zero
  then show thesis
    using inv by (intro that [of 0]) (auto simp: kfifo_get_copy_def memcpy_def)
next
  case (ring k)
  let ?s = "2 ^ k :: nat" and ?c = "unat (kf_in f - kf_out f)"
  let ?n = "min len0 (kf_in f - kf_out f)"
  let ?l = "min ?n (kf_size f - (kf_out f AND (kf_size f - 1)))"
  have n: "unat ?n = min (unat len0) ?c" by (simp add: word_le_nat_alt min_def)
  have l: "unat ?l = min (unat ?n) (?s - unat (kf_out f) mod ?s)"
    using ring(1) by (rule ring_split_point)
  have m: "unat (kf_out f AND (kf_size f - 1)) = unat (kf_out f) mod ?s"
    using ring(1) by (rule mask_is_mod)
  have nl: "unat (?n - ?l) = unat ?n - unat ?l" by (intro unat_sub min.cobounded1)
  have pos: "0 < ?s" by simp
  have ns: "unat ?n \<le> ?s" "unat ?n \<le> length b" using n len ring(4) by auto
  obtain b1 where r: "memcpy b 0 (kf_buffer f) (unat (kf_out f) mod ?s) (unat ?l) = Some b1"
      "memcpy b1 (unat ?l) (kf_buffer f) 0 (unat ?n - unat ?l) =
         Some (map (\<lambda>t. kf_buffer f ! ((unat (kf_out f) + t) mod ?s)) [0..<unat ?n] @ drop (unat ?n) b)"
    using ring_read [OF ring(3) ns l pos] by blast
  have "map (\<lambda>t. kf_buffer f ! ((unat (kf_out f) + t) mod ?s)) [0..<unat ?n] = take (unat ?n) (contents f)"
    using n ring(1) by (simp add: contents_def take_map)
  then have "kfifo_get_copy f b len0 = Some (?n, take (unat ?n) (contents f) @ drop (unat ?n) b)"
    using r by (simp add: kfifo_get_copy_def Let_def m nl)
  then show thesis using n by (intro that [of ?n]) simp_all
qed

lemma consume:
  assumes inv: "kfifo_inv f" and n: "unat n \<le> length (contents f)"
  shows "kfifo_inv (f\<lparr>kf_out := kf_out f + n\<rparr>) \<and>
         contents (f\<lparr>kf_out := kf_out f + n\<rparr>) = drop (unat n) (contents f)"
  using inv
proof (cases rule: kfifo_invE)
  case zero
  then have "n = 0" using n by (simp add: unat_eq_0)
  then show ?thesis using inv by simp
next
  case (ring k)
  let ?s = "2 ^ k :: nat" and ?f = "f\<lparr>kf_out := kf_out f + n\<rparr>"
  have c': "unat (kf_in f - (kf_out f + n)) = unat (kf_in f - kf_out f) - unat n"
    using n by (intro unat_sub_sub) simp
  have pos: "(unat (kf_out f + n) + t) mod ?s = (unat (kf_out f) + (unat n + t)) mod ?s" for t
  proof -
    have "unat (kf_out f + n) mod ?s = (unat (kf_out f) + unat n) mod ?s"
      using ring_index [OF ring(2), of "kf_out f" "kf_out f + n"] by simp
    then show ?thesis by (metis add.assoc mod_add_left_eq)
  qed
  have "contents ?f = drop (unat n) (contents f)"
  proof (rule nth_equalityI)
    fix i assume "i < length (contents ?f)"
    then have "unat n + i < unat (kf_in f - kf_out f)" using c' by simp
    then show "contents ?f ! i = drop (unat n) (contents f) ! i"
      using c' n ring(1) by (simp add: contents_def pos)
  qed (use c' in simp)
  moreover have "kfifo_inv ?f"
    using inv c' ring by (auto simp: kfifo_inv_def word_le_nat_alt)
  ultimately show ?thesis by simp
qed

section \<open>The queue interface\<close>

text \<open>
  What a client of a bounded byte queue relies on: a put appends as much as fits and says how
  much, a get takes from the front, and nothing else changes. Any sequence of calls then moves
  the bytes through in order, none lost, duplicated or changed.
\<close>

datatype 'b qop = QPut "'b list" | QGet nat

fun qrun :: "('q \<Rightarrow> 'b list \<Rightarrow> (nat \<times> 'q) option) \<Rightarrow> ('q \<Rightarrow> nat \<Rightarrow> ('b list \<times> 'q) option) \<Rightarrow>
    'q \<Rightarrow> 'b qop list \<Rightarrow> ('b list \<times> 'b list \<times> 'q) option" where
  "qrun put get q [] = Some ([], [], q)"
| "qrun put get q (QPut b # ops) = do {
     (n, q) \<leftarrow> put q b;
     (acc, rcv, q) \<leftarrow> qrun put get q ops;
     Some (take n b @ acc, rcv, q)
   }"
| "qrun put get q (QGet n # ops) = do {
     (d, q) \<leftarrow> get q n;
     (acc, rcv, q) \<leftarrow> qrun put get q ops;
     Some (acc, d @ rcv, q)
   }"

fun qop_len :: "'b qop \<Rightarrow> nat" where
  "qop_len (QPut b) = length b"
| "qop_len (QGet n) = n"

locale bounded_queue =
  fixes inv :: "'q \<Rightarrow> bool" and list :: "'q \<Rightarrow> 'b list" and cap :: "'q \<Rightarrow> nat" and maxlen :: nat
    and put :: "'q \<Rightarrow> 'b list \<Rightarrow> (nat \<times> 'q) option"
    and get :: "'q \<Rightarrow> nat \<Rightarrow> ('b list \<times> 'q) option"
  assumes put_ok: "inv q \<Longrightarrow> length b < maxlen \<Longrightarrow>
      \<exists>n q'. put q b = Some (n, q') \<and> n = min (length b) (cap q - length (list q)) \<and>
        list q' = list q @ take n b \<and> cap q' = cap q \<and> inv q'"
    and get_ok: "inv q \<Longrightarrow> n < maxlen \<Longrightarrow>
      \<exists>d q'. get q n = Some (d, q') \<and> d = take n (list q) \<and> list q' = drop n (list q) \<and>
        cap q' = cap q \<and> inv q'"
begin

lemma run_in_order:
  assumes "inv q" and "\<forall>x\<in>set ops. qop_len x < maxlen"
  shows "\<exists>acc rcv q'. qrun put get q ops = Some (acc, rcv, q') \<and>
           list q @ acc = rcv @ list q' \<and> inv q' \<and> cap q' = cap q"
  using assms
proof (induction ops arbitrary: q)
  case Nil
  then show ?case by simp
next
  case (Cons x ops)
  show ?case
  proof (cases x)
    case (QPut b)
    then obtain n q1 where p: "put q b = Some (n, q1)" "list q1 = list q @ take n b"
        "cap q1 = cap q" "inv q1"
      using put_ok [of q b] Cons.prems by auto
    with Cons.IH [of q1] Cons.prems show ?thesis by (auto simp: QPut)
  next
    case (QGet n)
    then obtain q1 where g: "get q n = Some (take n (list q), q1)" "list q1 = drop n (list q)"
        "cap q1 = cap q" "inv q1"
      using get_ok [of q n] Cons.prems by auto
    with Cons.IH [of q1] Cons.prems obtain acc rcv q' where
      "qrun put get q1 ops = Some (acc, rcv, q')" "drop n (list q) @ acc = rcv @ list q'"
      "inv q'" "cap q' = cap q" by auto
    with g show ?thesis by (auto simp: QGet) (metis append_assoc append_take_drop_id)
  qed
qed

end

text \<open>The calls a client makes, with the destination buffer of a get allocated by the client.\<close>

definition client_put :: "kfifo \<Rightarrow> u8 list \<Rightarrow> (nat \<times> kfifo) option" where
  "client_put f b = do { (n, f) \<leftarrow> kfifo_put f b (of_nat (length b)); Some (unat n, f) }"

definition client_get :: "kfifo \<Rightarrow> nat \<Rightarrow> (u8 list \<times> kfifo) option" where
  "client_get f n = do {
     (m, b, f) \<leftarrow> kfifo_get f (replicate n 0) (of_nat n);
     Some (take (unat m) b, f)
   }"

lemma put_nolock:
  assumes "kfifo_inv f" and "unat len0 \<le> length b"
  obtains n f' where "kfifo_put_nolock f b len0 = Some (n, f')"
    "unat n = min (unat len0) (unat (kf_size f) - length (contents f))"
    "contents f' = contents f @ take (unat n) b" "kf_size f' = kf_size f" "kfifo_inv f'"
proof -
  obtain n f1 where c: "kfifo_put_copy f b len0 = Some (n, f1)"
    "unat n = min (unat len0) (unat (kf_size f) - length (contents f))"
    "kf_size f1 = kf_size f" "kfifo_inv f1" "contents f1 = contents f" "staged f1 (take (unat n) b)"
    using put_copy [OF assms] .
  have "unat n = length (take (unat n) b)" using c(2) assms(2) by simp
  from publish [OF c(4,6) this] c show thesis
    by (intro that [of n "f1\<lparr>kf_in := kf_in f1 + n\<rparr>"]) (auto simp: kfifo_put_nolock_def)
qed

lemma get_nolock:
  assumes "kfifo_inv f" and "unat len0 \<le> length b"
  obtains n f' where
    "kfifo_get_nolock f b len0 = Some (n, take (unat n) (contents f) @ drop (unat n) b, f')"
    "unat n = min (unat len0) (length (contents f))"
    "contents f' = drop (unat n) (contents f)" "kf_size f' = kf_size f" "kfifo_inv f'"
proof -
  obtain n where c: "kfifo_get_copy f b len0 = Some (n, take (unat n) (contents f) @ drop (unat n) b)"
    "unat n = min (unat len0) (length (contents f))"
    using get_copy [OF assms] .
  have "unat n \<le> length (contents f)" using c(2) by simp
  from consume [OF assms(1) this] c show thesis
    by (intro that [of n "f\<lparr>kf_out := kf_out f + n\<rparr>"]) (auto simp: kfifo_get_nolock_def)
qed

text \<open>Resetting both indices of an empty queue leaves it the same queue.\<close>

lemma reset_empty:
  assumes "kfifo_inv f"
  shows "kfifo_inv (f\<lparr>kf_in := 0, kf_out := 0\<rparr>) \<and> contents (f\<lparr>kf_in := 0, kf_out := 0\<rparr>) = []"
proof
  have "length (kf_buffer f) = unat (kf_size f)" "kf_size f AND (kf_size f - 1) = 0"
    using assms by (simp_all only: kfifo_inv_def)
  then show "kfifo_inv (f\<lparr>kf_in := 0, kf_out := 0\<rparr>)"
    by (simp add: kfifo_inv_def)
qed (simp add: contents_def)

lemma get_locked:
  assumes "kfifo_inv f" and "unat len0 \<le> length b"
  obtains n f' where
    "kfifo_get f b len0 = Some (n, take (unat n) (contents f) @ drop (unat n) b, f')"
    "unat n = min (unat len0) (length (contents f))"
    "contents f' = drop (unat n) (contents f)" "kf_size f' = kf_size f" "kfifo_inv f'"
proof -
  obtain n f1 where g: "kfifo_get_nolock f b len0 = Some (n, take (unat n) (contents f) @ drop (unat n) b, f1)"
    "unat n = min (unat len0) (length (contents f))"
    "contents f1 = drop (unat n) (contents f)" "kf_size f1 = kf_size f" "kfifo_inv f1"
    using get_nolock [OF assms] .
  show thesis
  proof (cases "kf_in f1 = kf_out f1")
    case True
    then have "contents f1 = []" by (simp add: contents_def)
    with True g reset_empty [OF g(5)] show thesis
      by (intro that [of n "f1\<lparr>kf_in := 0, kf_out := 0\<rparr>"]) (auto simp: kfifo_get_def)
  next
    case False
    with g show thesis by (intro that [of n f1]) (auto simp: kfifo_get_def)
  qed
qed

interpretation kq: bounded_queue kfifo_inv contents "\<lambda>f. unat (kf_size f)" 4294967296 client_put client_get
proof
  fix f and b :: "u8 list" assume f: "kfifo_inv f" and b: "length b < 4294967296"
  have u: "unat (of_nat (length b) :: u32) = length b" using b by (simp add: unat_of_nat)
  obtain n f' where "kfifo_put_nolock f b (of_nat (length b)) = Some (n, f')"
      "unat n = min (length b) (unat (kf_size f) - length (contents f))"
      "contents f' = contents f @ take (unat n) b" "kf_size f' = kf_size f" "kfifo_inv f'"
    by (rule put_nolock [OF f, of "of_nat (length b)" b]) (use u in auto)
  then show "\<exists>n f'. client_put f b = Some (n, f') \<and> n = min (length b) (unat (kf_size f) - length (contents f)) \<and>
      contents f' = contents f @ take n b \<and> unat (kf_size f') = unat (kf_size f) \<and> kfifo_inv f'"
    by (simp add: client_put_def kfifo_put_def)
next
  fix f n assume f: "kfifo_inv f" and n: "n < (4294967296::nat)"
  have u: "unat (of_nat n :: u32) = n" using n by (simp add: unat_of_nat)
  obtain m f' where g: "kfifo_get f (replicate n 0) (of_nat n) =
        Some (m, take (unat m) (contents f) @ drop (unat m) (replicate n 0), f')"
      "unat m = min n (length (contents f))" "contents f' = drop (unat m) (contents f)"
      "kf_size f' = kf_size f" "kfifo_inv f'"
    by (rule get_locked [OF f, of "of_nat n" "replicate n 0"]) (use u in auto)
  have "take (unat m) (contents f) = take n (contents f)" "drop (unat m) (contents f) = drop n (contents f)"
    using g(2) by (auto simp: min_def)
  with g show "\<exists>d f'. client_get f n = Some (d, f') \<and> d = take n (contents f) \<and>
      contents f' = drop n (contents f) \<and> unat (kf_size f') = unat (kf_size f) \<and> kfifo_inv f'"
    by (auto simp: client_get_def)
qed

section \<open>One reader and one writer without a lock\<close>

text \<open>
  \<^verbatim>\<open>__kfifo_put\<close> and \<^verbatim>\<open>__kfifo_get\<close> used from two contexts at once. Each call is two
  steps: the copy, for which it reads the other side's index once, and the store to its own
  index. Between the two the other side may complete any number of steps. \<open>sent\<close> and
  \<open>rcvd\<close> record the bytes whose call has returned.
\<close>

datatype phase = Idle | Copied u32 "u8 list"

record spsc =
  sp_fifo :: kfifo
  writer :: phase
  reader :: phase
  sent :: "u8 list"
  rcvd :: "u8 list"

inductive spsc_step :: "spsc \<Rightarrow> spsc \<Rightarrow> bool" where
  write_copy: "writer s = Idle \<Longrightarrow> unat len0 \<le> length b \<Longrightarrow>
     kfifo_put_copy (sp_fifo s) b len0 = Some (n, f) \<Longrightarrow>
     spsc_step s (s\<lparr>sp_fifo := f, writer := Copied n (take (unat n) b)\<rparr>)"
| write_index: "writer s = Copied n d \<Longrightarrow>
     spsc_step s (s\<lparr>sp_fifo := (sp_fifo s)\<lparr>kf_in := kf_in (sp_fifo s) + n\<rparr>,
                    writer := Idle, sent := sent s @ d\<rparr>)"
| read_copy: "reader s = Idle \<Longrightarrow> unat len0 \<le> length b \<Longrightarrow>
     kfifo_get_copy (sp_fifo s) b len0 = Some (n, b') \<Longrightarrow>
     spsc_step s (s\<lparr>reader := Copied n (take (unat n) b')\<rparr>)"
| read_index: "reader s = Copied n d \<Longrightarrow>
     spsc_step s (s\<lparr>sp_fifo := (sp_fifo s)\<lparr>kf_out := kf_out (sp_fifo s) + n\<rparr>,
                    reader := Idle, rcvd := rcvd s @ d\<rparr>)"

definition spsc_start :: "kfifo \<Rightarrow> spsc" where
  "spsc_start f = \<lparr>sp_fifo = f, writer = Idle, reader = Idle, sent = contents f, rcvd = []\<rparr>"

definition spsc_inv :: "spsc \<Rightarrow> bool" where
  "spsc_inv s \<longleftrightarrow> kfifo_inv (sp_fifo s) \<and> sent s = rcvd s @ contents (sp_fifo s) \<and>
     (\<forall>n d. writer s = Copied n d \<longrightarrow> unat n = length d \<and> staged (sp_fifo s) d) \<and>
     (\<forall>n d. reader s = Copied n d \<longrightarrow> unat n = length d \<and> (\<exists>r. contents (sp_fifo s) = d @ r))"

lemma staged_consume:
  assumes inv: "kfifo_inv f" and st: "staged f d" and n: "unat n \<le> length (contents f)"
  shows "staged (f\<lparr>kf_out := kf_out f + n\<rparr>) d"
proof -
  have "length (contents (f\<lparr>kf_out := kf_out f + n\<rparr>)) \<le> length (contents f)"
    using consume [OF inv n] by simp
  then show ?thesis using st by (auto simp: staged_def simp del: length_contents)
qed

lemma spsc_step_inv: "spsc_step s t \<Longrightarrow> spsc_inv s \<Longrightarrow> spsc_inv t"
proof (induction rule: spsc_step.induct)
  case (write_copy s len0 b n f)
  then have i: "kfifo_inv (sp_fifo s)" by (simp add: spsc_inv_def)
  obtain n' f' where c: "kfifo_put_copy (sp_fifo s) b len0 = Some (n', f')"
    "unat n' = min (unat len0) (unat (kf_size (sp_fifo s)) - length (contents (sp_fifo s)))"
    "kfifo_inv f'" "contents f' = contents (sp_fifo s)" "staged f' (take (unat n') b)"
    by (rule put_copy [OF i write_copy.hyps(2)])
  with write_copy show ?case by (auto simp: spsc_inv_def)
next
  case (write_index s n d)
  then have "kfifo_inv (sp_fifo s)" "staged (sp_fifo s) d" "unat n = length d"
    by (auto simp: spsc_inv_def)
  note p = publish [OF this]
  with write_index show ?case
    unfolding spsc_inv_def by (simp del: length_contents) (metis append_assoc)
next
  case (read_copy s len0 b n b')
  then have i: "kfifo_inv (sp_fifo s)" by (simp add: spsc_inv_def)
  obtain n' where c: "kfifo_get_copy (sp_fifo s) b len0 =
      Some (n', take (unat n') (contents (sp_fifo s)) @ drop (unat n') b)"
    "unat n' = min (unat len0) (length (contents (sp_fifo s)))"
    by (rule get_copy [OF i read_copy.hyps(2)])
  then have n: "n' = n" "take (unat n) b' = take (unat n) (contents (sp_fifo s))"
    using read_copy.hyps(3) by auto
  have "length (take (unat n) b') = unat n" using n c(2) by simp
  moreover have "contents (sp_fifo s) = take (unat n) b' @ drop (unat n) (contents (sp_fifo s))"
    using n by simp
  ultimately show ?case using read_copy.prems unfolding spsc_inv_def by (simp del: length_contents) blast
next
  case (read_index s n d)
  then obtain r where i: "kfifo_inv (sp_fifo s)" and n: "unat n = length d"
    and d: "contents (sp_fifo s) = d @ r"
    by (auto simp: spsc_inv_def)
  have le: "unat n \<le> length (contents (sp_fifo s))" using n d by (simp del: length_contents)
  from consume [OF i le] n d
  have "kfifo_inv (sp_fifo s\<lparr>kf_out := kf_out (sp_fifo s) + n\<rparr>)"
    "contents (sp_fifo s\<lparr>kf_out := kf_out (sp_fifo s) + n\<rparr>) = r" by auto
  moreover note staged_consume [OF i _ le]
  ultimately show ?case using read_index d unfolding spsc_inv_def by (simp del: length_contents)
qed

interpretation spsc_sys: invariant_system
  "\<lambda>s. \<exists>f. kfifo_inv f \<and> s = spsc_start f" spsc_step spsc_inv
proof
  fix s assume "\<exists>f. kfifo_inv f \<and> s = spsc_start f"
  then show "spsc_inv s" by (auto simp: spsc_start_def spsc_inv_def)
qed (rule spsc_step_inv)

section \<open>Allocation\<close>

lemma alloc_size:
  assumes "sz \<le> 0x80000000"
  defines "sz' \<equiv> (if sz AND (sz - 1) \<noteq> 0 then ucast (roundup_pow_of_two (ucast sz)) else sz) :: u32"
  shows "sz' AND (sz' - 1) = 0 \<and> unat sz \<le> unat sz' \<and> (0 < sz \<longrightarrow> unat sz' < 2 * unat sz)"
proof (cases "sz AND (sz - 1) = 0")
  case True
  then show ?thesis by (simp add: sz'_def word_less_nat_alt)
next
  case False
  have "unat sz \<noteq> 0" "unat sz \<noteq> 1"
    using False exp_pow2_test [of sz 0] by (auto simp: unat_eq_0)
  then have sz: "1 < unat sz" "unat sz \<le> 2147483648"
    using assms(1) by (simp_all add: word_le_nat_alt)
  have u: "unat (ucast sz :: ulong) = unat sz" using sz by (intro unat_ucast_small) simp
  have "1 < (ucast sz :: ulong)" "(ucast sz :: ulong) \<le> 0x80000000"
    using sz u by (simp_all add: word_less_nat_alt word_le_nat_alt)
  then obtain k where k: "k \<le> 31" "unat (roundup_pow_of_two (ucast sz)) = 2 ^ k"
      "2 ^ (k - 1) < unat sz" "unat sz \<le> 2 ^ k"
    using u by (metis roundup_pow_of_two_least)
  have "(2::nat) ^ k < 2 ^ 32" using k(1) by (intro power_strict_increasing) simp_all
  then have s': "unat sz' = 2 ^ k" using False k(2) by (simp add: sz'_def unat_ucast_small)
  have "k \<noteq> 0" using k(4) sz by (intro notI) simp
  then have "(2::nat) ^ k = 2 * 2 ^ (k - 1)" by (cases k) simp_all
  then have "unat sz' < 2 * unat sz" "unat sz \<le> unat sz'" using k s' by simp_all
  with exp_pow2_test [OF s'] show ?thesis by simp
qed

section \<open>Properties\<close>

text \<open>
  C19: \<^verbatim>\<open>kfifo_put\<close> never copies outside a buffer, appends exactly the bytes that fit, in
  order, behind the bytes already queued, returns their number, and keeps the invariant, for
  every position of the free-running 32-bit indices.
\<close>

theorem kfifo_put_appends:
  assumes "kfifo_inv f" and "unat len \<le> length b"
  shows "\<exists>n f'. kfifo_put f b len = Some (n, f') \<and>
           unat n = min (unat len) (unat (kf_size f) - length (contents f)) \<and>
           contents f' = contents f @ take (unat n) b \<and> kfifo_inv f'"
proof -
  obtain n f' where "kfifo_put_nolock f b len = Some (n, f')"
    "unat n = min (unat len) (unat (kf_size f) - length (contents f))"
    "contents f' = contents f @ take (unat n) b" "kfifo_inv f'"
    by (rule put_nolock [OF assms])
  then show ?thesis unfolding kfifo_put_def by blast
qed

theorem kfifo_put_appends_witness:
  "let f = \<lparr>kf_buffer = [1, 2, 3, 4], kf_size = 4, kf_in = 1, kf_out = 0xffffffff\<rparr> in
     kfifo_inv f \<and> contents f = [4, 1] \<and>
     (\<exists>n f'. kfifo_put f [7, 8, 9] 3 = Some (n, f') \<and> contents f' = contents f @ take (unat n) [7, 8, 9])"
proof -
  let ?f = "\<lparr>kf_buffer = [1, 2, 3, 4], kf_size = 4, kf_in = 1, kf_out = 0xffffffff\<rparr> :: kfifo"
  have i: "kfifo_inv ?f" by (simp add: kfifo_inv_def)
  moreover have "contents ?f = [4, 1]" by (simp add: contents_def upt_rec)
  moreover have "unat (3 :: u32) \<le> length [7, 8, 9 :: u8]" by simp
  from kfifo_put_appends [OF i this] obtain n f' where "kfifo_put ?f [7, 8, 9] 3 = Some (n, f')"
    "contents f' = contents ?f @ take (unat n) [7, 8, 9]" by blast
  ultimately show ?thesis unfolding Let_def by blast
qed

text \<open>
  C8: Any sequence of \<^verbatim>\<open>kfifo_put\<close> and \<^verbatim>\<open>kfifo_get\<close> calls returns, and what was queued plus
  what the puts accepted is what the gets delivered plus what is still queued, in this order.
\<close>

theorem kfifo_calls_in_order:
  assumes "kfifo_inv f" and "\<forall>x\<in>set ops. qop_len x < 2 ^ 32"
  shows "\<exists>acc rcv f'. qrun client_put client_get f ops = Some (acc, rcv, f') \<and>
           contents f @ acc = rcv @ contents f' \<and> kfifo_inv f'"
proof -
  have "\<forall>x\<in>set ops. qop_len x < 4294967296" using assms(2) by simp
  from kq.run_in_order [OF assms(1) this] show ?thesis by blast
qed

theorem kfifo_calls_in_order_witness:
  "\<exists>acc rcv f'. qrun client_put client_get \<lparr>kf_buffer = [0, 0], kf_size = 2, kf_in = 0, kf_out = 0\<rparr>
       [QPut [5, 6, 7], QGet 1, QPut [8]] = Some (acc, rcv, f') \<and> acc = rcv @ contents f'"
proof -
  let ?f = "\<lparr>kf_buffer = [0, 0], kf_size = 2, kf_in = 0, kf_out = 0\<rparr> :: kfifo"
  have "kfifo_inv ?f" "contents ?f = []" by (simp_all add: kfifo_inv_def contents_def)
  moreover have "\<forall>x\<in>set [QPut [5, 6, 7], QGet 1, QPut [8 :: u8]]. qop_len x < 2 ^ 32" by simp
  ultimately show ?thesis using kfifo_calls_in_order [of ?f "[QPut [5, 6, 7], QGet 1, QPut [8]]"]
    by (metis append_Nil)
qed

text \<open>
  C18: With one reader and one writer no lock is needed: however their copy and index steps
  interleave, the bytes the reader has received are a prefix of the bytes the writer has sent,
  the rest being queued.
\<close>

theorem kfifo_lockless_spsc:
  assumes "kfifo_inv f" and "spsc_step\<^sup>*\<^sup>* (spsc_start f) s"
  shows "sent s = rcvd s @ contents (sp_fifo s) \<and> kfifo_inv (sp_fifo s)"
proof -
  have "spsc_inv s" using spsc_sys.reach_inv assms by blast
  then show ?thesis by (simp add: spsc_inv_def)
qed

theorem kfifo_lockless_spsc_witness:
  "let f = \<lparr>kf_buffer = [1, 2], kf_size = 2, kf_in = 1, kf_out = 0\<rparr>;
       s = (spsc_start f)\<lparr>reader := Copied 1 [1]\<rparr> in
     spsc_step\<^sup>*\<^sup>* (spsc_start f) s \<and> sent s = rcvd s @ contents (sp_fifo s)"
proof -
  let ?f = "\<lparr>kf_buffer = [1, 2], kf_size = 2, kf_in = 1, kf_out = 0\<rparr> :: kfifo"
  let ?s = "(spsc_start ?f)\<lparr>reader := Copied 1 [1]\<rparr>"
  have i: "kfifo_inv ?f" by (simp add: kfifo_inv_def)
  have "spsc_step (spsc_start ?f) ((spsc_start ?f)\<lparr>reader := Copied 1 (take (unat (1::u32)) [1])\<rparr>)"
    by (rule spsc_step.read_copy [of _ 1 "[0]"])
       (simp_all add: spsc_start_def kfifo_get_copy_def memcpy_def)
  then have r: "spsc_step\<^sup>*\<^sup>* (spsc_start ?f) ?s" by simp
  show ?thesis using r kfifo_lockless_spsc [OF i r] by (simp add: Let_def)
qed

text \<open>
  C20: \<^verbatim>\<open>kfifo_alloc\<close> of at most \<open>2^31\<close> bytes does not crash. It either fails with
  \<^verbatim>\<open>-ENOMEM\<close> and leaves the allocator as it was, or returns an empty well-formed queue whose
  capacity is the requested size rounded up to a power of two, less than twice the request.
\<close>

theorem kfifo_alloc_spec:
  assumes "\<And>n buf. kmalloc n = Some buf \<Longrightarrow> length buf = n" and "sz \<le> 0x80000000"
  shows "\<exists>r m'. kfifo_alloc kmalloc struct_ok sz m = Some (r, m') \<and>
           (case r of
              Inl e \<Rightarrow> e = - ENOMEM \<and> m' = m
            | Inr f \<Rightarrow> kfifo_inv f \<and> contents f = [] \<and> unat sz \<le> unat (kf_size f) \<and>
                (0 < sz \<longrightarrow> unat (kf_size f) < 2 * unat sz) \<and>
                m' = m\<lparr>live_buffers := Suc (live_buffers m), live_structs := Suc (live_structs m)\<rparr>)"
proof -
  define sz' :: u32 where
    "sz' = (if sz AND (sz - 1) \<noteq> 0 then ucast (roundup_pow_of_two (ucast sz)) else sz)"
  have sz': "sz' AND (sz' - 1) = 0" "unat sz \<le> unat sz'" "0 < sz \<longrightarrow> unat sz' < 2 * unat sz"
    using alloc_size [OF assms(2), folded sz'_def] by simp_all
  have eq: "(if sz AND (sz - 1) \<noteq> 0
             then do { BUG_ON (sz > 0x80000000); Some (ucast (roundup_pow_of_two (ucast sz))) }
             else Some sz) = Some sz'"
    using assms(2) by (auto simp: sz'_def)
  show ?thesis
  proof (cases "kmalloc (unat sz')")
    case None
    then show ?thesis unfolding kfifo_alloc_def eq by simp
  next
    case (Some buf)
    then have "length buf = unat sz'" by (rule assms(1))
    then have "kfifo_inv \<lparr>kf_buffer = buf, kf_size = sz', kf_in = 0, kf_out = 0\<rparr>"
      using sz'(1) by (simp add: kfifo_inv_def)
    with Some sz' show ?thesis
      unfolding kfifo_alloc_def eq
      by (cases struct_ok) (simp_all add: kfifo_init_def contents_def)
  qed
qed

theorem kfifo_alloc_spec_witness:
  "\<exists>r m'. kfifo_alloc (\<lambda>n. Some (replicate n 0)) True 3 \<lparr>live_buffers = 0, live_structs = 0\<rparr> =
            Some (r, m') \<and> (\<forall>f. r = Inr f \<longrightarrow> kfifo_inv f \<and> 3 \<le> unat (kf_size f))"
proof -
  let ?m = "\<lparr>live_buffers = 0, live_structs = 0\<rparr>"
  have k: "\<And>n buf. Some (replicate n (0::u8)) = Some buf \<Longrightarrow> length buf = n" by auto
  have le: "(3 :: u32) \<le> 0x80000000" by simp
  obtain r m' where r: "kfifo_alloc (\<lambda>n. Some (replicate n 0)) True 3 \<lparr>live_buffers = 0, live_structs = 0\<rparr> =
      Some (r, m')" and s: "case r of Inl e \<Rightarrow> e = - ENOMEM \<and> m' = \<lparr>live_buffers = 0, live_structs = 0\<rparr>
        | Inr f \<Rightarrow> kfifo_inv f \<and> contents f = [] \<and> unat (3 :: u32) \<le> unat (kf_size f) \<and>
            (0 < (3 :: u32) \<longrightarrow> unat (kf_size f) < 2 * unat (3 :: u32)) \<and>
            m' = ?m\<lparr>live_buffers := Suc (live_buffers ?m), live_structs := Suc (live_structs ?m)\<rparr>"
    using kfifo_alloc_spec [of "\<lambda>n. Some (replicate n 0)", OF k le, of True "\<lparr>live_buffers = 0, live_structs = 0\<rparr>"]
    by blast
  have "\<forall>f. r = Inr f \<longrightarrow> kfifo_inv f \<and> 3 \<le> unat (kf_size f)" using s by auto
  with r show ?thesis by blast
qed
end
