(* ===== verification/Rwsem.thy ===== *)
theory Rwsem
  imports Prelude
begin

text \<open>
  The reader/writer semaphore of \<^verbatim>\<open>lib/rwsem-spinlock.c\<close>, which is the one x86-64 uses
  (\<^verbatim>\<open>CONFIG_RWSEM_GENERIC_SPINLOCK\<close>). The first part models the functions of the file; each
  runs under \<^verbatim>\<open>sem->wait_lock\<close> and is one atomic update. The second part lets any number of
  tasks call them: a task that has to wait runs the loop at the end of \<^verbatim>\<open>__down_read\<close> and
  \<^verbatim>\<open>__down_write\<close> step by step, interleaved with all the others and with spurious wake-ups.
\<close>

section \<open>The semaphore\<close>

type_synonym task = nat

datatype task_state = TASK_RUNNING | TASK_UNINTERRUPTIBLE

text \<open>A \<^verbatim>\<open>struct rwsem_waiter\<close> lives on the stack of the task that waits and is named by it.\<close>

record rwsem_waiter =
  w_task :: "task option"
  w_flags :: u32

abbreviation (input) RWSEM_WAITING_FOR_READ :: u32 where "RWSEM_WAITING_FOR_READ \<equiv> 1"
abbreviation (input) RWSEM_WAITING_FOR_WRITE :: u32 where "RWSEM_WAITING_FOR_WRITE \<equiv> 2"

text \<open>
  \<^verbatim>\<open>struct rw_semaphore\<close> together with what its functions touch outside it: the waiters, the
  tasks' scheduling states and their reference counts. Overflow of the 32-bit signed
  \<^verbatim>\<open>activity\<close> is undefined in C; it counts tasks and is an integer here.
\<close>

record rw_semaphore =
  activity :: int
  wait_list :: "task list"
  waiter_of :: "task \<Rightarrow> rwsem_waiter"
  tstate :: "task \<Rightarrow> task_state"
  usage :: "task \<Rightarrow> int"

definition init_rwsem :: "rw_semaphore \<Rightarrow> rw_semaphore" where
  "init_rwsem s = s\<lparr>activity := 0, wait_list := []\<rparr>"

text \<open>\<^verbatim>\<open>get_task_struct\<close>, \<^verbatim>\<open>put_task_struct\<close>, \<^verbatim>\<open>set_task_state\<close> and what \<^verbatim>\<open>wake_up_process\<close> does to the state.\<close>

definition get_task_struct :: "task \<Rightarrow> rw_semaphore \<Rightarrow> rw_semaphore" where
  "get_task_struct t s = s\<lparr>usage := (usage s)(t := usage s t + 1)\<rparr>"

definition put_task_struct :: "task \<Rightarrow> rw_semaphore \<Rightarrow> rw_semaphore" where
  "put_task_struct t s = s\<lparr>usage := (usage s)(t := usage s t - 1)\<rparr>"

definition set_task_state :: "task \<Rightarrow> task_state \<Rightarrow> rw_semaphore \<Rightarrow> rw_semaphore" where
  "set_task_state t st s = s\<lparr>tstate := (tstate s)(t := st)\<rparr>"

text \<open>
  Handing the lock to one waiter: unlink it, clear its \<^verbatim>\<open>task\<close> field, wake the task, drop the
  reference. A waiter whose \<^verbatim>\<open>task\<close> is already NULL would be a crash in \<^verbatim>\<open>wake_up_process\<close>.
\<close>

definition grant_waiter :: "task \<Rightarrow> rw_semaphore \<Rightarrow> rw_semaphore option" where
  "grant_waiter w s =
     (let s = s\<lparr>wait_list := remove1 w (wait_list s)\<rparr> in
      case w_task (waiter_of s w) of
        None \<Rightarrow> None
      | Some tsk \<Rightarrow>
          (let s = s\<lparr>waiter_of := (waiter_of s)(w := (waiter_of s w)\<lparr>w_task := None\<rparr>)\<rparr>;
               s = set_task_state tsk TASK_RUNNING s
           in Some (put_task_struct tsk s)))"

text \<open>The loop of \<^verbatim>\<open>__rwsem_do_wake\<close> that grants read locks, with the number it has woken.\<close>

fun wake_readers :: "task list \<Rightarrow> rw_semaphore \<Rightarrow> (int \<times> rw_semaphore) option" where
  "wake_readers [] s = Some (0, s)"
| "wake_readers (w # ws) s =
     (if w_flags (waiter_of s w) AND RWSEM_WAITING_FOR_READ \<noteq> 0
      then do {
        s \<leftarrow> grant_waiter w s;
        (woken, s) \<leftarrow> wake_readers ws s;
        Some (woken + 1, s)
      }
      else Some (0, s))"

definition rwsem_do_wake :: "rw_semaphore \<Rightarrow> bool \<Rightarrow> rw_semaphore option" where
  "rwsem_do_wake s wakewrite =
     (case wait_list s of
        [] \<Rightarrow> None
      | waiter # rest \<Rightarrow>
          if \<not> wakewrite \<and> w_flags (waiter_of s waiter) AND RWSEM_WAITING_FOR_WRITE \<noteq> 0
          then Some s
          else if wakewrite \<and> w_flags (waiter_of s waiter) AND RWSEM_WAITING_FOR_WRITE \<noteq> 0
          then grant_waiter waiter (s\<lparr>activity := -1\<rparr>)
          else do {
            (woken, s) \<leftarrow> wake_readers (wait_list s) s;
            Some (s\<lparr>activity := activity s + woken\<rparr>)
          })"

definition rwsem_wake_one_writer :: "rw_semaphore \<Rightarrow> rw_semaphore option" where
  "rwsem_wake_one_writer s =
     (let s = s\<lparr>activity := -1\<rparr> in
      case wait_list s of [] \<Rightarrow> None | waiter # _ \<Rightarrow> grant_waiter waiter s)"

text \<open>
  \<^verbatim>\<open>__down_read\<close> and \<^verbatim>\<open>__down_write\<close> up to the waiting loop: \<open>True\<close> when the lock was granted
  at once. \<open>t\<close> is \<^verbatim>\<open>current\<close>.
\<close>

definition enqueue_waiter :: "task \<Rightarrow> u32 \<Rightarrow> rw_semaphore \<Rightarrow> rw_semaphore" where
  "enqueue_waiter t flags s =
     (let s = set_task_state t TASK_UNINTERRUPTIBLE s;
          s = s\<lparr>waiter_of := (waiter_of s)(t := \<lparr>w_task = Some t, w_flags = flags\<rparr>)\<rparr>;
          s = get_task_struct t s
      in s\<lparr>wait_list := wait_list s @ [t]\<rparr>)"

definition down_read_enter :: "task \<Rightarrow> rw_semaphore \<Rightarrow> bool \<times> rw_semaphore" where
  "down_read_enter t s =
     (if activity s \<ge> 0 \<and> wait_list s = []
      then (True, s\<lparr>activity := activity s + 1\<rparr>)
      else (False, enqueue_waiter t RWSEM_WAITING_FOR_READ s))"

definition down_read_trylock :: "rw_semaphore \<Rightarrow> int \<times> rw_semaphore" where
  "down_read_trylock s =
     (if activity s \<ge> 0 \<and> wait_list s = []
      then (1, s\<lparr>activity := activity s + 1\<rparr>)
      else (0, s))"

definition down_write_enter :: "task \<Rightarrow> rw_semaphore \<Rightarrow> bool \<times> rw_semaphore" where
  "down_write_enter t s =
     (if activity s = 0 \<and> wait_list s = []
      then (True, s\<lparr>activity := -1\<rparr>)
      else (False, enqueue_waiter t RWSEM_WAITING_FOR_WRITE s))"

definition down_write_trylock :: "rw_semaphore \<Rightarrow> int \<times> rw_semaphore" where
  "down_write_trylock s =
     (if activity s = 0 \<and> wait_list s = []
      then (1, s\<lparr>activity := -1\<rparr>)
      else (0, s))"

text \<open>
  The waiting loop \<^verbatim>\<open>for (;;)\<close>: the test of \<^verbatim>\<open>waiter.task\<close>, which ends it or calls
  \<^verbatim>\<open>schedule\<close>, and what follows when \<^verbatim>\<open>schedule\<close> returns.
\<close>

definition wait_check :: "task \<Rightarrow> rw_semaphore \<Rightarrow> bool \<times> rw_semaphore" where
  "wait_check t s =
     (if w_task (waiter_of s t) = None
      then (True, set_task_state t TASK_RUNNING s)
      else (False, s))"

definition wait_resume :: "task \<Rightarrow> rw_semaphore \<Rightarrow> rw_semaphore" where
  "wait_resume t s = set_task_state t TASK_UNINTERRUPTIBLE s"

definition up_read :: "rw_semaphore \<Rightarrow> rw_semaphore option" where
  "up_read s =
     (let s = s\<lparr>activity := activity s - 1\<rparr> in
      if activity s = 0 \<and> wait_list s \<noteq> [] then rwsem_wake_one_writer s else Some s)"

definition up_write :: "rw_semaphore \<Rightarrow> rw_semaphore option" where
  "up_write s =
     (let s = s\<lparr>activity := 0\<rparr> in
      if wait_list s \<noteq> [] then rwsem_do_wake s True else Some s)"

definition downgrade_write :: "rw_semaphore \<Rightarrow> rw_semaphore option" where
  "downgrade_write s =
     (let s = s\<lparr>activity := 1\<rparr> in
      if wait_list s \<noteq> [] then rwsem_do_wake s False else Some s)"

section \<open>Tasks that use the semaphore\<close>

text \<open>
  Where a task is: outside, holding the lock, or in the waiting loop, either about to test
  \<^verbatim>\<open>waiter.task\<close> or inside \<^verbatim>\<open>schedule\<close>.
\<close>

datatype mode = Rd | Wr

datatype pc = Out | Check mode | Sched mode | Hold mode

record rwsys = sem :: rw_semaphore  pcs :: "task \<Rightarrow> pc"

inductive rw_step :: "rwsys \<Rightarrow> rwsys \<Rightarrow> bool" where
  read_fast: "pcs s t = Out \<Longrightarrow> down_read_enter t (sem s) = (True, m) \<Longrightarrow>
     rw_step s \<lparr>sem = m, pcs = (pcs s)(t := Hold Rd)\<rparr>"
| read_slow: "pcs s t = Out \<Longrightarrow> down_read_enter t (sem s) = (False, m) \<Longrightarrow>
     rw_step s \<lparr>sem = m, pcs = (pcs s)(t := Check Rd)\<rparr>"
| read_try: "pcs s t = Out \<Longrightarrow> down_read_trylock (sem s) = (r, m) \<Longrightarrow>
     rw_step s \<lparr>sem = m, pcs = (pcs s)(t := if r = 1 then Hold Rd else Out)\<rparr>"
| write_fast: "pcs s t = Out \<Longrightarrow> down_write_enter t (sem s) = (True, m) \<Longrightarrow>
     rw_step s \<lparr>sem = m, pcs = (pcs s)(t := Hold Wr)\<rparr>"
| write_slow: "pcs s t = Out \<Longrightarrow> down_write_enter t (sem s) = (False, m) \<Longrightarrow>
     rw_step s \<lparr>sem = m, pcs = (pcs s)(t := Check Wr)\<rparr>"
| write_try: "pcs s t = Out \<Longrightarrow> down_write_trylock (sem s) = (r, m) \<Longrightarrow>
     rw_step s \<lparr>sem = m, pcs = (pcs s)(t := if r = 1 then Hold Wr else Out)\<rparr>"
| check: "pcs s t = Check md \<Longrightarrow> wait_check t (sem s) = (done', m) \<Longrightarrow>
     rw_step s \<lparr>sem = m, pcs = (pcs s)(t := if done' then Hold md else Sched md)\<rparr>"
| resume: "pcs s t = Sched md \<Longrightarrow> tstate (sem s) t = TASK_RUNNING \<Longrightarrow>
     rw_step s \<lparr>sem = wait_resume t (sem s), pcs = (pcs s)(t := Check md)\<rparr>"
| spurious: "pcs s t = Sched md \<Longrightarrow>
     rw_step s (s\<lparr>sem := set_task_state t TASK_RUNNING (sem s)\<rparr>)"
| release_read: "pcs s t = Hold Rd \<Longrightarrow> up_read (sem s) = Some m \<Longrightarrow>
     rw_step s \<lparr>sem = m, pcs = (pcs s)(t := Out)\<rparr>"
| release_write: "pcs s t = Hold Wr \<Longrightarrow> up_write (sem s) = Some m \<Longrightarrow>
     rw_step s \<lparr>sem = m, pcs = (pcs s)(t := Out)\<rparr>"
| downgrade: "pcs s t = Hold Wr \<Longrightarrow> downgrade_write (sem s) = Some m \<Longrightarrow>
     rw_step s \<lparr>sem = m, pcs = (pcs s)(t := Hold Rd)\<rparr>"

text \<open>The start: an initialised semaphore that nobody uses.\<close>

definition rw_start :: "(task \<Rightarrow> int) \<Rightarrow> rwsys \<Rightarrow> bool" where
  "rw_start u s \<longleftrightarrow> (\<exists>m. sem s = init_rwsem m \<and> usage m = u) \<and> (\<forall>t. pcs s t = Out)"

section \<open>Invariant\<close>

text \<open>The mode in which a task is in the waiting loop.\<close>

fun loop_mode :: "pc \<Rightarrow> mode option" where
  "loop_mode (Check md) = Some md"
| "loop_mode (Sched md) = Some md"
| "loop_mode _ = None"

text \<open>
  A task owns the lock when it is past the loop, or still in it with its \<^verbatim>\<open>waiter.task\<close>
  cleared: the lock has been handed to it although it does not know yet.
\<close>

definition owner :: "rwsys \<Rightarrow> mode \<Rightarrow> task \<Rightarrow> bool" where
  "owner s md t \<longleftrightarrow> pcs s t = Hold md \<or>
     loop_mode (pcs s t) = Some md \<and> w_task (waiter_of (sem s) t) = None"

abbreviation owners :: "rwsys \<Rightarrow> mode \<Rightarrow> task set" where
  "owners s md \<equiv> {t. owner s md t}"

fun mode_flag :: "mode \<Rightarrow> u32" where
  "mode_flag Rd = RWSEM_WAITING_FOR_READ"
| "mode_flag Wr = RWSEM_WAITING_FOR_WRITE"

text \<open>The queue holds exactly the tasks that wait, each once, with its mode and one reference.\<close>

definition queue_inv :: "(task \<Rightarrow> int) \<Rightarrow> rwsys \<Rightarrow> bool" where
  "queue_inv u s \<longleftrightarrow>
     distinct (wait_list (sem s)) \<and>
     (\<forall>t. t \<in> set (wait_list (sem s)) \<longleftrightarrow>
        loop_mode (pcs s t) \<noteq> None \<and> w_task (waiter_of (sem s) t) \<noteq> None) \<and>
     (\<forall>t \<in> set (wait_list (sem s)). w_task (waiter_of (sem s) t) = Some t \<and>
        w_flags (waiter_of (sem s) t) = mode_flag (the (loop_mode (pcs s t)))) \<and>
     (\<forall>t md. pcs s t = Sched md \<and> w_task (waiter_of (sem s) t) = None \<longrightarrow>
        tstate (sem s) t = TASK_RUNNING) \<and>
     (\<forall>t. usage (sem s) t = u t + of_bool (t \<in> set (wait_list (sem s))))"

text \<open>
  The counter agrees with the owners; a free semaphore has no queue, and a queue behind
  readers starts with a writer.
\<close>

definition activity_inv :: "rwsys \<Rightarrow> bool" where
  "activity_inv s \<longleftrightarrow>
     finite (owners s Rd) \<and>
     (owners s Wr = {} \<and> activity (sem s) = int (card (owners s Rd)) \<or>
      (\<exists>t. owners s Wr = {t}) \<and> owners s Rd = {} \<and> activity (sem s) = -1)"

definition head_inv :: "rwsys \<Rightarrow> bool" where
  "head_inv s \<longleftrightarrow>
     (activity (sem s) = 0 \<longrightarrow> wait_list (sem s) = []) \<and>
     (activity (sem s) > 0 \<longrightarrow> wait_list (sem s) \<noteq> [] \<longrightarrow>
        loop_mode (pcs s (hd (wait_list (sem s)))) = Some Wr)"

definition rw_inv :: "(task \<Rightarrow> int) \<Rightarrow> rwsys \<Rightarrow> bool" where
  "rw_inv u s \<longleftrightarrow> queue_inv u s \<and> activity_inv s \<and> head_inv s"

section \<open>Handing the lock over\<close>

text \<open>The effect of granting all waiters of a list, in one update.\<close>

definition granted :: "task list \<Rightarrow> rw_semaphore \<Rightarrow> rw_semaphore" where
  "granted xs s = s\<lparr>
     wait_list := filter (\<lambda>t. t \<notin> set xs) (wait_list s),
     waiter_of := (\<lambda>t. if t \<in> set xs then (waiter_of s t)\<lparr>w_task := None\<rparr> else waiter_of s t),
     tstate := (\<lambda>t. if t \<in> set xs then TASK_RUNNING else tstate s t),
     usage := (\<lambda>t. if t \<in> set xs then usage s t - 1 else usage s t)\<rparr>"

lemma granted_simps [simp]:
  "wait_list (granted xs s) = filter (\<lambda>t. t \<notin> set xs) (wait_list s)"
  "waiter_of (granted xs s) t = (if t \<in> set xs then (waiter_of s t)\<lparr>w_task := None\<rparr> else waiter_of s t)"
  "tstate (granted xs s) t = (if t \<in> set xs then TASK_RUNNING else tstate s t)"
  "usage (granted xs s) t = (if t \<in> set xs then usage s t - 1 else usage s t)"
  "activity (granted xs s) = activity s"
  by (simp_all add: granted_def)

lemma granted_Nil [simp]: "granted [] s = s"
  by (simp add: granted_def)

lemma granted_activity: "(granted xs s)\<lparr>activity := a\<rparr> = granted xs (s\<lparr>activity := a\<rparr>)"
  by (rule rw_semaphore.equality) (simp_all add: granted_def fun_eq_iff)

lemma granted_Cons: "w \<notin> set xs \<Longrightarrow> granted xs (granted [w] s) = granted (w # xs) s"
  by (auto simp: granted_def fun_eq_iff intro!: rw_semaphore.equality filter_cong)

lemma grant_waiter_granted:
  assumes "w_task (waiter_of s w) = Some w" "distinct (wait_list s)"
  shows "grant_waiter w s = Some (granted [w] s)"
  using assms
  by (auto simp: grant_waiter_def granted_def set_task_state_def put_task_struct_def Let_def
        distinct_remove1_removeAll removeAll_filter_not_eq fun_eq_iff
        intro!: rw_semaphore.equality filter_cong)

lemma wake_readers_granted:
  assumes "distinct ws" "distinct (wait_list s)" "\<forall>t\<in>set ws. w_task (waiter_of s t) = Some t"
  defines "rd \<equiv> takeWhile (\<lambda>t. w_flags (waiter_of s t) AND RWSEM_WAITING_FOR_READ \<noteq> 0) ws"
  shows "wake_readers ws s = Some (int (length rd), granted rd s)"
  using assms(1-3) unfolding rd_def
proof (induction ws arbitrary: s)
  case Nil
  then show ?case by simp
next
  case (Cons w ws)
  have flags: "w_flags (waiter_of (granted [w] s) t) = w_flags (waiter_of s t)" for t by simp
  have "wake_readers ws (granted [w] s) =
      (let rd = takeWhile (\<lambda>t. w_flags (waiter_of s t) AND RWSEM_WAITING_FOR_READ \<noteq> 0) ws
       in Some (int (length rd), granted rd (granted [w] s)))"
  proof -
    have "\<forall>t\<in>set ws. w_task (waiter_of (granted [w] s) t) = Some t" using Cons.prems by auto
    with Cons.IH [of "granted [w] s"] Cons.prems show ?thesis unfolding flags by (simp add: Let_def)
  qed
  moreover have "w \<notin> set (takeWhile (\<lambda>t. w_flags (waiter_of s t) AND RWSEM_WAITING_FOR_READ \<noteq> 0) ws)"
    using Cons.prems(1) by (auto dest: set_takeWhileD)
  ultimately show ?case
    using Cons.prems by (auto simp: grant_waiter_granted granted_Cons Let_def)
qed


section \<open>The invariant is kept\<close>

lemma mode_flag_test [simp]:
  "mode_flag md AND RWSEM_WAITING_FOR_READ \<noteq> 0 \<longleftrightarrow> md = Rd"
  "mode_flag md AND RWSEM_WAITING_FOR_WRITE \<noteq> 0 \<longleftrightarrow> md = Wr"
  by (cases md; simp)+

lemma queue_inv_activity [simp]:
  "queue_inv u \<lparr>sem = m\<lparr>activity := a\<rparr>, pcs = p\<rparr> = queue_inv u \<lparr>sem = m, pcs = p\<rparr>"
  by (simp add: queue_inv_def)

lemma owner_activity [simp]:
  "owner \<lparr>sem = m\<lparr>activity := a\<rparr>, pcs = p\<rparr> md t = owner \<lparr>sem = m, pcs = p\<rparr> md t"
  by (simp add: owner_def)

lemma queue_inv_granted:
  assumes "queue_inv u \<lparr>sem = m, pcs = p\<rparr>" "set xs \<subseteq> set (wait_list m)"
  shows "queue_inv u \<lparr>sem = granted xs m, pcs = p\<rparr>"
  using assms by (auto simp: queue_inv_def)

lemma owner_granted:
  assumes "queue_inv u \<lparr>sem = m, pcs = p\<rparr>" "set xs \<subseteq> set (wait_list m)"
  shows "owner \<lparr>sem = granted xs m, pcs = p\<rparr> md t \<longleftrightarrow>
         owner \<lparr>sem = m, pcs = p\<rparr> md t \<or> t \<in> set xs \<and> loop_mode (p t) = Some md"
  using assms by (auto simp: queue_inv_def owner_def)

lemma queue_inv_pcs:
  assumes "queue_inv u \<lparr>sem = m, pcs = p\<rparr>" "loop_mode (p t) = None" "loop_mode c = None"
  shows "queue_inv u \<lparr>sem = m, pcs = p(t := c)\<rparr>"
  using assms unfolding queue_inv_def by (auto simp: fun_upd_def)

lemma owner_pcs:
  assumes "loop_mode c = None"
  shows "owner \<lparr>sem = m, pcs = p(t := c)\<rparr> md t' \<longleftrightarrow>
         (if t' = t then c = Hold md else owner \<lparr>sem = m, pcs = p\<rparr> md t')"
  using assms by (auto simp: owner_def)

text \<open>What \<^verbatim>\<open>__rwsem_do_wake\<close> does to a queue that agrees with the tasks.\<close>

lemma do_wake:
  assumes q: "queue_inv u \<lparr>sem = m, pcs = p\<rparr>" and w: "wait_list m = w # ws"
  defines "rd \<equiv> takeWhile (\<lambda>t. loop_mode (p t) = Some Rd) (wait_list m)"
  shows "rwsem_do_wake m wakewrite =
    (if loop_mode (p w) = Some Wr
     then if wakewrite then Some (granted [w] (m\<lparr>activity := -1\<rparr>)) else Some m
     else Some (granted rd (m\<lparr>activity := activity m + int (length rd)\<rparr>)))"
proof -
  have t: "w_task (waiter_of m t) = Some t \<and> (\<exists>md. loop_mode (p t) = Some md \<and>
      w_flags (waiter_of m t) = mode_flag md)" if "t \<in> set (wait_list m)" for t
    using q that unfolding queue_inv_def by (auto simp del: mode_flag.simps)
  have d: "distinct (wait_list m)" using q by (simp add: queue_inv_def)
  have r: "rd = takeWhile (\<lambda>t. w_flags (waiter_of m t) AND RWSEM_WAITING_FOR_READ \<noteq> 0) (wait_list m)"
    unfolding rd_def using t by (intro takeWhile_cong refl) force
  have "wake_readers (wait_list m) m = Some (int (length rd), granted rd m)"
    unfolding r using d t by (intro wake_readers_granted) auto
  moreover have "grant_waiter w (m\<lparr>activity := -1\<rparr>) = Some (granted [w] (m\<lparr>activity := -1\<rparr>))"
    using t [of w] d w by (intro grant_waiter_granted) auto
  moreover obtain md where "loop_mode (p w) = Some md" "w_flags (waiter_of m w) = mode_flag md"
    using t [of w] w by auto
  ultimately show ?thesis
    using w by (cases md) (simp_all add: rwsem_do_wake_def granted_activity)
qed

lemma filter_takeWhile:
  "distinct ws \<Longrightarrow> filter (\<lambda>t. t \<notin> set (takeWhile P ws)) ws = dropWhile P ws"
proof (induction ws)
  case (Cons w ws)
  have "filter (\<lambda>t. t \<noteq> w \<and> t \<notin> set (takeWhile P ws)) ws = filter (\<lambda>t. t \<notin> set (takeWhile P ws)) ws"
    using Cons.prems by (intro filter_cong) auto
  then show ?case using Cons by simp
qed simp


lemma rw_invE:
  assumes "rw_inv u \<lparr>sem = m, pcs = p\<rparr>"
  obtains (readers) "queue_inv u \<lparr>sem = m, pcs = p\<rparr>" "finite (owners \<lparr>sem = m, pcs = p\<rparr> Rd)"
      "owners \<lparr>sem = m, pcs = p\<rparr> Wr = {}" "activity m = int (card (owners \<lparr>sem = m, pcs = p\<rparr> Rd))"
      "activity m = 0 \<Longrightarrow> wait_list m = []"
      "activity m > 0 \<Longrightarrow> wait_list m \<noteq> [] \<Longrightarrow> loop_mode (p (hd (wait_list m))) = Some Wr"
    | (writer) w where "queue_inv u \<lparr>sem = m, pcs = p\<rparr>" "owners \<lparr>sem = m, pcs = p\<rparr> Wr = {w}"
      "owners \<lparr>sem = m, pcs = p\<rparr> Rd = {}" "activity m = -1"
  using assms unfolding rw_inv_def activity_inv_def head_inv_def
  by (elim conjE disjE exE) (simp_all add: readers writer)

lemma rw_inv_readersI:
  assumes "queue_inv u \<lparr>sem = m, pcs = p\<rparr>" "finite (owners \<lparr>sem = m, pcs = p\<rparr> Rd)"
    "owners \<lparr>sem = m, pcs = p\<rparr> Wr = {}" "activity m = int (card (owners \<lparr>sem = m, pcs = p\<rparr> Rd))"
    "activity m = 0 \<Longrightarrow> wait_list m = []"
    "wait_list m \<noteq> [] \<Longrightarrow> loop_mode (p (hd (wait_list m))) = Some Wr"
  shows "rw_inv u \<lparr>sem = m, pcs = p\<rparr>"
  using assms unfolding rw_inv_def activity_inv_def head_inv_def by simp

lemma rw_inv_writerI:
  assumes "queue_inv u \<lparr>sem = m, pcs = p\<rparr>" "owners \<lparr>sem = m, pcs = p\<rparr> Wr = {w}"
    "owners \<lparr>sem = m, pcs = p\<rparr> Rd = {}" "activity m = -1"
  shows "rw_inv u \<lparr>sem = m, pcs = p\<rparr>"
proof -
  have "finite (owners \<lparr>sem = m, pcs = p\<rparr> Rd)" unfolding assms(3) by simp
  with assms show ?thesis
    unfolding rw_inv_def activity_inv_def head_inv_def by (simp del: Collect_empty_eq)
qed

lemma holder_is_owner: "p t = Hold md \<Longrightarrow> t \<in> owners \<lparr>sem = m, pcs = p\<rparr> md"
  by (simp add: owner_def)

lemma up_read_ok:
  assumes inv: "rw_inv u \<lparr>sem = m, pcs = p\<rparr>" and t: "p t = Hold Rd"
  shows "\<exists>m'. up_read m = Some m' \<and> rw_inv u \<lparr>sem = m', pcs = p(t := Out)\<rparr>"
  using inv
proof (cases rule: rw_invE)
  case readers
  let ?m = "m\<lparr>activity := activity m - 1\<rparr>" and ?p = "p(t := Out)"
  let ?R = "owners \<lparr>sem = m, pcs = p\<rparr> Rd"
  have q: "queue_inv u \<lparr>sem = ?m, pcs = ?p\<rparr>" using readers(1) t by (simp add: queue_inv_pcs)
  have tR: "t \<in> ?R" using t by (rule holder_is_owner)
  have R: "owners \<lparr>sem = ?m, pcs = ?p\<rparr> Rd = ?R - {t}" and W: "owners \<lparr>sem = ?m, pcs = ?p\<rparr> Wr = {}"
    using readers(3) by (auto simp: owner_pcs)
  have pos: "activity m > 0" using readers(2,4) tR by (simp add: card_gt_0_iff) blast
  have act: "activity m - 1 = int (card (?R - {t}))"
    using readers(2,4) tR pos by (simp add: of_nat_diff)
  show ?thesis
  proof (cases "activity m - 1 = 0 \<and> wait_list m \<noteq> []")
    case True
    then obtain w ws where w: "wait_list m = w # ws" by (auto simp: neq_Nil_conv)
    have wt: "w_task (waiter_of m w) = Some w" "distinct (wait_list m)"
      using readers(1) w by (auto simp: queue_inv_def)
    have mw: "loop_mode (p w) = Some Wr" "w \<noteq> t" using readers(6) pos w t by auto
    have "rwsem_wake_one_writer ?m = Some (granted [w] (m\<lparr>activity := -1\<rparr>))"
      using w wt by (simp add: rwsem_wake_one_writer_def grant_waiter_granted)
    moreover have "rw_inv u \<lparr>sem = granted [w] (m\<lparr>activity := -1\<rparr>), pcs = ?p\<rparr>"
    proof (rule rw_inv_writerI [of _ _ _ w])
      have q': "queue_inv u \<lparr>sem = m\<lparr>activity := -1\<rparr>, pcs = ?p\<rparr>" using q by simp
      show "queue_inv u \<lparr>sem = granted [w] (m\<lparr>activity := -1\<rparr>), pcs = ?p\<rparr>"
        using q' w by (intro queue_inv_granted) auto
      have "?R - {t} = {}" using act True readers(2) by simp
      then show "owners \<lparr>sem = granted [w] (m\<lparr>activity := -1\<rparr>), pcs = ?p\<rparr> Rd = {}"
        using R w mw by (subst owner_granted [OF q']) auto
      show "owners \<lparr>sem = granted [w] (m\<lparr>activity := -1\<rparr>), pcs = ?p\<rparr> Wr = {w}"
        using W w mw by (subst owner_granted [OF q']) auto
    qed simp
    ultimately show ?thesis using True by (simp add: up_read_def)
  next
    case False
    have "rw_inv u \<lparr>sem = ?m, pcs = ?p\<rparr>"
    proof (rule rw_inv_readersI [OF q])
      show "loop_mode (?p (hd (wait_list ?m))) = Some Wr" if "wait_list ?m \<noteq> []"
        using readers(6) pos that t by auto
    qed (use R W act readers(2) False in auto)
    then show ?thesis using False by (auto simp: up_read_def)
  qed
next
  case (writer w)
  then show ?thesis using holder_is_owner [of p t Rd m] t by auto
qed


text \<open>
  Waking after a write lock has gone, to \<open>R\<close> readers that stay (none for \<^verbatim>\<open>__up_write\<close>, the
  caller for \<^verbatim>\<open>__downgrade_write\<close>).
\<close>

lemma do_wake_readers_inv:
  assumes q: "queue_inv u \<lparr>sem = m, pcs = p\<rparr>" and rd: "rd = takeWhile (\<lambda>t. loop_mode (p t) = Some Rd) (wait_list m)" "rd \<noteq> []"
    and fin: "finite (owners \<lparr>sem = m, pcs = p\<rparr> Rd)" and W: "owners \<lparr>sem = m, pcs = p\<rparr> Wr = {}"
    and act: "activity m = int (card (owners \<lparr>sem = m, pcs = p\<rparr> Rd))"
  shows "rw_inv u \<lparr>sem = granted rd (m\<lparr>activity := activity m + int (length rd)\<rparr>), pcs = p\<rparr>" (is "rw_inv u \<lparr>sem = granted rd ?m, pcs = p\<rparr>")
proof (rule rw_inv_readersI)
  let ?R = "owners \<lparr>sem = m, pcs = p\<rparr> Rd"
  have d: "distinct (wait_list m)" using q by (simp add: queue_inv_def)
  have lm: "\<exists>md. loop_mode (p t) = Some md" and nown: "t \<notin> ?R" if "t \<in> set (wait_list m)" for t
    using q that unfolding queue_inv_def owner_def by (auto split: option.splits)
  have q': "queue_inv u \<lparr>sem = ?m, pcs = p\<rparr>" using q by simp
  have sub: "set rd \<subseteq> set (wait_list ?m)" and md: "\<forall>t\<in>set rd. loop_mode (p t) = Some Rd"
    unfolding rd(1) by (auto dest: set_takeWhileD)
  show "queue_inv u \<lparr>sem = granted rd ?m, pcs = p\<rparr>" by (rule queue_inv_granted [OF q' sub])
  show "owners \<lparr>sem = granted rd ?m, pcs = p\<rparr> Wr = {}" using W md by (subst owner_granted [OF q' sub]) auto
  have R': "owners \<lparr>sem = granted rd ?m, pcs = p\<rparr> Rd = ?R \<union> set rd" using md by (subst owner_granted [OF q' sub]) auto
  then show "finite (owners \<lparr>sem = granted rd ?m, pcs = p\<rparr> Rd)" using fin by simp
  have "distinct rd" "?R \<inter> set rd = {}" using d nown sub by (auto simp: rd(1) distinct_takeWhile)
  then have "card (?R \<union> set rd) = card ?R + length rd" using fin by (simp add: card_Un_disjoint distinct_card)
  then show "activity (granted rd ?m) = int (card (owners \<lparr>sem = granted rd ?m, pcs = p\<rparr> Rd))" using R' act by simp
  have wl: "wait_list (granted rd ?m) = dropWhile (\<lambda>t. loop_mode (p t) = Some Rd) (wait_list m)"
    using d by (simp add: rd(1) filter_takeWhile)
  show "loop_mode (p (hd (wait_list (granted rd ?m)))) = Some Wr" if "wait_list (granted rd ?m) \<noteq> []"
  proof -
    let ?h = "hd (wait_list (granted rd ?m))"
    have "?h \<in> set (wait_list m)" using that wl by (metis hd_in_set set_dropWhileD)
    moreover have "loop_mode (p ?h) \<noteq> Some Rd" using that unfolding wl by (rule hd_dropWhile)
    ultimately show ?thesis using lm [of ?h] by (metis mode.exhaust)
  qed
  have "0 < int (length rd)" "0 \<le> activity m" using rd(2) act by simp_all
  moreover have "activity (granted rd ?m) = activity m + int (length rd)" by simp
  ultimately have "activity (granted rd ?m) \<noteq> 0" by linarith
  then show "wait_list (granted rd ?m) = []" if "activity (granted rd ?m) = 0" using that by contradiction
qed

lemma do_wake_inv:
  assumes q: "queue_inv u \<lparr>sem = m, pcs = p\<rparr>" and ne: "wait_list m \<noteq> []"
    and fin: "finite (owners \<lparr>sem = m, pcs = p\<rparr> Rd)" and W: "owners \<lparr>sem = m, pcs = p\<rparr> Wr = {}"
    and act: "activity m = int (card (owners \<lparr>sem = m, pcs = p\<rparr> Rd))"
    and ww: "wakewrite \<longleftrightarrow> owners \<lparr>sem = m, pcs = p\<rparr> Rd = {}"
  shows "\<exists>m'. rwsem_do_wake m wakewrite = Some m' \<and> rw_inv u \<lparr>sem = m', pcs = p\<rparr>"
proof -
  obtain w ws where w: "wait_list m = w # ws" using ne by (auto simp: neq_Nil_conv)
  consider (writer) "loop_mode (p w) = Some Wr" "wakewrite" | (held) "loop_mode (p w) = Some Wr" "\<not> wakewrite"
    | (readers) "loop_mode (p w) \<noteq> Some Wr" by blast
  then show ?thesis
  proof cases
    case writer
    let ?m = "m\<lparr>activity := -1\<rparr>"
    have q': "queue_inv u \<lparr>sem = ?m, pcs = p\<rparr>" using q by simp
    have "rw_inv u \<lparr>sem = granted [w] ?m, pcs = p\<rparr>"
    proof (rule rw_inv_writerI [of _ _ _ w])
      show "queue_inv u \<lparr>sem = granted [w] ?m, pcs = p\<rparr>"
        using w by (intro queue_inv_granted [OF q']) simp
      show "owners \<lparr>sem = granted [w] ?m, pcs = p\<rparr> Rd = {}"
        using ww writer w by (subst owner_granted [OF q']) auto
      show "owners \<lparr>sem = granted [w] ?m, pcs = p\<rparr> Wr = {w}"
        using W w writer by (subst owner_granted [OF q']) auto
    qed simp
    then show ?thesis using do_wake [OF q w, of wakewrite] writer by simp
  next
    case held
    have "rw_inv u \<lparr>sem = m, pcs = p\<rparr>"
    proof (rule rw_inv_readersI [OF q fin W act])
      show "wait_list m = []" if "activity m = 0" using that act fin ww held by simp
      show "loop_mode (p (hd (wait_list m))) = Some Wr" using w held by simp
    qed
    then show ?thesis using do_wake [OF q w, of wakewrite] held by simp
  next
    case readers
    have "\<exists>md. loop_mode (p w) = Some md" using q w unfolding queue_inv_def by (auto split: option.splits)
    then have "loop_mode (p w) = Some Rd" using readers by (metis mode.exhaust)
    then have "takeWhile (\<lambda>t. loop_mode (p t) = Some Rd) (wait_list m) \<noteq> []" using w by simp
    from do_wake_readers_inv [OF q refl this fin W act] show ?thesis using do_wake [OF q w, of wakewrite] readers by simp
  qed
qed

lemma up_write_ok:
  assumes inv: "rw_inv u \<lparr>sem = m, pcs = p\<rparr>" and t: "p t = Hold Wr"
  shows "\<exists>m'. up_write m = Some m' \<and> rw_inv u \<lparr>sem = m', pcs = p(t := Out)\<rparr>"
  using inv
proof (cases rule: rw_invE)
  case readers
  then show ?thesis using holder_is_owner [of p t Wr m] t by auto
next
  case (writer w)
  have w: "w = t" using holder_is_owner [of p t Wr m] t writer by auto
  let ?m = "m\<lparr>activity := 0\<rparr>" and ?p = "p(t := Out)"
  have q: "queue_inv u \<lparr>sem = ?m, pcs = ?p\<rparr>" using writer(1) t by (simp add: queue_inv_pcs)
  have R: "owners \<lparr>sem = ?m, pcs = ?p\<rparr> Rd = {}" and W: "owners \<lparr>sem = ?m, pcs = ?p\<rparr> Wr = {}"
    using writer w by (auto simp: owner_pcs)
  show ?thesis
  proof (cases "wait_list m = []")
    case True
    then have "rw_inv u \<lparr>sem = ?m, pcs = ?p\<rparr>"
      using R W by (intro rw_inv_readersI [OF q]) auto
    then show ?thesis using True by (simp add: up_write_def)
  next
    case False
    then show ?thesis using do_wake_inv [OF q _ _ W, of True] R by (simp add: up_write_def)
  qed
qed

lemma downgrade_write_ok:
  assumes inv: "rw_inv u \<lparr>sem = m, pcs = p\<rparr>" and t: "p t = Hold Wr"
  shows "\<exists>m'. downgrade_write m = Some m' \<and> rw_inv u \<lparr>sem = m', pcs = p(t := Hold Rd)\<rparr>"
  using inv
proof (cases rule: rw_invE)
  case readers
  then show ?thesis using holder_is_owner [of p t Wr m] t by auto
next
  case (writer w)
  have w: "w = t" using holder_is_owner [of p t Wr m] t writer by auto
  let ?m = "m\<lparr>activity := 1\<rparr>" and ?p = "p(t := Hold Rd)"
  have q: "queue_inv u \<lparr>sem = ?m, pcs = ?p\<rparr>" using writer(1) t by (simp add: queue_inv_pcs)
  have R: "owners \<lparr>sem = ?m, pcs = ?p\<rparr> Rd = {t}" and W: "owners \<lparr>sem = ?m, pcs = ?p\<rparr> Wr = {}"
    using writer w by (auto simp: owner_pcs)
  show ?thesis
  proof (cases "wait_list m = []")
    case True
    then have "rw_inv u \<lparr>sem = ?m, pcs = ?p\<rparr>"
      using R W by (intro rw_inv_readersI [OF q]) auto
    then show ?thesis using True by (simp add: downgrade_write_def)
  next
    case False
    have "finite (owners \<lparr>sem = ?m, pcs = ?p\<rparr> Rd)" "False \<longleftrightarrow> owners \<lparr>sem = ?m, pcs = ?p\<rparr> Rd = {}"
      "activity ?m = int (card (owners \<lparr>sem = ?m, pcs = ?p\<rparr> Rd))"
      unfolding R by simp_all
    from do_wake_inv [OF q _ this(1) W this(3,2)] False show ?thesis
      by (simp add: downgrade_write_def)
  qed
qed


text \<open>Entering: the fast paths and the slow path.\<close>

lemma enter_read_inv:
  assumes inv: "rw_inv u \<lparr>sem = m, pcs = p\<rparr>" and t: "p t = Out" and a: "activity m \<ge> 0" "wait_list m = []"
  shows "rw_inv u \<lparr>sem = m\<lparr>activity := activity m + 1\<rparr>, pcs = p(t := Hold Rd)\<rparr>"
  using inv
proof (cases rule: rw_invE)
  case readers
  let ?R = "owners \<lparr>sem = m, pcs = p\<rparr> Rd" and ?m = "m\<lparr>activity := activity m + 1\<rparr>"
  have "t \<notin> ?R" using t by (simp add: owner_def)
  moreover have "owners \<lparr>sem = ?m, pcs = p(t := Hold Rd)\<rparr> Rd = insert t ?R"
    by (auto simp: owner_pcs)
  moreover have "owners \<lparr>sem = ?m, pcs = p(t := Hold Rd)\<rparr> Wr = {}"
    using readers(3) by (auto simp: owner_pcs)
  moreover have "queue_inv u \<lparr>sem = ?m, pcs = p(t := Hold Rd)\<rparr>"
    using readers(1) t by (simp add: queue_inv_pcs)
  ultimately show ?thesis using readers(2,4) a by (intro rw_inv_readersI) simp_all
next
  case (writer w)
  then show ?thesis using a by simp
qed

lemma enter_write_inv:
  assumes inv: "rw_inv u \<lparr>sem = m, pcs = p\<rparr>" and t: "p t = Out" and a: "activity m = 0" "wait_list m = []"
  shows "rw_inv u \<lparr>sem = m\<lparr>activity := -1\<rparr>, pcs = p(t := Hold Wr)\<rparr>"
  using inv
proof (cases rule: rw_invE)
  case readers
  let ?m = "m\<lparr>activity := -1\<rparr>"
  have R: "owners \<lparr>sem = m, pcs = p\<rparr> Rd = {}" using readers(2,4) a by simp
  show ?thesis
  proof (rule rw_inv_writerI [of _ _ _ t])
    show "queue_inv u \<lparr>sem = ?m, pcs = p(t := Hold Wr)\<rparr>"
      using readers(1) t by (simp add: queue_inv_pcs)
    show "owners \<lparr>sem = ?m, pcs = p(t := Hold Wr)\<rparr> Wr = {t}"
      using readers(3) by (auto simp: owner_pcs)
    show "owners \<lparr>sem = ?m, pcs = p(t := Hold Wr)\<rparr> Rd = {}"
      using R by (auto simp: owner_pcs)
  qed simp
next
  case (writer w)
  then show ?thesis using a by simp
qed

lemma owner_loop_frame:
  assumes "p t = Out" "w_task (waiter_of m' t) = Some t"
    "\<And>t'. t' \<noteq> t \<Longrightarrow> waiter_of m' t' = waiter_of m t'"
  shows "owner \<lparr>sem = m', pcs = p(t := Check md)\<rparr> md' t' = owner \<lparr>sem = m, pcs = p\<rparr> md' t'"
  using assms by (auto simp: owner_def)

lemma enqueue_waiter_simps [simp]:
  "activity (enqueue_waiter t f m) = activity m"
  "wait_list (enqueue_waiter t f m) = wait_list m @ [t]"
  by (simp_all add: enqueue_waiter_def Let_def set_task_state_def get_task_struct_def)

lemma enqueue_inv:
  assumes inv: "rw_inv u \<lparr>sem = m, pcs = p\<rparr>" and t: "p t = Out"
    and busy: "activity m = -1 \<or> wait_list m \<noteq> [] \<or> activity m > 0 \<and> md = Wr"
  shows "rw_inv u \<lparr>sem = enqueue_waiter t (mode_flag md) m, pcs = p(t := Check md)\<rparr>"
proof -
  let ?m = "enqueue_waiter t (mode_flag md) m" and ?p = "p(t := Check md)"
  have nt: "t \<notin> set (wait_list m)"
    using inv t unfolding rw_inv_def queue_inv_def by auto
  have own: "owner \<lparr>sem = ?m, pcs = ?p\<rparr> md' t' = owner \<lparr>sem = m, pcs = p\<rparr> md' t'" for md' t'
    using t by (intro owner_loop_frame)
      (simp_all add: enqueue_waiter_def Let_def set_task_state_def get_task_struct_def)
  have q: "queue_inv u \<lparr>sem = ?m, pcs = ?p\<rparr>" if "queue_inv u \<lparr>sem = m, pcs = p\<rparr>"
    using that t nt unfolding queue_inv_def
    by (auto simp: enqueue_waiter_def Let_def set_task_state_def get_task_struct_def
        simp del: mode_flag.simps split: if_splits)
  show ?thesis
    using inv
  proof (cases rule: rw_invE)
    case readers
    show ?thesis
    proof (rule rw_inv_readersI [OF q [OF readers(1)]])
      have "activity m \<ge> 0" using readers(4) by simp
      moreover have "activity m \<noteq> 0" using busy readers(5) by force
      ultimately have pos: "activity m > 0" by simp
      then show "wait_list ?m = []" if "activity ?m = 0" using that by simp
      show "loop_mode (?p (hd (wait_list ?m))) = Some Wr"
        using busy readers(4,6) pos nt by (cases "wait_list m") auto
    qed (use own readers in auto)
  next
    case (writer w)
    then show ?thesis using q own by (intro rw_inv_writerI [of _ _ _ w]) auto
  qed
qed

text \<open>The waiting loop changes no owner and nothing the queue depends on.\<close>

lemma loop_inv:
  assumes inv: "rw_inv u \<lparr>sem = m, pcs = p\<rparr>"
    and own: "\<And>md t'. owner \<lparr>sem = m', pcs = p'\<rparr> md t' = owner \<lparr>sem = m, pcs = p\<rparr> md t'"
    and q: "queue_inv u \<lparr>sem = m, pcs = p\<rparr> \<Longrightarrow> queue_inv u \<lparr>sem = m', pcs = p'\<rparr>"
    and f: "activity m' = activity m" "wait_list m' = wait_list m"
    and lm: "\<And>t. t \<in> set (wait_list m) \<Longrightarrow> loop_mode (p' t) = loop_mode (p t)"
  shows "rw_inv u \<lparr>sem = m', pcs = p'\<rparr>"
  using inv
proof (cases rule: rw_invE)
  case readers
  then show ?thesis using q own f lm [of "hd (wait_list m)"]
    by (intro rw_inv_readersI) (auto simp: card_gt_0_iff)
next
  case (writer w)
  then show ?thesis using q own f by (intro rw_inv_writerI [of _ _ _ w]) auto
qed

lemma wait_check_inv:
  assumes inv: "rw_inv u \<lparr>sem = m, pcs = p\<rparr>" and t: "p t = Check md"
    and c: "wait_check t m = (done', m')"
  shows "rw_inv u \<lparr>sem = m', pcs = p(t := if done' then Hold md else Sched md)\<rparr>"
proof (rule loop_inv [OF inv])
  show "owner \<lparr>sem = m', pcs = p(t := if done' then Hold md else Sched md)\<rparr> md' t' =
        owner \<lparr>sem = m, pcs = p\<rparr> md' t'" for md' t'
    using t c by (auto simp: owner_def wait_check_def set_task_state_def split: if_splits)
  show "queue_inv u \<lparr>sem = m', pcs = p(t := if done' then Hold md else Sched md)\<rparr>"
    if "queue_inv u \<lparr>sem = m, pcs = p\<rparr>"
    using that t c unfolding queue_inv_def
    by (auto simp: wait_check_def set_task_state_def split: if_splits)
  show "loop_mode ((p(t := if done' then Hold md else Sched md)) x) = loop_mode (p x)"
    if "x \<in> set (wait_list m)" for x
    using inv that t c unfolding rw_inv_def queue_inv_def
    by (auto simp: wait_check_def split: if_splits)
qed (use c in \<open>auto simp: wait_check_def set_task_state_def split: if_splits\<close>)

lemma wait_resume_inv:
  assumes inv: "rw_inv u \<lparr>sem = m, pcs = p\<rparr>" and t: "p t = Sched md"
  shows "rw_inv u \<lparr>sem = wait_resume t m, pcs = p(t := Check md)\<rparr>"
  using inv
  by (rule loop_inv)
     (use t in \<open>auto simp: owner_def queue_inv_def wait_resume_def set_task_state_def\<close>)

lemma spurious_inv:
  assumes inv: "rw_inv u \<lparr>sem = m, pcs = p\<rparr>"
  shows "rw_inv u \<lparr>sem = set_task_state t TASK_RUNNING m, pcs = p\<rparr>"
  using inv
  by (rule loop_inv) (auto simp: owner_def queue_inv_def set_task_state_def)


lemma rw_step_inv: "rw_step s s' \<Longrightarrow> rw_inv u s \<Longrightarrow> rw_inv u s'"
proof (induction rule: rw_step.induct)
  case (read_fast s t m)
  then show ?case
    by (cases s) (auto simp: down_read_enter_def split: if_splits intro: enter_read_inv)
next
  case (read_slow s t m)
  then show ?case
    using enqueue_inv [of u "sem s" "pcs s" t Rd]
    by (cases s) (auto simp: down_read_enter_def rw_inv_def activity_inv_def split: if_splits)
next
  case (read_try s t r m)
  then show ?case
    by (cases s) (auto simp: down_read_trylock_def fun_upd_idem split: if_splits intro: enter_read_inv)
next
  case (write_fast s t m)
  then show ?case
    by (cases s) (auto simp: down_write_enter_def split: if_splits intro: enter_write_inv)
next
  case (write_slow s t m)
  then show ?case
    using enqueue_inv [of u "sem s" "pcs s" t Wr]
    by (cases s) (auto simp: down_write_enter_def rw_inv_def activity_inv_def split: if_splits)
next
  case (write_try s t r m)
  then show ?case
    by (cases s) (auto simp: down_write_trylock_def fun_upd_idem split: if_splits intro: enter_write_inv)
next
  case (check s t md d m)
  then show ?case using wait_check_inv [of u "sem s" "pcs s" t md d m] by (cases s) simp
next
  case (resume s t md)
  then show ?case using wait_resume_inv [of u "sem s" "pcs s" t md] by (cases s) simp
next
  case (spurious s t md)
  then show ?case using spurious_inv [of u "sem s" "pcs s" t] by (cases s) simp
next
  case (release_read s t m)
  then show ?case using up_read_ok [of u "sem s" "pcs s" t] by (cases s) simp
next
  case (release_write s t m)
  then show ?case using up_write_ok [of u "sem s" "pcs s" t] by (cases s) simp
next
  case (downgrade s t m)
  then show ?case using downgrade_write_ok [of u "sem s" "pcs s" t] by (cases s) simp
qed

interpretation rw_sys: invariant_system "rw_start u" rw_step "rw_inv u" for u
proof
  fix s :: rwsys assume "rw_start u s"
  then show "rw_inv u s"
    unfolding rw_start_def rw_inv_def queue_inv_def activity_inv_def head_inv_def owner_def
    by (auto simp: init_rwsem_def)
qed (rule rw_step_inv)

section \<open>Properties\<close>

text \<open>
  C4: A task that holds the semaphore for writing is alone: no other task holds it, for
  reading or for writing, in any state that calls of the semaphore functions can reach.
\<close>

theorem rwsem_exclusive:
  assumes "rw_start u s0" and "rw_step\<^sup>*\<^sup>* s0 s" and "pcs s t = Hold Wr" and "pcs s t' = Hold md"
  shows "t' = t"
proof -
  have "rw_inv u s" using assms(1,2) by (rule rw_sys.reach_inv)
  moreover have "t \<in> owners s Wr" "t' \<in> owners s md" using assms(3,4) by (simp_all add: owner_def)
  ultimately show ?thesis
    unfolding rw_inv_def activity_inv_def by (cases md) (metis empty_iff singletonD)+
qed

definition idle_sem :: rw_semaphore where
  "idle_sem = init_rwsem \<lparr>activity = 0, wait_list = [], waiter_of = (\<lambda>_. \<lparr>w_task = None, w_flags = 0\<rparr>),
     tstate = (\<lambda>_. TASK_RUNNING), usage = (\<lambda>_. 1)\<rparr>"

definition idle_sys :: rwsys where
  "idle_sys = \<lparr>sem = idle_sem, pcs = (\<lambda>_. Out)\<rparr>"

lemma idle_start: "rw_start (\<lambda>_. 1) idle_sys"
  unfolding rw_start_def idle_sys_def idle_sem_def by auto

text \<open>Task 3 takes the idle semaphore; then task 4 asks for it and has to wait.\<close>

definition one_holder :: "mode \<Rightarrow> rwsys" where
  "one_holder md = \<lparr>sem = idle_sem\<lparr>activity := if md = Wr then -1 else 1\<rparr>, pcs = (\<lambda>_. Out)(3 := Hold md)\<rparr>"

definition one_waiter :: rwsys where
  "one_waiter = \<lparr>sem = snd (down_write_enter 4 (sem (one_holder Rd))), pcs = (\<lambda>_. Out)(3 := Hold Rd, 4 := Check Wr)\<rparr>"

lemma one_holder_reach: "rw_step\<^sup>*\<^sup>* idle_sys (one_holder md)"
proof (cases md)
  case Rd
  have "rw_step idle_sys \<lparr>sem = idle_sem\<lparr>activity := 1\<rparr>, pcs = (pcs idle_sys)(3 := Hold Rd)\<rparr>"
    by (rule rw_step.read_fast) (simp_all add: idle_sys_def idle_sem_def init_rwsem_def down_read_enter_def)
  then show ?thesis by (simp add: Rd one_holder_def idle_sys_def)
next
  case Wr
  have "rw_step idle_sys \<lparr>sem = idle_sem\<lparr>activity := -1\<rparr>, pcs = (pcs idle_sys)(3 := Hold Wr)\<rparr>"
    by (rule rw_step.write_fast) (simp_all add: idle_sys_def idle_sem_def init_rwsem_def down_write_enter_def)
  then show ?thesis by (simp add: Wr one_holder_def idle_sys_def)
qed

lemma one_waiter_reach: "rw_step\<^sup>*\<^sup>* idle_sys one_waiter"
proof -
  have "rw_step (one_holder Rd) \<lparr>sem = sem one_waiter, pcs = (pcs (one_holder Rd))(4 := Check Wr)\<rparr>"
    by (rule rw_step.write_slow) (simp_all add: one_waiter_def one_holder_def down_write_enter_def)
  then have "rw_step (one_holder Rd) one_waiter" by (simp add: one_waiter_def one_holder_def)
  with one_holder_reach [of Rd] show ?thesis by simp
qed

theorem rwsem_exclusive_witness:
  "rw_step\<^sup>*\<^sup>* idle_sys (one_holder Wr) \<and> pcs (one_holder Wr) 3 = Hold Wr \<and>
   {t'. \<exists>md. pcs (one_holder Wr) t' = Hold md} = {3}"
proof -
  have h: "pcs (one_holder Wr) 3 = Hold Wr" by (simp add: one_holder_def)
  with rwsem_exclusive [OF idle_start one_holder_reach h] one_holder_reach show ?thesis by blast
qed

text \<open>
  C21: No call by a holder crashes: \<^verbatim>\<open>__up_read\<close> of a reader and \<^verbatim>\<open>__up_write\<close> and
  \<^verbatim>\<open>__downgrade_write\<close> of a writer always return, so the waiter that they wake exists and has
  its task; and \<^verbatim>\<open>__up_read\<close>, which hands the lock to the head of the queue without looking at
  its flags, always hands it to a writer.
\<close>

theorem rwsem_release_safe:
  assumes "rw_start u s0" and "rw_step\<^sup>*\<^sup>* s0 s"
  shows "(pcs s t = Hold Rd \<longrightarrow> (\<exists>m. up_read (sem s) = Some m)) \<and>
         (pcs s t = Hold Wr \<longrightarrow> (\<exists>m. up_write (sem s) = Some m) \<and> (\<exists>m. downgrade_write (sem s) = Some m)) \<and>
         (pcs s t = Hold Rd \<and> wait_list (sem s) \<noteq> [] \<longrightarrow>
            w_flags (waiter_of (sem s) (hd (wait_list (sem s)))) = RWSEM_WAITING_FOR_WRITE)"
proof -
  have inv: "rw_inv u s" using assms by (rule rw_sys.reach_inv)
  then have i: "rw_inv u \<lparr>sem = sem s, pcs = pcs s\<rparr>" by (cases s) simp
  have "w_flags (waiter_of (sem s) (hd (wait_list (sem s)))) = RWSEM_WAITING_FOR_WRITE"
    if t: "pcs s t = Hold Rd" and ne: "wait_list (sem s) \<noteq> []"
  proof -
    let ?h = "hd (wait_list (sem s))"
    have "t \<in> owners s Rd" using t by (simp add: owner_def)
    then have "activity (sem s) > 0"
      using inv unfolding rw_inv_def activity_inv_def by (metis card_gt_0_iff empty_iff of_nat_0_less_iff)
    then have "loop_mode (pcs s ?h) = Some Wr" using inv ne unfolding rw_inv_def head_inv_def by blast
    moreover have "?h \<in> set (wait_list (sem s))" using ne by simp
    ultimately show ?thesis using inv unfolding rw_inv_def queue_inv_def by force
  qed
  with up_read_ok [OF i] up_write_ok [OF i] downgrade_write_ok [OF i] show ?thesis by metis
qed

theorem rwsem_release_safe_witness:
  "pcs one_waiter 3 = Hold Rd \<and> (\<exists>m. up_read (sem one_waiter) = Some m) \<and> wait_list (sem one_waiter) = [4]"
proof -
  have "pcs one_waiter 3 = Hold Rd" by (simp add: one_waiter_def)
  moreover have "wait_list (sem one_waiter) = [4]"
    by (simp add: one_waiter_def one_holder_def down_write_enter_def idle_sem_def init_rwsem_def)
  ultimately show ?thesis using rwsem_release_safe [OF idle_start one_waiter_reach, of 3] by simp
qed

text \<open>
  C14: No wake-up is lost and the semaphore never blocks by itself: while a task waits, some
  task owns the lock, and an owner that is still in the waiting loop is about to test its
  cleared \<^verbatim>\<open>waiter.task\<close> or is runnable inside \<^verbatim>\<open>schedule\<close>.
\<close>

theorem rwsem_no_lost_wakeup:
  assumes "rw_start u s0" and "rw_step\<^sup>*\<^sup>* s0 s" and "t \<in> set (wait_list (sem s))"
  shows "\<exists>t' md. pcs s t' = Hold md \<or>
           w_task (waiter_of (sem s) t') = None \<and>
           (pcs s t' = Check md \<or> pcs s t' = Sched md \<and> tstate (sem s) t' = TASK_RUNNING)"
proof -
  have inv: "rw_inv u s" using assms(1,2) by (rule rw_sys.reach_inv)
  then have "activity (sem s) \<noteq> 0" using assms(3) unfolding rw_inv_def head_inv_def by auto
  then have "owners s Rd \<noteq> {} \<or> owners s Wr \<noteq> {}"
    using inv unfolding rw_inv_def activity_inv_def by auto
  then obtain md t' where ow: "owner s md t'" by blast
  show ?thesis
  proof (cases "pcs s t' = Hold md")
    case False
    then have l: "loop_mode (pcs s t') = Some md" "w_task (waiter_of (sem s) t') = None"
      using ow by (auto simp: owner_def)
    have "tstate (sem s) t' = TASK_RUNNING" if "pcs s t' = Sched md"
      using inv l that unfolding rw_inv_def queue_inv_def by blast
    then show ?thesis using l by (cases "pcs s t'") auto
  qed blast
qed

theorem rwsem_no_lost_wakeup_witness:
  "4 \<in> set (wait_list (sem one_waiter)) \<and>
   (\<exists>t' md. pcs one_waiter t' = Hold md \<or>
      w_task (waiter_of (sem one_waiter) t') = None \<and>
      (pcs one_waiter t' = Check md \<or>
       pcs one_waiter t' = Sched md \<and> tstate (sem one_waiter) t' = TASK_RUNNING))"
proof -
  have "4 \<in> set (wait_list (sem one_waiter))"
    by (simp add: one_waiter_def one_holder_def down_write_enter_def idle_sem_def init_rwsem_def)
  with rwsem_no_lost_wakeup [OF idle_start one_waiter_reach] show ?thesis by blast
qed

end
