(* ===== verification/IpcUtil.thy ===== *)
theory IpcUtil
  imports Prelude
begin

text \<open>
  The identifier tables that the System V IPC objects share, \<^verbatim>\<open>ipc/util.c\<close> and
  \<^verbatim>\<open>ipc/util.h\<close>: a table maps small indices to objects, and a user-visible identifier
  is \<open>SEQ_MULTIPLIER * seq + index\<close>, so that a stale one is recognised by its sequence number.
  Objects are named by their address; the table holds addresses, and \<open>perm_of\<close> reads the
  \<^verbatim>\<open>struct kern_ipc_perm\<close> at an address, \<open>None\<close> when the memory is not allocated.
  The security hooks are those of a kernel without \<^verbatim>\<open>CONFIG_SECURITY\<close>: they grant everything.
\<close>

unbundle bit_operations_syntax

type_synonym addr = nat

record kern_ipc_perm =
  deleted :: bool
  key :: int
  uid :: u32
  gid :: u32
  cuid :: u32
  cgid :: u32
  mode :: u32
  seq :: ulong

text \<open>
  \<^verbatim>\<open>struct ipc_ids\<close>: \<open>entries\<close> is the array \<^verbatim>\<open>entries->p\<close>, whose length is \<^verbatim>\<open>entries->size\<close>, and \<open>at_nullentry\<close> tells that
  \<^verbatim>\<open>entries\<close> points to the member \<^verbatim>\<open>nullentry\<close> and not to memory from \<^verbatim>\<open>ipc_rcu_alloc\<close>.
\<close>

record ipc_ids =
  in_use :: int
  max_id :: int
  ids_seq :: u16
  seq_max :: u16
  entries :: "addr option list"
  at_nullentry :: bool

text \<open>What the functions read of \<^verbatim>\<open>current\<close> to decide permissions.\<close>

record cred =
  euid :: u32
  egid :: u32
  in_group_p :: "u32 \<Rightarrow> bool"
  cap_ipc_owner :: bool
  cap_sys_admin :: bool

abbreviation (input) IPCMNI :: int where "IPCMNI \<equiv> 32768"
abbreviation (input) SEQ_MULTIPLIER :: int where "SEQ_MULTIPLIER \<equiv> IPCMNI"
abbreviation (input) USHRT_MAX :: int where "USHRT_MAX \<equiv> 65535"
abbreviation (input) INT_MAX :: int where "INT_MAX \<equiv> 2147483647"

abbreviation (input) S_IRWXUGO :: u32 where "S_IRWXUGO \<equiv> 0x1FF"
abbreviation (input) S_IRUGO :: u16 where "S_IRUGO \<equiv> 0x124"
abbreviation (input) S_IWUGO :: u16 where "S_IWUGO \<equiv> 0x92"

section \<open>Operations\<close>

text \<open>The value that an \<^verbatim>\<open>int\<close> has after a number has been assigned to it.\<close>

definition to_int :: "int \<Rightarrow> int" where
  "to_int x = sint (of_int x :: u32)"

lemma to_int_id: "- 2147483648 \<le> x \<Longrightarrow> x \<le> 2147483647 \<Longrightarrow> to_int x = x"
  by (simp add: to_int_def signed_of_int signed_take_bit_int_eq_self)

text \<open>\<open>got\<close> tells whether the allocation of the table succeeded.\<close>

definition ipc_init_ids :: "int \<Rightarrow> bool \<Rightarrow> ipc_ids" where
  "ipc_init_ids sz got =
     (let sz = if sz > IPCMNI then IPCMNI else sz;
          seq_limit = INT_MAX div SEQ_MULTIPLIER;
          sz = if got then sz else 0
      in \<lparr>in_use = 0, max_id = -1, ids_seq = 0,
          seq_max = (if seq_limit > USHRT_MAX then of_int USHRT_MAX else of_int seq_limit),
          entries = replicate (nat sz) None, at_nullentry = (\<not> got)\<rparr>)"

text \<open>The loop of \<^verbatim>\<open>ipc_findkey\<close> at index \<open>i\<close> with \<open>k\<close> more indices to visit.\<close>

fun findkey_loop :: "addr option list \<Rightarrow> (addr \<rightharpoonup> kern_ipc_perm) \<Rightarrow> int \<Rightarrow> nat \<Rightarrow> nat \<Rightarrow> int option" where
  "findkey_loop p perm_of k i 0 = Some (-1)"
| "findkey_loop p perm_of k i (Suc n) =
     (if i \<ge> length p then None
      else case p ! i of
        None \<Rightarrow> findkey_loop p perm_of k (Suc i) n
      | Some a \<Rightarrow> do {
          perm \<leftarrow> perm_of a;
          if k = key perm then Some (int i) else findkey_loop p perm_of k (Suc i) n
        })"

definition ipc_findkey :: "ipc_ids \<Rightarrow> (addr \<rightharpoonup> kern_ipc_perm) \<Rightarrow> int \<Rightarrow> int option" where
  "ipc_findkey ids perm_of k = findkey_loop (entries ids) perm_of k 0 (nat (max_id ids + 1))"

text \<open>
  What \<^verbatim>\<open>grow_ary\<close> finds in memory when it gets a new table: the contents of the new memory, and the pointer that lies behind the last entry
  of the old table, \<open>None\<close> when this address is not mapped.
\<close>

type_synonym grow_mem = "(nat \<Rightarrow> addr option) \<times> addr option option"

text \<open>
  \<^verbatim>\<open>grow_ary\<close>; \<open>got\<close> is \<open>None\<close> when the new table cannot be allocated. The \<^verbatim>\<open>memcpy\<close> copies \<^verbatim>\<open>sizeof(struct ipc_id_ary)\<close> bytes, which is one pointer,
  more than the old table has, and the loop after it overwrites this pointer with NULL. The \<^verbatim>\<open>ipc_rcu_putref\<close> of the old table writes to the
  header that \<^verbatim>\<open>ipc_rcu_alloc\<close> puts before its memory: \<^verbatim>\<open>nullentry\<close> has none.
\<close>

definition grow_ary :: "ipc_ids \<Rightarrow> int \<Rightarrow> grow_mem option \<Rightarrow> (int \<times> ipc_ids) option" where
  "grow_ary ids newsize got =
     (let sz = int (length (entries ids));
          newsize = if newsize > IPCMNI then IPCMNI else newsize
      in if newsize \<le> sz then Some (newsize, ids)
         else case got of
           None \<Rightarrow> Some (sz, ids)
         | Some (fresh, behind) \<Rightarrow> do {
             w \<leftarrow> behind;
             p \<leftarrow> memcpy (map fresh [0..<nat newsize]) 0 (entries ids @ [w]) 0 (length (entries ids) + 1);
             let p = fold (\<lambda>i p. p[i := None]) [nat sz..<nat newsize] p;
             if at_nullentry ids then None else Some (newsize, ids\<lparr>entries := p\<rparr>)
           })"

text \<open>The search of \<^verbatim>\<open>ipc_addid\<close> for a free index.\<close>

fun free_index :: "addr option list \<Rightarrow> nat \<Rightarrow> nat \<Rightarrow> nat option option" where
  "free_index p i 0 = Some None"
| "free_index p i (Suc n) =
     (if i \<ge> length p then None
      else if p ! i = None then Some (Some i)
      else free_index p (Suc i) n)"

text \<open>
  \<^verbatim>\<open>ipc_addid\<close> of the object at address \<open>a\<close> whose permission record is \<open>new\<close>: the identifier or
  -1, the table and the record.
\<close>

definition ipc_addid :: "ipc_ids \<Rightarrow> addr \<Rightarrow> kern_ipc_perm \<Rightarrow> cred \<Rightarrow> int \<Rightarrow> grow_mem option \<Rightarrow> (int \<times> ipc_ids \<times> kern_ipc_perm) option" where
  "ipc_addid ids a new cur sz got =
     do {
        (sz, ids) \<leftarrow> grow_ary ids sz got;
        found \<leftarrow> free_index (entries ids) 0 (nat sz);
        case found of
          None \<Rightarrow> Some (-1, ids, new)
        | Some i \<Rightarrow>
            (let ids = ids\<lparr>in_use := in_use ids + 1\<rparr>;
                 ids = (if int i > max_id ids then ids\<lparr>max_id := int i\<rparr> else ids);
                 new = new\<lparr>cuid := euid cur, uid := euid cur, gid := egid cur, cgid := egid cur\<rparr>;
                 new = new\<lparr>seq := ucast (ids_seq ids)\<rparr>;
                 ids = ids\<lparr>ids_seq := ids_seq ids + 1\<rparr>;
                 ids = (if ids_seq ids > seq_max ids then ids\<lparr>ids_seq := 0\<rparr> else ids);
                 new = new\<lparr>deleted := False\<rparr>
             in Some (int i, ids\<lparr>entries := (entries ids)[i := Some a]\<rparr>, new))
      }"

text \<open>The loop of \<^verbatim>\<open>ipc_rmid\<close> that looks below \<open>lid\<close> for the next used index.\<close>

fun last_used :: "addr option list \<Rightarrow> nat \<Rightarrow> int" where
  "last_used p 0 = -1"
| "last_used p (Suc lid) = (if p ! lid = None then last_used p lid else int lid)"

text \<open>
  The index of an identifier. C's \<^verbatim>\<open>%\<close> truncates, but no caller passes a negative identifier
  and on the others it agrees with \<open>mod\<close>.
\<close>

definition lid_of :: "int \<Rightarrow> nat" where
  "lid_of i = nat (i mod SEQ_MULTIPLIER)"

text \<open>\<^verbatim>\<open>ipc_rmid\<close> returns the object; its caller sees \<open>deleted\<close> set by \<open>mark_deleted\<close>.\<close>

definition ipc_rmid :: "ipc_ids \<Rightarrow> int \<Rightarrow> (addr \<times> ipc_ids) option" where
  "ipc_rmid ids i =
     (let lid = lid_of i in
      if lid \<ge> length (entries ids) then None
      else case entries ids ! lid of
        None \<Rightarrow> None
      | Some p \<Rightarrow>
          (let ids = ids\<lparr>entries := (entries ids)[lid := None]\<rparr>;
               ids = ids\<lparr>in_use := in_use ids - 1\<rparr>;
               ids = (if int lid = max_id ids then ids\<lparr>max_id := last_used (entries ids) lid\<rparr> else ids)
           in Some (p, ids)))"

definition mark_deleted :: "kern_ipc_perm \<Rightarrow> kern_ipc_perm" where
  "mark_deleted p = p\<lparr>deleted := True\<rparr>"

definition ipcperms :: "kern_ipc_perm \<Rightarrow> cred \<Rightarrow> u16 \<Rightarrow> int" where
  "ipcperms ipcp cur flag =
     (let f = (scast flag :: u32);
          requested_mode = signed_drop_bit 6 f OR signed_drop_bit 3 f OR f;
          granted_mode = mode ipcp;
          granted_mode =
            (if euid cur = cuid ipcp \<or> euid cur = uid ipcp then signed_drop_bit 6 granted_mode
             else if in_group_p cur (cgid ipcp) \<or> in_group_p cur (gid ipcp) then signed_drop_bit 3 granted_mode
             else granted_mode)
      in if requested_mode AND NOT granted_mode AND 7 \<noteq> 0 \<and> \<not> cap_ipc_owner cur then -1 else 0)"

text \<open>\<^verbatim>\<open>ipc_lock\<close>: the object of an identifier, or NULL.\<close>

definition ipc_lock :: "ipc_ids \<Rightarrow> (addr \<rightharpoonup> kern_ipc_perm) \<Rightarrow> int \<Rightarrow> addr option option" where
  "ipc_lock ids perm_of i =
     (let lid = lid_of i in
      if lid \<ge> length (entries ids) then Some None
      else case entries ids ! lid of
        None \<Rightarrow> Some None
      | Some out \<Rightarrow> do {
          perm \<leftarrow> perm_of out;
          if deleted perm then Some None else Some (Some out)
        })"

definition ipc_get :: "ipc_ids \<Rightarrow> int \<Rightarrow> addr option" where
  "ipc_get ids i =
     (let lid = lid_of i in if lid \<ge> length (entries ids) then None else entries ids ! lid)"

definition ipc_buildid :: "int \<Rightarrow> ulong \<Rightarrow> int" where
  "ipc_buildid i sq = SEQ_MULTIPLIER * uint sq + i"

definition ipc_checkid :: "kern_ipc_perm \<Rightarrow> int \<Rightarrow> int" where
  "ipc_checkid ipcp i = (if i div SEQ_MULTIPLIER \<noteq> uint (seq ipcp) then 1 else 0)"

section \<open>The table\<close>

text \<open>The abstract view of a table: which object an index holds.\<close>

definition slot :: "ipc_ids \<Rightarrow> nat \<rightharpoonup> addr" where
  "slot ids l = (if l < length (entries ids) then entries ids ! l else None)"

text \<open>
  The table is in order: no object has two indices, \<^verbatim>\<open>max_id\<close> is the highest used index,
  \<^verbatim>\<open>in_use\<close> counts the used ones, and an identifier fits an \<^verbatim>\<open>int\<close>.
\<close>

definition used :: "addr option list \<Rightarrow> nat" where
  "used p = length (filter (\<lambda>e. e \<noteq> None) p)"

definition ids_ok :: "ipc_ids \<Rightarrow> bool" where
  "ids_ok ids \<longleftrightarrow> length (entries ids) \<le> 32768 \<and>
     (\<forall>l l' a. slot ids l = Some a \<and> slot ids l' = Some a \<longrightarrow> l = l') \<and>
     max_id ids = last_used (entries ids) (length (entries ids)) \<and>
     in_use ids = int (used (entries ids))"

lemma last_used_none: "\<forall>l < n. p ! l = None \<Longrightarrow> last_used p n = -1"
  by (induction n) auto

lemma last_used_range: "-1 \<le> last_used p n \<and> last_used p n < int n"
  by (induction n) auto

lemma last_used_some: "last_used p n \<noteq> -1 \<Longrightarrow> p ! nat (last_used p n) \<noteq> None"
  by (induction n) auto

lemma last_used_above: "last_used p n < int l \<Longrightarrow> l < n \<Longrightarrow> p ! l = None"
  by (induction n) (auto simp: less_Suc_eq split: if_splits)

lemma last_used_ge: "l < n \<Longrightarrow> p ! l \<noteq> None \<Longrightarrow> int l \<le> last_used p n"
  using last_used_above [of p n l] by force

lemma last_used_unique:
  assumes "-1 \<le> m" "m < int n" "m \<noteq> -1 \<Longrightarrow> p ! nat m \<noteq> None" "\<And>l. m < int l \<Longrightarrow> l < n \<Longrightarrow> p ! l = None"
  shows "last_used p n = m"
proof (rule antisym)
  show "last_used p n \<le> m"
  proof (rule ccontr)
    assume "\<not> ?thesis"
    then have "last_used p n \<noteq> -1" "m < last_used p n" using assms(1) by auto
    then have "p ! nat (last_used p n) = None"
      using assms(1) last_used_range [of p n] by (intro assms(4)) auto
    then show False using last_used_some \<open>last_used p n \<noteq> -1\<close> by blast
  qed
  show "m \<le> last_used p n"
  proof (cases "m = -1")
    case False
    then show ?thesis using assms(1-3) last_used_ge [of "nat m" n p] by simp
  qed (simp add: last_used_range)
qed

lemma last_used_insert:
  assumes "l < n" "n \<le> length p"
  shows "last_used (p[l := Some a]) n = max (int l) (last_used p n)"
proof (rule last_used_unique)
  show "p[l := Some a] ! nat (max (int l) (last_used p n)) \<noteq> None"
    using assms last_used_some [of p n] last_used_range [of p n]
    by (auto simp: max_def nth_list_update)
qed (use assms last_used_range [of p n] last_used_above [of p n] in \<open>auto simp: nth_list_update\<close>)

lemma last_used_delete:
  assumes "l < n" "n \<le> length p" "p ! l \<noteq> None"
  shows "last_used (p[l := None]) n =
           (if int l = last_used p n then last_used (p[l := None]) l else last_used p n)"
proof (cases "int l = last_used p n")
  case True
  have "last_used (p[l := None]) n = last_used (p[l := None]) l"
  proof (rule last_used_unique)
    show "p[l := None] ! k = None" if "last_used (p[l := None]) l < int k" "k < n" for k
      using that True last_used_above [of "p[l := None]" l k] last_used_above [of p n k] assms
      by (cases k l rule: linorder_cases) (auto simp: nth_list_update)
  qed (use last_used_range [of "p[l := None]" l] last_used_some [of "p[l := None]" l] assms in auto)
  then show ?thesis using True by simp
next
  case False
  have "last_used (p[l := None]) n = last_used p n"
    using False assms last_used_range [of p n] last_used_some [of p n] last_used_above [of p n]
    by (intro last_used_unique) (auto simp: nth_list_update)
  then show ?thesis using False by simp
qed

lemma last_used_grow: "last_used (p @ replicate k None) (length p + k) = last_used p (length p)"
  using last_used_range [of p "length p"] last_used_some [of p "length p"] last_used_above [of p "length p"]
  by (intro last_used_unique) (auto simp: nth_append)

lemma used_grow: "used (p @ replicate k None) = used p"
  by (simp add: used_def filter_empty_conv)

lemma used_insert:
  "l < length p \<Longrightarrow> p ! l = None \<Longrightarrow>
     used (p[l := Some a]) = Suc (used p)"
  unfolding used_def by (induction p arbitrary: l) (auto split: nat.split)

lemma used_delete:
  "l < length p \<Longrightarrow> p ! l \<noteq> None \<Longrightarrow>
     Suc (used (p[l := None])) = used p"
  unfolding used_def by (induction p arbitrary: l) (auto split: nat.split)

section \<open>The operations keep the table in order\<close>

lemma ipc_init_ids_ok: "ids_ok (ipc_init_ids n got)" "slot (ipc_init_ids n got) = Map.empty"
  by (auto simp: ids_ok_def slot_def ipc_init_ids_def Let_def fun_eq_iff last_used_none used_def filter_empty_conv)

lemma fold_clear: "k \<le> n \<Longrightarrow> n \<le> length p \<Longrightarrow> fold (\<lambda>i p. p[i := None]) [k..<n] p = take k p @ replicate (n - k) None @ drop n p"
proof (induction n)
  case (Suc n)
  show ?case
  proof (cases "k \<le> n")
    case True
    have "(take k p @ replicate (n - k) None @ drop n p)[n := None] = take k p @ replicate (Suc n - k) None @ drop (Suc n) p"
      using True Suc.prems by (intro nth_equalityI) (auto simp: nth_append nth_list_update min_def)
    then show ?thesis using True Suc by simp
  next
    case False
    with Suc.prems have "k = Suc n" by simp
    then show ?thesis by simp
  qed
qed simp

text \<open>
  Neither the old contents of the new memory nor the pointer behind the old table reach the result. \<open>unmapped_behind\<close> is the case that this pointer is read and is not mapped.
\<close>

definition unmapped_behind :: "ipc_ids \<Rightarrow> int \<Rightarrow> grow_mem option \<Rightarrow> bool" where
  "unmapped_behind ids newsize got \<longleftrightarrow>
     int (length (entries ids)) < min newsize IPCMNI \<and> (case got of None \<Rightarrow> False | Some (fresh, behind) \<Rightarrow> Option.is_none behind)"

lemma grow_copy:
  assumes "length es < n"
  obtains p where "memcpy (map fresh [0..<n]) 0 (es @ [w]) 0 (Suc (length es)) = Some p" "fold (\<lambda>i p. p[i := None]) [length es..<n] p = es @ replicate (n - length es) None"
  using assms by (simp add: memcpy_Some fold_clear)

lemma grow_ary_eq:
  "grow_ary ids n got =
     (let sz = int (length (entries ids)); n' = min n IPCMNI
      in if n' \<le> sz then Some (n', ids)
         else if got = None then Some (sz, ids)
         else if unmapped_behind ids n got \<or> at_nullentry ids then None
         else Some (n', ids\<lparr>entries := entries ids @ replicate (nat (n' - sz)) None\<rparr>))"
proof (cases "min n IPCMNI \<le> int (length (entries ids)) \<or> unmapped_behind ids n got")
  case True
  then show ?thesis by (auto simp: grow_ary_def unmapped_behind_def Let_def Option.is_none_def split: option.splits)
next
  case False
  let ?sz = "length (entries ids)" and ?n = "nat (min n IPCMNI)"
  have lt: "?sz < ?n" using False by linarith
  have d: "nat (min n IPCMNI - int ?sz) = ?n - ?sz" "(if n > IPCMNI then IPCMNI else n) = min n IPCMNI" by (simp_all add: nat_diff_distrib')
  show ?thesis
  proof (cases got)
    case (Some g)
    then obtain fresh w where g: "got = Some (fresh, Some w)"
      using False by (cases g) (auto simp: unmapped_behind_def Option.is_none_def)
    obtain p where p: "memcpy (map fresh [0..<?n]) 0 (entries ids @ [w]) 0 (Suc ?sz) = Some p" "fold (\<lambda>i p. p[i := None]) [?sz..<?n] p = entries ids @ replicate (?n - ?sz) None"
      using grow_copy [OF lt] by blast
    then show ?thesis using False unfolding grow_ary_def Let_def d g by simp
  qed (use False in \<open>auto simp: grow_ary_def Let_def\<close>)
qed

lemma grow_ary_ok:
  assumes "ids_ok ids" "grow_ary ids n got = Some (m, ids')"
  shows "ids_ok ids'" "slot ids' = slot ids" "m \<le> int (length (entries ids'))" "ids_seq ids' = ids_seq ids" "at_nullentry ids' = at_nullentry ids"
proof -
  have "slot (ids\<lparr>entries := entries ids @ replicate k None\<rparr>) = slot ids" for k
    by (auto simp: slot_def fun_eq_iff nth_append)
  with assms show "ids_ok ids'" "slot ids' = slot ids" "m \<le> int (length (entries ids'))" "ids_seq ids' = ids_seq ids" "at_nullentry ids' = at_nullentry ids"
    by (auto simp: grow_ary_eq ids_ok_def last_used_grow used_grow Let_def split: if_splits)
qed

lemma grow_ary_defined: "\<not> at_nullentry ids \<Longrightarrow> \<not> unmapped_behind ids n got \<Longrightarrow> grow_ary ids n got \<noteq> None"
  by (simp add: grow_ary_eq Let_def)

text \<open>The two ways in which growing the table fails: the pointer behind the old table, and a table that was never allocated.\<close>

lemma grow_ary_crash:
  "unmapped_behind ids n got \<Longrightarrow> grow_ary ids n got = None"
  "0 < n \<Longrightarrow> grow_ary (ipc_init_ids sz False) n (Some mem) = None"
  by (auto simp: grow_ary_eq Let_def unmapped_behind_def ipc_init_ids_def split: option.splits)

lemma free_index_spec:
  "i + n \<le> length p \<Longrightarrow>
     \<exists>r. free_index p i n = Some r \<and> (\<forall>l. r = Some l \<longrightarrow> l < length p \<and> p ! l = None) \<and>
         (r = None \<longrightarrow> (\<forall>l. i \<le> l \<and> l < i + n \<longrightarrow> p ! l \<noteq> None))"
proof (induction n arbitrary: i)
  case (Suc n)
  show ?case
  proof (cases "p ! i = None")
    case False
    with Suc.IH [of "Suc i"] Suc.prems show ?thesis
      by (auto simp: Suc_le_eq) (metis le_neq_implies_less)
  qed (use Suc.prems in auto)
qed auto

text \<open>Adding an object: the table is full, or a free index now holds it.\<close>

lemma ipc_addid_cases:
  assumes ok: "ids_ok ids" and new: "\<forall>l. slot ids l \<noteq> Some a" and defined: "grow_ary ids n got \<noteq> None"
  obtains (full) ids' where "ipc_addid ids a perm cur n got = Some (-1, ids', perm)" "ids_ok ids'" "slot ids' = slot ids" "at_nullentry ids' = at_nullentry ids"
  | (added) l ids' where
      "ipc_addid ids a perm cur n got = Some (int l, ids', perm\<lparr>cuid := euid cur, uid := euid cur,
          gid := egid cur, cgid := egid cur, seq := ucast (ids_seq ids), deleted := False\<rparr>)"
      "ids_ok ids'" "slot ids' = (slot ids)(l \<mapsto> a)" "slot ids l = None" "l < 32768" "at_nullentry ids' = at_nullentry ids"
proof -
  obtain m ids1 where g: "grow_ary ids n got = Some (m, ids1)" using defined by auto
  note ok1 = grow_ary_ok [OF ok g]
  have "nat m \<le> length (entries ids1)" using ok1(3) by simp
  then obtain r where r: "free_index (entries ids1) 0 (nat m) = Some r"
    "\<forall>l. r = Some l \<longrightarrow> l < length (entries ids1) \<and> entries ids1 ! l = None"
    using free_index_spec [of 0 "nat m" "entries ids1"] by auto
  show thesis
  proof (cases r)
    case None
    then show thesis using g r ok1 by (intro full [of ids1]) (simp_all add: ipc_addid_def)
  next
    case (Some l)
    then have l: "l < length (entries ids1)" "entries ids1 ! l = None" using r by auto
    let ?sq = "ids_seq ids1 + 1"
    define ids2 where "ids2 = ids1\<lparr>in_use := in_use ids1 + 1, max_id := max (int l) (max_id ids1),
        ids_seq := if ?sq > seq_max ids1 then 0 else ?sq, entries := (entries ids1)[l := Some a]\<rparr>"
    have "ipc_addid ids a perm cur n got = Some (int l, ids2, perm\<lparr>cuid := euid cur, uid := euid cur,
          gid := egid cur, cgid := egid cur, seq := ucast (ids_seq ids), deleted := False\<rparr>)"
      using g r Some ok1(4) by (auto simp: ipc_addid_def Let_def ids2_def max_def)
    moreover have s2: "slot ids2 = (slot ids)(l \<mapsto> a)"
      using l ok1(2) by (auto simp: slot_def ids2_def fun_eq_iff nth_list_update split: if_splits)
    moreover have "ids_ok ids2"
      using ok1(1) new l unfolding ids_ok_def s2 ok1(2)
      by (auto simp: ids2_def last_used_insert used_insert)
    moreover have "at_nullentry ids2 = at_nullentry ids" using ok1(5) by (simp add: ids2_def)
    moreover have "slot ids l = None" "l < 32768"
      using l ok1(1,2) by (auto simp: slot_def fun_eq_iff ids_ok_def split: if_splits)
    ultimately show thesis by (intro added)
  qed
qed

lemma ipc_rmid_ok:
  assumes ok: "ids_ok ids" and l: "slot ids (lid_of i) = Some a"
  obtains ids' where "ipc_rmid ids i = Some (a, ids')" "ids_ok ids'" "slot ids' = (slot ids)(lid_of i := None)" "at_nullentry ids' = at_nullentry ids"
proof -
  let ?l = "lid_of i" and ?p = "entries ids"
  have lt: "?l < length ?p" "?p ! ?l = Some a" using l by (auto simp: slot_def split: if_splits)
  define ids' where "ids' = ids\<lparr>entries := ?p[?l := None], in_use := in_use ids - 1,
     max_id := (if int ?l = max_id ids then last_used (?p[?l := None]) ?l else max_id ids)\<rparr>"
  have "ipc_rmid ids i = Some (a, ids')" using lt by (simp add: ipc_rmid_def Let_def ids'_def)
  moreover have "at_nullentry ids' = at_nullentry ids" by (simp add: ids'_def)
  moreover have s': "slot ids' = (slot ids)(?l := None)"
    using lt by (auto simp: slot_def ids'_def fun_eq_iff nth_list_update)
  moreover have "ids_ok ids'"
    using ok lt used_delete [of ?l ?p] unfolding ids_ok_def s'
    by (auto simp: ids'_def last_used_delete simp del: last_used.simps)
  ultimately show thesis using that by blast
qed

lemma ipc_lock_slot:
  "ipc_lock ids perm_of i =
     (case slot ids (lid_of i) of
        None \<Rightarrow> Some None
      | Some a \<Rightarrow> do { perm \<leftarrow> perm_of a; if deleted perm then Some None else Some (Some a) })"
  by (simp add: ipc_lock_def slot_def Let_def not_less)

section \<open>Identifiers\<close>

lemma lid_of_buildid: "l < 32768 \<Longrightarrow> lid_of (ipc_buildid (int l) sq) = l"
  by (simp add: lid_of_def ipc_buildid_def)

lemma checkid_buildid: "l < 32768 \<Longrightarrow> ipc_checkid perm (ipc_buildid (int l) sq) = 0 \<longleftrightarrow> seq perm = sq"
  by (simp add: ipc_checkid_def ipc_buildid_def word_uint_eq_iff)

lemma checkid_eq: "0 \<le> i \<Longrightarrow> ipc_checkid perm i = 0 \<longleftrightarrow> i = ipc_buildid (int (lid_of i)) (seq perm)"
proof -
  have "i = 32768 * (i div 32768) + i mod 32768" by simp
  then have "i div 32768 = k \<longleftrightarrow> i = 32768 * k + i mod 32768" for k by (intro iffI) linarith+
  then show ?thesis by (simp add: ipc_checkid_def ipc_buildid_def lid_of_def)
qed

lemma buildid_range:
  "l < 32768 \<Longrightarrow> 0 \<le> ipc_buildid (int l) (ucast (q :: u16)) \<and> ipc_buildid (int l) (ucast q) \<le> INT_MAX"
proof -
  have q: "0 \<le> uint q" "uint q < 65536" using unsigned_greater_eq [of q, where 'a = int] unsigned_less [of q, where 'a = int] by simp_all
  then have "take_bit 64 (uint q) = uint q" by (intro take_bit_int_eq_self) simp_all
  then have "uint (ucast q :: ulong) = uint q" by (simp add: unsigned_ucast_eq)
  with q show "l < 32768 \<Longrightarrow> ?thesis" by (simp add: ipc_buildid_def)
qed

text \<open>The search for a key.\<close>

lemma findkey_loop_spec:
  assumes "i + n \<le> length p" "\<And>l a. l < length p \<Longrightarrow> p ! l = Some a \<Longrightarrow> perm_of a \<noteq> None"
  shows "\<exists>r. findkey_loop p perm_of k i n = Some r \<and>
     (r = -1 \<and> (\<forall>l a q. i \<le> l \<and> l < i + n \<and> p ! l = Some a \<and> perm_of a = Some q \<longrightarrow> key q \<noteq> k) \<or>
      (\<exists>l a q. r = int l \<and> l < length p \<and> p ! l = Some a \<and> perm_of a = Some q \<and> key q = k))"
  using assms(1)
proof (induction n arbitrary: i)
  case (Suc n)
  then have i: "i < length p" "Suc i + n \<le> length p" by auto
  obtain r where r: "findkey_loop p perm_of k (Suc i) n = Some r"
    "r = -1 \<and> (\<forall>l a q. Suc i \<le> l \<and> l < Suc i + n \<and> p ! l = Some a \<and> perm_of a = Some q \<longrightarrow> key q \<noteq> k) \<or>
     (\<exists>l a q. r = int l \<and> l < length p \<and> p ! l = Some a \<and> perm_of a = Some q \<and> key q = k)"
    using Suc.IH [OF i(2)] by blast
  have rest: "r = -1 \<and> (\<forall>l a q. i \<le> l \<and> l < i + Suc n \<and> p ! l = Some a \<and> perm_of a = Some q \<longrightarrow> key q \<noteq> k) \<or>
     (\<exists>l a q. r = int l \<and> l < length p \<and> p ! l = Some a \<and> perm_of a = Some q \<and> key q = k)"
    if "\<And>a q. p ! i = Some a \<Longrightarrow> perm_of a = Some q \<Longrightarrow> key q \<noteq> k"
    using r(2) that by (metis Suc_leI add_Suc add_Suc_right le_neq_implies_less)
  show ?case
  proof (cases "p ! i")
    case None
    then show ?thesis using r(1) rest i by simp
  next
    case (Some a)
    then obtain q where q: "perm_of a = Some q" using assms(2) i by blast
    show ?thesis
    proof (cases "key q = k")
      case True
      then have "findkey_loop p perm_of k i (Suc n) = Some (int i)" using Some q i by simp
      then show ?thesis using True Some q i by blast
    next
      case False
      then have "findkey_loop p perm_of k i (Suc n) = Some r" using Some q i r by auto
      then show ?thesis using rest False Some q by (metis option.inject)
    qed
  qed
qed auto

lemma ipc_findkey_spec:
  assumes "ids_ok ids" "\<And>l a. slot ids l = Some a \<Longrightarrow> perm_of a \<noteq> None"
  obtains (missing) "ipc_findkey ids perm_of k = Some (-1)"
      "\<forall>l a q. slot ids l = Some a \<and> perm_of a = Some q \<longrightarrow> key q \<noteq> k"
  | (found) l a q where "ipc_findkey ids perm_of k = Some (int l)" "slot ids l = Some a"
      "perm_of a = Some q" "key q = k"
proof -
  let ?p = "entries ids" and ?n = "nat (max_id ids + 1)"
  have mx: "max_id ids = last_used ?p (length ?p)" using assms(1) by (simp add: ids_ok_def)
  then have n: "?n \<le> length ?p" using last_used_range [of ?p "length ?p"] by linarith
  have "\<exists>r. findkey_loop ?p perm_of k 0 ?n = Some r \<and>
     (r = -1 \<and> (\<forall>l a q. 0 \<le> l \<and> l < 0 + ?n \<and> ?p ! l = Some a \<and> perm_of a = Some q \<longrightarrow> key q \<noteq> k) \<or>
      (\<exists>l a q. r = int l \<and> l < length ?p \<and> ?p ! l = Some a \<and> perm_of a = Some q \<and> key q = k))"
  proof (rule findkey_loop_spec)
    show "perm_of a \<noteq> None" if "l < length ?p" "?p ! l = Some a" for l a
      using that assms(2) [of l a] by (simp add: slot_def)
  qed (simp add: n)
  then obtain r where r: "findkey_loop ?p perm_of k 0 ?n = Some r"
     "r = -1 \<and> (\<forall>l a q. l < ?n \<and> ?p ! l = Some a \<and> perm_of a = Some q \<longrightarrow> key q \<noteq> k) \<or>
      (\<exists>l a q. r = int l \<and> l < length ?p \<and> ?p ! l = Some a \<and> perm_of a = Some q \<and> key q = k)"
    by auto
  from r(2) show thesis
  proof (elim disjE conjE exE)
    assume none: "r = -1" "\<forall>l a q. l < ?n \<and> ?p ! l = Some a \<and> perm_of a = Some q \<longrightarrow> key q \<noteq> k"
    have "l < ?n" if "slot ids l = Some a" for l a
    proof -
      have "int l \<le> max_id ids"
        using that last_used_ge [of l "length ?p" ?p] mx by (auto simp: slot_def split: if_splits)
      then show ?thesis by linarith
    qed
    moreover have "?p ! l = Some a" if "slot ids l = Some a" for l a
      using that by (simp add: slot_def split: if_splits)
    ultimately show thesis using none r(1) by (intro missing) (simp add: ipc_findkey_def, blast)
  qed (use r(1) in \<open>auto simp: ipc_findkey_def slot_def intro!: found\<close>)
qed

end
