(* ===== verification/Sem.thy ===== *)
theory Sem
  imports IpcUtil
begin

text \<open>
  System V semaphores, \<^verbatim>\<open>ipc/sem.c\<close>. Arrays, undo structures and undo lists live at
  addresses of an explicit store, so that use after free is a crash of the model; the
  linked lists through \<^verbatim>\<open>id_next\<close>, \<^verbatim>\<open>proc_next\<close> and \<^verbatim>\<open>sem_pending\<close> are lists of addresses, and a
  \<^verbatim>\<open>struct sem_queue\<close>, which lies on the stack of the sleeping task, is named by that task.

  The kernel is uniprocessor and not preemptive: a system call runs until it sleeps.
  The functions below are the pieces between two sleeping points. They return
  \<open>Ret r d\<close> when the call returns \<open>r\<close> (with the data \<open>d\<close> copied to the user) and \<open>Block pc\<close>
  when it sleeps at \<open>pc\<close>. What the surroundings decide (whether and where an allocation
  succeeds, what user memory holds) is an argument.
\<close>

unbundle bit_operations_syntax

section \<open>Data\<close>

type_synonym task = nat

record sem =
  semval :: int
  sempid :: int

text \<open>\<open>refcount\<close> is the counter of the \<^verbatim>\<open>ipc_rcu_hdr\<close> in front of the array.\<close>

record sem_array =
  refcount :: int
  sem_perm :: kern_ipc_perm
  sem_otime :: int
  sem_ctime :: int
  sem_base :: "sem list"
  sem_pending :: "task list"
  sem_undos :: "addr list"
  sem_nsems :: nat

record sembuf =
  sem_num :: u16
  sem_op :: u16
  sem_flg :: u16

text \<open>\<open>linked\<close> is \<^verbatim>\<open>q->prev != NULL\<close>.\<close>

record sem_queue =
  linked :: bool
  undo :: "addr option"
  q_pid :: int
  status :: int
  q_sma :: addr
  q_id :: int
  sops :: "sembuf list"
  alter :: bool

record sem_undo =
  semid :: int
  semadj :: "u16 list"

record sem_undo_list =
  refcnt :: int
  proc_list :: "addr list"

datatype task_state = TASK_RUNNING | TASK_INTERRUPTIBLE

text \<open>Where a task is inside a system call: the sleeping points of the file.\<close>

datatype sem_pc =
    Idle
  | Dead
  | In_retry int "sembuf list" bool
  | In_undo_alloc int "sembuf list" bool addr nat
  | Asleep bool
  | In_getall addr nat
  | In_setall addr nat

record task_struct =
  tgid :: int
  task_cred :: cred
  undo_list :: "addr option"
  tsk_state :: task_state
  queue :: sem_queue
  pc :: sem_pc

record semsys =
  sem_ids :: ipc_ids
  used_sems :: int
  smas :: "addr \<rightharpoonup> sem_array"
  undos :: "addr \<rightharpoonup> sem_undo"
  ulists :: "addr \<rightharpoonup> sem_undo_list"
  tasks :: "task \<Rightarrow> task_struct"
  seconds :: int
  sc_semmsl :: int
  sc_semmns :: int
  sc_semopm :: int
  sc_semmni :: int

abbreviation (input) SEMVMX :: int where "SEMVMX \<equiv> 32767"
abbreviation (input) SIZEOF_SEM_ARRAY :: int where "SIZEOF_SEM_ARRAY \<equiv> 104"
abbreviation (input) SIZEOF_SEM :: int where "SIZEOF_SEM \<equiv> 8"
abbreviation (input) SEMAEM :: int where "SEMAEM \<equiv> SEMVMX"
abbreviation (input) SEMMSL_FAST :: nat where "SEMMSL_FAST \<equiv> 256"
abbreviation (input) SEM_UNDO :: u16 where "SEM_UNDO \<equiv> 0x1000"
abbreviation (input) IPC_NOWAIT :: u16 where "IPC_NOWAIT \<equiv> 0x800"
abbreviation (input) IPC_CREAT :: u32 where "IPC_CREAT \<equiv> 0x200"
abbreviation (input) IPC_EXCL :: u32 where "IPC_EXCL \<equiv> 0x400"
abbreviation (input) IPC_PRIVATE :: int where "IPC_PRIVATE \<equiv> 0"
abbreviation (input) IN_WAKEUP :: int where "IN_WAKEUP \<equiv> 1"
abbreviation (input) CLONE_SYSVSEM :: ulong where "CLONE_SYSVSEM \<equiv> 0x40000"

abbreviation (input) GETPID :: int where "GETPID \<equiv> 11"
abbreviation (input) GETVAL :: int where "GETVAL \<equiv> 12"
abbreviation (input) GETALL :: int where "GETALL \<equiv> 13"
abbreviation (input) GETNCNT :: int where "GETNCNT \<equiv> 14"
abbreviation (input) GETZCNT :: int where "GETZCNT \<equiv> 15"
abbreviation (input) SETVAL :: int where "SETVAL \<equiv> 16"
abbreviation (input) SETALL :: int where "SETALL \<equiv> 17"
abbreviation (input) SEM_STAT :: int where "SEM_STAT \<equiv> 18"
abbreviation (input) SEM_INFO :: int where "SEM_INFO \<equiv> 19"
abbreviation (input) IPC_RMID :: int where "IPC_RMID \<equiv> 0"
abbreviation (input) IPC_SET :: int where "IPC_SET \<equiv> 1"
abbreviation (input) IPC_STAT :: int where "IPC_STAT \<equiv> 2"
abbreviation (input) IPC_INFO :: int where "IPC_INFO \<equiv> 3"

record seminfo =
  semmni :: int
  semmns :: int
  semmsl :: int
  semopm :: int
  semvmx :: int
  semmnu :: int
  semmap :: int
  semume :: int
  semusz :: int
  semaem :: int

record semid64_ds =
  ds_perm :: kern_ipc_perm
  ds_otime :: int
  ds_ctime :: int
  ds_nsems :: nat

datatype user_data = No_data | Info seminfo | Stat semid64_ds | Vals "u16 list"

datatype outcome = Ret int user_data | Block sem_pc

abbreviation ret :: "int \<Rightarrow> outcome" where "ret r \<equiv> Ret r No_data"

text \<open>
  The \<^verbatim>\<open>union semun\<close> argument as \<^verbatim>\<open>semctl\<close> reads it: the value, the user array and the
  \<^verbatim>\<open>IPC_SET\<close> buffer (\<open>None\<close> when \<^verbatim>\<open>copy_from_user\<close> faults), and whether \<^verbatim>\<open>copy_to_user\<close> works.
\<close>

record sem_setbuf =
  set_uid :: u32
  set_gid :: u32
  set_mode :: u32

record semun =
  arg_val :: int
  arg_array :: "(nat \<Rightarrow> u16) option"
  arg_buf :: "sem_setbuf option"
  copy_ok :: bool

section \<open>The store\<close>

definition perm_of :: "semsys \<Rightarrow> addr \<rightharpoonup> kern_ipc_perm" where
  "perm_of s a = map_option sem_perm (smas s a)"

definition set_sma :: "addr \<Rightarrow> sem_array \<Rightarrow> semsys \<Rightarrow> semsys" where
  "set_sma a sma s = s\<lparr>smas := (smas s)(a \<mapsto> sma)\<rparr>"

definition set_undo :: "addr \<Rightarrow> sem_undo \<Rightarrow> semsys \<Rightarrow> semsys" where
  "set_undo u un s = s\<lparr>undos := (undos s)(u \<mapsto> un)\<rparr>"

definition set_task :: "task \<Rightarrow> task_struct \<Rightarrow> semsys \<Rightarrow> semsys" where
  "set_task t tsk s = s\<lparr>tasks := (tasks s)(t := tsk)\<rparr>"

definition set_queue :: "task \<Rightarrow> sem_queue \<Rightarrow> semsys \<Rightarrow> semsys" where
  "set_queue t q s = set_task t ((tasks s t)\<lparr>queue := q\<rparr>) s"

definition sem_lock :: "int \<Rightarrow> semsys \<Rightarrow> addr option option" where
  "sem_lock i s = ipc_lock (sem_ids s) (perm_of s) i"

definition ipc_rcu_getref :: "addr \<Rightarrow> semsys \<Rightarrow> semsys option" where
  "ipc_rcu_getref a s = do {
     sma \<leftarrow> smas s a;
     Some (set_sma a (sma\<lparr>refcount := refcount sma + 1\<rparr>) s)
   }"

text \<open>
  \<^verbatim>\<open>ipc_rcu_putref\<close> drops a reference. The memory of an array without references is freed
  at the end of an RCU grace period, \<open>rcu_free\<close>, which can come whenever no task runs.
\<close>

definition ipc_rcu_putref :: "addr \<Rightarrow> semsys \<Rightarrow> semsys option" where
  "ipc_rcu_putref a s = do {
     sma \<leftarrow> smas s a;
     Some (set_sma a (sma\<lparr>refcount := refcount sma - 1\<rparr>) s)
   }"

definition rcu_free :: "semsys \<Rightarrow> semsys" where
  "rcu_free s = s\<lparr>smas := (\<lambda>a. case smas s a of
     None \<Rightarrow> None | Some sma \<Rightarrow> if refcount sma > 0 then Some sma else None)\<rparr>"

section \<open>Operations on one array\<close>

text \<open>
  The forward loop of \<^verbatim>\<open>try_atomic_semop\<close>: \<open>rdone\<close> are the operations applied so far, the last
  one first. It ends at the end of the sequence or at the first operation that cannot be
  done; \<open>adj\<close> is \<^verbatim>\<open>un->semadj\<close>, \<open>None\<close> for a null \<^verbatim>\<open>un\<close>.
\<close>

datatype semop_exit = Completed | Out_of_range | Would_block sembuf

definition undo_out_of_range :: "u16 list option \<Rightarrow> sembuf \<Rightarrow> bool option" where
  "undo_out_of_range adj sop =
     (if sem_flg sop AND SEM_UNDO \<noteq> 0
      then do {
        adj \<leftarrow> adj;
        if unat (sem_num sop) \<ge> length adj then None
        else let un = sint (adj ! unat (sem_num sop)) - sint (sem_op sop)
             in Some (un < - SEMAEM - 1 \<or> un > SEMAEM)
      }
      else Some False)"

fun semop_loop :: "u16 list option \<Rightarrow> sembuf list \<Rightarrow> sembuf list \<Rightarrow> sem list \<Rightarrow>
    (semop_exit \<times> sembuf list \<times> sem list) option" where
  "semop_loop adj rdone [] base = Some (Completed, rdone, base)"
| "semop_loop adj rdone (sop # rest) base =
     (if unat (sem_num sop) \<ge> length base then None
      else let curr = base ! unat (sem_num sop);
               oper = sint (sem_op sop);
               result = semval curr
           in if oper = 0 \<and> result \<noteq> 0 then Some (Would_block sop, rdone, base)
              else if result + oper < 0 then Some (Would_block sop, rdone, base)
              else if result + oper > SEMVMX then Some (Out_of_range, rdone, base)
              else case undo_out_of_range adj sop of
                  None \<Rightarrow> None
                | Some True \<Rightarrow> Some (Out_of_range, rdone, base)
                | Some False \<Rightarrow>
                    semop_loop adj (sop # rdone) rest
                      (base[unat (sem_num sop) := curr\<lparr>semval := result + oper\<rparr>]))"

text \<open>The backward loops: over the whole sequence after success, over the applied part otherwise.\<close>

fun semop_commit :: "int \<Rightarrow> sembuf list \<Rightarrow> sem list \<times> u16 list option \<Rightarrow> sem list \<times> u16 list option" where
  "semop_commit pid [] (base, adj) = (base, adj)"
| "semop_commit pid (sop # rdone) (base, adj) =
     (let n = unat (sem_num sop);
          base = base[n := (base ! n)\<lparr>sempid := pid\<rparr>];
          adj = (if sem_flg sop AND SEM_UNDO \<noteq> 0
                 then map_option (\<lambda>adj. adj[n := adj ! n - sem_op sop]) adj else adj)
      in semop_commit pid rdone (base, adj))"

fun semop_rollback :: "sembuf list \<Rightarrow> sem list \<Rightarrow> sem list" where
  "semop_rollback [] base = base"
| "semop_rollback (sop # rdone) base =
     (let n = unat (sem_num sop)
      in semop_rollback rdone (base[n := (base ! n)\<lparr>semval := semval (base ! n) - sint (sem_op sop)\<rparr>]))"

text \<open>The result, the semaphores and the adjustments; the third component of \<open>try_atomic\<close> tells whether \<^verbatim>\<open>sem_otime\<close> is set.\<close>

definition try_atomic :: "sem list \<Rightarrow> sembuf list \<Rightarrow> u16 list option \<Rightarrow> int \<Rightarrow>
    (int \<times> sem list \<times> u16 list option) option" where
  "try_atomic base ops adj pid = do {
     (ex, rdone, base) \<leftarrow> semop_loop adj [] ops base;
     case ex of
       Completed \<Rightarrow> Some (0, semop_commit pid rdone (base, adj))
     | Out_of_range \<Rightarrow> Some (- ERANGE, semop_rollback rdone base, adj)
     | Would_block sop \<Rightarrow>
         Some (if sem_flg sop AND IPC_NOWAIT \<noteq> 0 then - EAGAIN else 1, semop_rollback rdone base, adj)
   }"

text \<open>Reading and writing \<^verbatim>\<open>un->semadj\<close> through a pointer that may be null.\<close>

definition read_adj :: "addr option \<Rightarrow> semsys \<Rightarrow> u16 list option option" where
  "read_adj un s =
     (case un of None \<Rightarrow> Some None | Some u \<Rightarrow> map_option (\<lambda>un. Some (semadj un)) (undos s u))"

definition write_adj :: "addr option \<Rightarrow> u16 list option \<Rightarrow> semsys \<Rightarrow> semsys" where
  "write_adj un adj s =
     (case (un, adj) of
        (Some u, Some adj) \<Rightarrow>
          s\<lparr>undos := (undos s)(u := map_option (\<lambda>un. un\<lparr>semadj := adj\<rparr>) (undos s u))\<rparr>
      | _ \<Rightarrow> s)"

definition try_atomic_semop :: "addr \<Rightarrow> sembuf list \<Rightarrow> addr option \<Rightarrow> int \<Rightarrow> semsys \<Rightarrow> (int \<times> semsys) option" where
  "try_atomic_semop a ops un pid s = do {
     sma \<leftarrow> smas s a;
     adj \<leftarrow> read_adj un s;
     (r, base, adj) \<leftarrow> try_atomic (sem_base sma) ops adj pid;
     let sma = sma\<lparr>sem_base := base, sem_otime := (if r = 0 then seconds s else sem_otime sma)\<rparr>
     in Some (r, set_sma a sma (write_adj un adj s))
   }"

text \<open>
  The pending queue. \<^verbatim>\<open>remove_from_queue\<close> follows \<^verbatim>\<open>q->prev\<close>, which is null for an entry that
  is not linked.
\<close>

definition append_to_queue :: "addr \<Rightarrow> task \<Rightarrow> semsys \<Rightarrow> semsys option" where
  "append_to_queue a t s = do {
     sma \<leftarrow> smas s a;
     let s = set_sma a (sma\<lparr>sem_pending := sem_pending sma @ [t]\<rparr>) s
     in Some (set_queue t ((queue (tasks s t))\<lparr>linked := True\<rparr>) s)
   }"

definition prepend_to_queue :: "addr \<Rightarrow> task \<Rightarrow> semsys \<Rightarrow> semsys option" where
  "prepend_to_queue a t s = do {
     sma \<leftarrow> smas s a;
     let s = set_sma a (sma\<lparr>sem_pending := t # sem_pending sma\<rparr>) s
     in Some (set_queue t ((queue (tasks s t))\<lparr>linked := True\<rparr>) s)
   }"

definition remove_from_queue :: "addr \<Rightarrow> task \<Rightarrow> semsys \<Rightarrow> semsys option" where
  "remove_from_queue a t s = do {
     sma \<leftarrow> smas s a;
     if t \<notin> set (sem_pending sma) then None
     else let s = set_sma a (sma\<lparr>sem_pending := remove1 t (sem_pending sma)\<rparr>) s
          in Some (set_queue t ((queue (tasks s t))\<lparr>linked := False\<rparr>) s)
   }"

definition wake_up_process :: "task \<Rightarrow> semsys \<Rightarrow> semsys" where
  "wake_up_process t s = set_task t ((tasks s t)\<lparr>tsk_state := TASK_RUNNING\<rparr>) s"

definition set_status :: "task \<Rightarrow> int \<Rightarrow> semsys \<Rightarrow> semsys" where
  "set_status t r s = set_queue t ((queue (tasks s t))\<lparr>status := r\<rparr>) s"

definition pending_of :: "addr \<Rightarrow> semsys \<Rightarrow> task list" where
  "pending_of a s = (case smas s a of None \<Rightarrow> [] | Some sma \<Rightarrow> sem_pending sma)"

text \<open>Waking the entry \<open>t\<close> with result \<open>r\<close>, as the body of the loop does it.\<close>

definition finish_entry :: "addr \<Rightarrow> task \<Rightarrow> int \<Rightarrow> semsys \<Rightarrow> semsys option" where
  "finish_entry a t r s = do {
     s \<leftarrow> remove_from_queue a t s;
     Some (set_status t r (wake_up_process t (set_status t IN_WAKEUP s)))
   }"

lemma pending_try:
  "try_atomic_semop a ops un pid s = Some (r, s') \<Longrightarrow> pending_of a s' = pending_of a s"
  by (auto simp: try_atomic_semop_def pending_of_def bind_Some_iff set_sma_def write_adj_def Let_def)

lemma pending_finish:
  assumes "finish_entry a t r s = Some s'"
  shows "t \<in> set (pending_of a s)" and "pending_of a s' = remove1 t (pending_of a s)"
  using assms
  by (auto simp: finish_entry_def remove_from_queue_def pending_of_def bind_Some_iff set_sma_def
      set_status_def set_queue_def set_task_def wake_up_process_def Let_def split: if_splits)

lemma pending_round_less:
  assumes "try_atomic_semop a ops un pid s = Some (r, s1)" "finish_entry a t e s1 = Some s2"
  shows "length (pending_of a s2) < length (pending_of a s)"
  using pending_try [OF assms(1)] pending_finish [OF assms(2)]
  by (simp add: length_remove1) (metis diff_less length_pos_if_in_set zero_less_one One_nat_def)

text \<open>
  \<^verbatim>\<open>update_queue\<close>: the loop at the entry whose queue suffix is the first argument. An entry
  that altered the array restarts it at the head.
\<close>

function update_loop :: "addr \<Rightarrow> task list \<Rightarrow> semsys \<Rightarrow> semsys option" where
  "update_loop a [] s = Some s"
| "update_loop a (t # rest) s =
     (let q = queue (tasks s t) in
      case try_atomic_semop a (sops q) (undo q) (q_pid q) s of
        None \<Rightarrow> None
      | Some (error, s1) \<Rightarrow>
          if error \<le> 0
          then (case finish_entry a t error s1 of
                  None \<Rightarrow> None
                | Some s2 \<Rightarrow> update_loop a (if alter q then pending_of a s2 else rest) s2)
          else update_loop a rest s1)"
  by pat_completeness auto

termination
  by (relation "measures [\<lambda>(a, rest, s). length (pending_of a s), \<lambda>(a, rest, s). length rest]")
    (auto dest: pending_try pending_round_less)

definition update_queue :: "addr \<Rightarrow> semsys \<Rightarrow> semsys option" where
  "update_queue a s = do {
     sma \<leftarrow> smas s a;
     update_loop a (sem_pending sma) s
   }"

text \<open>The counts of \<^verbatim>\<open>GETNCNT\<close> and \<^verbatim>\<open>GETZCNT\<close>.\<close>

definition count_ops :: "(int \<Rightarrow> bool) \<Rightarrow> u16 \<Rightarrow> sembuf list \<Rightarrow> int" where
  "count_ops P semnum ops =
     int (length (filter (\<lambda>sop. sem_num sop = semnum \<and> P (sint (sem_op sop)) \<and>
                                sem_flg sop AND IPC_NOWAIT = 0) ops))"

definition count_semncnt :: "sem_array \<Rightarrow> u16 \<Rightarrow> semsys \<Rightarrow> int" where
  "count_semncnt sma semnum s =
     sum_list (map (\<lambda>t. count_ops (\<lambda>x. x < 0) semnum (sops (queue (tasks s t)))) (sem_pending sma))"

definition count_semzcnt :: "sem_array \<Rightarrow> u16 \<Rightarrow> semsys \<Rightarrow> int" where
  "count_semzcnt sma semnum s =
     sum_list (map (\<lambda>t. count_ops (\<lambda>x. x = 0) semnum (sops (queue (tasks s t)))) (sem_pending sma))"

section \<open>Creating and removing arrays\<close>

text \<open>
  The variable \<^verbatim>\<open>size\<close> of \<^verbatim>\<open>newary\<close>, an \<^verbatim>\<open>int\<close> that gets a \<^verbatim>\<open>size_t\<close>: \<^verbatim>\<open>struct sem_array\<close> has 104 bytes and \<^verbatim>\<open>struct sem\<close> 8.
\<close>

definition newary_size :: "int \<Rightarrow> int" where
  "newary_size nsems = to_int (SIZEOF_SEM_ARRAY + nsems * SIZEOF_SEM)"

text \<open>
  \<^verbatim>\<open>newary\<close>; \<open>mem\<close> is the memory the allocator returns for the array, with as many semaphores behind the structure as the size has room for,
  and \<open>got\<close> is what \<^verbatim>\<open>grow_ary\<close> gets. A negative size makes \<^verbatim>\<open>memset\<close> run through the memory, and with less than the structure the
  assignments leave the memory. The whole function runs with \<^verbatim>\<open>sem_ids.sem\<close> held.
\<close>

definition newary :: "task \<Rightarrow> int \<Rightarrow> int \<Rightarrow> u32 \<Rightarrow> addr option \<Rightarrow> grow_mem option \<Rightarrow> semsys \<Rightarrow> (int \<times> semsys) option" where
  "newary t k nsems semflg mem got s =
     (if nsems = 0 then Some (- EINVAL, s)
      else if to_int (used_sems s + nsems) > sc_semmns s then Some (- ENOSPC, s)
      else case mem of
        None \<Rightarrow> Some (- ENOMEM, s)
      | Some a \<Rightarrow>
          if newary_size nsems < SIZEOF_SEM_ARRAY then None else
          (let perm = \<lparr>deleted = False, key = k, uid = 0, gid = 0, cuid = 0, cgid = 0,
                       mode = semflg AND S_IRWXUGO, seq = 0\<rparr>;
               sma = \<lparr>refcount = 1, sem_perm = perm, sem_otime = 0, sem_ctime = 0,
                      sem_base = replicate (nat ((newary_size nsems - SIZEOF_SEM_ARRAY) div SIZEOF_SEM)) \<lparr>semval = 0, sempid = 0\<rparr>,
                      sem_pending = [], sem_undos = [], sem_nsems = 0\<rparr>;
               s = set_sma a sma s
           in do {
             (i, ids, perm) \<leftarrow> ipc_addid (sem_ids s) a perm (task_cred (tasks s t)) (sc_semmni s) got;
             let s = s\<lparr>sem_ids := ids\<rparr>
             in if i = -1
                then do { s \<leftarrow> ipc_rcu_putref a s; Some (- ENOSPC, s) }
                else let s = s\<lparr>used_sems := to_int (used_sems s + nsems)\<rparr>;
                         sma = sma\<lparr>sem_perm := perm, sem_nsems := nat nsems, sem_ctime := seconds s\<rparr>
                     in Some (ipc_buildid i (seq perm), set_sma a sma s)
           }))"

definition sys_semget :: "task \<Rightarrow> int \<Rightarrow> int \<Rightarrow> u32 \<Rightarrow> addr option \<Rightarrow> grow_mem option \<Rightarrow> semsys \<Rightarrow> (int \<times> semsys) option" where
  "sys_semget t k nsems semflg mem got s =
     (if nsems < 0 \<or> nsems > sc_semmsl s then Some (- EINVAL, s)
      else if k = IPC_PRIVATE then newary t k nsems semflg mem got s
      else do {
        i \<leftarrow> ipc_findkey (sem_ids s) (perm_of s) k;
        if i = -1
        then (if semflg AND IPC_CREAT = 0 then Some (- ENOENT, s)
              else newary t k nsems semflg mem got s)
        else if semflg AND IPC_CREAT \<noteq> 0 \<and> semflg AND IPC_EXCL \<noteq> 0 then Some (- EEXIST, s)
        else do {
          lk \<leftarrow> sem_lock i s;
          a \<leftarrow> lk;
          sma \<leftarrow> smas s a;
          if nsems > int (sem_nsems sma) then Some (- EINVAL, s)
          else if ipcperms (sem_perm sma) (task_cred (tasks s t)) (ucast semflg) \<noteq> 0 then Some (- EACCES, s)
          else Some (ipc_buildid i (seq (sem_perm sma)), s)
        }
      })"

text \<open>\<^verbatim>\<open>freeary\<close>: its two loops and the removal.\<close>

fun invalidate_undos :: "addr list \<Rightarrow> semsys \<Rightarrow> semsys option" where
  "invalidate_undos [] s = Some s"
| "invalidate_undos (u # us) s = do {
     un \<leftarrow> undos s u;
     invalidate_undos us (set_undo u (un\<lparr>semid := -1\<rparr>) s)
   }"

fun wake_all :: "task list \<Rightarrow> semsys \<Rightarrow> semsys" where
  "wake_all [] s = s"
| "wake_all (t # ts) s =
     (let s = set_queue t ((queue (tasks s t))\<lparr>linked := False\<rparr>) s;
          s = set_status t IN_WAKEUP s;
          s = wake_up_process t s;
          s = set_status t (- EIDRM) s
      in wake_all ts s)"

definition freeary :: "addr \<Rightarrow> int \<Rightarrow> semsys \<Rightarrow> semsys option" where
  "freeary a i s = do {
     sma \<leftarrow> smas s a;
     s \<leftarrow> invalidate_undos (sem_undos sma) s;
     let s = wake_all (sem_pending sma) s;
     (a, ids) \<leftarrow> ipc_rmid (sem_ids s) i;
     sma \<leftarrow> smas s a;
     let s = s\<lparr>sem_ids := ids\<rparr>;
     let s = set_sma a (sma\<lparr>sem_perm := mark_deleted (sem_perm sma)\<rparr>) s;
     let s = s\<lparr>used_sems := to_int (used_sems s - int (sem_nsems sma))\<rparr>;
     ipc_rcu_putref a s
   }"

section \<open>\<^verbatim>\<open>semctl\<close>\<close>

definition semid_ds_of :: "sem_array \<Rightarrow> semid64_ds" where
  "semid_ds_of sma = \<lparr>ds_perm = sem_perm sma, ds_otime = sem_otime sma,
     ds_ctime = sem_ctime sma, ds_nsems = sem_nsems sma\<rparr>"

definition semctl_nolock :: "task \<Rightarrow> int \<Rightarrow> int \<Rightarrow> semun \<Rightarrow> semsys \<Rightarrow> outcome option" where
  "semctl_nolock t i cmd arg s =
     (if cmd = IPC_INFO \<or> cmd = SEM_INFO then
        (let info = \<lparr>semmni = sc_semmni s, semmns = sc_semmns s, semmsl = sc_semmsl s,
                     semopm = sc_semopm s, semvmx = SEMVMX, semmnu = 32000, semmap = 32000,
                     semume = 32, semusz = (if cmd = SEM_INFO then in_use (sem_ids s) else 20),
                     semaem = (if cmd = SEM_INFO then used_sems s else SEMAEM)\<rparr>;
             m = max_id (sem_ids s)
         in if \<not> copy_ok arg then Some (ret (- EFAULT))
            else Some (Ret (if m < 0 then 0 else m) (Info info)))
      else if cmd = SEM_STAT then
        (if i \<ge> int (length (entries (sem_ids s))) then Some (ret (- EINVAL))
         else do {
           lk \<leftarrow> sem_lock i s;
           case lk of
             None \<Rightarrow> Some (ret (- EINVAL))
           | Some a \<Rightarrow> do {
               sma \<leftarrow> smas s a;
               if ipcperms (sem_perm sma) (task_cred (tasks s t)) S_IRUGO \<noteq> 0 then Some (ret (- EACCES))
               else if \<not> copy_ok arg then Some (ret (- EFAULT))
               else Some (Ret (ipc_buildid i (seq (sem_perm sma))) (Stat (semid_ds_of sma)))
             }
         })
      else Some (ret (- EINVAL)))"

text \<open>\<^verbatim>\<open>un->semadj[semnum] = 0\<close> and \<^verbatim>\<open>un->semadj[i] = 0\<close> for all \<open>i\<close>, along the undo list of an array.\<close>

fun clear_adj :: "nat \<Rightarrow> addr list \<Rightarrow> semsys \<Rightarrow> semsys option" where
  "clear_adj n [] s = Some s"
| "clear_adj n (u # us) s = do {
     un \<leftarrow> undos s u;
     if n \<ge> length (semadj un) then None
     else clear_adj n us (set_undo u (un\<lparr>semadj := (semadj un)[n := 0]\<rparr>) s)
   }"

fun clear_all_adj :: "nat \<Rightarrow> addr list \<Rightarrow> semsys \<Rightarrow> semsys option" where
  "clear_all_adj nsems [] s = Some s"
| "clear_all_adj nsems (u # us) s = do {
     un \<leftarrow> undos s u;
     if nsems > length (semadj un) then None
     else clear_all_adj nsems us
       (set_undo u (un\<lparr>semadj := replicate nsems 0 @ drop nsems (semadj un)\<rparr>) s)
   }"

definition semctl_setval :: "task \<Rightarrow> addr \<Rightarrow> nat \<Rightarrow> int \<Rightarrow> semsys \<Rightarrow> (int \<times> semsys) option" where
  "semctl_setval t a n val s =
     (if val > SEMVMX \<or> val < 0 then Some (- ERANGE, s)
      else do {
        sma \<leftarrow> smas s a;
        s \<leftarrow> clear_adj n (sem_undos sma) s;
        let s = set_sma a (sma\<lparr>sem_base := (sem_base sma)[n := \<lparr>semval = val, sempid = tgid (tasks s t)\<rparr>],
                               sem_ctime := seconds s\<rparr>) s;
        s \<leftarrow> update_queue a s;
        Some (0, s)
      })"

definition sem_values :: "sem_array \<Rightarrow> u16 list" where
  "sem_values sma = map (\<lambda>sm. of_int (semval sm)) (take (sem_nsems sma) (sem_base sma))"

definition semctl_main :: "task \<Rightarrow> int \<Rightarrow> int \<Rightarrow> int \<Rightarrow> semun \<Rightarrow> semsys \<Rightarrow> (outcome \<times> semsys) option" where
  "semctl_main t i semnum cmd arg s = do {
     lk \<leftarrow> sem_lock i s;
     case lk of
       None \<Rightarrow> Some (ret (- EINVAL), s)
     | Some a \<Rightarrow> do {
         sma \<leftarrow> smas s a;
         let nsems = sem_nsems sma;
         if ipc_checkid (sem_perm sma) i \<noteq> 0 then Some (ret (- EIDRM), s)
         else if ipcperms (sem_perm sma) (task_cred (tasks s t))
                   (if cmd = SETVAL \<or> cmd = SETALL then S_IWUGO else S_IRUGO) \<noteq> 0
         then Some (ret (- EACCES), s)
         else if cmd = GETALL then
           (if nsems > SEMMSL_FAST
            then do { s \<leftarrow> ipc_rcu_getref a s; Some (Block (In_getall a nsems), s) }
            else Some (if copy_ok arg then Ret 0 (Vals (sem_values sma)) else ret (- EFAULT), s))
         else if cmd = SETALL then
           do { s \<leftarrow> ipc_rcu_getref a s; Some (Block (In_setall a nsems), s) }
         else if cmd = IPC_STAT then
           Some (if copy_ok arg then Ret 0 (Stat (semid_ds_of sma)) else ret (- EFAULT), s)
         else if semnum < 0 \<or> semnum \<ge> int nsems then Some (ret (- EINVAL), s)
         else if nat semnum \<ge> length (sem_base sma) then None
         else (let curr = sem_base sma ! nat semnum in
           if cmd = GETVAL then Some (ret (semval curr), s)
           else if cmd = GETPID then Some (ret (sempid curr), s)
           else if cmd = GETNCNT then Some (ret (count_semncnt sma (of_int semnum) s), s)
           else if cmd = GETZCNT then Some (ret (count_semzcnt sma (of_int semnum) s), s)
           else if cmd = SETVAL then
             do { (r, s) \<leftarrow> semctl_setval t a (nat semnum) (arg_val arg) s; Some (ret r, s) }
           else Some (ret (- EINVAL), s))
       }
   }"

text \<open>The rest of \<^verbatim>\<open>GETALL\<close> and \<^verbatim>\<open>SETALL\<close> after the allocation and the copy, which may sleep.\<close>

definition getall_finish :: "addr \<Rightarrow> nat \<Rightarrow> bool \<Rightarrow> semun \<Rightarrow> semsys \<Rightarrow> (outcome \<times> semsys) option" where
  "getall_finish a nsems got arg s =
     (if \<not> got then do { s \<leftarrow> ipc_rcu_putref a s; Some (ret (- ENOMEM), s) }
      else do {
        s \<leftarrow> ipc_rcu_putref a s;
        sma \<leftarrow> smas s a;
        if deleted (sem_perm sma) then Some (ret (- EIDRM), s)
        else if sem_nsems sma > nsems then None
        else Some (if copy_ok arg then Ret 0 (Vals (sem_values sma)) else ret (- EFAULT), s)
      })"

definition setall_finish :: "addr \<Rightarrow> nat \<Rightarrow> bool \<Rightarrow> semun \<Rightarrow> semsys \<Rightarrow> (outcome \<times> semsys) option" where
  "setall_finish a nsems got arg s =
     (if nsems > SEMMSL_FAST \<and> \<not> got
      then do { s \<leftarrow> ipc_rcu_putref a s; Some (ret (- ENOMEM), s) }
      else case arg_array arg of
        None \<Rightarrow> do { s \<leftarrow> ipc_rcu_putref a s; Some (ret (- EFAULT), s) }
      | Some arr \<Rightarrow>
          (let sem_io = map arr [0..<nsems] in
           if list_ex (\<lambda>v. uint v > SEMVMX) sem_io
           then do { s \<leftarrow> ipc_rcu_putref a s; Some (ret (- ERANGE), s) }
           else do {
             s \<leftarrow> ipc_rcu_putref a s;
             sma \<leftarrow> smas s a;
             if deleted (sem_perm sma) then Some (ret (- EIDRM), s)
             else if nsems > length (sem_base sma) then None
             else do {
               let base = map2 (\<lambda>sm v. sm\<lparr>semval := uint v\<rparr>) (take nsems (sem_base sma)) sem_io
                          @ drop nsems (sem_base sma);
               let s = set_sma a (sma\<lparr>sem_base := base\<rparr>) s;
               s \<leftarrow> clear_all_adj nsems (sem_undos sma) s;
               let s = set_sma a (sma\<lparr>sem_base := base, sem_ctime := seconds s\<rparr>) s;
               s \<leftarrow> update_queue a s;
               Some (ret 0, s)
             }
           }))"

definition semctl_down :: "task \<Rightarrow> int \<Rightarrow> int \<Rightarrow> semun \<Rightarrow> semsys \<Rightarrow> (int \<times> semsys) option" where
  "semctl_down t i cmd arg s =
     (if cmd = IPC_SET \<and> arg_buf arg = None then Some (- EFAULT, s)
      else do {
        lk \<leftarrow> sem_lock i s;
        case lk of
          None \<Rightarrow> Some (- EINVAL, s)
        | Some a \<Rightarrow> do {
            sma \<leftarrow> smas s a;
            let ipcp = sem_perm sma;
            let cur = task_cred (tasks s t);
            if ipc_checkid ipcp i \<noteq> 0 then Some (- EIDRM, s)
            else if euid cur \<noteq> cuid ipcp \<and> euid cur \<noteq> uid ipcp \<and> \<not> cap_sys_admin cur then Some (- EPERM, s)
            else if cmd = IPC_RMID then do { s \<leftarrow> freeary a i s; Some (0, s) }
            else if cmd = IPC_SET then do {
              setbuf \<leftarrow> arg_buf arg;
              let ipcp = ipcp\<lparr>uid := set_uid setbuf, gid := set_gid setbuf,
                              mode := (mode ipcp AND NOT S_IRWXUGO) OR (set_mode setbuf AND S_IRWXUGO)\<rparr>;
              Some (0, set_sma a (sma\<lparr>sem_perm := ipcp, sem_ctime := seconds s\<rparr>) s)
            }
            else Some (- EINVAL, s)
          }
      })"

definition sys_semctl :: "task \<Rightarrow> int \<Rightarrow> int \<Rightarrow> int \<Rightarrow> semun \<Rightarrow> semsys \<Rightarrow> (outcome \<times> semsys) option" where
  "sys_semctl t i semnum cmd arg s =
     (if i < 0 then Some (ret (- EINVAL), s)
      else if cmd \<in> {IPC_INFO, SEM_INFO, SEM_STAT}
      then do { r \<leftarrow> semctl_nolock t i cmd arg s; Some (r, s) }
      else if cmd \<in> {GETALL, GETVAL, GETPID, GETNCNT, GETZCNT, IPC_STAT, SETVAL, SETALL}
      then semctl_main t i semnum cmd arg s
      else if cmd \<in> {IPC_RMID, IPC_SET}
      then do { (r, s) \<leftarrow> semctl_down t i cmd arg s; Some (ret r, s) }
      else Some (ret (- EINVAL), s))"

section \<open>Undo structures\<close>

text \<open>\<^verbatim>\<open>get_undo_list\<close>; \<open>mem\<close> is the memory for a new list. The locks around the list are no-ops here.\<close>

definition get_undo_list :: "task \<Rightarrow> addr option \<Rightarrow> semsys \<Rightarrow> (int + addr) \<times> semsys" where
  "get_undo_list t mem s =
     (case undo_list (tasks s t) of
        Some ul \<Rightarrow> (Inr ul, s)
      | None \<Rightarrow>
          (case mem of
             None \<Rightarrow> (Inl (- ENOMEM), s)
           | Some ul \<Rightarrow>
               (let s = s\<lparr>ulists := (ulists s)(ul \<mapsto> \<lparr>refcnt = 1, proc_list = []\<rparr>)\<rparr>
                in (Inr ul, set_task t ((tasks s t)\<lparr>undo_list := Some ul\<rparr>) s))))"

text \<open>The loop of \<^verbatim>\<open>lookup_undo\<close>: it frees the invalidated structures it passes.\<close>

fun lookup_loop :: "int \<Rightarrow> addr list \<Rightarrow> (addr \<rightharpoonup> sem_undo) \<Rightarrow> (addr option \<times> addr list \<times> (addr \<rightharpoonup> sem_undo)) option" where
  "lookup_loop i [] us = Some (None, [], us)"
| "lookup_loop i (u # rest) us =
     (case us u of
        None \<Rightarrow> None
      | Some un \<Rightarrow>
          if semid un = i then Some (Some u, u # rest, us)
          else if semid un = -1 then lookup_loop i rest (us(u := None))
          else (case lookup_loop i rest us of
                  None \<Rightarrow> None
                | Some (r, l, us) \<Rightarrow> Some (r, u # l, us)))"

definition lookup_undo :: "addr \<Rightarrow> int \<Rightarrow> semsys \<Rightarrow> (addr option \<times> semsys) option" where
  "lookup_undo ul i s = do {
     ulp \<leftarrow> ulists s ul;
     (r, l, us) \<leftarrow> lookup_loop i (proc_list ulp) (undos s);
     Some (r, s\<lparr>ulists := (ulists s)(ul \<mapsto> ulp\<lparr>proc_list := l\<rparr>), undos := us\<rparr>)
   }"

text \<open>
  \<^verbatim>\<open>find_undo\<close> up to its allocation, which may sleep: it has found a structure, failed, or goes on
  in \<open>find_undo_finish\<close> with a reference to the array.
\<close>

datatype undo_search = Found addr | Failed int | Allocate addr nat

definition find_undo :: "task \<Rightarrow> int \<Rightarrow> addr option \<Rightarrow> semsys \<Rightarrow> (undo_search \<times> semsys) option" where
  "find_undo t i mem s =
     (case get_undo_list t mem s of
        (Inl error, s) \<Rightarrow> Some (Failed error, s)
      | (Inr ulp, s) \<Rightarrow> do {
          (un, s) \<leftarrow> lookup_undo ulp i s;
          case un of
            Some u \<Rightarrow> Some (Found u, s)
          | None \<Rightarrow> do {
              lk \<leftarrow> sem_lock i s;
              case lk of
                None \<Rightarrow> Some (Failed (- EINVAL), s)
              | Some a \<Rightarrow> do {
                  sma \<leftarrow> smas s a;
                  if ipc_checkid (sem_perm sma) i \<noteq> 0 then Some (Failed (- EIDRM), s)
                  else do { s \<leftarrow> ipc_rcu_getref a s; Some (Allocate a (sem_nsems sma), s) }
                }
            }
        })"

definition find_undo_finish :: "task \<Rightarrow> int \<Rightarrow> addr \<Rightarrow> nat \<Rightarrow> addr option \<Rightarrow> semsys \<Rightarrow> (undo_search \<times> semsys) option" where
  "find_undo_finish t i a nsems mem s =
     (case mem of
        None \<Rightarrow> do { s \<leftarrow> ipc_rcu_putref a s; Some (Failed (- ENOMEM), s) }
      | Some new \<Rightarrow> do {
          ulp \<leftarrow> undo_list (tasks s t);
          (un, s) \<leftarrow> lookup_undo ulp i s;
          case un of
            Some u \<Rightarrow> do { s \<leftarrow> ipc_rcu_putref a s; Some (Found u, s) }
          | None \<Rightarrow> do {
              s \<leftarrow> ipc_rcu_putref a s;
              sma \<leftarrow> smas s a;
              if deleted (sem_perm sma) then Some (Failed (- EIDRM), s)
              else do {
                ul \<leftarrow> ulists s ulp;
                let s = set_undo new \<lparr>semid = i, semadj = replicate nsems 0\<rparr> s;
                let s = s\<lparr>ulists := (ulists s)(ulp \<mapsto> ul\<lparr>proc_list := new # proc_list ul\<rparr>)\<rparr>;
                let s = set_sma a (sma\<lparr>sem_undos := new # sem_undos sma\<rparr>) s;
                Some (Found new, s)
              }
            }
        })"

section \<open>\<^verbatim>\<open>semop\<close>\<close>

definition ops_max :: "sembuf list \<Rightarrow> nat" where
  "ops_max ops = foldl (\<lambda>m sop. if unat (sem_num sop) \<ge> m then unat (sem_num sop) else m) 0 ops"

definition ops_undos :: "sembuf list \<Rightarrow> nat" where
  "ops_undos ops = length (filter (\<lambda>sop. sem_flg sop AND SEM_UNDO \<noteq> 0) ops)"

definition ops_alter :: "sembuf list \<Rightarrow> bool" where
  "ops_alter ops \<longleftrightarrow> list_ex (\<lambda>sop. sint (sem_op sop) > 0) ops \<or> list_ex (\<lambda>sop. sint (sem_op sop) < 0) ops"

text \<open>From \<^verbatim>\<open>sem_lock\<close> to the point where the call returns or sleeps; \<open>un\<close> is the undo structure.\<close>

definition semop_locked :: "task \<Rightarrow> int \<Rightarrow> sembuf list \<Rightarrow> bool \<Rightarrow> addr option \<Rightarrow> semsys \<Rightarrow> (outcome \<times> semsys) option" where
  "semop_locked t i ops timeout un s = do {
     lk \<leftarrow> sem_lock i s;
     case lk of
       None \<Rightarrow> Some (ret (- EINVAL), s)
     | Some a \<Rightarrow> do {
         sma \<leftarrow> smas s a;
         if ipc_checkid (sem_perm sma) i \<noteq> 0 then Some (ret (- EIDRM), s)
         else do {
           stale \<leftarrow> (case un of None \<Rightarrow> Some False | Some u \<Rightarrow> map_option (\<lambda>un. semid un = -1) (undos s u));
           if stale then Some (Block (In_retry i ops timeout), s)
           else if ops_max ops \<ge> sem_nsems sma then Some (ret (- EFBIG), s)
           else if ipcperms (sem_perm sma) (task_cred (tasks s t))
                     (if ops_alter ops then S_IWUGO else S_IRUGO) \<noteq> 0
           then Some (ret (- EACCES), s)
           else do {
             (error, s) \<leftarrow> try_atomic_semop a ops un (tgid (tasks s t)) s;
             if error \<le> 0
             then do {
               s \<leftarrow> (if ops_alter ops \<and> error = 0 then update_queue a s else Some s);
               Some (ret error, s)
             }
             else do {
               let s = set_queue t \<lparr>linked = False, undo = un, q_pid = tgid (tasks s t),
                         status = - EINTR, q_sma = a, q_id = i, sops = ops, alter = ops_alter ops\<rparr> s;
               s \<leftarrow> (if ops_alter ops then append_to_queue a t s else prepend_to_queue a t s);
               Some (Block (Asleep timeout), set_task t ((tasks s t)\<lparr>tsk_state := TASK_INTERRUPTIBLE\<rparr>) s)
             }
           }
         }
       }
   }"

text \<open>From \<^verbatim>\<open>retry_undos\<close> on.\<close>

definition semop_undos :: "task \<Rightarrow> int \<Rightarrow> sembuf list \<Rightarrow> bool \<Rightarrow> addr option \<Rightarrow> semsys \<Rightarrow> (outcome \<times> semsys) option" where
  "semop_undos t i ops timeout mem s =
     (if ops_undos ops \<noteq> 0
      then do {
        (r, s) \<leftarrow> find_undo t i mem s;
        case r of
          Found u \<Rightarrow> semop_locked t i ops timeout (Some u) s
        | Failed error \<Rightarrow> Some (ret error, s)
        | Allocate a nsems \<Rightarrow> Some (Block (In_undo_alloc i ops timeout a nsems), s)
      }
      else semop_locked t i ops timeout None s)"

definition semop_undo_alloc :: "task \<Rightarrow> int \<Rightarrow> sembuf list \<Rightarrow> bool \<Rightarrow> addr \<Rightarrow> nat \<Rightarrow> addr option \<Rightarrow> semsys \<Rightarrow> (outcome \<times> semsys) option" where
  "semop_undo_alloc t i ops timeout a nsems mem s = do {
     (r, s) \<leftarrow> find_undo_finish t i a nsems mem s;
     case r of
       Found u \<Rightarrow> semop_locked t i ops timeout (Some u) s
     | Failed error \<Rightarrow> Some (ret error, s)
     | Allocate a nsems \<Rightarrow> None
   }"

text \<open>
  \<^verbatim>\<open>sys_semtimedop\<close>: \<open>user_ops\<close> is the user's array and \<open>timeout\<close> the user's timespec, \<open>None\<close> inside
  when reading it faults; \<open>got\<close> tells whether a long sequence gets its buffer.
\<close>

definition sys_semtimedop :: "task \<Rightarrow> int \<Rightarrow> (nat \<Rightarrow> sembuf) option \<Rightarrow> nat \<Rightarrow> (int \<times> int) option option \<Rightarrow>
    bool \<Rightarrow> addr option \<Rightarrow> semsys \<Rightarrow> (outcome \<times> semsys) option" where
  "sys_semtimedop t i user_ops nsops timeout got mem s =
     (if nsops < 1 \<or> i < 0 then Some (ret (- EINVAL), s)
      else if int nsops > uint (of_int (sc_semopm s) :: u32) then Some (ret (- E2BIG), s)
      else if nsops > 64 \<and> \<not> got then Some (ret (- ENOMEM), s)
      else case user_ops of
        None \<Rightarrow> Some (ret (- EFAULT), s)
      | Some f \<Rightarrow>
          (case timeout of
             Some None \<Rightarrow> Some (ret (- EFAULT), s)
           | Some (Some (tv_sec, tv_nsec)) \<Rightarrow>
               if tv_sec < 0 \<or> tv_nsec < 0 \<or> tv_nsec \<ge> 1000000000 then Some (ret (- EINVAL), s)
               else semop_undos t i (map f [0..<nsops]) True mem s
           | None \<Rightarrow> semop_undos t i (map f [0..<nsops]) False mem s))"

text \<open>
  After \<^verbatim>\<open>schedule\<close>: \<open>expired\<close> is \<^verbatim>\<open>jiffies_left == 0\<close>. With one processor a status of
  \<open>IN_WAKEUP\<close> would never change, so the loop that waits for it counts as a crash.
\<close>

definition semop_wake :: "task \<Rightarrow> bool \<Rightarrow> bool \<Rightarrow> semsys \<Rightarrow> (outcome \<times> semsys) option" where
  "semop_wake t timeout expired s =
     (let q = queue (tasks s t) in
      if status q = IN_WAKEUP then None
      else if status q \<noteq> - EINTR then Some (ret (status q), s)
      else do {
        lk \<leftarrow> sem_lock (q_id q) s;
        case lk of
          None \<Rightarrow> if linked q then None else Some (ret (- EIDRM), s)
        | Some a \<Rightarrow> do {
            s \<leftarrow> remove_from_queue a t s;
            Some (ret (if timeout \<and> expired then - EAGAIN else - EINTR), s)
          }
      })"

section \<open>\<^verbatim>\<open>clone\<close> and \<^verbatim>\<open>exit\<close>\<close>

definition copy_semundo :: "task \<Rightarrow> ulong \<Rightarrow> task \<Rightarrow> addr option \<Rightarrow> semsys \<Rightarrow> (int \<times> semsys) option" where
  "copy_semundo t clone_flags tsk mem s =
     (if clone_flags AND CLONE_SYSVSEM \<noteq> 0
      then (case get_undo_list t mem s of
              (Inl error, s) \<Rightarrow> Some (error, s)
            | (Inr ul, s) \<Rightarrow> do {
                ulp \<leftarrow> ulists s ul;
                let s = s\<lparr>ulists := (ulists s)(ul \<mapsto> ulp\<lparr>refcnt := refcnt ulp + 1\<rparr>)\<rparr>;
                Some (0, set_task tsk ((tasks s tsk)\<lparr>undo_list := Some ul\<rparr>) s)
              })
      else Some (0, set_task tsk ((tasks s tsk)\<lparr>undo_list := None\<rparr>) s))"

text \<open>The adjustment that \<^verbatim>\<open>exit_sem\<close> makes to one semaphore.\<close>

definition exit_adjust :: "int \<Rightarrow> sem \<Rightarrow> u16 \<Rightarrow> sem" where
  "exit_adjust pid sm adj =
     (if adj = 0 then sm
      else let v = semval sm + sint adj;
               v = (if v < 0 then 0 else v);
               v = (if v > SEMVMX then SEMVMX else v)
           in \<lparr>semval = v, sempid = pid\<rparr>)"

text \<open>The body of the loop of \<^verbatim>\<open>exit_sem\<close> for the undo structure \<open>u\<close>; \<open>pid\<close> is \<^verbatim>\<open>current->tgid\<close>.\<close>

definition exit_undo :: "int \<Rightarrow> addr \<Rightarrow> semsys \<Rightarrow> semsys option" where
  "exit_undo pid u s = do {
     un \<leftarrow> undos s u;
     if semid un = -1 then Some s
     else do {
       lk \<leftarrow> sem_lock (semid un) s;
       case lk of
         None \<Rightarrow> Some s
       | Some a \<Rightarrow> do {
           sma \<leftarrow> smas s a;
           BUG_ON (ipc_checkid (sem_perm sma) (semid un) \<noteq> 0);
           if u \<notin> set (sem_undos sma) then Some s
           else if sem_nsems sma > length (semadj un) \<or> sem_nsems sma > length (sem_base sma) then None
           else do {
             let n = sem_nsems sma;
             let base = map2 (exit_adjust pid) (take n (sem_base sma)) (take n (semadj un)) @ drop n (sem_base sma);
             let s = set_sma a (sma\<lparr>sem_undos := remove1 u (sem_undos sma), sem_base := base,
                                    sem_otime := seconds s\<rparr>) s;
             update_queue a s
           }
         }
     }
   }"

fun exit_loop :: "int \<Rightarrow> addr \<Rightarrow> addr list \<Rightarrow> semsys \<Rightarrow> semsys option" where
  "exit_loop pid ul [] s = Some s"
| "exit_loop pid ul (u # us) s = do {
     s \<leftarrow> exit_undo pid u s;
     ulp \<leftarrow> ulists s ul;
     exit_loop pid ul us
       (s\<lparr>ulists := (ulists s)(ul \<mapsto> ulp\<lparr>proc_list := us\<rparr>), undos := (undos s)(u := None)\<rparr>)
   }"

definition exit_sem :: "int \<Rightarrow> task \<Rightarrow> semsys \<Rightarrow> semsys option" where
  "exit_sem pid tsk s =
     (case undo_list (tasks s tsk) of
        None \<Rightarrow> Some s
      | Some ul \<Rightarrow> do {
          ulp \<leftarrow> ulists s ul;
          let s = s\<lparr>ulists := (ulists s)(ul \<mapsto> ulp\<lparr>refcnt := refcnt ulp - 1\<rparr>)\<rparr>;
          if refcnt ulp - 1 \<noteq> 0 then Some s
          else do {
            s \<leftarrow> exit_loop pid ul (proc_list ulp) s;
            Some (s\<lparr>ulists := (ulists s)(ul := None)\<rparr>)
          }
        })"

section \<open>The system\<close>

text \<open>
  Any number of tasks, each at one sleeping point. A step lets one task run to its next
  sleeping point (\<open>Idle\<close> is also where a task is while it runs in the kernel); a grace period may end, time may pass and the limits may be changed through
  \<^verbatim>\<open>sysctl\<close>, within the range of \<open>ctls_ok\<close>, in between. An allocation returns memory that is not in use.
\<close>

definition resume_to :: "task \<Rightarrow> outcome \<Rightarrow> semsys \<Rightarrow> semsys" where
  "resume_to t r s =
     set_task t ((tasks s t)\<lparr>pc := (case r of Ret _ _ \<Rightarrow> Idle | Block p \<Rightarrow> p)\<rparr>) s"

definition running :: "task \<Rightarrow> semsys \<Rightarrow> semsys" where
  "running t s = set_task t ((tasks s t)\<lparr>pc := Idle\<rparr>) s"

definition dying :: "task \<Rightarrow> semsys \<Rightarrow> semsys" where
  "dying t s = set_task t ((tasks s t)\<lparr>pc := Dead\<rparr>) s"

definition fresh :: "addr option \<Rightarrow> (addr \<rightharpoonup> 'a) \<Rightarrow> bool" where
  "fresh mem m \<longleftrightarrow> (case mem of None \<Rightarrow> True | Some a \<Rightarrow> m a = None)"

text \<open>
  The limits that the system is run with: each is an \<^verbatim>\<open>int\<close>, and the size of a set of \<open>sc_semmsl\<close> semaphores is an \<^verbatim>\<open>int\<close> as well.
  \<^verbatim>\<open>sem.h\<close> asks for 8000 at most; \<^verbatim>\<open>sysctl\<close> itself takes any \<^verbatim>\<open>int\<close>.
\<close>

definition ctls_ok :: "semsys \<Rightarrow> bool" where
  "ctls_ok s \<longleftrightarrow> list_all (\<lambda>c. - INT_MAX - 1 \<le> c \<and> c \<le> INT_MAX) [sc_semmsl s, sc_semmns s, sc_semopm s, sc_semmni s] \<and>
     SIZEOF_SEM_ARRAY + sc_semmsl s * SIZEOF_SEM \<le> INT_MAX"

inductive sem_step :: "semsys \<Rightarrow> semsys \<Rightarrow> bool" where
  semget: "pc (tasks s t) = Idle \<Longrightarrow> fresh mem (smas s) \<Longrightarrow>
     sys_semget t k nsems semflg mem got s = Some (r, s') \<Longrightarrow> sem_step s s'"
| semctl: "pc (tasks s t) = Idle \<Longrightarrow> sys_semctl t i semnum cmd arg s = Some (r, s') \<Longrightarrow>
     sem_step s (resume_to t r s')"
| getall: "pc (tasks s t) = In_getall a nsems \<Longrightarrow> getall_finish a nsems got arg (running t s) = Some (r, s') \<Longrightarrow>
     sem_step s (resume_to t r s')"
| setall: "pc (tasks s t) = In_setall a nsems \<Longrightarrow> setall_finish a nsems got arg (running t s) = Some (r, s') \<Longrightarrow>
     sem_step s (resume_to t r s')"
| semop: "pc (tasks s t) = Idle \<Longrightarrow> fresh mem (ulists s) \<Longrightarrow>
     sys_semtimedop t i user_ops nsops timeout got mem s = Some (r, s') \<Longrightarrow>
     sem_step s (resume_to t r s')"
| retry: "pc (tasks s t) = In_retry i ops timeout' \<Longrightarrow> fresh mem (ulists s) \<Longrightarrow>
     semop_undos t i ops timeout' mem (running t s) = Some (r, s') \<Longrightarrow> sem_step s (resume_to t r s')"
| undo_alloc: "pc (tasks s t) = In_undo_alloc i ops timeout' a nsems \<Longrightarrow> fresh mem (undos s) \<Longrightarrow>
     semop_undo_alloc t i ops timeout' a nsems mem (running t s) = Some (r, s') \<Longrightarrow>
     sem_step s (resume_to t r s')"
| wake: "pc (tasks s t) = Asleep timeout' \<Longrightarrow> semop_wake t timeout' expired s = Some (r, s') \<Longrightarrow>
     sem_step s (resume_to t r s')"
| clone: "pc (tasks s t) = Idle \<Longrightarrow> pc (tasks s tsk) = Dead \<Longrightarrow> fresh mem (ulists s) \<Longrightarrow>
     copy_semundo t flags tsk mem s = Some (r, s') \<Longrightarrow>
     sem_step s (if r = 0 then set_task tsk ((tasks s' tsk)\<lparr>pc := Idle\<rparr>) s' else s')"
| exit: "pc (tasks s t) = Idle \<Longrightarrow> exit_sem (tgid (tasks s t)) t (dying t s) = Some s' \<Longrightarrow> sem_step s s'"
| grace: "sem_step s (rcu_free s)"
| tick: "sem_step s (s\<lparr>seconds := now\<rparr>)"
| sysctl: "s' = s\<lparr>sc_semmsl := a1, sc_semmns := a2, sc_semopm := a3, sc_semmni := a4\<rparr> \<Longrightarrow> ctls_ok s' \<Longrightarrow> sem_step s s'"

text \<open>
  \<^verbatim>\<open>sem_init\<close>: the state in which the first tasks start, none of them inside a call. The table of identifiers has been allocated.
\<close>

definition sem_start :: "semsys \<Rightarrow> bool" where
  "sem_start s \<longleftrightarrow>
     sem_ids s = ipc_init_ids (sc_semmni s) True \<and> ctls_ok s \<and> used_sems s = 0 \<and>
     smas s = Map.empty \<and> undos s = Map.empty \<and> ulists s = Map.empty \<and>
     finite {t. pc (tasks s t) \<noteq> Dead} \<and>
     (\<forall>t. pc (tasks s t) \<in> {Idle, Dead} \<and> undo_list (tasks s t) = None)"

section \<open>One sequence of operations\<close>

text \<open>What a sequence adds to semaphore \<open>n\<close>, and what it subtracts from its adjustment.\<close>

definition delta :: "sembuf list \<Rightarrow> nat \<Rightarrow> int" where
  "delta ops n = sum_list (map (\<lambda>sop. sint (sem_op sop)) (filter (\<lambda>sop. unat (sem_num sop) = n) ops))"

definition undo_delta :: "sembuf list \<Rightarrow> nat \<Rightarrow> u16" where
  "undo_delta ops n =
     sum_list (map sem_op (filter (\<lambda>sop. unat (sem_num sop) = n \<and> sem_flg sop AND SEM_UNDO \<noteq> 0) ops))"

definition sems_ok :: "sem list \<Rightarrow> bool" where
  "sems_ok base \<longleftrightarrow> (\<forall>sm \<in> set base. 0 \<le> semval sm \<and> semval sm \<le> SEMVMX)"

definition ops_ok :: "nat \<Rightarrow> u16 list option \<Rightarrow> sembuf list \<Rightarrow> bool" where
  "ops_ok nsems adj ops \<longleftrightarrow>
     (\<forall>sop \<in> set ops. unat (sem_num sop) < nsems \<and>
        (sem_flg sop AND SEM_UNDO \<noteq> 0 \<longrightarrow> (\<exists>l. adj = Some l \<and> unat (sem_num sop) < length l)))"

lemma delta_Nil [simp]: "delta [] n = 0"
  by (simp add: delta_def)

lemma delta_Cons [simp]:
  "delta (sop # ops) n = (if unat (sem_num sop) = n then sint (sem_op sop) else 0) + delta ops n"
  by (simp add: delta_def)

lemma delta_rev [simp]: "delta (rev ops) n = delta ops n"
  by (simp add: delta_def sum_list.rev flip: rev_filter rev_map)

lemma undo_delta_Nil [simp]: "undo_delta [] n = 0"
  by (simp add: undo_delta_def)

lemma undo_delta_Cons [simp]:
  "undo_delta (sop # ops) n =
     (if unat (sem_num sop) = n \<and> sem_flg sop AND SEM_UNDO \<noteq> 0 then sem_op sop else 0) + undo_delta ops n"
  by (simp add: undo_delta_def)

lemma undo_delta_rev [simp]: "undo_delta (rev ops) n = undo_delta ops n"
  by (simp add: undo_delta_def sum_list.rev flip: rev_filter rev_map)

lemma ops_ok_Cons [simp]:
  "ops_ok nsems adj (sop # ops) \<longleftrightarrow> unat (sem_num sop) < nsems \<and>
     (sem_flg sop AND SEM_UNDO \<noteq> 0 \<longrightarrow> (\<exists>l. adj = Some l \<and> unat (sem_num sop) < length l)) \<and> ops_ok nsems adj ops"
  by (simp add: ops_ok_def)

lemma ops_ok_Nil [simp]: "ops_ok nsems adj []"
  by (simp add: ops_ok_def)

lemma sems_ok_update: "sems_ok base \<Longrightarrow> 0 \<le> semval sm \<Longrightarrow> semval sm \<le> SEMVMX \<Longrightarrow> sems_ok (base[n := sm])"
  by (auto simp: sems_ok_def dest!: set_update_subset_insert [THEN subsetD])

lemma undo_out_of_range_some:
  assumes "sem_flg sop AND SEM_UNDO \<noteq> 0 \<longrightarrow> (\<exists>l. adj = Some l \<and> unat (sem_num sop) < length l)"
  shows "undo_out_of_range adj sop \<noteq> None"
  using assms by (auto simp: undo_out_of_range_def Let_def)

text \<open>The forward loop never leaves the arrays, and running it backwards restores them.\<close>

lemma semop_loop_some:
  "ops_ok (length base) adj ops \<Longrightarrow> semop_loop adj rdone ops base \<noteq> None"
proof (induction adj rdone ops base rule: semop_loop.induct)
  case (2 adj rdone sop rest base)
  then show ?case
    using undo_out_of_range_some [of sop adj]
    by (auto simp: Let_def split: option.splits bool.splits)
qed simp

lemma semop_loop_rollback:
  "semop_loop adj rdone ops base = Some (ex, rdone', base') \<Longrightarrow>
     semop_rollback rdone' base' = semop_rollback rdone base"
proof (induction adj rdone ops base rule: semop_loop.induct)
  case (2 adj rdone sop rest base)
  then show ?case
    by (auto simp: Let_def split: option.splits bool.splits if_splits)
qed simp

lemma semop_loop_length:
  "semop_loop adj rdone ops base = Some (ex, rdone', base') \<Longrightarrow> length base' = length base"
proof (induction adj rdone ops base rule: semop_loop.induct)
  case (2 adj rdone sop rest base)
  then show ?case
    by (auto simp: Let_def split: option.splits bool.splits if_splits)
qed simp

lemma semop_loop_completed:
  "semop_loop adj rdone ops base = Some (Completed, rdone', base') \<Longrightarrow>
     rdone' = rev ops @ rdone \<and>
     (\<forall>n < length base. base' ! n = (base ! n)\<lparr>semval := semval (base ! n) + delta ops n\<rparr>)"
proof (induction adj rdone ops base rule: semop_loop.induct)
  case (2 adj rdone sop rest base)
  then show ?case
    by (auto simp: Let_def nth_list_update split: option.splits bool.splits if_splits)
qed simp

lemma semop_loop_sems_ok:
  "semop_loop adj rdone ops base = Some (ex, rdone', base') \<Longrightarrow> sems_ok base \<Longrightarrow> sems_ok base'"
proof (induction adj rdone ops base rule: semop_loop.induct)
  case (2 adj rdone sop rest base)
  then show ?case
    by (auto simp: Let_def sems_ok_update split: option.splits bool.splits if_splits)
qed simp

text \<open>What the loop does depends on the values alone.\<close>

lemma semop_loop_vals:
  "map semval base = map semval base2 \<Longrightarrow>
     map_option (\<lambda>(ex, r, b). (ex, r, map semval b)) (semop_loop adj rdone ops base) =
     map_option (\<lambda>(ex, r, b). (ex, r, map semval b)) (semop_loop adj rdone ops base2)"
proof (induction ops arbitrary: rdone base base2)
  case (Cons sop rest)
  let ?n = "unat (sem_num sop)"
  have len: "length base = length base2" using Cons.prems by (metis length_map)
  show ?case
  proof (cases "?n < length base")
    case True
    have v: "semval (base ! ?n) = semval (base2 ! ?n)"
      using Cons.prems True len by (metis nth_map)
    have "map semval (base[?n := (base ! ?n)\<lparr>semval := k\<rparr>]) = map semval (base2[?n := (base2 ! ?n)\<lparr>semval := k\<rparr>])" for k
      using Cons.prems by (simp add: map_update)
    note IH = Cons.IH [OF this, of "sop # rdone"]
    have "?n < length base2" using True len by simp
    with True show ?thesis
      by (simp add: Let_def v IH Cons.prems split: option.split bool.split)
  qed (simp add: len)
qed simp

text \<open>The operation at which a blocked sequence stops.\<close>

lemma semop_loop_block:
  "semop_loop adj rdone ops base = Some (Would_block sop, rdone', base') \<Longrightarrow> sems_ok base \<Longrightarrow>
     sop \<in> set ops \<and> sint (sem_op sop) \<le> 0"
proof (induction ops arbitrary: rdone base)
  case (Cons x rest)
  let ?n = "unat (sem_num x)"
  have n: "?n < length base" using Cons.prems by (simp split: if_splits)
  then have pos: "0 \<le> semval (base ! ?n)" using Cons.prems(2) by (simp add: sems_ok_def)
  show ?case
  proof (cases "sop = x \<and> sint (sem_op sop) \<le> 0")
    case False
    then have "\<exists>b. semop_loop adj (x # rdone) rest (base[?n := b]) = Some (Would_block sop, rdone', base')
        \<and> 0 \<le> semval b \<and> semval b \<le> SEMVMX"
      using Cons.prems(1) n pos
      by (auto simp: Let_def split: option.splits bool.splits if_splits)
    then show ?thesis using Cons.IH Cons.prems(2) sems_ok_update by (metis list.set_intros(2))
  qed auto
qed simp

text \<open>The two backward loops.\<close>

lemma map_semval_pid: "map semval (base[n := (base ! n)\<lparr>sempid := p\<rparr>]) = map semval base"
  by (cases "n < length base") (simp_all add: map_update list_update_same_conv list_update_beyond)

lemma semop_commit_base:
  "semop_commit pid rdone (base, adj) = (base', adj') \<Longrightarrow>
     length base' = length base \<and> map semval base' = map semval base"
proof (induction rdone arbitrary: base adj)
  case (Cons sop rdone)
  let ?b = "base[unat (sem_num sop) := (base ! unat (sem_num sop))\<lparr>sempid := pid\<rparr>]"
  have "\<exists>a. semop_commit pid rdone (?b, a) = (base', adj')"
    using Cons.prems by (simp add: Let_def split: if_splits) blast+
  then show ?case using Cons.IH [of ?b] map_semval_pid [of base] by auto
qed simp

lemma semop_commit_None: "semop_commit pid rdone (base, None) = (base', adj') \<Longrightarrow> adj' = None"
  by (induction rdone arbitrary: base) (auto simp: Let_def split: if_splits)

lemma semop_commit_Some:
  "semop_commit pid rdone (base, Some l) = (base', adj') \<Longrightarrow>
     \<exists>l'. adj' = Some l' \<and> length l' = length l \<and> (\<forall>n < length l. l' ! n = l ! n - undo_delta rdone n)"
proof (induction rdone arbitrary: base l)
  case (Cons sop rdone)
  let ?n = "unat (sem_num sop)"
  let ?l = "if sem_flg sop AND SEM_UNDO \<noteq> 0 then l[?n := l ! ?n - sem_op sop] else l"
  have "semop_commit pid rdone (base[?n := (base ! ?n)\<lparr>sempid := pid\<rparr>], Some ?l) = (base', adj')"
    using Cons.prems by (simp add: Let_def split: if_splits)
  from Cons.IH [OF this] show ?case by (auto simp: nth_list_update split: if_splits)
qed auto

section \<open>\<^verbatim>\<open>try_atomic_semop\<close>\<close>

lemma try_atomic_some: "ops_ok (length base) adj ops \<Longrightarrow> try_atomic base ops adj pid \<noteq> None"
  using semop_loop_some [of base adj ops "[]"]
  by (cases "semop_loop adj [] ops base") (auto simp: try_atomic_def split: semop_exit.split)

lemma try_atomic_fail:
  assumes "try_atomic base ops adj pid = Some (r, base', adj')" "r \<noteq> 0"
  shows "base' = base" and "adj' = adj" and "r \<in> {1, - EAGAIN, - ERANGE}"
proof -
  obtain ex rd b where l: "semop_loop adj [] ops base = Some (ex, rd, b)"
    using assms by (auto simp: try_atomic_def bind_Some_iff)
  then have "semop_rollback rd b = base" using semop_loop_rollback by fastforce
  with assms l show "base' = base" "adj' = adj" "r \<in> {1, - EAGAIN, - ERANGE}"
    by (cases ex; auto simp: try_atomic_def split: if_splits)+
qed

lemma try_atomic_done:
  assumes "try_atomic base ops adj pid = Some (0, base', adj')"
  obtains b where "semop_loop adj [] ops base = Some (Completed, rev ops, b)"
    and "semop_commit pid (rev ops) (b, adj) = (base', adj')"
proof -
  obtain ex rd b where l: "semop_loop adj [] ops base = Some (ex, rd, b)"
    using assms by (auto simp: try_atomic_def bind_Some_iff)
  then have ex: "ex = Completed" using assms by (cases ex) (auto simp: try_atomic_def split: if_splits)
  then have "rd = rev ops" using semop_loop_completed l by fastforce
  with assms l ex show ?thesis by (intro that) (auto simp: try_atomic_def)
qed

lemma try_atomic_vals:
  assumes "try_atomic base ops adj pid = Some (0, base', adj')" "n < length base"
  shows "semval (base' ! n) = semval (base ! n) + delta ops n"
proof -
  obtain b where b: "semop_loop adj [] ops base = Some (Completed, rev ops, b)"
    "semop_commit pid (rev ops) (b, adj) = (base', adj')"
    using try_atomic_done [OF assms(1)] .
  have "map semval base' = map semval b" "length base' = length b" "length b = length base"
    using semop_commit_base [OF b(2)] semop_loop_length [OF b(1)] by simp_all
  then have "semval (base' ! n) = semval (b ! n)" using assms(2) by (metis nth_map)
  then show ?thesis using semop_loop_completed [OF b(1)] assms(2) by simp
qed

lemma try_atomic_length:
  assumes "try_atomic base ops adj pid = Some (r, base', adj')"
  shows "length base' = length base"
proof (cases "r = 0")
  case True
  then obtain b where "semop_loop adj [] ops base = Some (Completed, rev ops, b)"
    "semop_commit pid (rev ops) (b, adj) = (base', adj')"
    using try_atomic_done assms by metis
  then show ?thesis using semop_commit_base semop_loop_length by metis
next
  case False
  then show ?thesis using try_atomic_fail(1) [OF assms] by simp
qed

lemma sems_ok_map: "map semval b = map semval b' \<Longrightarrow> sems_ok b = sems_ok b'"
proof -
  have "sems_ok b \<longleftrightarrow> (\<forall>v \<in> set (map semval b). 0 \<le> v \<and> v \<le> SEMVMX)" for b by (simp add: sems_ok_def)
  then show "map semval b = map semval b' \<Longrightarrow> ?thesis" by presburger
qed

lemma try_atomic_sems_ok:
  assumes "try_atomic base ops adj pid = Some (r, base', adj')" "sems_ok base"
  shows "sems_ok base'"
proof (cases "r = 0")
  case True
  then obtain b where "semop_loop adj [] ops base = Some (Completed, rev ops, b)"
    "semop_commit pid (rev ops) (b, adj) = (base', adj')"
    using try_atomic_done assms by metis
  then show ?thesis using semop_commit_base semop_loop_sems_ok sems_ok_map assms(2) by metis
next
  case False
  then show ?thesis using try_atomic_fail(1) [OF assms(1)] assms(2) by simp
qed

text \<open>Adjustments: only a sequence that succeeds changes them, and it keeps their number.\<close>

lemma try_atomic_adj:
  assumes "try_atomic base ops adj pid = Some (r, base', adj')"
  shows "map_option length adj' = map_option length adj"
    and "adj = Some l \<Longrightarrow> r = 0 \<Longrightarrow> \<exists>l'. adj' = Some l' \<and> (\<forall>n < length l. l' ! n = l ! n - undo_delta ops n)"
proof -
  have "map_option length adj' = map_option length adj \<and>
     (\<forall>l. adj = Some l \<longrightarrow> r = 0 \<longrightarrow> (\<exists>l'. adj' = Some l' \<and> (\<forall>n < length l. l' ! n = l ! n - undo_delta ops n)))"
  proof (cases "r = 0")
    case True
    then obtain b where b: "semop_commit pid (rev ops) (b, adj) = (base', adj')"
      using try_atomic_done assms by metis
    show ?thesis
    proof (cases adj)
      case None
      then show ?thesis using semop_commit_None b by auto
    next
      case (Some l)
      then show ?thesis using semop_commit_Some [of pid "rev ops" b l] b by auto
    qed
  next
    case False
    then show ?thesis using try_atomic_fail [OF assms] by simp
  qed
  then show "map_option length adj' = map_option length adj"
    and "adj = Some l \<Longrightarrow> r = 0 \<Longrightarrow> \<exists>l'. adj' = Some l' \<and> (\<forall>n < length l. l' ! n = l ! n - undo_delta ops n)"
    by auto
qed

text \<open>A sequence is blocked when it would have to sleep; that depends on the values alone.\<close>

definition blocked :: "sem list \<Rightarrow> u16 list option \<Rightarrow> sembuf list \<Rightarrow> bool" where
  "blocked base adj ops \<longleftrightarrow> (\<exists>r. map_option fst (try_atomic base ops adj 0) = Some r \<and> r > 0)"

lemma try_atomic_result:
  assumes "map semval base = map semval base2"
  shows "map_option fst (try_atomic base ops adj pid) = map_option fst (try_atomic base2 ops adj pid2)"
proof -
  have "map_option fst (try_atomic b ops adj p) =
      map_option (\<lambda>(ex, r, v). case ex of Completed \<Rightarrow> 0 | Out_of_range \<Rightarrow> - ERANGE
          | Would_block sop \<Rightarrow> (if sem_flg sop AND IPC_NOWAIT \<noteq> 0 then - EAGAIN else 1))
        (map_option (\<lambda>(ex, r, b). (ex, r, map semval b)) (semop_loop adj [] ops b))" for b p
    by (cases "semop_loop adj [] ops b") (auto simp: try_atomic_def split: semop_exit.split)
  then show ?thesis using semop_loop_vals [OF assms] by simp
qed

lemma blocked_iff:
  "blocked base adj ops \<longleftrightarrow> try_atomic base ops adj pid = Some (1, base, adj)"
proof -
  have *: "map_option fst (try_atomic base ops adj 0) = map_option fst (try_atomic base ops adj pid)"
    by (rule try_atomic_result [OF refl])
  show ?thesis
    unfolding blocked_def * using try_atomic_fail [of base ops adj pid]
    by (cases "try_atomic base ops adj pid") auto
qed

lemma blocked_vals: "map semval base = map semval base2 \<Longrightarrow> blocked base adj ops = blocked base2 adj ops"
  unfolding blocked_def using try_atomic_result [of base base2 ops adj 0 0] by simp

lemma not_alter_zero: "\<not> ops_alter ops \<longleftrightarrow> (\<forall>sop \<in> set ops. sem_op sop = 0)"
proof -
  have "sint (w :: u16) = 0 \<longleftrightarrow> w = 0" for w by (rule signed_eq_0_iff)
  then show ?thesis unfolding ops_alter_def list_ex_iff by (metis linorder_less_linear less_irrefl)
qed

end
