(* ===== verification/SemScan.thy ===== *)
theory SemScan
  imports Sem
begin

text \<open>
  The scan of the pending queue, \<^verbatim>\<open>update_queue\<close> of \<^verbatim>\<open>ipc/sem.c\<close>: what it may change, that it
  returns, and that every entry it leaves behind really has to wait.
\<close>

unbundle bit_operations_syntax

section \<open>What a scan of the pending queue may change\<close>

text \<open>
  The effect of \<^verbatim>\<open>update_queue\<close> on array \<open>a\<close>: the entries \<open>W\<close> leave the queue with a final status,
  values and adjustments change within their bounds, nothing else does.
\<close>

definition undo_shape :: "sem_undo \<Rightarrow> int \<times> nat" where
  "undo_shape un = (semid un, length (semadj un))"

definition woken :: "int \<Rightarrow> task_struct \<Rightarrow> task_struct" where
  "woken r tsk = tsk\<lparr>tsk_state := TASK_RUNNING, queue := (queue tsk)\<lparr>linked := False, status := r\<rparr>\<rparr>"

definition sma_frame :: "task set \<Rightarrow> sem_array \<Rightarrow> sem_array \<Rightarrow> bool" where
  "sma_frame W sma sma' \<longleftrightarrow>
     refcount sma' = refcount sma \<and> deleted (sem_perm sma') = deleted (sem_perm sma) \<and>
     seq (sem_perm sma') = seq (sem_perm sma) \<and> sem_undos sma' = sem_undos sma \<and>
     sem_nsems sma' = sem_nsems sma \<and> length (sem_base sma') = length (sem_base sma) \<and>
     (sems_ok (sem_base sma) \<longrightarrow> sems_ok (sem_base sma')) \<and>
     sem_pending sma' = filter (\<lambda>t. t \<notin> W) (sem_pending sma) \<and> W \<subseteq> set (sem_pending sma)"

definition queue_step :: "addr \<Rightarrow> task set \<Rightarrow> semsys \<Rightarrow> semsys \<Rightarrow> bool" where
  "queue_step a W s s' \<longleftrightarrow>
     (\<exists>sma sma' us ts. smas s a = Some sma \<and>
        s' = s\<lparr>smas := (smas s)(a \<mapsto> sma'), undos := us, tasks := ts\<rparr> \<and> sma_frame W sma sma' \<and>
        (\<forall>u. u \<notin> set (sem_undos sma) \<longrightarrow> us u = undos s u) \<and>
        (\<forall>u. map_option undo_shape (us u) = map_option undo_shape (undos s u)) \<and>
        (\<forall>t. t \<notin> W \<longrightarrow> ts t = tasks s t) \<and>
        (\<forall>t \<in> W. \<exists>r \<in> {0, - EAGAIN, - ERANGE}. ts t = woken r (tasks s t)))"

lemma queue_stepI:
  assumes "smas s a = Some sma" "s' = s\<lparr>smas := (smas s)(a \<mapsto> sma'), undos := us, tasks := ts\<rparr>"
    "sma_frame W sma sma'" "\<And>u. u \<notin> set (sem_undos sma) \<Longrightarrow> us u = undos s u"
    "\<And>u. map_option undo_shape (us u) = map_option undo_shape (undos s u)"
    "\<And>t. t \<notin> W \<Longrightarrow> ts t = tasks s t"
    "\<And>t. t \<in> W \<Longrightarrow> \<exists>r \<in> {0, - EAGAIN, - ERANGE}. ts t = woken r (tasks s t)"
  shows "queue_step a W s s'"
  using assms unfolding queue_step_def by blast

lemma sma_frame_refl: "sma_frame {} sma sma"
  by (simp add: sma_frame_def)

lemma sma_frame_trans: "sma_frame W x y \<Longrightarrow> sma_frame W' y z \<Longrightarrow> sma_frame (W \<union> W') x z"
  by (auto simp: sma_frame_def intro!: filter_cong)

lemma queue_step_refl: "smas s a = Some sma \<Longrightarrow> queue_step a {} s s"
  by (rule queue_stepI [where sma = sma and sma' = sma and us = "undos s" and ts = "tasks s"]) (simp_all add: sma_frame_refl map_upd_triv)

lemma queue_step_trans:
  assumes 1: "queue_step a W s s1" and 2: "queue_step a W' s1 s2"
  shows "queue_step a (W \<union> W') s s2"
proof -
  obtain sma sma1 us ts where s: "smas s a = Some sma"
    "s1 = s\<lparr>smas := (smas s)(a \<mapsto> sma1), undos := us, tasks := ts\<rparr>" "sma_frame W sma sma1"
    "\<forall>u. u \<notin> set (sem_undos sma) \<longrightarrow> us u = undos s u"
    "\<forall>u. map_option undo_shape (us u) = map_option undo_shape (undos s u)"
    "\<forall>t. t \<notin> W \<longrightarrow> ts t = tasks s t"
    "\<forall>t \<in> W. \<exists>r \<in> {0, - EAGAIN, - ERANGE}. ts t = woken r (tasks s t)"
    using 1 unfolding queue_step_def by blast
  obtain sma2 us2 ts2 where s2:
    "s2 = s1\<lparr>smas := (smas s1)(a \<mapsto> sma2), undos := us2, tasks := ts2\<rparr>" "sma_frame W' sma1 sma2"
    "\<forall>u. u \<notin> set (sem_undos sma1) \<longrightarrow> us2 u = us u"
    "\<forall>u. map_option undo_shape (us2 u) = map_option undo_shape (us u)"
    "\<forall>t. t \<notin> W' \<longrightarrow> ts2 t = ts t"
    "\<forall>t \<in> W'. \<exists>r \<in> {0, - EAGAIN, - ERANGE}. ts2 t = woken r (ts t)"
    using 2 s unfolding queue_step_def by auto
  have t: "\<exists>r \<in> {0, - EAGAIN, - ERANGE}. ts2 t = woken r (tasks s t)" if "t \<in> W \<union> W'" for t
  proof (cases "t \<in> W'")
    case True
    then have "t \<notin> W" using s(3) s2(2) by (auto simp: sma_frame_def)
    then show ?thesis using True s(6) s2(6) by metis
  next
    case False
    then show ?thesis using that s(7) s2(5) by (metis Un_iff)
  qed
  have u: "sem_undos sma1 = sem_undos sma" using s(3) by (simp add: sma_frame_def)
  show ?thesis
    by (rule queue_stepI [OF s(1) _ sma_frame_trans [OF s(3) s2(2)], where us = us2 and ts = ts2])
      (use s s2 t u in auto)
qed

section \<open>Scanning the queue\<close>

text \<open>An entry that \<^verbatim>\<open>try_atomic_semop\<close> can work on, and one that has to stay.\<close>

definition entry_valid :: "semsys \<Rightarrow> sem_array \<Rightarrow> task \<Rightarrow> bool" where
  "entry_valid s sma t \<longleftrightarrow>
     (let q = queue (tasks s t) in
      (\<forall>sop \<in> set (sops q). unat (sem_num sop) < sem_nsems sma) \<and>
      (undo q = None \<longrightarrow> ops_undos (sops q) = 0) \<and>
      (\<forall>u. undo q = Some u \<longrightarrow> u \<in> set (sem_undos sma)) \<and>
      alter q = ops_alter (sops q))"

definition array_valid :: "semsys \<Rightarrow> addr \<Rightarrow> bool" where
  "array_valid s a \<longleftrightarrow>
     (\<exists>sma. smas s a = Some sma \<and> length (sem_base sma) = sem_nsems sma \<and>
        distinct (sem_pending sma) \<and>
        (\<forall>u \<in> set (sem_undos sma). \<exists>i. map_option undo_shape (undos s u) = Some (i, sem_nsems sma)) \<and>
        (\<forall>t \<in> set (sem_pending sma). entry_valid s sma t))"

definition entry_blocked :: "semsys \<Rightarrow> addr \<Rightarrow> task \<Rightarrow> bool" where
  "entry_blocked s a t \<longleftrightarrow>
     (\<exists>sma adj. smas s a = Some sma \<and> read_adj (undo (queue (tasks s t))) s = Some adj \<and>
        blocked (sem_base sma) adj (sops (queue (tasks s t))))"

lemma queue_step_valid:
  assumes "queue_step a W s s'" "array_valid s a"
  shows "array_valid s' a"
  using assms unfolding queue_step_def array_valid_def entry_valid_def sma_frame_def
  by (auto simp: Let_def simp del: map_option_eq_Some)

lemma read_adj_ok:
  assumes "undo q = None \<longrightarrow> ops_undos (sops q) = 0"
    and "\<And>u. undo q = Some u \<Longrightarrow> \<exists>i. map_option undo_shape (undos s u) = Some (i, n)"
    and "\<forall>sop \<in> set (sops q). unat (sem_num sop) < n"
  shows "\<exists>adj. read_adj (undo q) s = Some adj \<and> ops_ok n adj (sops q)"
  using assms
  by (cases "undo q") (auto simp: read_adj_def ops_ok_def ops_undos_def undo_shape_def filter_empty_conv)

lemma try_atomic_semop_some:
  assumes "smas s a = Some sma" "read_adj un s = Some adj" "ops_ok (length (sem_base sma)) adj ops"
  shows "\<exists>r s'. try_atomic_semop a ops un pid s = Some (r, s')"
  using try_atomic_some [OF assms(3), of pid] assms(1,2)
  by (auto simp: try_atomic_semop_def Let_def)

lemma write_read_adj: "read_adj un s = Some adj \<Longrightarrow> write_adj un adj s = s"
  by (cases un) (auto simp: read_adj_def write_adj_def map_upd_triv)

text \<open>A sequence that fails or has to sleep leaves the whole system as it was.\<close>

lemma try_atomic_semop_fail:
  assumes "try_atomic_semop a ops un pid s = Some (r, s')" "r \<noteq> 0"
  shows "s' = s"
proof -
  obtain sma adj base' adj' where b: "smas s a = Some sma" "read_adj un s = Some adj"
    "try_atomic (sem_base sma) ops adj pid = Some (r, base', adj')"
    "s' = set_sma a (sma\<lparr>sem_base := base', sem_otime := sem_otime sma\<rparr>) (write_adj un adj' s)"
    using assms by (auto simp: try_atomic_semop_def bind_Some_iff Let_def)
  with try_atomic_fail [OF b(3) assms(2)] show ?thesis
    by (simp add: write_read_adj set_sma_def map_upd_triv)
qed

lemma try_atomic_semop_step:
  assumes "try_atomic_semop a ops un pid s = Some (r, s')"
    and "smas s a = Some sma" "\<And>u. un = Some u \<Longrightarrow> u \<in> set (sem_undos sma)"
  shows "queue_step a {} s s'"
proof -
  obtain adj base' adj' where b: "read_adj un s = Some adj"
    "try_atomic (sem_base sma) ops adj pid = Some (r, base', adj')"
    "s' = set_sma a (sma\<lparr>sem_base := base', sem_otime := (if r = 0 then seconds s else sem_otime sma)\<rparr>) (write_adj un adj' s)"
    using assms by (auto simp: try_atomic_semop_def bind_Some_iff Let_def)
  have len: "map_option length adj' = map_option length adj" by (rule try_atomic_adj(1) [OF b(2)])
  have w: "write_adj un adj' s = s\<lparr>undos := undos (write_adj un adj' s)\<rparr>"
    by (auto simp: write_adj_def split: option.split)
  show ?thesis
    by (rule queue_stepI [where us = "undos (write_adj un adj' s)" and ts = "tasks s" and sma = sma and
          sma' = "sma\<lparr>sem_base := base', sem_otime := (if r = 0 then seconds s else sem_otime sma)\<rparr>"])
      (use assms(2,3) b(1,3) len try_atomic_length [OF b(2)] try_atomic_sems_ok [OF b(2)] in
        \<open>auto simp: set_sma_def write_adj_def read_adj_def undo_shape_def sma_frame_def split: option.splits\<close>)
qed

lemma remove1_filter: "distinct xs \<Longrightarrow> remove1 t xs = filter (\<lambda>x. x \<notin> {t}) xs"
  by (auto simp: distinct_remove1_removeAll removeAll_filter_not_eq intro!: filter_cong)

lemma finish_entry_step:
  assumes "finish_entry a t r s = Some s'" "r \<in> {0, - EAGAIN, - ERANGE}"
    and "smas s a = Some sma" "distinct (sem_pending sma)"
  shows "queue_step a {t} s s'"
  by (rule queue_stepI [where us = "undos s" and ts = "tasks s'" and sma = sma])
    (use assms in \<open>auto simp: finish_entry_def remove_from_queue_def bind_Some_iff set_sma_def
      set_status_def set_queue_def set_task_def wake_up_process_def woken_def Let_def
      remove1_filter sma_frame_def split: if_splits\<close>)


text \<open>Sequences that do not alter the array leave every other entry as blocked as it was.\<close>

lemma try_not_alter:
  assumes "try_atomic_semop a ops un pid s = Some (r, s')" "\<not> ops_alter ops"
  shows "map_option (\<lambda>sma. map semval (sem_base sma)) (smas s' b) = map_option (\<lambda>sma. map semval (sem_base sma)) (smas s b)"
    and "undos s' = undos s"
proof -
  obtain sma adj base' adj' where b: "smas s a = Some sma" "read_adj un s = Some adj"
    "try_atomic (sem_base sma) ops adj pid = Some (r, base', adj')"
    "s' = set_sma a (sma\<lparr>sem_base := base', sem_otime := (if r = 0 then seconds s else sem_otime sma)\<rparr>) (write_adj un adj' s)"
    using assms by (auto simp: try_atomic_semop_def bind_Some_iff Let_def)
  have z: "\<forall>sop \<in> set ops. sem_op sop = 0" using assms(2) not_alter_zero by simp
  have d: "delta ops n = 0" "undo_delta ops n = 0" for n
    using z by (induction ops) auto
  have v: "map semval base' = map semval (sem_base sma)"
  proof (cases "r = 0")
    case True
    then show ?thesis
      using b(3) d try_atomic_vals [of "sem_base sma" ops adj pid base' adj'] try_atomic_length [OF b(3)]
      by (auto intro!: nth_equalityI)
  qed (use try_atomic_fail [OF b(3)] in simp)
  have a: "adj' = adj"
  proof (cases "r = 0")
    case True
    then show ?thesis
      using try_atomic_adj [OF b(3)] d
      by (cases adj) (auto intro!: nth_equalityI)
  qed (use try_atomic_fail [OF b(3)] in simp)
  show "map_option (\<lambda>sma. map semval (sem_base sma)) (smas s' b) = map_option (\<lambda>sma. map semval (sem_base sma)) (smas s b)"
    and "undos s' = undos s"
    using b(1,2,4) v a by (auto simp: set_sma_def write_read_adj)
qed

lemma finish_entry_keeps:
  assumes "finish_entry a t r s = Some s'"
  shows "map_option (\<lambda>sma. map semval (sem_base sma)) (smas s' b) = map_option (\<lambda>sma. map semval (sem_base sma)) (smas s b)"
    and "undos s' = undos s"
  using assms
  by (auto simp: finish_entry_def remove_from_queue_def bind_Some_iff set_sma_def
      set_status_def set_queue_def set_task_def wake_up_process_def Let_def split: if_splits)

lemma entry_blocked_cong:
  assumes "map_option (\<lambda>sma. map semval (sem_base sma)) (smas s' a) = map_option (\<lambda>sma. map semval (sem_base sma)) (smas s a)"
    and "undos s' = undos s" and "tasks s' t = tasks s t"
  shows "entry_blocked s' a t = entry_blocked s a t"
proof -
  have "read_adj un s' = read_adj un s" for un using assms(2) by (cases un) (simp_all add: read_adj_def)
  then show ?thesis
    using assms(1,3) unfolding entry_blocked_def
    by (cases "smas s a"; cases "smas s' a") (auto dest: blocked_vals)
qed

lemma array_validE:
  assumes "array_valid s a" "t \<in> set (pending_of a s)"
  obtains sma adj where "smas s a = Some sma" "distinct (sem_pending sma)" "entry_valid s sma t"
    "read_adj (undo (queue (tasks s t))) s = Some adj"
    "ops_ok (length (sem_base sma)) adj (sops (queue (tasks s t)))"
proof -
  obtain sma where sma: "smas s a = Some sma" "length (sem_base sma) = sem_nsems sma" "distinct (sem_pending sma)"
    "\<forall>u \<in> set (sem_undos sma). \<exists>i. map_option undo_shape (undos s u) = Some (i, sem_nsems sma)"
    "entry_valid s sma t"
    using assms unfolding array_valid_def pending_of_def by auto
  have "\<exists>adj. read_adj (undo (queue (tasks s t))) s = Some adj \<and> ops_ok (sem_nsems sma) adj (sops (queue (tasks s t)))"
    using sma(4,5) unfolding entry_valid_def Let_def by (intro read_adj_ok) blast+
  with sma that show ?thesis by metis
qed

text \<open>One round of the scan at entry \<open>t\<close>.\<close>

lemma scan_round:
  assumes v: "array_valid s a" and t: "t \<in> set (pending_of a s)"
  defines "q \<equiv> queue (tasks s t)"
  obtains (stays) "try_atomic_semop a (sops q) (undo q) (q_pid q) s = Some (1, s)" "entry_blocked s a t"
  | (leaves) r s1 s2 where "try_atomic_semop a (sops q) (undo q) (q_pid q) s = Some (r, s1)" "r \<le> 0"
      "finish_entry a t r s1 = Some s2" "queue_step a {t} s s2"
      "\<not> alter q \<Longrightarrow> \<forall>t'. t' \<noteq> t \<longrightarrow> entry_blocked s2 a t' = entry_blocked s a t'"
proof -
  obtain sma adj where sma: "smas s a = Some sma" "distinct (sem_pending sma)" "entry_valid s sma t"
    "read_adj (undo q) s = Some adj" "ops_ok (length (sem_base sma)) adj (sops q)"
    using array_validE [OF v t] unfolding q_def .
  obtain r s1 where tr: "try_atomic_semop a (sops q) (undo q) (q_pid q) s = Some (r, s1)"
    using try_atomic_semop_some [OF sma(1,4,5)] by blast
  show thesis
  proof (cases "r \<le> 0")
    case False
    then have s1: "s1 = s" using tr try_atomic_semop_fail by fastforce
    obtain base' adj' where "try_atomic (sem_base sma) (sops q) adj (q_pid q) = Some (r, base', adj')"
      using tr sma(1,4) by (auto simp: try_atomic_semop_def bind_Some_iff Let_def)
    with False have "try_atomic (sem_base sma) (sops q) adj (q_pid q) = Some (1, sem_base sma, adj)" "r = 1"
      using try_atomic_fail by fastforce+
    then show thesis using s1 sma tr
      by (intro stays) (auto simp: entry_blocked_def blocked_iff [of _ _ _ "q_pid q"] q_def)
  next
    case True
    obtain base' adj' where "try_atomic (sem_base sma) (sops q) adj (q_pid q) = Some (r, base', adj')"
      using tr sma(1,4) by (auto simp: try_atomic_semop_def bind_Some_iff Let_def)
    then have r: "r \<in> {0, - EAGAIN, - ERANGE}" using True try_atomic_fail(3) by fastforce
    have st1: "queue_step a {} s s1"
      using try_atomic_semop_step [OF tr sma(1)] sma(3) unfolding entry_valid_def q_def by (simp add: Let_def)
    then obtain sma1 where sma1: "smas s1 a = Some sma1" "sem_pending sma1 = sem_pending sma" "tasks s1 = tasks s"
      using sma(1) unfolding queue_step_def by (auto simp: fun_eq_iff sma_frame_def)
    have "t \<in> set (sem_pending sma1)" using t sma(1) sma1 by (simp add: pending_of_def)
    then obtain s2 where fin: "finish_entry a t r s1 = Some s2"
      using sma1 by (auto simp: finish_entry_def remove_from_queue_def Let_def)
    have "queue_step a {t} s1 s2" by (rule finish_entry_step [OF fin r sma1(1)]) (simp add: sma1 sma)
    with st1 have st2: "queue_step a {t} s s2" using queue_step_trans by fastforce
    have "entry_blocked s2 a t' = entry_blocked s a t'" if "\<not> alter q" "t' \<noteq> t" for t'
    proof (rule entry_blocked_cong)
      have na: "\<not> ops_alter (sops q)" using that(1) sma(3) unfolding entry_valid_def q_def by (simp add: Let_def)
      show "undos s2 = undos s" using finish_entry_keeps [OF fin] try_not_alter [OF tr na] by simp
      show "map_option (\<lambda>sma. map semval (sem_base sma)) (smas s2 a) = map_option (\<lambda>sma. map semval (sem_base sma)) (smas s a)"
        using finish_entry_keeps [OF fin] try_not_alter [OF tr na] by simp
      show "tasks s2 t' = tasks s t'" using st2 that(2) unfolding queue_step_def by auto
    qed
    then show thesis using tr True fin st2 by (intro leaves) auto
  qed
qed

lemma queue_step_pending:
  "queue_step a W s s' \<Longrightarrow> pending_of a s' = filter (\<lambda>t. t \<notin> W) (pending_of a s)"
  by (auto simp: queue_step_def pending_of_def sma_frame_def)

text \<open>The scan returns, and every entry it leaves in the queue is blocked.\<close>

lemma update_loop_spec:
  assumes "array_valid s a" "pending_of a s = pre @ rest" "\<forall>t \<in> set pre. entry_blocked s a t"
  shows "\<exists>s' W. update_loop a rest s = Some s' \<and> queue_step a W s s' \<and>
           (\<forall>t \<in> set (pending_of a s'). entry_blocked s' a t)"
  using assms
proof (induction a rest s arbitrary: pre rule: update_loop.induct)
  case (1 a s)
  then obtain sma where "smas s a = Some sma" by (auto simp: array_valid_def)
  then have "queue_step a {} s s" by (rule queue_step_refl)
  then show ?case using 1 by auto
next
  case (2 a t rest s)
  let ?q = "queue (tasks s t)"
  have t: "t \<in> set (pending_of a s)" using "2.prems"(2) by simp
  have d: "distinct (pending_of a s)" using "2.prems"(1) by (auto simp: array_valid_def pending_of_def)
  show ?case
    using "2.prems"(1) t
  proof (cases rule: scan_round)
    case stays
    have "\<exists>s' W. update_loop a rest s = Some s' \<and> queue_step a W s s' \<and>
           (\<forall>t \<in> set (pending_of a s'). entry_blocked s' a t)"
      using "2.IH"(2) [OF refl stays(1) refl, of "pre @ [t]"] "2.prems" stays(2) by simp
    then show ?thesis using stays(1) by (simp add: Let_def)
  next
    case (leaves r s1 s2)
    have v: "array_valid s2 a" using queue_step_valid [OF leaves(4) "2.prems"(1)] .
    have p: "pending_of a s2 = pre @ rest"
    proof -
      have "filter (\<lambda>x. x \<notin> {t}) pre = pre" "filter (\<lambda>x. x \<notin> {t}) rest = rest"
        using "2.prems"(2) d by (auto intro!: filter_True)
      then show ?thesis using queue_step_pending [OF leaves(4)] "2.prems"(2) by simp
    qed
    have "\<exists>s' W. update_loop a (if alter ?q then pending_of a s2 else rest) s2 = Some s' \<and> queue_step a W s2 s' \<and>
           (\<forall>t \<in> set (pending_of a s'). entry_blocked s' a t)"
    proof (cases "alter ?q")
      case True
      then show ?thesis using "2.IH"(1) [OF refl leaves(1) refl leaves(2,3), of "[]"] v by simp
    next
      case False
      have "\<forall>t' \<in> set pre. entry_blocked s2 a t'"
        using leaves(5) [OF False] "2.prems"(2,3) d by auto
      then show ?thesis using "2.IH"(1) [OF refl leaves(1) refl leaves(2,3), of pre] v p False by simp
    qed
    then show ?thesis using leaves queue_step_trans [OF leaves(4)] by (fastforce simp: Let_def)
  qed
qed

lemma update_queue_spec:
  assumes "array_valid s a"
  obtains s' W where "update_queue a s = Some s'" "queue_step a W s s'"
    "\<forall>t \<in> set (pending_of a s'). entry_blocked s' a t"
proof -
  obtain sma where "smas s a = Some sma" using assms by (auto simp: array_valid_def)
  then show ?thesis
    using update_loop_spec [OF assms, of "[]" "sem_pending sma"] that
    by (auto simp: pending_of_def update_queue_def)
qed

end
