(* ===== verification/SemInv.thy ===== *)
theory SemInv
  imports SemScan
begin

text \<open>
  The invariant of the semaphore system of \<^verbatim>\<open>ipc/sem.c\<close> and that every step keeps it. The
  invariant is stated with four parameters for the states inside a call: arrays whose queue
  still has to be scanned, references of the running task, an undo list that is being freed
  and undo structures that have left their array. Between calls all four are empty.
\<close>

unbundle bit_operations_syntax

section \<open>The invariant\<close>

definition sits :: "semsys \<Rightarrow> nat \<Rightarrow> addr \<Rightarrow> sem_array \<Rightarrow> bool" where
  "sits s l a sma \<longleftrightarrow> slot (sem_ids s) l = Some a \<and> smas s a = Some sma"

abbreviation sma_id :: "nat \<Rightarrow> sem_array \<Rightarrow> int" where
  "sma_id l sma \<equiv> ipc_buildid (int l) (seq (sem_perm sma))"

text \<open>The table is allocated memory, and every index holds an allocated array that has not been removed.\<close>

definition slots_inv :: "semsys \<Rightarrow> bool" where
  "slots_inv s \<longleftrightarrow> ids_ok (sem_ids s) \<and> \<not> at_nullentry (sem_ids s) \<and>
     (\<forall>l a. slot (sem_ids s) l = Some a \<longrightarrow> (\<exists>sma. smas s a = Some sma \<and> \<not> deleted (sem_perm sma)))"

text \<open>The array that a sleeping task holds a reference to, with the size it has read.\<close>

fun held :: "sem_pc \<Rightarrow> (addr \<times> nat) option" where
  "held (In_undo_alloc i ops timeout a n) = Some (a, n)"
| "held (In_getall a n) = Some (a, n)"
| "held (In_setall a n) = Some (a, n)"
| "held _ = None"

definition holders :: "semsys \<Rightarrow> addr \<Rightarrow> task set" where
  "holders s a = {t. \<exists>n. held (pc (tasks s t)) = Some (a, n)}"

text \<open>References are counted; \<open>R\<close> are those of the task that is running.\<close>

definition refs_inv :: "(addr \<Rightarrow> int) \<Rightarrow> semsys \<Rightarrow> bool" where
  "refs_inv R s \<longleftrightarrow> finite {t. pc (tasks s t) \<noteq> Dead} \<and>
     (\<forall>a sma. smas s a = Some sma \<longrightarrow>
        refcount sma = of_bool (a \<in> ran (slot (sem_ids s))) + int (card (holders s a)) + R a)"

definition pcs_inv :: "semsys \<Rightarrow> bool" where
  "pcs_inv s \<longleftrightarrow>
     (\<forall>t a n. held (pc (tasks s t)) = Some (a, n) \<longrightarrow>
        (\<exists>sma. smas s a = Some sma \<and> sem_nsems sma = n \<and>
               (deleted (sem_perm sma) \<or> a \<in> ran (slot (sem_ids s))))) \<and>
     (\<forall>t i ops timeout a n. pc (tasks s t) = In_undo_alloc i ops timeout a n \<longrightarrow>
        0 \<le> i \<and> undo_list (tasks s t) \<noteq> None \<and> (\<forall>l sma. sits s l a sma \<longrightarrow> i = sma_id l sma)) \<and>
     (\<forall>t i ops timeout. pc (tasks s t) = In_retry i ops timeout \<longrightarrow> 0 \<le> i)"

text \<open>A queued task sleeps on this array, and keeps its undo structure alive.\<close>

definition entry_inv :: "semsys \<Rightarrow> nat \<Rightarrow> sem_array \<Rightarrow> task \<Rightarrow> bool" where
  "entry_inv s l sma t \<longleftrightarrow>
     (\<exists>timeout. pc (tasks s t) = Asleep timeout) \<and> linked (queue (tasks s t)) \<and>
     status (queue (tasks s t)) = - EINTR \<and> q_id (queue (tasks s t)) = sma_id l sma \<and>
     (\<forall>u. undo (queue (tasks s t)) = Some u \<longrightarrow>
        (\<exists>ul ulp. undo_list (tasks s t) = Some ul \<and> ulists s ul = Some ulp \<and> u \<in> set (proc_list ulp)))"

text \<open>The arrays are in order, and outside \<open>X\<close> all that wait have to.\<close>

definition array_inv :: "addr set \<Rightarrow> semsys \<Rightarrow> nat \<Rightarrow> addr \<Rightarrow> sem_array \<Rightarrow> bool" where
  "array_inv X s l a sma \<longleftrightarrow>
     sems_ok (sem_base sma) \<and> array_valid s a \<and> distinct (sem_undos sma) \<and>
     (\<forall>u \<in> set (sem_undos sma). map_option undo_shape (undos s u) = Some (sma_id l sma, sem_nsems sma)) \<and>
     (\<forall>t \<in> set (sem_pending sma). entry_inv s l sma t \<and> (a \<notin> X \<longrightarrow> entry_blocked s a t))"

definition arrays_inv :: "addr set \<Rightarrow> semsys \<Rightarrow> bool" where
  "arrays_inv X s \<longleftrightarrow> (\<forall>l a sma. sits s l a sma \<longrightarrow> array_inv X s l a sma)"

definition sleepers_inv :: "semsys \<Rightarrow> bool" where
  "sleepers_inv s \<longleftrightarrow>
     (\<forall>t timeout. pc (tasks s t) = Asleep timeout \<longrightarrow>
        status (queue (tasks s t)) \<noteq> IN_WAKEUP \<and>
        (status (queue (tasks s t)) = - EINTR \<longrightarrow>
           (\<exists>l a sma. sits s l a sma \<and> t \<in> set (sem_pending sma))))"

definition live_users :: "semsys \<Rightarrow> addr \<Rightarrow> task set" where
  "live_users s ul = {t. pc (tasks s t) \<noteq> Dead \<and> undo_list (tasks s t) = Some ul}"

text \<open>
  Undo lists are counted and disjoint and hold exactly the undo structures; \<open>D\<close> is a list that is
  being freed and \<open>E\<close> are structures that have left their array.
\<close>

definition undos_inv :: "addr set \<Rightarrow> addr set \<Rightarrow> semsys \<Rightarrow> bool" where
  "undos_inv D E s \<longleftrightarrow>
     (\<forall>ul ulp. ulists s ul = Some ulp \<longrightarrow>
        distinct (proc_list ulp) \<and> set (proc_list ulp) \<subseteq> dom (undos s) \<and>
        refcnt ulp = int (card (live_users s ul)) \<and> (ul \<notin> D \<longrightarrow> refcnt ulp > 0)) \<and>
     (\<forall>ul ul' ulp ulp' u. ulists s ul = Some ulp \<and> ulists s ul' = Some ulp' \<and>
        u \<in> set (proc_list ulp) \<and> u \<in> set (proc_list ulp') \<longrightarrow> ul = ul') \<and>
     (\<forall>u un. undos s u = Some un \<and> semid un \<noteq> -1 \<and> u \<notin> E \<longrightarrow>
        (\<exists>l a sma. sits s l a sma \<and> u \<in> set (sem_undos sma))) \<and>
     (\<forall>u \<in> dom (undos s). \<exists>ul ulp. ulists s ul = Some ulp \<and> u \<in> set (proc_list ulp)) \<and>
     (\<forall>t ul. pc (tasks s t) \<noteq> Dead \<and> undo_list (tasks s t) = Some ul \<longrightarrow> ul \<in> dom (ulists s))"

definition sem_inv :: "addr set \<Rightarrow> (addr \<Rightarrow> int) \<Rightarrow> addr set \<Rightarrow> addr set \<Rightarrow> semsys \<Rightarrow> bool" where
  "sem_inv X R D E s \<longleftrightarrow> slots_inv s \<and> refs_inv R s \<and> pcs_inv s \<and> arrays_inv X s \<and>
     sleepers_inv s \<and> undos_inv D E s"

lemmas sem_inv_defs = sem_inv_def slots_inv_def refs_inv_def pcs_inv_def arrays_inv_def
  sleepers_inv_def undos_inv_def

lemma sitsD: "sits s l a sma \<Longrightarrow> slots_inv s \<Longrightarrow> l < 32768 \<and> \<not> deleted (sem_perm sma)"
  by (auto simp: sits_def slots_inv_def ids_ok_def slot_def split: if_splits)

lemma sits_unique:
  "slots_inv s \<Longrightarrow> sits s l a sma \<Longrightarrow> sits s l' a sma' \<Longrightarrow> l' = l \<and> sma' = sma"
  by (auto simp: sits_def slots_inv_def ids_ok_def)

text \<open>Finding an array by its identifier.\<close>

lemma sem_lock_cases:
  assumes "slots_inv s"
  obtains (missing) "sem_lock i s = Some None" "slot (sem_ids s) (lid_of i) = None"
  | (found) a sma where "sem_lock i s = Some (Some a)" "sits s (lid_of i) a sma"
proof (cases "slot (sem_ids s) (lid_of i)")
  case None
  then show ?thesis by (intro missing) (simp_all add: sem_lock_def ipc_lock_slot)
next
  case (Some a)
  then obtain sma where "smas s a = Some sma" "\<not> deleted (sem_perm sma)"
    using assms by (auto simp: slots_inv_def)
  then show ?thesis using Some
    by (intro found [of a sma]) (simp_all add: sem_lock_def ipc_lock_slot perm_of_def sits_def)
qed

lemma sem_lock_id:
  assumes "slots_inv s" "sits s l a sma"
  shows "sem_lock (sma_id l sma) s = Some (Some a)"
  using assms sitsD [OF assms(2,1)]
  by (simp add: sem_lock_def ipc_lock_slot lid_of_buildid sits_def perm_of_def)


section \<open>Scans keep the invariant\<close>

lemma queue_stepE:
  assumes "queue_step a W s s'"
  obtains sma sma' where "smas s a = Some sma" "smas s' = (smas s)(a \<mapsto> sma')" "sma_frame W sma sma'"
    "sem_ids s' = sem_ids s" "ulists s' = ulists s"
    "\<And>u. u \<notin> set (sem_undos sma) \<Longrightarrow> undos s' u = undos s u"
    "\<And>u. map_option undo_shape (undos s' u) = map_option undo_shape (undos s u)"
    "\<And>t. pc (tasks s' t) = pc (tasks s t)" "\<And>t. undo_list (tasks s' t) = undo_list (tasks s t)"
    "\<And>t. t \<notin> W \<Longrightarrow> tasks s' t = tasks s t"
    "\<And>t. t \<in> W \<Longrightarrow> status (queue (tasks s' t)) \<in> {0, - EAGAIN, - ERANGE}"
proof -
  obtain sma sma' us ts where s: "smas s a = Some sma"
    "s' = s\<lparr>smas := (smas s)(a \<mapsto> sma'), undos := us, tasks := ts\<rparr>" "sma_frame W sma sma'"
    "\<forall>u. u \<notin> set (sem_undos sma) \<longrightarrow> us u = undos s u"
    "\<forall>u. map_option undo_shape (us u) = map_option undo_shape (undos s u)"
    "\<forall>t. t \<notin> W \<longrightarrow> ts t = tasks s t"
    "\<forall>t \<in> W. \<exists>r \<in> {0, - EAGAIN, - ERANGE}. ts t = woken r (tasks s t)"
    using assms unfolding queue_step_def by blast
  have t: "pc (ts t) = pc (tasks s t)" "undo_list (ts t) = undo_list (tasks s t)" for t
    using s(6,7) by (cases "t \<in> W"; force simp: woken_def)+
  have "status (queue (ts t)) \<in> {0, - EAGAIN, - ERANGE}" if "t \<in> W" for t
    using s(7) that by (force simp: woken_def)
  then show thesis using s t by (intro that [of sma sma']) simp_all
qed

lemma dom_undo_shape:
  assumes "\<And>u. map_option undo_shape (f u) = map_option undo_shape (g u)"
  shows "dom f = dom g"
proof -
  have "f u = None \<longleftrightarrow> g u = None" for u using assms [of u] by (cases "f u"; cases "g u") auto
  then show ?thesis by (auto simp: dom_def)
qed

lemma undo_shape_semid:
  "map_option undo_shape (f u) = map_option undo_shape (g u) \<Longrightarrow> f u = Some un \<Longrightarrow>
     \<exists>un'. g u = Some un' \<and> semid un' = semid un"
  by (cases "g u") (auto simp: undo_shape_def)

text \<open>No task waits on two arrays and no undo structure belongs to two.\<close>

lemma pending_disjoint:
  assumes "slots_inv s" "arrays_inv X s" "sits s l a x" "sits s l' b y"
    "t \<in> set (sem_pending x)" "t \<in> set (sem_pending y)"
  shows "b = a"
proof -
  have "sma_id l x = sma_id l' y"
    using assms unfolding arrays_inv_def array_inv_def entry_inv_def by metis
  then have "l = l'" using sitsD assms lid_of_buildid by metis
  then show ?thesis using assms(3,4) by (simp add: sits_def)
qed

lemma undos_disjoint:
  assumes "slots_inv s" "arrays_inv X s" "sits s l a x" "sits s l' b y"
    "u \<in> set (sem_undos x)" "u \<in> set (sem_undos y)"
  shows "b = a"
proof -
  have "Some (sma_id l x, sem_nsems x) = Some (sma_id l' y, sem_nsems y)"
    using assms unfolding arrays_inv_def array_inv_def by metis
  then have "l = l'" using sitsD assms lid_of_buildid by (metis option.inject prod.inject)
  then show ?thesis using assms(3,4) by (simp add: sits_def)
qed

text \<open>An array that is not touched keeps its part of the invariant.\<close>

lemma array_inv_frame:
  assumes inv: "array_inv X s l b m" and m: "smas s b = Some m" "smas s' b = Some m"
    and t: "\<And>t. t \<in> set (sem_pending m) \<Longrightarrow> tasks s' t = tasks s t"
    and u: "\<And>u. u \<in> set (sem_undos m) \<Longrightarrow> undos s' u = undos s u"
    and ul: "\<And>ul ulp. ulists s ul = Some ulp \<Longrightarrow> \<exists>ulp'. ulists s' ul = Some ulp' \<and> set (proc_list ulp) \<inter> set (sem_undos m) \<subseteq> set (proc_list ulp')"
  shows "array_inv X s' l b m"
proof -
  have ev: "entry_valid s m t" if "t \<in> set (sem_pending m)" for t
    using inv that m unfolding array_inv_def array_valid_def by auto
  have "array_valid s' b"
    using inv m t u unfolding array_inv_def array_valid_def entry_valid_def by auto
  moreover have "entry_blocked s' b t" if "t \<in> set (sem_pending m)" "entry_blocked s b t" for t
  proof -
    have "read_adj (undo (queue (tasks s t))) s' = read_adj (undo (queue (tasks s t))) s"
      using ev [OF that(1)] u by (auto simp: read_adj_def entry_valid_def Let_def split: option.split)
    then show ?thesis using that t m by (auto simp: entry_blocked_def)
  qed
  moreover have "entry_inv s' l m t" if "t \<in> set (sem_pending m)" "entry_inv s l m t" for t
  proof -
    have "\<exists>ul ulp. undo_list (tasks s t) = Some ul \<and> ulists s' ul = Some ulp \<and> v \<in> set (proc_list ulp)"
      if v: "undo (queue (tasks s t)) = Some v" for v
    proof -
      have "v \<in> set (sem_undos m)" using ev [OF \<open>t \<in> set (sem_pending m)\<close>] v by (auto simp: entry_valid_def Let_def)
      then show ?thesis using \<open>entry_inv s l m t\<close> v ul unfolding entry_inv_def by (metis IntI subsetD)
    qed
    then show ?thesis using that t unfolding entry_inv_def by simp
  qed
  ultimately show ?thesis using inv u unfolding array_inv_def by auto
qed

text \<open>Where the queue of an array and its undo structures stay, the undo lists may grow and other tasks move on.\<close>

lemma array_inv_kept:
  assumes a: "sits s l a m" and ai: "array_inv X s l a m" and f: "smas s' = smas s" "\<And>t. queue (tasks s' t) = queue (tasks s t)"
    and t: "\<And>t timeout. pc (tasks s t) = Asleep timeout \<Longrightarrow> pc (tasks s' t) = Asleep timeout"
      "\<And>t timeout ul. pc (tasks s t) = Asleep timeout \<Longrightarrow> undo_list (tasks s t) = Some ul \<Longrightarrow> undo_list (tasks s' t) = Some ul"
    and keep: "\<And>u. u \<in> set (sem_undos m) \<Longrightarrow> undos s' u = undos s u"
      "\<And>ul ulp u. u \<in> set (sem_undos m) \<Longrightarrow> ulists s ul = Some ulp \<Longrightarrow> u \<in> set (proc_list ulp) \<Longrightarrow>
        \<exists>ulp'. ulists s' ul = Some ulp' \<and> u \<in> set (proc_list ulp')"
  shows "array_inv X s' l a m"
proof -
  have m: "smas s a = Some m" using a by (simp add: sits_def)
  have ev: "entry_valid s' m t = entry_valid s m t" for t by (simp add: entry_valid_def f)
  have "array_valid s' a"
    using ai m keep(1) unfolding array_inv_def array_valid_def by (auto simp: ev f(1))
  moreover have "entry_inv s' l m t \<and> (a \<notin> X \<longrightarrow> entry_blocked s' a t)" if tp: "t \<in> set (sem_pending m)" for t
  proof -
    have e: "entry_inv s l m t" "a \<notin> X \<Longrightarrow> entry_blocked s a t" "entry_valid s m t"
      using ai tp m unfolding array_inv_def array_valid_def by auto
    obtain timeout where pt: "pc (tasks s t) = Asleep timeout" using e(1) unfolding entry_inv_def by blast
    have un: "undos s' v = undos s v" "v \<in> set (sem_undos m)" if "undo (queue (tasks s t)) = Some v" for v
      using e(3) that keep(1) by (auto simp: entry_valid_def Let_def)
    have "read_adj (undo (queue (tasks s t))) s' = read_adj (undo (queue (tasks s t))) s"
      using un by (cases "undo (queue (tasks s t))") (auto simp: read_adj_def)
    then have "a \<notin> X \<Longrightarrow> entry_blocked s' a t" using e(2) by (simp add: entry_blocked_def f)
    moreover have "\<exists>ul ulp. undo_list (tasks s' t) = Some ul \<and> ulists s' ul = Some ulp \<and> v \<in> set (proc_list ulp)"
      if v: "undo (queue (tasks s t)) = Some v" for v
    proof -
      obtain ul ulp where "undo_list (tasks s t) = Some ul" "ulists s ul = Some ulp" "v \<in> set (proc_list ulp)"
        using e(1) v unfolding entry_inv_def by blast
      then show ?thesis using keep(2) [OF un(2) [OF v]] t(2) [OF pt] by auto
    qed
    ultimately show ?thesis using e(1) t(1) [OF pt] unfolding entry_inv_def f(2) by blast
  qed
  ultimately show ?thesis using ai keep(1) unfolding array_inv_def by auto
qed

definition pc_ok :: "semsys \<Rightarrow> task \<Rightarrow> sem_pc \<Rightarrow> bool" where
  "pc_ok s t p \<longleftrightarrow>
     (\<forall>a n. held p = Some (a, n) \<longrightarrow>
        (\<exists>sma. smas s a = Some sma \<and> sem_nsems sma = n \<and> (deleted (sem_perm sma) \<or> a \<in> ran (slot (sem_ids s))))) \<and>
     (\<forall>i ops timeout a n. p = In_undo_alloc i ops timeout a n \<longrightarrow>
        0 \<le> i \<and> undo_list (tasks s t) \<noteq> None \<and> (\<forall>l sma. sits s l a sma \<longrightarrow> i = sma_id l sma)) \<and>
     (\<forall>i ops timeout. p = In_retry i ops timeout \<longrightarrow> 0 \<le> i)"

lemma pcs_inv_pc_ok: "pcs_inv s \<longleftrightarrow> (\<forall>t. pc_ok s t (pc (tasks s t)))"
  unfolding pcs_inv_def pc_ok_def by blast

lemma pc_ok_frame:
  assumes ok: "pc_ok s t p" and ul: "undo_list (tasks s' t) = undo_list (tasks s t)"
    and h: "\<And>a n m. held p = Some (a, n) \<Longrightarrow> smas s a = Some m \<Longrightarrow>
        deleted (sem_perm m) \<or> a \<in> ran (slot (sem_ids s)) \<Longrightarrow>
        \<exists>m'. smas s' a = Some m' \<and> sem_nsems m' = sem_nsems m \<and> (deleted (sem_perm m') \<or> a \<in> ran (slot (sem_ids s')))"
    and s: "\<And>l a n m'. held p = Some (a, n) \<Longrightarrow> sits s' l a m' \<Longrightarrow> \<exists>m. sits s l a m \<and> sma_id l m = sma_id l m'"
  shows "pc_ok s' t p"
proof -
  have "\<exists>m. smas s' a = Some m \<and> sem_nsems m = n \<and> (deleted (sem_perm m) \<or> a \<in> ran (slot (sem_ids s')))"
    if hp: "held p = Some (a, n)" for a n
  proof -
    obtain m where "smas s a = Some m" "sem_nsems m = n" "deleted (sem_perm m) \<or> a \<in> ran (slot (sem_ids s))"
      using ok hp unfolding pc_ok_def by blast
    then show ?thesis using h [OF hp] by blast
  qed
  moreover have "i = sma_id l m'" if "p = In_undo_alloc i ops timeout a n" "sits s' l a m'" for i ops timeout a n l m'
    using ok that s [of a n l m'] unfolding pc_ok_def by auto
  ultimately show ?thesis using ok ul unfolding pc_ok_def by simp
qed

text \<open>
  A change of one array that keeps its identity, size and references; each part of the invariant then
  follows from what happens to the tasks and undo structures.
\<close>

definition array_change :: "nat \<Rightarrow> addr \<Rightarrow> sem_array \<Rightarrow> sem_array \<Rightarrow> semsys \<Rightarrow> semsys \<Rightarrow> bool" where
  "array_change l a sma sma' s s' \<longleftrightarrow> sits s l a sma \<and> sem_ids s' = sem_ids s \<and> smas s' = (smas s)(a \<mapsto> sma') \<and>
     deleted (sem_perm sma') = deleted (sem_perm sma) \<and> seq (sem_perm sma') = seq (sem_perm sma) \<and> sem_nsems sma' = sem_nsems sma \<and> refcount sma' = refcount sma"

lemma array_change_sits:
  assumes "array_change l a sma sma' s s'" "slots_inv s"
  shows "sits s' l' b m \<longleftrightarrow> (if b = a then m = sma' \<and> l' = l else sits s l' b m)"
proof -
  have "slot (sem_ids s) l' = Some a \<longleftrightarrow> l' = l"
    using sits_unique [OF assms(2), of l a sma l' sma] assms(1) by (auto simp: array_change_def sits_def)
  then show ?thesis using assms(1) by (cases "b = a") (auto simp: array_change_def sits_def)
qed

lemma array_change_slots:
  assumes "array_change l a sma sma' s s'" "slots_inv s"
  shows "slots_inv s'"
proof -
  have "\<not> deleted (sem_perm sma)" using sitsD assms by (auto simp: array_change_def)
  then show ?thesis using assms unfolding array_change_def slots_inv_def by auto
qed

lemma array_change_refs:
  assumes "array_change l a sma sma' s s'" "refs_inv R s"
    and "\<And>t. held (pc (tasks s' t)) = held (pc (tasks s t))" "\<And>t. pc (tasks s' t) = Dead \<longleftrightarrow> pc (tasks s t) = Dead"
  shows "refs_inv R s'"
  using assms(1,2) unfolding refs_inv_def holders_def array_change_def sits_def assms(3,4) by auto

lemma array_change_pcs:
  assumes c: "array_change l a sma sma' s s'" "slots_inv s" and i: "pcs_inv s"
    and ul: "\<And>t. undo_list (tasks s' t) = undo_list (tasks s t)"
    and p: "\<And>t. pc (tasks s' t) = pc (tasks s t) \<or> pc (tasks s' t) = Idle \<or> (\<exists>timeout. pc (tasks s' t) = Asleep timeout)"
  shows "pcs_inv s'"
  unfolding pcs_inv_pc_ok
proof
  fix t
  have "pc_ok s' t (pc (tasks s t))"
  proof (rule pc_ok_frame [OF _ ul])
    show "pc_ok s t (pc (tasks s t))" using i by (simp add: pcs_inv_pc_ok)
    show "\<exists>m. sits s l' b m \<and> sma_id l' m = sma_id l' m'" if "sits s' l' b m'" for l' b m'
      using that c unfolding array_change_sits [OF c] by (cases "b = a") (auto simp: array_change_def)
  qed (use c in \<open>auto simp: array_change_def sits_def\<close>)
  then show "pc_ok s' t (pc (tasks s' t))" using p [of t] by (elim disjE exE) (simp, simp_all add: pc_ok_def)
qed

lemma array_change_arrays:
  assumes c: "array_change l a sma sma' s s'" "slots_inv s" and i: "arrays_inv Y s"
    and a: "array_inv X s' l a sma'" and X: "Y - {a} \<subseteq> X"
    and t: "\<And>l' b m t. sits s l' b m \<Longrightarrow> b \<noteq> a \<Longrightarrow> t \<in> set (sem_pending m) \<Longrightarrow> tasks s' t = tasks s t"
    and u: "\<And>l' b m u. sits s l' b m \<Longrightarrow> b \<noteq> a \<Longrightarrow> u \<in> set (sem_undos m) \<Longrightarrow> undos s' u = undos s u"
    and ul: "\<And>ul ulp. ulists s ul = Some ulp \<Longrightarrow> \<exists>ulp'. ulists s' ul = Some ulp' \<and> set (proc_list ulp) \<subseteq> set (proc_list ulp')"
  shows "arrays_inv X s'"
  unfolding arrays_inv_def
proof (intro allI impI)
  fix l' b m assume b: "sits s' l' b m"
  show "array_inv X s' l' b m"
  proof (cases "b = a")
    case False
    then have s: "sits s l' b m" using b array_change_sits [OF c] by simp
    then have "array_inv Y s l' b m" using i by (simp add: arrays_inv_def)
    then have "array_inv Y s' l' b m"
    proof (rule array_inv_frame)
      show "smas s b = Some m" "smas s' b = Some m" using s b by (simp_all add: sits_def)
      show "\<exists>ulp'. ulists s' ul = Some ulp' \<and> set (proc_list ulp) \<inter> set (sem_undos m) \<subseteq> set (proc_list ulp')"
        if "ulists s ul = Some ulp" for ul ulp using ul [OF that] by blast
    qed (use t u s False in blast)+
    then show ?thesis using False X by (auto simp: array_inv_def)
  qed (use a b array_change_sits [OF c] in auto)
qed

lemma array_change_sleepers:
  assumes c: "array_change l a sma sma' s s'" "slots_inv s" and i: "sleepers_inv s"
    and t: "\<And>t timeout. pc (tasks s' t) = Asleep timeout \<Longrightarrow>
      tasks s' t = tasks s t \<and> (t \<in> set (sem_pending sma) \<longrightarrow> t \<in> set (sem_pending sma')) \<or>
      status (queue (tasks s' t)) \<noteq> IN_WAKEUP \<and> (status (queue (tasks s' t)) = - EINTR \<longrightarrow> t \<in> set (sem_pending sma'))"
  shows "sleepers_inv s'"
  unfolding sleepers_inv_def
proof (intro allI impI)
  fix t timeout assume pt: "pc (tasks s' t) = Asleep timeout"
  have a: "sits s' l a sma'" "sits s l a sma" using array_change_sits [OF c] c(1) by (simp_all add: array_change_def)
  have "\<exists>l b m. sits s' l b m \<and> t \<in> set (sem_pending m)"
    if m: "sits s l' b m" "t \<in> set (sem_pending m)" and p: "t \<in> set (sem_pending sma) \<longrightarrow> t \<in> set (sem_pending sma')" for l' b m
  proof (cases "b = a")
    case True
    then show ?thesis using m p a sits_unique [OF c(2) a(2)] by blast
  qed (use m array_change_sits [OF c, of l' b m] in auto)
  with t [OF pt] i pt a(1) show "status (queue (tasks s' t)) \<noteq> IN_WAKEUP \<and>
      (status (queue (tasks s' t)) = - EINTR \<longrightarrow> (\<exists>l b m. sits s' l b m \<and> t \<in> set (sem_pending m)))"
    unfolding sleepers_inv_def by metis
qed

lemma array_change_member:
  assumes c: "array_change l a sma sma' s s'" "slots_inv s" and m: "sits s l' b m" "u \<in> set (sem_undos m)"
    and u: "u \<in> set (sem_undos sma) \<longrightarrow> u \<in> set (sem_undos sma')"
  shows "\<exists>l b m. sits s' l b m \<and> u \<in> set (sem_undos m)"
proof (cases "b = a")
  case True
  then have "m = sma" using m(1) c(1) by (simp add: array_change_def sits_def)
  then show ?thesis using m(2) u array_change_sits [OF c, of l a sma'] by auto
qed (use m array_change_sits [OF c, of l' b m] in auto)

lemma array_change_undos:
  assumes c: "array_change l a sma sma' s s'" "slots_inv s" and i: "undos_inv D E s"
    and ul: "ulists s' = ulists s" and sh: "\<And>u. map_option undo_shape (undos s' u) = map_option undo_shape (undos s u)"
    and dead: "\<And>t. pc (tasks s' t) = Dead \<longleftrightarrow> pc (tasks s t) = Dead" and tl: "\<And>t. undo_list (tasks s' t) = undo_list (tasks s t)"
    and u: "sem_undos sma' = sem_undos sma"
  shows "undos_inv D E s'"
proof -
  have "\<exists>l b m. sits s' l b m \<and> v \<in> set (sem_undos m)" if v: "undos s' v = Some un" "semid un \<noteq> -1" "v \<notin> E" for v un
  proof -
    obtain un' where "undos s v = Some un'" "semid un' \<noteq> -1" using undo_shape_semid [of "undos s'" v "undos s", OF sh v(1)] v(2) by auto
    then obtain l' b m where m: "sits s l' b m" "v \<in> set (sem_undos m)" using i v(3) unfolding undos_inv_def by blast
    show ?thesis using array_change_member [OF c m] u by simp
  qed
  then show ?thesis using i unfolding undos_inv_def live_users_def ul tl dead dom_undo_shape [OF sh] by blast
qed

lemma queue_step_inv:
  assumes inv: "sem_inv (insert a X) R D E s" and st: "queue_step a W s s'"
    and bl: "a \<notin> X \<Longrightarrow> \<forall>t \<in> set (pending_of a s'). entry_blocked s' a t" and slot: "slot (sem_ids s) la = Some a"
  shows "sem_inv X R D E s'"
proof -
  obtain sma sma' where st': "smas s a = Some sma" "smas s' = (smas s)(a \<mapsto> sma')" "sma_frame W sma sma'"
    "sem_ids s' = sem_ids s" "ulists s' = ulists s"
    "\<And>u. u \<notin> set (sem_undos sma) \<Longrightarrow> undos s' u = undos s u"
    "\<And>u. map_option undo_shape (undos s' u) = map_option undo_shape (undos s u)"
    "\<And>t. pc (tasks s' t) = pc (tasks s t)" "\<And>t. undo_list (tasks s' t) = undo_list (tasks s t)"
    "\<And>t. t \<notin> W \<Longrightarrow> tasks s' t = tasks s t"
    "\<And>t. t \<in> W \<Longrightarrow> status (queue (tasks s' t)) \<in> {0, - EAGAIN, - ERANGE}"
    using queue_stepE [OF st] by blast
  note fr = st'(3) [unfolded sma_frame_def]
  have i: "slots_inv s" "refs_inv R s" "pcs_inv s" "arrays_inv (insert a X) s" "sleepers_inv s" "undos_inv D E s"
    using inv by (simp_all add: sem_inv_def)
  have la: "sits s la a sma" using slot st'(1) by (simp add: sits_def)
  then have c: "array_change la a sma sma' s s'" using st'(2,4) fr by (simp add: array_change_def)
  have a: "array_inv (insert a X) s la a sma" using i(4) la by (simp add: arrays_inv_def)
  have "entry_inv s' la sma' t" if "t \<in> set (sem_pending sma')" for t
  proof -
    have "t \<notin> W" "entry_inv s la sma t" using a that fr by (auto simp: array_inv_def)
    then show ?thesis using st'(5,10) fr by (simp add: entry_inv_def)
  qed
  moreover have "entry_blocked s' a t" if "t \<in> set (sem_pending sma')" "a \<notin> X" for t
    using bl that st'(2) by (simp add: pending_of_def)
  moreover have "array_valid s' a" using a queue_step_valid [OF st] by (simp add: array_inv_def)
  ultimately have "array_inv X s' la a sma'" using a fr st'(7) unfolding array_inv_def by simp
  then have "arrays_inv X s'"
  proof (rule array_change_arrays [OF c i(1,4)])
    show "tasks s' t = tasks s t" if "sits s l b m" "b \<noteq> a" "t \<in> set (sem_pending m)" for l b m t
      using pending_disjoint [OF i(1,4) la that(1)] that fr st'(10) by blast
    show "undos s' u = undos s u" if "sits s l b m" "b \<noteq> a" "u \<in> set (sem_undos m)" for l b m u
      using undos_disjoint [OF i(1,4) la that(1)] that st'(6) by blast
  qed (auto simp: st'(5))
  moreover have "sleepers_inv s'"
  proof (rule array_change_sleepers [OF c i(1,5)])
    fix t
    show "tasks s' t = tasks s t \<and> (t \<in> set (sem_pending sma) \<longrightarrow> t \<in> set (sem_pending sma')) \<or>
      status (queue (tasks s' t)) \<noteq> IN_WAKEUP \<and> (status (queue (tasks s' t)) = - EINTR \<longrightarrow> t \<in> set (sem_pending sma'))"
      using st'(10,11) [of t] fr by (cases "t \<in> W") auto
  qed
  moreover have "undos_inv D E s'" using array_change_undos [OF c i(1,6) st'(5,7)] st'(8,9) fr by simp
  moreover have "refs_inv R s'" "pcs_inv s'"
    using array_change_refs [OF c i(2)] array_change_pcs [OF c i(1,3)] st'(8,9) by simp_all
  ultimately show ?thesis using array_change_slots [OF c i(1)] by (simp add: sem_inv_def)
qed

lemma sem_inv_mono: "sem_inv X R D E s \<Longrightarrow> sem_inv (insert a X) R D E s"
  by (auto simp: sem_inv_def arrays_inv_def array_inv_def)

lemma value_step_inv:
  "sem_inv X R D E s \<Longrightarrow> queue_step a W s s' \<Longrightarrow> slot (sem_ids s) la = Some a \<Longrightarrow>
     sem_inv (insert a X) R D E s'"
  by (rule queue_step_inv [where X = "insert a X"]) (auto intro: sem_inv_mono)

lemma update_queue_inv:
  assumes "sem_inv (insert a X) R D E s" "slot (sem_ids s) la = Some a"
  obtains s' W where "update_queue a s = Some s'" "sem_inv X R D E s'" "queue_step a W s s'"
proof -
  obtain sma where "sits s la a sma" using assms by (auto simp: sem_inv_def slots_inv_def sits_def)
  then have "array_valid s a" using assms(1) by (simp add: sem_inv_def arrays_inv_def array_inv_def)
  then obtain s' W where "update_queue a s = Some s'" "queue_step a W s s'"
    "\<forall>t \<in> set (pending_of a s'). entry_blocked s' a t" by (rule update_queue_spec)
  then show thesis using queue_step_inv assms that by metis
qed

section \<open>Sleeping, waking and references\<close>

text \<open>A task that is neither queued nor dead moves from one point of a call to another.\<close>

definition moved :: "(addr \<Rightarrow> int) \<Rightarrow> sem_pc \<Rightarrow> sem_pc \<Rightarrow> addr \<Rightarrow> int" where
  "moved R p p' a = R a + of_bool (\<exists>n. held p = Some (a, n)) - of_bool (\<exists>n. held p' = Some (a, n))"

abbreviation set_pc :: "task \<Rightarrow> sem_pc \<Rightarrow> semsys \<Rightarrow> semsys" where
  "set_pc t p s \<equiv> set_task t ((tasks s t)\<lparr>pc := p\<rparr>) s"

lemma holders_set_pc:
  assumes "finite (holders s a)"
  shows "int (card (holders (set_pc t p s) a)) =
    int (card (holders s a)) - of_bool (\<exists>n. held (pc (tasks s t)) = Some (a, n)) + of_bool (\<exists>n. held p = Some (a, n))"
proof -
  have h: "holders (set_pc t p s) a = (if \<exists>n. held p = Some (a, n) then insert t (holders s a - {t}) else holders s a - {t})"
    by (auto simp: holders_def set_task_def)
  have "t \<in> holders s a \<longleftrightarrow> (\<exists>n. held (pc (tasks s t)) = Some (a, n))" by (simp add: holders_def)
  moreover have "int (card (holders s a - {t})) = int (card (holders s a)) - 1" if "t \<in> holders s a"
    using that assms card_Suc_Diff1 [of "holders s a" t] by linarith
  ultimately show ?thesis unfolding h using assms by (auto simp: insert_absorb)
qed

lemma finite_holders: "refs_inv R s \<Longrightarrow> finite (holders s a)"
  by (rule finite_subset [of _ "{t. pc (tasks s t) \<noteq> Dead}"]) (auto simp: refs_inv_def holders_def)

lemma not_pending:
  "sem_inv X R D E s \<Longrightarrow> sits s l a sma \<Longrightarrow> \<forall>timeout. pc (tasks s t) \<noteq> Asleep timeout \<Longrightarrow> t \<notin> set (sem_pending sma)"
  unfolding sem_inv_def arrays_inv_def array_inv_def entry_inv_def by blast

lemma set_pc_inv:
  assumes inv: "sem_inv X R D E s" and t: "pc (tasks s t) \<noteq> Dead" "\<forall>timeout. pc (tasks s t) \<noteq> Asleep timeout"
    and p: "p \<noteq> Dead" "\<forall>timeout. p \<noteq> Asleep timeout" "pc_ok s t p"
  shows "sem_inv X (moved R (pc (tasks s t)) p) D E (set_pc t p s)"
proof -
  let ?s = "set_pc t p s"
  have i: "slots_inv s" "refs_inv R s" "pcs_inv s" "arrays_inv X s" "sleepers_inv s" "undos_inv D E s"
    using inv by (simp_all add: sem_inv_def)
  have f: "sem_ids ?s = sem_ids s" "smas ?s = smas s" "undos ?s = undos s" "ulists ?s = ulists s"
    "\<And>t'. undo_list (tasks ?s t') = undo_list (tasks s t')" "\<And>t'. queue (tasks ?s t') = queue (tasks s t')"
    "\<And>t'. t' \<noteq> t \<Longrightarrow> tasks ?s t' = tasks s t'" "pc (tasks ?s t) = p"
    by (simp_all add: set_task_def)
  have sits: "sits ?s l a sma = sits s l a sma" for l a sma by (simp add: sits_def f)
  have dead: "pc (tasks ?s t') \<noteq> Dead \<longleftrightarrow> pc (tasks s t') \<noteq> Dead" for t' using t(1) p(1) by (simp add: set_task_def)
  have "slots_inv ?s" using i(1) by (simp add: slots_inv_def f)
  moreover have "refs_inv (moved R (pc (tasks s t)) p) ?s"
    using i(2) holders_set_pc [OF finite_holders [OF i(2)], where t = t and p = p]
    unfolding refs_inv_def dead by (simp add: f moved_def)
  moreover have "pcs_inv ?s"
  proof -
    have "pc_ok ?s t' x = pc_ok s t' x" for t' x by (simp add: pc_ok_def sits f)
    then show ?thesis using i(3) p(3) f(7,8) unfolding pcs_inv_pc_ok by metis
  qed
  moreover have "arrays_inv X ?s"
    unfolding arrays_inv_def sits
  proof (intro allI impI)
    fix l a sma assume a: "sits s l a sma"
    then have "t \<notin> set (sem_pending sma)" using not_pending [OF inv] t(2) by blast
    moreover have "array_inv X s l a sma" using a i(4) by (simp add: arrays_inv_def)
    ultimately show "array_inv X ?s l a sma"
      using a by (intro array_inv_frame [of X s l a sma ?s]) (auto simp: sits_def set_task_def)
  qed
  moreover have "sleepers_inv ?s"
    using i(5) p(2) f(6,7,8) unfolding sleepers_inv_def sits by metis
  moreover have "undos_inv D E ?s"
    using i(6) unfolding undos_inv_def live_users_def dead sits f by blast
  ultimately show ?thesis by (simp add: sem_inv_def)
qed


text \<open>Taking and dropping a reference.\<close>

lemma refcount_array_inv:
  assumes a: "smas s a = Some sma" and ai: "array_inv X s l a sma"
  shows "array_inv X (set_sma a (sma\<lparr>refcount := k\<rparr>) s) l a (sma\<lparr>refcount := k\<rparr>)" (is "array_inv X ?s l a ?sma")
proof -
  have f: "smas ?s = (smas s)(a \<mapsto> ?sma)" "undos ?s = undos s" "ulists ?s = ulists s" "tasks ?s = tasks s"
    by (simp_all add: set_sma_def)
  have "entry_valid ?s ?sma t = entry_valid s sma t" for t by (simp add: entry_valid_def f)
  then have "array_valid ?s a" using ai a unfolding array_inv_def array_valid_def f(1,2) by auto
  moreover have "read_adj un ?s = read_adj un s" for un by (cases un) (simp_all add: read_adj_def f)
  then have "entry_blocked ?s a t = entry_blocked s a t" for t using a by (simp add: entry_blocked_def f)
  ultimately show ?thesis using ai by (simp add: array_inv_def entry_inv_def f)
qed

lemma refcount_inv:
  assumes inv: "sem_inv X R D E s" and a: "smas s a = Some sma"
  shows "sem_inv X (R(a := R a + k)) D E (set_sma a (sma\<lparr>refcount := refcount sma + k\<rparr>) s)"
proof -
  let ?sma = "sma\<lparr>refcount := refcount sma + k\<rparr>"
  let ?s = "set_sma a ?sma s"
  have i: "slots_inv s" "refs_inv R s" "pcs_inv s" "arrays_inv X s" "sleepers_inv s" "undos_inv D E s"
    using inv by (simp_all add: sem_inv_def)
  have f: "sem_ids ?s = sem_ids s" "smas ?s = (smas s)(a \<mapsto> ?sma)" "undos ?s = undos s" "ulists ?s = ulists s"
    "tasks ?s = tasks s" by (simp_all add: set_sma_def)
  have old: "\<exists>m0. sits s l b m0 \<and> sma_id l m = sma_id l m0 \<and> (if b = a then m0 = sma \<and> m = ?sma else m0 = m)"
    if "sits ?s l b m" for l b m
    using that a unfolding sits_def f by (cases "b = a") auto
  have new: "\<exists>m. sits ?s l b m \<and> sem_undos m = sem_undos m0 \<and> sem_pending m = sem_pending m0"
    if "sits s l b m0" for l b m0
    using that a unfolding sits_def f by (cases "b = a") auto
  have sm: "\<exists>m. smas ?s b = Some m \<and> sem_nsems m = sem_nsems m0 \<and> sem_perm m = sem_perm m0"
    if "smas s b = Some m0" for b m0
    using that a unfolding f by (cases "b = a") auto
  have "pc_ok ?s t (pc (tasks s t))" for t
  proof (rule pc_ok_frame)
    show "pc_ok s t (pc (tasks s t))" using i(3) by (simp add: pcs_inv_pc_ok)
    show "\<exists>m'. smas ?s b = Some m' \<and> sem_nsems m' = sem_nsems m \<and> (deleted (sem_perm m') \<or> b \<in> ran (slot (sem_ids ?s)))"
      if "smas s b = Some m" "deleted (sem_perm m) \<or> b \<in> ran (slot (sem_ids s))" for b m
      using sm [OF that(1)] that(2) unfolding f(1) by metis
    show "\<exists>m. sits s l b m \<and> sma_id l m = sma_id l m'" if "sits ?s l b m'" for l b m' using old [OF that] by metis
  qed (simp add: f)
  then have "pcs_inv ?s" by (simp add: pcs_inv_pc_ok f)
  moreover have "array_inv X ?s l b m" if b: "sits ?s l b m" for l b m
  proof -
    obtain m0 where m0: "sits s l b m0" "if b = a then m0 = sma \<and> m = ?sma else m0 = m" using old [OF b] by blast
    then have ai: "array_inv X s l b m0" using i(4) by (simp add: arrays_inv_def)
    show ?thesis
    proof (cases "b = a")
      case False
      then show ?thesis using ai m0 by (intro array_inv_frame [of X s l b m ?s]) (auto simp: sits_def f)
    qed (use refcount_array_inv [OF a] ai m0(2) in simp)
  qed
  then have "arrays_inv X ?s" by (simp add: arrays_inv_def)
  moreover have "\<exists>l b m. sits ?s l b m \<and> u \<in> set (sem_undos m)" if "undos s u = Some un" "semid un \<noteq> -1" "u \<notin> E" for u un
    using that i(6) new unfolding undos_inv_def by metis
  then have "undos_inv D E ?s" using i(6) unfolding undos_inv_def live_users_def f(3,4,5) by blast
  moreover have "slots_inv ?s" using i(1) sm unfolding slots_inv_def f(1) by metis
  moreover have "refs_inv (R(a := R a + k)) ?s" using i(2) a unfolding refs_inv_def holders_def f by auto
  moreover have "sleepers_inv ?s" using i(5) new unfolding sleepers_inv_def f(5) by metis
  ultimately show ?thesis by (simp add: sem_inv_def)
qed

lemma getref_inv:
  assumes "sem_inv X R D E s" "smas s a = Some sma"
  obtains s' where "ipc_rcu_getref a s = Some s'" "sem_inv X (R(a := R a + 1)) D E s'"
    "s' = set_sma a (sma\<lparr>refcount := refcount sma + 1\<rparr>) s"
  using refcount_inv [OF assms, of 1] assms(2) that by (auto simp: ipc_rcu_getref_def)

lemma putref_inv:
  assumes "sem_inv X R D E s" "smas s a = Some sma"
  obtains s' where "ipc_rcu_putref a s = Some s'" "sem_inv X (R(a := R a - 1)) D E s'"
    "s' = set_sma a (sma\<lparr>refcount := refcount sma - 1\<rparr>) s"
  using refcount_inv [OF assms, of "-1"] assms(2) that by (auto simp: ipc_rcu_putref_def)

text \<open>The end of a grace period frees the arrays nobody refers to.\<close>

lemma rcu_free_inv:
  assumes inv: "sem_inv X (\<lambda>_. 0) D E s"
  shows "sem_inv X (\<lambda>_. 0) D E (rcu_free s)"
proof -
  let ?s = "rcu_free s"
  have i: "slots_inv s" "refs_inv (\<lambda>_. 0) s" "pcs_inv s" "arrays_inv X s" "sleepers_inv s" "undos_inv D E s"
    using inv by (simp_all add: sem_inv_def)
  have f: "sem_ids ?s = sem_ids s" "undos ?s = undos s" "ulists ?s = ulists s" "tasks ?s = tasks s"
    by (simp_all add: rcu_free_def)
  have sub: "smas s a = Some m" if "smas ?s a = Some m" for a m
    using that by (auto simp: rcu_free_def split: option.splits if_splits)
  have keep: "smas ?s a = Some m" if "smas s a = Some m" "a \<in> ran (slot (sem_ids s)) \<or> holders s a \<noteq> {}" for a m
  proof -
    have "card (holders s a) > 0" if "holders s a \<noteq> {}"
      using that finite_holders [OF i(2)] by (simp add: card_gt_0_iff)
    then have "refcount m > 0" using i(2) that unfolding refs_inv_def by force
    then show ?thesis using that(1) by (simp add: rcu_free_def)
  qed
  have sits: "sits ?s l a m = sits s l a m" for l a m
    using sub keep unfolding sits_def f by (metis ranI)
  have "slots_inv ?s" using i(1) keep unfolding slots_inv_def f(1) by (meson ranI)
  moreover have "refs_inv (\<lambda>_. 0) ?s" using i(2) sub unfolding refs_inv_def holders_def f by blast
  moreover have "pcs_inv ?s"
    unfolding pcs_inv_pc_ok f(4)
  proof
    fix t
    have "pc_ok s t (pc (tasks s t))" using i(3) by (simp add: pcs_inv_pc_ok)
    moreover have "t \<in> holders s a" if "held (pc (tasks s t)) = Some (a, n)" for a n
      using that by (auto simp: holders_def)
    ultimately show "pc_ok ?s t (pc (tasks s t))"
      using keep by (intro pc_ok_frame [of s t _ ?s]) (auto simp: sits f)
  qed
  moreover have "arrays_inv X ?s"
    unfolding arrays_inv_def sits
  proof (intro allI impI)
    fix l b m assume b: "sits s l b m"
    then have "smas ?s b = Some m" using sits [of l b m] unfolding sits_def by blast
    then show "array_inv X ?s l b m"
      using b i(4) by (intro array_inv_frame [of X s l b m ?s]) (auto simp: sits_def arrays_inv_def f)
  qed
  moreover have "sleepers_inv ?s" using i(5) unfolding sleepers_inv_def sits f .
  moreover have "undos_inv D E ?s" using i(6) unfolding undos_inv_def live_users_def sits f .
  ultimately show ?thesis by (simp add: sem_inv_def)
qed


section \<open>Returning from a call\<close>

abbreviation sem_inv0 :: "semsys \<Rightarrow> bool" where
  "sem_inv0 \<equiv> sem_inv {} (\<lambda>_. 0) {} {}"

lemma resume_Ret [simp]: "pc (tasks s t) = Idle \<Longrightarrow> resume_to t (Ret r d) s = s"
  by (simp add: resume_to_def set_task_def fun_upd_idem)

lemma resume_Block:
  assumes inv: "sem_inv {} R {} {} s" and t: "pc (tasks s t) = Idle"
    and p: "held p = Some (a, n)" "R = (\<lambda>_. 0)(a := 1)" "pc_ok s t p"
  shows "sem_inv0 (resume_to t (Block p) s)"
proof -
  have "p \<noteq> Dead" "\<forall>timeout. p \<noteq> Asleep timeout" using p(1) by auto
  then have "sem_inv {} (moved R (pc (tasks s t)) p) {} {} (set_pc t p s)"
    using t p(3) by (intro set_pc_inv [OF inv]) auto
  moreover have "moved R (pc (tasks s t)) p = (\<lambda>_. 0)" using t p(1,2) by (auto simp: moved_def fun_eq_iff)
  ultimately show ?thesis by (simp add: resume_to_def)
qed

text \<open>A task that resumes inside a call owns the reference it went to sleep with.\<close>

lemma running_inv:
  assumes inv: "sem_inv0 s" and t: "held (pc (tasks s t)) = Some (a, n)"
  shows "sem_inv {} ((\<lambda>_. 0)(a := 1)) {} {} (running t s)"
proof -
  have "pc (tasks s t) \<noteq> Dead" "\<forall>timeout. pc (tasks s t) \<noteq> Asleep timeout" using t by auto
  then have "sem_inv {} (moved (\<lambda>_. 0) (pc (tasks s t)) Idle) {} {} (set_pc t Idle s)"
    by (intro set_pc_inv [OF inv]) (auto simp: pc_ok_def)
  moreover have "moved (\<lambda>_. 0) (pc (tasks s t)) Idle = (\<lambda>_. 0)(a := 1)" using t by (auto simp: moved_def fun_eq_iff)
  ultimately show ?thesis by (simp add: running_def)
qed

lemma running_pc [simp]: "pc (tasks (running t s) t) = Idle"
  by (simp add: running_def set_task_def)

section \<open>Setting values\<close>

lemma clear_adj_spec:
  assumes "\<And>u. u \<in> set us \<Longrightarrow> \<exists>i. map_option undo_shape (undos s u) = Some (i, m)" "n < m"
  shows "\<exists>f. clear_adj n us s = Some (s\<lparr>undos := f\<rparr>) \<and> (\<forall>u. u \<notin> set us \<longrightarrow> f u = undos s u) \<and>
           (\<forall>u. map_option undo_shape (f u) = map_option undo_shape (undos s u))"
  using assms(1)
proof (induction us arbitrary: s)
  case Nil
  then show ?case by (auto intro!: exI [of _ "undos s"])
next
  case (Cons u us)
  obtain un where un: "undos s u = Some un" "length (semadj un) = m"
    using Cons.prems [of u] by (auto simp: undo_shape_def)
  let ?un = "un\<lparr>semadj := (semadj un)[n := 0]\<rparr>"
  have shape: "map_option undo_shape (undos (set_undo u ?un s) v) = map_option undo_shape (undos s v)" for v
    using un(1) by (simp add: set_undo_def undo_shape_def)
  have "\<exists>f. clear_adj n us (set_undo u ?un s) = Some (set_undo u ?un s\<lparr>undos := f\<rparr>) \<and>
      (\<forall>v. v \<notin> set us \<longrightarrow> f v = undos (set_undo u ?un s) v) \<and>
      (\<forall>v. map_option undo_shape (f v) = map_option undo_shape (undos (set_undo u ?un s) v))"
    using Cons.prems shape by (intro Cons.IH) simp
  then show ?case using un assms(2) shape by (auto simp: set_undo_def)
qed

lemma clear_all_adj_spec:
  assumes "\<And>u. u \<in> set us \<Longrightarrow> \<exists>i. map_option undo_shape (undos s u) = Some (i, m)" "n \<le> m"
  shows "\<exists>f. clear_all_adj n us s = Some (s\<lparr>undos := f\<rparr>) \<and> (\<forall>u. u \<notin> set us \<longrightarrow> f u = undos s u) \<and>
           (\<forall>u. map_option undo_shape (f u) = map_option undo_shape (undos s u))"
  using assms(1)
proof (induction us arbitrary: s)
  case Nil
  then show ?case by (auto intro!: exI [of _ "undos s"])
next
  case (Cons u us)
  obtain un where un: "undos s u = Some un" "length (semadj un) = m"
    using Cons.prems [of u] by (auto simp: undo_shape_def)
  let ?un = "un\<lparr>semadj := replicate n 0 @ drop n (semadj un)\<rparr>"
  have shape: "map_option undo_shape (undos (set_undo u ?un s) v) = map_option undo_shape (undos s v)" for v
    using un assms(2) by (simp add: set_undo_def undo_shape_def)
  have "\<exists>f. clear_all_adj n us (set_undo u ?un s) = Some (set_undo u ?un s\<lparr>undos := f\<rparr>) \<and>
      (\<forall>v. v \<notin> set us \<longrightarrow> f v = undos (set_undo u ?un s) v) \<and>
      (\<forall>v. map_option undo_shape (f v) = map_option undo_shape (undos (set_undo u ?un s) v))"
    using Cons.prems shape by (intro Cons.IH) simp
  then show ?case using un assms(2) shape by (auto simp: set_undo_def)
qed

lemma sits_array_inv: "sem_inv X R D E s \<Longrightarrow> sits s l a sma \<Longrightarrow> array_inv X s l a sma"
  by (simp add: sem_inv_def arrays_inv_def)

lemma array_inv_len: "array_inv X s l a sma \<Longrightarrow> sits s l a sma \<Longrightarrow> length (sem_base sma) = sem_nsems sma"
  by (auto simp: array_inv_def array_valid_def sits_def)

lemma queue_step_pc: "queue_step a W s s' \<Longrightarrow> pc (tasks s' t) = pc (tasks s t)"
  by (erule queue_stepE) simp

lemma set_and_scan:
  assumes inv: "sem_inv {} R D E s" and st: "queue_step a {} s s1" and sl: "slot (sem_ids s) l = Some a"
  obtains s' where "update_queue a s1 = Some s'" "sem_inv {} R D E s'" "\<And>t. pc (tasks s' t) = pc (tasks s t)"
    "\<And>t. undo_list (tasks s' t) = undo_list (tasks s t)" "ulists s' = ulists s" "sem_ids s' = sem_ids s"
    "\<And>u. undos s' u = None \<longleftrightarrow> undos s u = None"
proof -
  have 1: "sem_inv {a} R D E s1" using value_step_inv [OF inv st sl] .
  have "slot (sem_ids s1) l = Some a" using sl st by (auto elim: queue_stepE)
  from 1 this obtain s' W where s': "update_queue a s1 = Some s'" "sem_inv {} R D E s'" "queue_step a W s1 s'"
    by (rule update_queue_inv)
  have "queue_step a ({} \<union> W) s s'" using queue_step_trans [OF st s'(3)] .
  then have f: "\<And>t. pc (tasks s' t) = pc (tasks s t)" "\<And>t. undo_list (tasks s' t) = undo_list (tasks s t)"
      "ulists s' = ulists s" "sem_ids s' = sem_ids s"
      "\<And>u. map_option undo_shape (undos s' u) = map_option undo_shape (undos s u)"
    by (auto elim!: queue_stepE)
  have "undos s' u = None \<longleftrightarrow> undos s u = None" for u
    using f(5) [of u] by (cases "undos s u"; cases "undos s' u") auto
  with s' f show thesis by (intro that)
qed

lemma semctl_setval_inv:
  assumes inv: "sem_inv0 s" and a: "sits s l a sma" and n: "n < sem_nsems sma"
  shows "\<exists>r s'. semctl_setval t a n val s = Some (r, s') \<and> sem_inv0 s' \<and> (\<forall>t'. pc (tasks s' t') = pc (tasks s t'))"
proof (cases "val > SEMVMX \<or> val < 0")
  case True
  then show ?thesis using inv by (simp add: semctl_setval_def)
next
  case False
  note ai = sits_array_inv [OF inv a]
  have sma: "smas s a = Some sma" "slot (sem_ids s) l = Some a" using a by (simp_all add: sits_def)
  obtain f where f: "clear_adj n (sem_undos sma) s = Some (s\<lparr>undos := f\<rparr>)" "\<forall>u. u \<notin> set (sem_undos sma) \<longrightarrow> f u = undos s u"
    "\<forall>u. map_option undo_shape (f u) = map_option undo_shape (undos s u)"
    using clear_adj_spec [of "sem_undos sma" s "sem_nsems sma" n] ai n unfolding array_inv_def by blast
  let ?sma = "sma\<lparr>sem_base := (sem_base sma)[n := \<lparr>semval = val, sempid = tgid (tasks s t)\<rparr>], sem_ctime := seconds s\<rparr>"
  let ?s = "set_sma a ?sma (s\<lparr>undos := f\<rparr>)"
  have step: "queue_step a {} s ?s"
    using f sma False
    by (intro queue_stepI [where sma = sma and sma' = ?sma and us = f and ts = "tasks s"])
      (auto simp: set_sma_def sma_frame_def intro!: sems_ok_update)
  obtain s' where s': "update_queue a ?s = Some s'" "sem_inv0 s'" "\<And>t. pc (tasks s' t) = pc (tasks s t)"
    using set_and_scan [OF inv step sma(2)] by metis
  have "semctl_setval t a n val s = Some (0, s')" using False sma f(1) s'(1) by (simp add: semctl_setval_def)
  then show ?thesis using s'(2,3) by simp
qed

end
