(* ===== verification/SemCtl.thy ===== *)
theory SemCtl
  imports SemInv
begin

text \<open>
  The calls \<^verbatim>\<open>semctl\<close> and \<^verbatim>\<open>semget\<close> of \<^verbatim>\<open>ipc/sem.c\<close> return in every state that satisfies the
  invariant and keep it: setting values, removing an array, reading, creating an array.
\<close>

unbundle bit_operations_syntax

lemma sems_ok_append [simp]: "sems_ok (xs @ ys) \<longleftrightarrow> sems_ok xs \<and> sems_ok ys"
  by (auto simp: sems_ok_def)

lemma sems_ok_drop: "sems_ok xs \<Longrightarrow> sems_ok (drop n xs)"
  by (auto simp: sems_ok_def dest: in_set_dropD)

lemma setall_values_ok:
  fixes io :: "u16 list"
  assumes "\<not> list_ex (\<lambda>v. uint v > SEMVMX) io" "sems_ok base" "n \<le> length base" "length io = n"
  shows "sems_ok (map2 (\<lambda>sm v. sm\<lparr>semval := uint v\<rparr>) (take n base) io @ drop n base)"
proof -
  have "0 \<le> uint v \<and> uint v \<le> SEMVMX" if "v \<in> set io" for v :: u16
    using that assms(1) unsigned_greater_eq [of v, where 'a = int] by (auto simp: list_ex_iff not_less)
  then have "sems_ok (map2 (\<lambda>sm v. sm\<lparr>semval := uint v\<rparr>) (take n base) io)"
    by (auto simp: sems_ok_def dest!: set_zip_rightD)
  then show ?thesis using assms(2) by (simp add: sems_ok_drop)
qed

text \<open>A task that resumes in \<^verbatim>\<open>GETALL\<close> or \<^verbatim>\<open>SETALL\<close> drops its reference before anything else.\<close>

lemma drop_held_ref:
  assumes inv: "sem_inv0 s" and t: "held (pc (tasks s t)) = Some (a, n)"
  obtains sma s' where "ipc_rcu_putref a (running t s) = Some s'" "sem_inv0 s'" "smas s' a = Some sma"
    "sem_nsems sma = n" "pc (tasks s' t) = Idle" "sem_ids s' = sem_ids s"
    "deleted (sem_perm sma) \<or> (\<exists>l. sits s' l a sma)" "undos s' = undos s" "ulists s' = ulists s"
    "\<And>t'. undo_list (tasks s' t') = undo_list (tasks s t')"
    "\<And>l sma. sits s' l a sma \<Longrightarrow> \<exists>sma0. sits s l a sma0 \<and> sma_id l sma = sma_id l sma0"
proof -
  obtain sma where sma: "smas s a = Some sma" "sem_nsems sma = n"
      "deleted (sem_perm sma) \<or> a \<in> ran (slot (sem_ids s))"
    using inv t unfolding sem_inv_def pcs_inv_def by blast
  have f: "smas (running t s) = smas s" "sem_ids (running t s) = sem_ids s" "undos (running t s) = undos s"
    "ulists (running t s) = ulists s" "\<And>t'. undo_list (tasks (running t s) t') = undo_list (tasks s t')"
    by (simp_all add: running_def set_task_def)
  let ?sma = "sma\<lparr>refcount := refcount sma - 1\<rparr>"
  let ?s = "set_sma a ?sma (running t s)"
  from running_inv [OF inv t] have "sem_inv {} ((\<lambda>_. 0)(a := 1, a := 1 - 1)) {} {} ?s"
    and "ipc_rcu_putref a (running t s) = Some ?s"
    using putref_inv [of _ _ _ _ "running t s" a sma] sma(1) f(1) by (metis fun_upd_same)+
  moreover have "(\<lambda>_. 0)(a := 1, a := 1 - 1) = (\<lambda>_. 0 :: int)" by auto
  moreover have "smas ?s a = Some ?sma" "sem_ids ?s = sem_ids s" "pc (tasks ?s t) = Idle"
    "undos ?s = undos s" "ulists ?s = ulists s" "\<And>t'. undo_list (tasks ?s t') = undo_list (tasks s t')"
    using f by (simp_all add: set_sma_def)
  moreover have "deleted (sem_perm ?sma) \<or> (\<exists>l. sits ?s l a ?sma)"
    using sma f by (auto simp: sits_def set_sma_def ran_def)
  moreover have "\<exists>sma0. sits s l a sma0 \<and> sma_id l m = sma_id l sma0" if "sits ?s l a m" for l m
    using that sma(1) f by (auto simp: sits_def set_sma_def)
  ultimately show thesis using sma(2) by (intro that [of ?s ?sma]) auto
qed

lemma setall_finish_inv:
  assumes inv: "sem_inv0 s" and t: "pc (tasks s t) = In_setall a nsems"
  shows "\<exists>r s'. setall_finish a nsems got arg (running t s) = Some (r, s') \<and> sem_inv0 (resume_to t r s')"
proof -
  have "held (pc (tasks s t)) = Some (a, nsems)" using t by simp
  with inv obtain sma s1 where s1: "ipc_rcu_putref a (running t s) = Some s1" "sem_inv0 s1" "smas s1 a = Some sma"
    "sem_nsems sma = nsems" "pc (tasks s1 t) = Idle" "deleted (sem_perm sma) \<or> (\<exists>l. sits s1 l a sma)"
    by (rule drop_held_ref)
  show ?thesis
  proof (cases "(nsems > SEMMSL_FAST \<and> \<not> got) \<or> arg_array arg = None \<or> deleted (sem_perm sma) \<or>
      list_ex (\<lambda>v. uint v > SEMVMX) (map (the (arg_array arg)) [0..<nsems])")
    case True
    then show ?thesis using s1 by (cases "arg_array arg") (auto simp: setall_finish_def Let_def)
  next
    case False
    then obtain arr l where arr: "arg_array arg = Some arr" and l: "sits s1 l a sma" using s1(6) by auto
    let ?io = "map arr [0..<nsems]"
    note ai = sits_array_inv [OF s1(2) l]
    have len: "length (sem_base sma) = nsems" using array_inv_len [OF ai l] s1(4) by simp
    let ?base = "map2 (\<lambda>sm v. sm\<lparr>semval := uint v\<rparr>) (take nsems (sem_base sma)) ?io @ drop nsems (sem_base sma)"
    have ok: "sems_ok ?base" using ai False arr len by (intro setall_values_ok) (auto simp: array_inv_def)
    let ?s2 = "set_sma a (sma\<lparr>sem_base := ?base\<rparr>) s1"
    obtain f where f: "clear_all_adj nsems (sem_undos sma) ?s2 = Some (?s2\<lparr>undos := f\<rparr>)"
      "\<forall>u. u \<notin> set (sem_undos sma) \<longrightarrow> f u = undos s1 u"
      "\<forall>u. map_option undo_shape (f u) = map_option undo_shape (undos s1 u)"
      using clear_all_adj_spec [of "sem_undos sma" ?s2 "sem_nsems sma" nsems] ai s1(4)
      unfolding array_inv_def by (auto simp: set_sma_def simp del: map_option_eq_Some)
    let ?sma = "sma\<lparr>sem_base := ?base, sem_ctime := seconds s1\<rparr>"
    let ?s3 = "set_sma a ?sma (?s2\<lparr>undos := f\<rparr>)"
    have step: "queue_step a {} s1 ?s3"
      using f s1(3) ok len
      by (intro queue_stepI [where sma = sma and sma' = ?sma and us = f and ts = "tasks s1"])
        (auto simp: set_sma_def sma_frame_def)
    obtain s' where s': "update_queue a ?s3 = Some s'" "sem_inv0 s'" "\<And>t. pc (tasks s' t) = pc (tasks s1 t)"
      using set_and_scan [OF s1(2) step] l unfolding sits_def by metis
    have "setall_finish a nsems got arg (running t s) = Some (ret 0, s')"
      using False arr s1(1,3) len f(1) s'(1) by (auto simp: setall_finish_def Let_def set_sma_def)
    then show ?thesis using s'(2,3) s1(5) by simp
  qed
qed

lemma getall_finish_inv:
  assumes inv: "sem_inv0 s" and t: "pc (tasks s t) = In_getall a nsems"
  shows "\<exists>r s'. getall_finish a nsems got arg (running t s) = Some (r, s') \<and> sem_inv0 (resume_to t r s')"
proof -
  have "held (pc (tasks s t)) = Some (a, nsems)" using t by simp
  with inv obtain sma s1 where "ipc_rcu_putref a (running t s) = Some s1" "sem_inv0 s1" "smas s1 a = Some sma"
    "sem_nsems sma = nsems" "pc (tasks s1 t) = Idle"
    by (rule drop_held_ref)
  then show ?thesis by (auto simp: getall_finish_def)
qed


section \<open>Removing an array\<close>

lemma invalidate_undos_spec:
  assumes "\<And>u. u \<in> set us \<Longrightarrow> undos s u \<noteq> None"
  shows "invalidate_undos us s =
    Some (s\<lparr>undos := (\<lambda>u. if u \<in> set us then map_option (\<lambda>un. un\<lparr>semid := -1\<rparr>) (undos s u) else undos s u)\<rparr>)"
  using assms
proof (induction us arbitrary: s)
  case (Cons u us)
  obtain un where un: "undos s u = Some un" using Cons.prems [of u] by auto
  let ?s = "set_undo u (un\<lparr>semid := -1\<rparr>) s"
  have "invalidate_undos us ?s =
    Some (?s\<lparr>undos := (\<lambda>v. if v \<in> set us then map_option (\<lambda>un. un\<lparr>semid := -1\<rparr>) (undos ?s v) else undos ?s v)\<rparr>)"
    using Cons.prems by (intro Cons.IH) (auto simp: set_undo_def)
  then show ?case using un
    by (auto simp: set_undo_def fun_eq_iff intro!: semsys.fold_congs)
qed simp

lemma wake_all_spec:
  "wake_all ts s = s\<lparr>tasks := (\<lambda>t. if t \<in> set ts then woken (- EIDRM) (tasks s t) else tasks s t)\<rparr>"
proof (induction ts arbitrary: s)
  case (Cons t ts)
  have "set_status t (- EIDRM) (wake_up_process t (set_status t IN_WAKEUP
      (set_queue t ((queue (tasks s t))\<lparr>linked := False\<rparr>) s))) =
      s\<lparr>tasks := (tasks s)(t := woken (- EIDRM) (tasks s t))\<rparr>" (is "?s = _")
    by (simp add: set_queue_def set_status_def set_task_def wake_up_process_def woken_def)
  then have "wake_all (t # ts) s = wake_all ts (s\<lparr>tasks := (tasks s)(t := woken (- EIDRM) (tasks s t))\<rparr>)"
    by (simp add: Let_def)
  then show ?case unfolding Cons.IH
    by (auto simp: woken_def fun_eq_iff intro!: semsys.fold_congs)
qed simp

text \<open>The state after \<^verbatim>\<open>freeary\<close>, and the parts of the invariant in it.\<close>

definition array_removed :: "nat \<Rightarrow> addr \<Rightarrow> sem_array \<Rightarrow> semsys \<Rightarrow> semsys \<Rightarrow> bool" where
  "array_removed l a sma s s' \<longleftrightarrow> sits s l a sma \<and> ids_ok (sem_ids s') \<and> at_nullentry (sem_ids s') = at_nullentry (sem_ids s) \<and> slot (sem_ids s') = (slot (sem_ids s))(l := None) \<and>
     smas s' = (smas s)(a \<mapsto> sma\<lparr>sem_perm := mark_deleted (sem_perm sma), refcount := refcount sma - 1\<rparr>) \<and> ulists s' = ulists s \<and>
     undos s' = (\<lambda>u. if u \<in> set (sem_undos sma) then map_option (\<lambda>un. un\<lparr>semid := -1\<rparr>) (undos s u) else undos s u) \<and>
     tasks s' = (\<lambda>t. if t \<in> set (sem_pending sma) then woken (- EIDRM) (tasks s t) else tasks s t)"

lemma array_removedD:
  assumes "array_removed l a sma s s'"
  shows "sits s l a sma" "pc (tasks s' t) = pc (tasks s t)" "undo_list (tasks s' t) = undo_list (tasks s t)"
    "t \<notin> set (sem_pending sma) \<Longrightarrow> tasks s' t = tasks s t" "u \<notin> set (sem_undos sma) \<Longrightarrow> undos s' u = undos s u"
    "t \<in> set (sem_pending sma) \<Longrightarrow> status (queue (tasks s' t)) = - EIDRM"
    "undos s' u = Some un \<Longrightarrow> semid un \<noteq> -1 \<Longrightarrow> u \<notin> set (sem_undos sma) \<and> undos s u = Some un"
    "dom (undos s') = dom (undos s)"
  using assms by (auto simp: array_removed_def woken_def split: if_splits)

lemma array_removed_slot:
  assumes r: "array_removed l a sma s s'" and i: "slots_inv s"
  shows "sits s' l' b m \<longleftrightarrow> sits s l' b m \<and> b \<noteq> a" "b \<in> ran (slot (sem_ids s')) \<longleftrightarrow> b \<in> ran (slot (sem_ids s)) \<and> b \<noteq> a" "slots_inv s'"
proof -
  have sma: "smas s a = Some sma" "slot (sem_ids s) l = Some a" using r by (simp_all add: array_removed_def sits_def)
  have only: "slot (sem_ids s) l' = Some a \<longleftrightarrow> l' = l" for l' using i sma(2) unfolding slots_inv_def ids_ok_def by blast
  have sl: "slot (sem_ids s') l' = Some b \<longleftrightarrow> slot (sem_ids s) l' = Some b \<and> b \<noteq> a" for l' b
    using r only [of l'] sma(2) by (cases "l' = l") (auto simp: array_removed_def)
  then show sits: "sits s' l' b m \<longleftrightarrow> sits s l' b m \<and> b \<noteq> a"
    using r by (auto simp: sits_def array_removed_def)
  show "b \<in> ran (slot (sem_ids s')) \<longleftrightarrow> b \<in> ran (slot (sem_ids s)) \<and> b \<noteq> a" unfolding ran_def mem_Collect_eq sl by blast
  show "slots_inv s'" using i r unfolding slots_inv_def sl by (auto simp: array_removed_def)
qed

lemma array_removed_arrays:
  assumes r: "array_removed l a sma s s'" and i: "slots_inv s" "arrays_inv {} s"
  shows "arrays_inv {} s'"
  unfolding arrays_inv_def array_removed_slot(1) [OF r i(1)]
proof (intro allI impI)
  fix l' b m assume b: "sits s l' b m \<and> b \<noteq> a"
  note a = array_removedD(1) [OF r]
  show "array_inv {} s' l' b m"
  proof (rule array_inv_frame [of "{}" s])
    show "tasks s' t = tasks s t" if "t \<in> set (sem_pending m)" for t
      using pending_disjoint [OF i a] b that array_removedD(4) [OF r] by blast
    show "undos s' u = undos s u" if "u \<in> set (sem_undos m)" for u
      using undos_disjoint [OF i a] b that array_removedD(5) [OF r] by blast
  qed (use b i(2) r in \<open>auto simp: sits_def arrays_inv_def array_removed_def\<close>)
qed

lemma array_removed_sleepers:
  assumes r: "array_removed l a sma s s'" and i: "slots_inv s" "sleepers_inv s"
  shows "sleepers_inv s'"
proof -
  note f = array_removedD [OF r]
  have "\<exists>l b m. sits s' l b m \<and> t \<in> set (sem_pending m)"
    if t: "pc (tasks s t) = Asleep timeout" "t \<notin> set (sem_pending sma)" "status (queue (tasks s t)) = - EINTR" for t timeout
  proof -
    obtain l b m where "sits s l b m" "t \<in> set (sem_pending m)" using i(2) t unfolding sleepers_inv_def by blast
    moreover then have "b \<noteq> a" using sits_unique [OF i(1) f(1)] t(2) by blast
    ultimately show ?thesis using array_removed_slot(1) [OF r i(1)] by blast
  qed
  moreover have "t \<in> set (sem_pending sma) \<or> tasks s' t = tasks s t" for t using f(4) by blast
  moreover have "status (queue (tasks s' t)) \<noteq> IN_WAKEUP \<and> status (queue (tasks s' t)) \<noteq> - EINTR"
    if "t \<in> set (sem_pending sma)" for t using f(6) [OF that] by simp
  ultimately show ?thesis using i(2) unfolding sleepers_inv_def f(2) by metis
qed

lemma array_removed_undos:
  assumes r: "array_removed l a sma s s'" and i: "slots_inv s" "undos_inv {} {} s"
  shows "undos_inv {} {} s'"
proof -
  note f = array_removedD [OF r]
  have "\<exists>l b m. sits s' l b m \<and> u \<in> set (sem_undos m)" if u: "undos s' u = Some un" "semid un \<noteq> -1" for u un
  proof -
    obtain l b m where "sits s l b m" "u \<in> set (sem_undos m)" using i(2) f(7) [OF u] u(2) unfolding undos_inv_def by blast
    moreover then have "b \<noteq> a" using sits_unique [OF i(1) f(1)] f(7) [OF u] by blast
    ultimately show ?thesis using array_removed_slot(1) [OF r i(1)] by blast
  qed
  moreover have ul: "ulists s' = ulists s" using r by (simp add: array_removed_def)
  ultimately show ?thesis using i(2) unfolding undos_inv_def live_users_def f(2,3,8) ul by blast
qed

lemma array_removed_inv:
  assumes r: "array_removed l a sma s s'" and inv: "sem_inv0 s"
  shows "sem_inv0 s'"
proof -
  have i: "slots_inv s" "refs_inv (\<lambda>_. 0) s" "pcs_inv s" "arrays_inv {} s" "sleepers_inv s" "undos_inv {} {} s"
    using inv by (simp_all add: sem_inv_def)
  note f = array_removedD [OF r] and sl = array_removed_slot [OF r i(1)]
  have sma: "smas s a = Some sma" "a \<in> ran (slot (sem_ids s))"
    "smas s' = (smas s)(a \<mapsto> sma\<lparr>sem_perm := mark_deleted (sem_perm sma), refcount := refcount sma - 1\<rparr>)"
    using r by (auto simp: array_removed_def sits_def intro: ranI)
  have "refs_inv (\<lambda>_. 0) s'"
    using i(2) sma sl(2) unfolding refs_inv_def holders_def f(2) by auto
  moreover have "pcs_inv s'"
    unfolding pcs_inv_pc_ok f(2)
  proof
    fix t
    have "pc_ok s t (pc (tasks s t))" using i(3) by (simp add: pcs_inv_pc_ok)
    then show "pc_ok s' t (pc (tasks s t))"
    proof (rule pc_ok_frame)
      show "\<exists>m'. smas s' b = Some m' \<and> sem_nsems m' = sem_nsems m \<and> (deleted (sem_perm m') \<or> b \<in> ran (slot (sem_ids s')))"
        if "smas s b = Some m" "deleted (sem_perm m) \<or> b \<in> ran (slot (sem_ids s))" for b m
        using that sma sl(2) by (cases "b = a") (auto simp: mark_deleted_def)
    qed (use sl(1) f(3) in auto)
  qed
  ultimately show ?thesis
    using sl(3) array_removed_arrays [OF r i(1,4)] array_removed_sleepers [OF r i(1,5)] array_removed_undos [OF r i(1,6)]
    by (simp add: sem_inv_def)
qed

lemma freeary_removed:
  assumes inv: "sem_inv0 s" and a: "sits s l a sma" and l: "lid_of i = l"
  shows "\<exists>s'. freeary a i s = Some s' \<and> array_removed l a sma s s'"
proof -
  have sl: "slot (sem_ids s) (lid_of i) = Some a" "smas s a = Some sma" using a l by (simp_all add: sits_def)
  have "ids_ok (sem_ids s)" using inv by (simp add: sem_inv_def slots_inv_def)
  then obtain ids' where ids': "ipc_rmid (sem_ids s) i = Some (a, ids')" "ids_ok ids'" "slot ids' = (slot (sem_ids s))(lid_of i := None)"
    "at_nullentry ids' = at_nullentry (sem_ids s)"
    using ipc_rmid_ok sl by blast
  have "undos s u \<noteq> None" if "u \<in> set (sem_undos sma)" for u
    using that sits_array_inv [OF inv a] by (auto simp: array_inv_def)
  then have "freeary a i s = Some (s\<lparr>sem_ids := ids', used_sems := to_int (used_sems s - int (sem_nsems sma)),
        smas := (smas s)(a \<mapsto> sma\<lparr>sem_perm := mark_deleted (sem_perm sma), refcount := refcount sma - 1\<rparr>),
        undos := (\<lambda>u. if u \<in> set (sem_undos sma) then map_option (\<lambda>un. un\<lparr>semid := -1\<rparr>) (undos s u) else undos s u),
        tasks := (\<lambda>t. if t \<in> set (sem_pending sma) then woken (- EIDRM) (tasks s t) else tasks s t)\<rparr>)"
    using sl(2) ids'(1)
    by (simp add: freeary_def invalidate_undos_spec wake_all_spec set_sma_def ipc_rcu_putref_def Let_def cong: if_cong)
  with ids'(2-4) a l show ?thesis by (simp add: array_removed_def)
qed

lemma freeary_inv:
  assumes inv: "sem_inv0 s" and a: "sits s l a sma" and l: "lid_of i = l"
  shows "\<exists>s'. freeary a i s = Some s' \<and> sem_inv0 s' \<and> (\<forall>t. pc (tasks s' t) = pc (tasks s t))"
  using freeary_removed [OF assms] array_removed_inv [OF _ inv] array_removedD(2) by blast

section \<open>\<^verbatim>\<open>semctl\<close> keeps the invariant\<close>

lemma semctl_nolock_some:
  assumes "sem_inv0 s"
  shows "\<exists>r d. semctl_nolock t i cmd arg s = Some (Ret r d)"
proof -
  have "slots_inv s" using assms by (simp add: sem_inv_def)
  then show ?thesis
  proof (cases rule: sem_lock_cases [of s i])
    case (found a sma)
    then have "smas s a = Some sma" by (simp add: sits_def)
    with found(1) show ?thesis by (simp add: semctl_nolock_def Let_def)
  qed (simp add: semctl_nolock_def Let_def)
qed

lemma getref_block:
  assumes inv: "sem_inv0 s" and a: "sits s l a sma" and t: "pc (tasks s t) = Idle"
    and p: "held p = Some (a, sem_nsems sma)" "\<And>i ops timeout n. p = In_undo_alloc i ops timeout a n \<Longrightarrow>
        0 \<le> i \<and> undo_list (tasks s t) \<noteq> None \<and> i = sma_id l sma"
  shows "\<exists>s'. ipc_rcu_getref a s = Some s' \<and> sem_inv0 (resume_to t (Block p) s')"
proof -
  have sma: "smas s a = Some sma" "slot (sem_ids s) l = Some a" using a by (simp_all add: sits_def)
  have sl: "slots_inv s" using inv by (simp add: sem_inv_def)
  let ?sma = "sma\<lparr>refcount := refcount sma + 1\<rparr>"
  let ?s = "set_sma a ?sma s"
  have "ipc_rcu_getref a s = Some ?s" "sem_inv {} ((\<lambda>_. 0)(a := 0 + 1)) {} {} ?s"
    using getref_inv [OF inv sma(1)] by metis+
  moreover have "pc (tasks ?s t) = Idle" using t by (simp add: set_sma_def)
  moreover have "i = sma_id l' m" if "p = In_undo_alloc i ops timeout a n" "sits ?s l' a m" for i ops timeout n l' m
  proof -
    have "sits s l' a sma" "m = ?sma" using that(2) sma by (auto simp: sits_def set_sma_def)
    then have "l' = l" using sits_unique [OF sl a] by blast
    then show ?thesis using p(2) [OF that(1)] \<open>m = ?sma\<close> by simp
  qed
  then have "pc_ok ?s t p"
    using p sma unfolding pc_ok_def by (auto simp: set_sma_def intro: ranI)
  ultimately show ?thesis using resume_Block [of "(\<lambda>_. 0)(a := 1)" ?s t p a "sem_nsems sma"] p(1) by simp
qed

lemma semctl_main_ok:
  assumes lk: "sem_lock i s = Some (Some a)" and sma: "smas s a = Some sma" and len: "length (sem_base sma) = sem_nsems sma"
    and ok: "ipc_checkid (sem_perm sma) i = 0"
      "ipcperms (sem_perm sma) (task_cred (tasks s t)) (if cmd = SETVAL \<or> cmd = SETALL then S_IWUGO else S_IRUGO) = 0"
  shows "semctl_main t i semnum cmd arg s =
    (let nsems = sem_nsems sma in
     if cmd = GETALL then
       (if nsems > SEMMSL_FAST
        then do { s \<leftarrow> ipc_rcu_getref a s; Some (Block (In_getall a nsems), s) }
        else Some (if copy_ok arg then Ret 0 (Vals (sem_values sma)) else ret (- EFAULT), s))
     else if cmd = SETALL then
       do { s \<leftarrow> ipc_rcu_getref a s; Some (Block (In_setall a nsems), s) }
     else if cmd = IPC_STAT then
       Some (if copy_ok arg then Ret 0 (Stat (semid_ds_of sma)) else ret (- EFAULT), s)
     else if semnum < 0 \<or> semnum \<ge> int nsems then Some (ret (- EINVAL), s)
     else (let curr = sem_base sma ! nat semnum in
       if cmd = GETVAL then Some (ret (semval curr), s)
       else if cmd = GETPID then Some (ret (sempid curr), s)
       else if cmd = GETNCNT then Some (ret (count_semncnt sma (of_int semnum) s), s)
       else if cmd = GETZCNT then Some (ret (count_semzcnt sma (of_int semnum) s), s)
       else if cmd = SETVAL then
         do { (r, s) \<leftarrow> semctl_setval t a (nat semnum) (arg_val arg) s; Some (ret r, s) }
       else Some (ret (- EINVAL), s)))"
proof -
  have "(semnum < 0 \<or> semnum \<ge> int (sem_nsems sma)) \<or> \<not> sem_nsems sma \<le> nat semnum" by linarith
  then show ?thesis using assms by (elim disjE) (simp_all add: semctl_main_def Let_def)
qed

lemma semctl_main_inv:
  assumes inv: "sem_inv0 s" and t: "pc (tasks s t) = Idle"
  shows "\<exists>r s'. semctl_main t i semnum cmd arg s = Some (r, s') \<and> sem_inv0 (resume_to t r s')"
proof -
  have "slots_inv s" using inv by (simp add: sem_inv_def)
  then show ?thesis
  proof (cases rule: sem_lock_cases [of s i])
    case missing
    then show ?thesis using inv t by (simp add: semctl_main_def)
  next
    case (found a sma)
    note a = found(2)
    have sma: "smas s a = Some sma" using a by (simp add: sits_def)
    have ga: "\<exists>s'. ipc_rcu_getref a s = Some s' \<and> sem_inv0 (resume_to t (Block (In_getall a (sem_nsems sma))) s')"
      and sa: "\<exists>s'. ipc_rcu_getref a s = Some s' \<and> sem_inv0 (resume_to t (Block (In_setall a (sem_nsems sma))) s')"
      by (rule getref_block [OF inv a t]; simp)+
    let ?perm = "ipcperms (sem_perm sma) (task_cred (tasks s t)) (if cmd = SETVAL \<or> cmd = SETALL then S_IWUGO else S_IRUGO)"
    consider (refused) "ipc_checkid (sem_perm sma) i \<noteq> 0 \<or> ?perm \<noteq> 0"
      | (ok) "ipc_checkid (sem_perm sma) i = 0" "?perm = 0" by blast
    then show ?thesis
    proof cases
      case refused
      then show ?thesis using found(1) sma inv t by (auto simp: semctl_main_def Let_def)
    next
      case ok
      note * = semctl_main_ok [OF found(1) sma array_inv_len [OF sits_array_inv [OF inv a] a] ok]
      consider (set_one) "cmd = SETVAL" "0 \<le> semnum" "semnum < int (sem_nsems sma)" | (get) "cmd = GETALL" | (set_all) "cmd = SETALL"
        | (read) "cmd \<noteq> GETALL" "cmd \<noteq> SETALL" "\<not> (cmd = SETVAL \<and> 0 \<le> semnum \<and> semnum < int (sem_nsems sma))" by blast
      then show ?thesis
      proof cases
        case set_one
        then have "nat semnum < sem_nsems sma" by linarith
        then obtain r s' where "semctl_setval t a (nat semnum) (arg_val arg) s = Some (r, s')" "sem_inv0 s'" "pc (tasks s' t) = Idle"
          using semctl_setval_inv [OF inv a] t by metis
        then show ?thesis using set_one unfolding * by (simp add: Let_def)
      next
        case get
        then show ?thesis using ga inv t unfolding * by (auto simp: Let_def)
      next
        case set_all
        then show ?thesis using sa unfolding * by (auto simp: Let_def)
      next
        case read
        then have "\<exists>r d. semctl_main t i semnum cmd arg s = Some (Ret r d, s)" unfolding * by (auto simp: Let_def)
        then show ?thesis using inv t by (metis resume_Ret)
      qed
    qed
  qed
qed

lemma ipc_set_inv:
  assumes inv: "sem_inv0 s" and a: "sits s l a sma"
    and p: "deleted perm = deleted (sem_perm sma)" "seq perm = seq (sem_perm sma)"
  shows "sem_inv0 (set_sma a (sma\<lparr>sem_perm := perm, sem_ctime := c\<rparr>) s)"
proof -
  let ?s = "set_sma a (sma\<lparr>sem_perm := perm, sem_ctime := c\<rparr>) s"
  have sma: "smas s a = Some sma" "slot (sem_ids s) l = Some a" using a by (simp_all add: sits_def)
  have st: "queue_step a {} s ?s"
    by (rule queue_stepI [where sma = sma and us = "undos s" and ts = "tasks s" and
          sma' = "sma\<lparr>sem_perm := perm, sem_ctime := c\<rparr>"])
      (use sma p in \<open>auto simp: set_sma_def sma_frame_def\<close>)
  have "entry_blocked ?s a t = entry_blocked s a t" for t
    by (rule entry_blocked_cong) (simp_all add: set_sma_def sma)
  moreover have "pending_of a ?s = sem_pending sma" by (simp add: pending_of_def set_sma_def)
  ultimately have "\<forall>t \<in> set (pending_of a ?s). entry_blocked ?s a t"
    using sits_array_inv [OF inv a] by (auto simp: array_inv_def)
  then show ?thesis using queue_step_inv [OF sem_inv_mono [OF inv] st _ sma(2)] by blast
qed

lemma semctl_down_inv:
  assumes inv: "sem_inv0 s" and t: "pc (tasks s t) = Idle"
  shows "\<exists>r s'. semctl_down t i cmd arg s = Some (r, s') \<and> sem_inv0 s' \<and> pc (tasks s' t) = Idle"
proof (cases "cmd = IPC_SET \<and> arg_buf arg = None")
  case True
  then show ?thesis using inv t by (simp add: semctl_down_def)
next
  case set: False
  have "slots_inv s" using inv by (simp add: sem_inv_def)
  then show ?thesis
  proof (cases rule: sem_lock_cases [of s i])
    case missing
    then show ?thesis using inv t set by (auto simp: semctl_down_def)
  next
    case (found a sma)
    have sma: "smas s a = Some sma" using found(2) by (simp add: sits_def)
    obtain s1 where s1: "freeary a i s = Some s1" "sem_inv0 s1" "pc (tasks s1 t) = Idle"
      using freeary_inv [OF inv found(2) refl] t by metis
    have s2: "sem_inv0 (set_sma a (sma\<lparr>sem_perm := (sem_perm sma)\<lparr>uid := u, gid := g, mode := m\<rparr>, sem_ctime := c\<rparr>) s)"
      for u g m c by (rule ipc_set_inv [OF inv found(2)]) simp_all
    have "pc (tasks (set_sma a x s) t) = Idle" for x using t by (simp add: set_sma_def)
    then show ?thesis using found(1) sma s1 s2 inv t set
      by (auto simp: semctl_down_def Let_def)
  qed
qed

lemma sys_semctl_inv:
  assumes inv: "sem_inv0 s" and t: "pc (tasks s t) = Idle"
  shows "\<exists>r s'. sys_semctl t i semnum cmd arg s = Some (r, s') \<and> sem_inv0 (resume_to t r s')"
proof -
  obtain r1 d1 where "semctl_nolock t i cmd arg s = Some (Ret r1 d1)" using semctl_nolock_some [OF inv] by blast
  moreover obtain r2 s2 where "semctl_main t i semnum cmd arg s = Some (r2, s2)" "sem_inv0 (resume_to t r2 s2)"
    using semctl_main_inv [OF inv t] by blast
  moreover obtain r3 s3 where "semctl_down t i cmd arg s = Some (r3, s3)" "sem_inv0 s3" "pc (tasks s3 t) = Idle"
    using semctl_down_inv [OF inv t] by blast
  ultimately show ?thesis using inv t unfolding sys_semctl_def by (auto split: if_splits)
qed

section \<open>Creating an array\<close>

lemma undos_inv_frame:
  assumes "undos_inv D E s" "ulists s' = ulists s" "dom (undos s') = dom (undos s)"
    "\<And>t. pc (tasks s' t) = Dead \<longleftrightarrow> pc (tasks s t) = Dead" "\<And>t. undo_list (tasks s' t) = undo_list (tasks s t)"
    "\<And>u un. undos s' u = Some un \<Longrightarrow> semid un \<noteq> -1 \<Longrightarrow> u \<notin> E' \<Longrightarrow> \<exists>l a sma. sits s' l a sma \<and> u \<in> set (sem_undos sma)"
  shows "undos_inv D E' s'"
  using assms(1,6) unfolding undos_inv_def live_users_def assms(2-5) by blast

lemma new_array_refs:
  assumes i: "refs_inv (\<lambda>_. 0) s" and nh: "holders s a = {}" and na: "a \<notin> ran (slot (sem_ids s))"
    and rn: "\<And>b. b \<in> ran (slot ids') \<longleftrightarrow> b \<in> ran (slot (sem_ids s)) \<or> b = a \<and> refcount m = 1" and c: "refcount m = 0 \<or> refcount m = 1"
  shows "refs_inv (\<lambda>_. 0) (s\<lparr>sem_ids := ids', used_sems := k, smas := (smas s)(a \<mapsto> m)\<rparr>)" (is "refs_inv _ ?s")
  unfolding refs_inv_def
proof (intro conjI allI impI)
  fix b x assume x: "smas ?s b = Some x"
  have h: "holders ?s b = holders s b" by (simp add: holders_def)
  show "refcount x = of_bool (b \<in> ran (slot (sem_ids ?s))) + int (card (holders ?s b)) + 0"
  proof (cases "b = a")
    case True
    then have "x = m" using x by simp
    then show ?thesis using True nh na c rn [of a] unfolding h by auto
  next
    case False
    then show ?thesis using x i rn [of b] unfolding h refs_inv_def by auto
  qed
qed (use i in \<open>simp add: refs_inv_def\<close>)

lemma new_array_inv:
  assumes inv: "sem_inv0 s" and fr: "smas s a = None" and ids: "ids_ok ids'" "at_nullentry ids' = at_nullentry (sem_ids s)"
    and sl: "slot ids' = slot (sem_ids s) \<and> refcount m = 0 \<or>
             slot ids' = (slot (sem_ids s))(l \<mapsto> a) \<and> slot (sem_ids s) l = None \<and> refcount m = 1"
    and m: "sem_pending m = []" "sem_undos m = []" "sems_ok (sem_base m)" "length (sem_base m) = sem_nsems m \<or> slot ids' = slot (sem_ids s)"
      "\<not> deleted (sem_perm m)"
  shows "sem_inv0 (s\<lparr>sem_ids := ids', used_sems := k, smas := (smas s)(a \<mapsto> m)\<rparr>)" (is "sem_inv0 ?s")
proof -
  have i: "slots_inv s" "refs_inv (\<lambda>_. 0) s" "pcs_inv s" "arrays_inv {} s" "sleepers_inv s" "undos_inv {} {} s"
    using inv by (simp_all add: sem_inv_def)
  have no: "slot (sem_ids s) l' \<noteq> Some a" for l' using i(1) fr unfolding slots_inv_def by fastforce
  have nh: "holders s a = {}" using i(3) fr unfolding pcs_inv_def holders_def by fastforce
  have old: "sits ?s l' b x" if "sits s l' b x" for l' b x
    using that sl fr by (auto simp: sits_def)
  have new: "sits s l' b x \<or> b = a \<and> x = m \<and> slot ids' \<noteq> slot (sem_ids s)" if "sits ?s l' b x" for l' b x
    using that sl no by (auto simp: sits_def split: if_splits)
  have rn: "b \<in> ran (slot ids') \<longleftrightarrow> b \<in> ran (slot (sem_ids s)) \<or> b = a \<and> refcount m = 1" for b
    using sl by (auto simp: ran_map_upd)
  then have sub: "ran (slot (sem_ids s)) \<subseteq> ran (slot ids')" by blast
  have "\<exists>x. smas ?s b = Some x \<and> \<not> deleted (sem_perm x)" if b: "slot (sem_ids ?s) l' = Some b" for l' b
  proof -
    have "b = a \<or> slot (sem_ids s) l' = Some b" using b sl by (auto split: if_splits)
    then show ?thesis using i(1) m(5) unfolding slots_inv_def by auto
  qed
  then have "slots_inv ?s" using ids i(1) by (simp add: slots_inv_def)
  moreover have "refs_inv (\<lambda>_. 0) ?s" by (rule new_array_refs [OF i(2) nh _ rn]) (use no sl in \<open>auto simp: ran_def\<close>)
  moreover have "pc_ok ?s t (pc (tasks s t))" for t
  proof (rule pc_ok_frame)
    show "pc_ok s t (pc (tasks s t))" using i(3) by (simp add: pcs_inv_pc_ok)
    show "\<exists>x. sits s l' b x \<and> sma_id l' x = sma_id l' x'" if "held (pc (tasks s t)) = Some (b, n)" "sits ?s l' b x'" for b n l' x'
    proof -
      have "b \<noteq> a" using that(1) nh by (auto simp: holders_def)
      then show ?thesis using new [OF that(2)] by blast
    qed
  qed (use fr sub in auto)
  then have "pcs_inv ?s" by (simp add: pcs_inv_pc_ok)
  moreover have "array_inv {} ?s l' b x" if b: "sits ?s l' b x" for l' b x
    using new [OF b]
  proof
    assume s: "sits s l' b x"
    then have "array_inv {} s l' b x" using i(4) by (simp add: arrays_inv_def)
    then show ?thesis
      by (rule array_inv_frame) (use s b in \<open>auto simp: sits_def\<close>)
  qed (use m in \<open>auto simp: array_inv_def array_valid_def\<close>)
  then have "arrays_inv {} ?s" by (simp add: arrays_inv_def)
  moreover have "sleepers_inv ?s" using i(5) old unfolding sleepers_inv_def by fastforce
  moreover have "\<exists>l b x. sits ?s l b x \<and> u \<in> set (sem_undos x)" if "undos s u = Some un" "semid un \<noteq> -1" for u un
    using i(6) that old unfolding undos_inv_def by (meson empty_iff)
  then have "undos_inv {} {} ?s" by (intro undos_inv_frame [OF i(6)]) simp_all
  ultimately show ?thesis by (simp add: sem_inv_def)
qed

lemma sems_ok_zero: "sems_ok (replicate n \<lparr>semval = 0, sempid = 0\<rparr>)"
  by (simp add: sems_ok_def)

lemma newary_size_id:
  assumes "0 \<le> nsems" "SIZEOF_SEM_ARRAY + nsems * SIZEOF_SEM \<le> INT_MAX"
  shows "newary_size nsems = SIZEOF_SEM_ARRAY + nsems * SIZEOF_SEM"
  unfolding newary_size_def using assms by (intro to_int_id) simp_all

lemma newary_inv:
  assumes inv: "sem_inv0 s" and t: "pc (tasks s t) = Idle" and fr: "fresh mem (smas s)"
    and n: "0 \<le> nsems" "SIZEOF_SEM_ARRAY + nsems * SIZEOF_SEM \<le> INT_MAX" and g: "\<not> unmapped_behind (sem_ids s) (sc_semmni s) got"
  shows "\<exists>r s'. newary t k nsems semflg mem got s = Some (r, s') \<and> sem_inv0 s' \<and> pc (tasks s' t) = Idle"
proof (cases "nsems = 0 \<or> to_int (used_sems s + nsems) > sc_semmns s \<or> mem = None")
  case True
  then show ?thesis using inv t by (auto simp: newary_def)
next
  case False
  then obtain a where mem: "mem = Some a" by auto
  then have fr: "smas s a = None" using fr by (simp add: fresh_def)
  let ?perm = "\<lparr>deleted = False, key = k, uid = 0, gid = 0, cuid = 0, cgid = 0, mode = semflg AND S_IRWXUGO, seq = 0\<rparr>"
  let ?sma = "\<lparr>refcount = 1, sem_perm = ?perm, sem_otime = 0, sem_ctime = 0,
      sem_base = replicate (nat nsems) \<lparr>semval = 0, sempid = 0\<rparr>, sem_pending = [], sem_undos = [], sem_nsems = 0\<rparr>"
  have sz: "\<not> newary_size nsems < SIZEOF_SEM_ARRAY" "(newary_size nsems - SIZEOF_SEM_ARRAY) div SIZEOF_SEM = nsems"
    using n(1) unfolding newary_size_id [OF n] by simp_all
  have ids: "ids_ok (sem_ids s)" "\<not> at_nullentry (sem_ids s)" using inv by (simp_all add: sem_inv_def slots_inv_def)
  have no: "\<forall>l'. slot (sem_ids s) l' \<noteq> Some a" using inv fr unfolding sem_inv_def slots_inv_def by fastforce
  show ?thesis
  proof (rule ipc_addid_cases [OF ids(1) no grow_ary_defined [OF ids(2) g], of ?perm "task_cred (tasks s t)"])
    fix ids' assume full: "ipc_addid (sem_ids s) a ?perm (task_cred (tasks s t)) (sc_semmni s) got = Some (-1, ids', ?perm)"
      "ids_ok ids'" "slot ids' = slot (sem_ids s)" "at_nullentry ids' = at_nullentry (sem_ids s)"
    let ?s = "s\<lparr>sem_ids := ids', used_sems := used_sems s, smas := (smas s)(a \<mapsto> ?sma\<lparr>refcount := 0\<rparr>)\<rparr>"
    have "newary t k nsems semflg mem got s = Some (- ENOSPC, ?s)"
      using False mem full(1) sz by (simp add: newary_def set_sma_def ipc_rcu_putref_def Let_def)
    moreover have "sem_inv0 ?s"
      using full fr by (intro new_array_inv [OF inv]) (simp_all add: sems_ok_zero)
    ultimately show ?thesis using t by simp
  next
    fix l ids'
    let ?perm' = "?perm\<lparr>cuid := euid (task_cred (tasks s t)), uid := euid (task_cred (tasks s t)),
          gid := egid (task_cred (tasks s t)), cgid := egid (task_cred (tasks s t)),
          seq := ucast (ids_seq (sem_ids s)), deleted := False\<rparr>"
    assume added: "ipc_addid (sem_ids s) a ?perm (task_cred (tasks s t)) (sc_semmni s) got = Some (int l, ids', ?perm')"
      "ids_ok ids'" "slot ids' = (slot (sem_ids s))(l \<mapsto> a)" "slot (sem_ids s) l = None" "at_nullentry ids' = at_nullentry (sem_ids s)"
    let ?s = "s\<lparr>sem_ids := ids', used_sems := to_int (used_sems s + nsems),
        smas := (smas s)(a \<mapsto> ?sma\<lparr>sem_perm := ?perm', sem_nsems := nat nsems, sem_ctime := seconds s\<rparr>)\<rparr>"
    have "newary t k nsems semflg mem got s = Some (ipc_buildid (int l) (seq ?perm'), ?s)"
      using False mem added(1) sz by (simp add: newary_def set_sma_def Let_def)
    moreover have "sem_inv0 ?s"
      using added(2-5) fr by (intro new_array_inv [OF inv, of a ids' _ l]) (simp_all add: sems_ok_zero)
    ultimately show ?thesis using t by simp
  qed
qed

lemma sys_semget_inv:
  assumes inv: "sem_inv0 s" and t: "pc (tasks s t) = Idle" and fr: "fresh mem (smas s)" and c: "ctls_ok s" and g: "\<not> unmapped_behind (sem_ids s) (sc_semmni s) got"
  shows "\<exists>r s'. sys_semget t k nsems semflg mem got s = Some (r, s') \<and> sem_inv0 s' \<and> pc (tasks s' t) = Idle"
proof (cases "nsems < 0 \<or> nsems > sc_semmsl s")
  case True
  then show ?thesis using inv t by (auto simp: sys_semget_def)
next
  case False
  have new: "\<exists>r s'. newary t k nsems semflg mem got s = Some (r, s') \<and> sem_inv0 s' \<and> pc (tasks s' t) = Idle"
    using False c by (intro newary_inv [OF inv t fr _ _ g]) (auto simp: ctls_ok_def)
  have sl: "slots_inv s" "ids_ok (sem_ids s)" using inv by (simp_all add: sem_inv_def slots_inv_def)
  have perms: "perm_of s a \<noteq> None" if "slot (sem_ids s) l = Some a" for l a
    using sl(1) that unfolding slots_inv_def perm_of_def by fastforce
  show ?thesis
  proof (rule ipc_findkey_spec [OF sl(2), where perm_of = "perm_of s" and k = k])
    assume "ipc_findkey (sem_ids s) (perm_of s) k = Some (-1)"
    then show ?thesis using False new inv t by (auto simp: sys_semget_def)
  next
    fix l a q assume found: "ipc_findkey (sem_ids s) (perm_of s) k = Some (int l)" "slot (sem_ids s) l = Some a"
    then obtain sma where sits: "sits s l a sma" using sl(1) by (auto simp: slots_inv_def sits_def)
    then have l: "l < 32768" using sitsD sl(1) by blast
    have "lid_of (int l) = l" using l by (simp add: lid_of_def)
    then have "sem_lock (int l) s = Some (Some a)" "smas s a = Some sma"
      using sits sitsD [OF sits sl(1)] by (simp_all add: sem_lock_def ipc_lock_slot perm_of_def sits_def)
    then show ?thesis using False new inv t found(1) by (auto simp: sys_semget_def)
  qed (use perms in blast)
qed

end
