(* ===== verification/SemOp.thy ===== *)
theory SemOp
  imports SemCtl
begin

text \<open>
  \<^verbatim>\<open>semop\<close>, \<^verbatim>\<open>clone\<close> and \<^verbatim>\<open>exit\<close> of \<^verbatim>\<open>ipc/sem.c\<close>: the undo structures, queueing and waking, and that
  these calls return in every state that satisfies the invariant and keep it.
\<close>

unbundle bit_operations_syntax

section \<open>Undo structures\<close>

lemma undos_inv_user:
  "undos_inv D E s \<Longrightarrow> pc (tasks s t) \<noteq> Dead \<Longrightarrow> undo_list (tasks s t) = Some ul \<Longrightarrow> \<exists>ulp. ulists s ul = Some ulp"
  unfolding undos_inv_def by blast

lemma undos_inv_list:
  assumes "undos_inv D E s" "ulists s ul = Some ulp"
  shows "distinct (proc_list ulp)" "set (proc_list ulp) \<subseteq> dom (undos s)"
    "refcnt ulp = int (card (live_users s ul))" "ul \<notin> D \<Longrightarrow> refcnt ulp > 0"
  using assms unfolding undos_inv_def by blast+

lemma undos_inv_disjoint:
  "undos_inv D E s \<Longrightarrow> ulists s ul = Some ulp \<Longrightarrow> ulists s ul' = Some ulp' \<Longrightarrow>
     u \<in> set (proc_list ulp) \<Longrightarrow> u \<in> set (proc_list ulp') \<Longrightarrow> ul' = ul"
  unfolding undos_inv_def by blast

lemma undos_inv_array:
  "undos_inv D E s \<Longrightarrow> undos s u = Some un \<Longrightarrow> semid un \<noteq> -1 \<Longrightarrow> u \<notin> E \<Longrightarrow>
     \<exists>l a sma. sits s l a sma \<and> u \<in> set (sem_undos sma)"
  unfolding undos_inv_def by blast

lemma undos_inv_owner:
  "undos_inv D E s \<Longrightarrow> undos s u = Some un \<Longrightarrow> \<exists>ul ulp. ulists s ul = Some ulp \<and> u \<in> set (proc_list ulp)"
  unfolding undos_inv_def by blast

lemma undos_invI:
  assumes "\<And>ul ulp. ulists s ul = Some ulp \<Longrightarrow> distinct (proc_list ulp) \<and> set (proc_list ulp) \<subseteq> dom (undos s) \<and>
        refcnt ulp = int (card (live_users s ul)) \<and> (ul \<notin> D \<longrightarrow> refcnt ulp > 0)"
    and "\<And>ul ul' ulp ulp' u. ulists s ul = Some ulp \<Longrightarrow> ulists s ul' = Some ulp' \<Longrightarrow>
        u \<in> set (proc_list ulp) \<Longrightarrow> u \<in> set (proc_list ulp') \<Longrightarrow> ul' = ul"
    and "\<And>u un. undos s u = Some un \<Longrightarrow> semid un \<noteq> -1 \<Longrightarrow> u \<notin> E \<Longrightarrow>
        \<exists>l a sma. sits s l a sma \<and> u \<in> set (sem_undos sma)"
    and "\<And>u un. undos s u = Some un \<Longrightarrow> \<exists>ul ulp. ulists s ul = Some ulp \<and> u \<in> set (proc_list ulp)"
    and "\<And>t ul. pc (tasks s t) \<noteq> Dead \<Longrightarrow> undo_list (tasks s t) = Some ul \<Longrightarrow> \<exists>ulp. ulists s ul = Some ulp"
  shows "undos_inv D E s"
  using assms unfolding undos_inv_def by blast

text \<open>
  A change of the undo lists of running tasks: arrays, identifiers and queues stay, sleeping
  tasks too, and no undo structure of an array goes.
\<close>

lemma undo_change_inv:
  assumes inv: "sem_inv X R D E s"
    and f: "sem_ids s' = sem_ids s" "smas s' = smas s" "\<And>t. pc (tasks s' t) = pc (tasks s t)"
      "\<And>t. queue (tasks s' t) = queue (tasks s t)"
      "\<And>t. undo_list (tasks s t) \<noteq> None \<Longrightarrow> undo_list (tasks s' t) = undo_list (tasks s t)"
    and keep: "\<And>l a sma u. sits s l a sma \<Longrightarrow> u \<in> set (sem_undos sma) \<Longrightarrow> undos s' u = undos s u"
      "\<And>l a sma ul ulp u. sits s l a sma \<Longrightarrow> u \<in> set (sem_undos sma) \<Longrightarrow> ulists s ul = Some ulp \<Longrightarrow>
         u \<in> set (proc_list ulp) \<Longrightarrow> \<exists>ulp'. ulists s' ul = Some ulp' \<and> u \<in> set (proc_list ulp')"
    and u: "undos_inv D E s'"
  shows "sem_inv X R D E s'"
proof -
  have i: "slots_inv s" "refs_inv R s" "pcs_inv s" "arrays_inv X s" "sleepers_inv s"
    using inv by (simp_all add: sem_inv_def)
  have sits: "sits s' l a m = sits s l a m" for l a m by (simp add: sits_def f)
  have "slots_inv s'" using i(1) by (simp add: slots_inv_def f)
  moreover have "refs_inv R s'" using i(2) by (simp add: refs_inv_def holders_def f)
  moreover have "pcs_inv s'"
  proof -
    have "undo_list (tasks s' t) \<noteq> None" if "undo_list (tasks s t) \<noteq> None" for t using f(5) [OF that] that by simp
    then show ?thesis using i(3) unfolding pcs_inv_def f(1,2,3) sits by blast
  qed
  moreover have "array_inv X s' l a m" if a: "sits s l a m" for l a m
    by (rule array_inv_kept [OF a sits_array_inv [OF inv a] f(2,4) _ _ keep(1) [OF a] keep(2) [OF a]]) (use f in auto)
  then have "arrays_inv X s'" unfolding arrays_inv_def sits by blast
  moreover have "sleepers_inv s'" using i(5) unfolding sleepers_inv_def sits f(3,4) .
  ultimately show ?thesis using u by (simp add: sem_inv_def)
qed

lemma get_undo_list_inv:
  assumes inv: "sem_inv0 s" and t: "pc (tasks s t) = Idle" and fr: "fresh mem (ulists s)"
  obtains (fail) "get_undo_list t mem s = (Inl (- ENOMEM), s)"
  | (got) ul ulp s' where "get_undo_list t mem s = (Inr ul, s')" "sem_inv0 s'"
      "undo_list (tasks s' t) = Some ul" "ulists s' ul = Some ulp" "pc (tasks s' t) = Idle"
proof (cases "undo_list (tasks s t)")
  case (Some ul)
  then obtain ulp where "ulists s ul = Some ulp"
    using undos_inv_user [of "{}" "{}" s t ul] inv t by (auto simp: sem_inv_def)
  then show ?thesis using Some inv t by (intro got [of ul s ulp]) (auto simp: get_undo_list_def)
next
  case none: None
  show ?thesis
  proof (cases mem)
    case None
    then show ?thesis using none by (intro fail) (simp add: get_undo_list_def)
  next
    case (Some ul)
    then have fr: "ulists s ul = None" using fr by (simp add: fresh_def)
    let ?tsk = "(tasks s t)\<lparr>undo_list := Some ul\<rparr>"
    let ?s = "s\<lparr>ulists := (ulists s)(ul \<mapsto> \<lparr>refcnt = 1, proc_list = []\<rparr>), tasks := (tasks s)(t := ?tsk)\<rparr>"
    have u: "undos_inv {} {} s" using inv by (simp add: sem_inv_def)
    have nouser: "\<not> (pc (tasks s t') \<noteq> Dead \<and> undo_list (tasks s t') = Some ul)" for t'
      using undos_inv_user [OF u] fr by fastforce
    have lu: "live_users ?s ul' = (if ul' = ul then {t} else live_users s ul')" for ul'
      using nouser t none by (auto simp: live_users_def)
    have sits: "sits ?s l a m = sits s l a m" for l a m by (simp add: sits_def)
    have "undos_inv {} {} ?s"
    proof (rule undos_invI)
      show "distinct (proc_list ulp) \<and> set (proc_list ulp) \<subseteq> dom (undos ?s) \<and>
          refcnt ulp = int (card (live_users ?s ul')) \<and> (ul' \<notin> {} \<longrightarrow> refcnt ulp > 0)"
        if "ulists ?s ul' = Some ulp" for ul' ulp
        using that lu [of ul'] undos_inv_list [OF u, of ul' ulp] by (cases "ul' = ul") auto
      show "ul2 = ul1" if "ulists ?s ul1 = Some ulp1" "ulists ?s ul2 = Some ulp2"
          "v \<in> set (proc_list ulp1)" "v \<in> set (proc_list ulp2)" for ul1 ul2 ulp1 ulp2 v
        using that undos_inv_disjoint [OF u, of ul1 ulp1 ul2 ulp2 v] by (auto split: if_splits)
      show "\<exists>l a sma. sits ?s l a sma \<and> v \<in> set (sem_undos sma)"
        if "undos ?s v = Some un" "semid un \<noteq> -1" for v un
        using undos_inv_array [OF u, of v un] that sits by simp
      show "\<exists>ul' ulp. ulists ?s ul' = Some ulp \<and> v \<in> set (proc_list ulp)" if hp: "undos ?s v = Some un" for v un
      proof -
        obtain ul' ulp where "ulists s ul' = Some ulp" "v \<in> set (proc_list ulp)"
          using undos_inv_owner [OF u, of v un] hp by auto
        moreover then have "ul' \<noteq> ul" using fr by auto
        ultimately show ?thesis by auto
      qed
      show "\<exists>ulp. ulists ?s ul' = Some ulp" if "pc (tasks ?s t') \<noteq> Dead" "undo_list (tasks ?s t') = Some ul'" for t' ul'
        using that undos_inv_user [OF u, of t' ul'] by (cases "t' = t") auto
    qed
    then have "sem_inv0 ?s"
      using none fr by (intro undo_change_inv [OF inv]) auto
    moreover have "get_undo_list t mem s = (Inr ul, ?s)"
      using none Some by (simp add: get_undo_list_def set_task_def)
    ultimately show ?thesis using t by (intro got [of ul ?s]) auto
  qed
qed


lemma sma_id_nonneg: "0 \<le> ipc_buildid (int l) sq"
  using unsigned_greater_eq [of sq, where 'a = int] by (simp add: ipc_buildid_def)

text \<open>\<^verbatim>\<open>lookup_undo\<close> frees exactly invalidated structures.\<close>

lemma lookup_loop_spec:
  assumes "distinct l" "set l \<subseteq> dom us" "i \<noteq> -1"
  shows "\<exists>r F. lookup_loop i l us = Some (r, filter (\<lambda>u. u \<notin> F) l, \<lambda>u. if u \<in> F then None else us u) \<and>
     F \<subseteq> set l \<and> (\<forall>u \<in> F. \<exists>un. us u = Some un \<and> semid un = -1) \<and>
     (\<forall>u. r = Some u \<longrightarrow> u \<in> set l - F \<and> (\<exists>un. us u = Some un \<and> semid un = i))"
  using assms(1,2)
proof (induction l arbitrary: us)
  case Nil
  then show ?case by (intro exI [of _ None] exI [of _ "{}"]) auto
next
  case (Cons v l)
  obtain un where un: "us v = Some un" using Cons.prems by auto
  consider "semid un = i" | "semid un = -1" | "semid un \<noteq> i" "semid un \<noteq> -1" by blast
  then show ?case
  proof cases
    case 1
    then show ?thesis using un by (intro exI [of _ "Some v"] exI [of _ "{}"]) auto
  next
    case 2
    let ?us = "us(v := None)"
    have "set l \<subseteq> dom ?us" "distinct l" using Cons.prems by auto
    with Cons.IH [of ?us] obtain r F where rF: "lookup_loop i l ?us = Some (r, filter (\<lambda>u. u \<notin> F) l, \<lambda>u. if u \<in> F then None else ?us u)"
      "F \<subseteq> set l" "\<forall>u \<in> F. \<exists>un. ?us u = Some un \<and> semid un = -1"
      "\<forall>u. r = Some u \<longrightarrow> u \<in> set l - F \<and> (\<exists>un. ?us u = Some un \<and> semid un = i)" by blast
    have "filter (\<lambda>u. u \<notin> F) l = filter (\<lambda>u. u \<notin> insert v F) (v # l)"
      using Cons.prems by (auto intro!: filter_cong)
    moreover have "(\<lambda>u. if u \<in> F then None else ?us u) = (\<lambda>u. if u \<in> insert v F then None else us u)" by auto
    ultimately have "lookup_loop i (v # l) us = Some (r, filter (\<lambda>u. u \<notin> insert v F) (v # l), \<lambda>u. if u \<in> insert v F then None else us u)"
      using rF(1) un 2 assms(3) by simp
    moreover have "\<forall>u \<in> insert v F. \<exists>un. us u = Some un \<and> semid un = -1" using rF(3) un 2 by (auto split: if_splits)
    moreover have "\<forall>u. r = Some u \<longrightarrow> u \<in> set (v # l) - insert v F \<and> (\<exists>un. us u = Some un \<and> semid un = i)"
      using rF(4) Cons.prems by (auto split: if_splits)
    moreover have "insert v F \<subseteq> set (v # l)" using rF(2) by auto
    ultimately show ?thesis by blast
  next
    case 3
    with Cons.IH [of us] Cons.prems obtain r F where rF: "lookup_loop i l us = Some (r, filter (\<lambda>u. u \<notin> F) l, \<lambda>u. if u \<in> F then None else us u)"
      "F \<subseteq> set l" "\<forall>u \<in> F. \<exists>un. us u = Some un \<and> semid un = -1"
      "\<forall>u. r = Some u \<longrightarrow> u \<in> set l - F \<and> (\<exists>un. us u = Some un \<and> semid un = i)" by auto
    have "v \<notin> F" using rF(2) Cons.prems by auto
    then have "lookup_loop i (v # l) us = Some (r, filter (\<lambda>u. u \<notin> F) (v # l), \<lambda>u. if u \<in> F then None else us u)"
      using rF(1) un 3 by simp
    moreover have "F \<subseteq> set (v # l)" "\<forall>u. r = Some u \<longrightarrow> u \<in> set (v # l) - F \<and> (\<exists>un. us u = Some un \<and> semid un = i)"
      using rF(2,4) by auto
    ultimately show ?thesis using rF(3) by blast
  qed
qed

text \<open>Structures of removed arrays leave the list of a task and are freed.\<close>

lemma drop_undos_inv:
  assumes u: "undos_inv {} {} s" and ul: "ulists s ul = Some ulp" and F: "F \<subseteq> set (proc_list ulp)"
  shows "undos_inv {} {} (s\<lparr>ulists := (ulists s)(ul \<mapsto> ulp\<lparr>proc_list := filter (\<lambda>u. u \<notin> F) (proc_list ulp)\<rparr>),
    undos := (\<lambda>u. if u \<in> F then None else undos s u)\<rparr>)" (is "undos_inv {} {} ?s")
proof (rule undos_invI)
  have lu: "live_users ?s ul' = live_users s ul'" for ul' by (simp add: live_users_def)
  show "distinct (proc_list x) \<and> set (proc_list x) \<subseteq> dom (undos ?s) \<and>
      refcnt x = int (card (live_users ?s ul')) \<and> (ul' \<notin> {} \<longrightarrow> refcnt x > 0)"
    if x: "ulists ?s ul' = Some x" for ul' x
  proof (cases "ul' = ul")
    case True
    then show ?thesis using x undos_inv_list [OF u ul] unfolding lu by auto
  next
    case False
    then have x': "ulists s ul' = Some x" using x by simp
    have "v \<notin> F" if "v \<in> set (proc_list x)" for v
      using undos_inv_disjoint [OF u ul x'] F that False by blast
    then show ?thesis using undos_inv_list [OF u x'] unfolding lu by auto
  qed
  show "ul2 = ul1" if "ulists ?s ul1 = Some ulp1" "ulists ?s ul2 = Some ulp2"
      "v \<in> set (proc_list ulp1)" "v \<in> set (proc_list ulp2)" for ul1 ul2 ulp1 ulp2 v
  proof -
    have "\<exists>x. ulists s u' = Some x \<and> v \<in> set (proc_list x)" if "ulists ?s u' = Some y" "v \<in> set (proc_list y)" for u' y
      using that ul by (cases "u' = ul") auto
    with that show ?thesis using undos_inv_disjoint [OF u] by meson
  qed
  show "\<exists>l a sma. sits ?s l a sma \<and> v \<in> set (sem_undos sma)"
    if "undos ?s v = Some un" "semid un \<noteq> -1" for v un
    using undos_inv_array [OF u, of v un] that by (auto simp: sits_def split: if_splits)
  show "\<exists>ul' x. ulists ?s ul' = Some x \<and> v \<in> set (proc_list x)" if hp: "undos ?s v = Some un" for v un
  proof -
    have v: "v \<notin> F" "undos s v = Some un" using hp by (auto split: if_splits)
    then obtain ul' x where "ulists s ul' = Some x" "v \<in> set (proc_list x)"
      using undos_inv_owner [OF u] by blast
    then show ?thesis using v(1) ul by (cases "ul' = ul") auto
  qed
  show "\<exists>x. ulists ?s ul' = Some x" if "pc (tasks ?s t') \<noteq> Dead" "undo_list (tasks ?s t') = Some ul'" for t' ul'
    using that undos_inv_user [OF u, of t' ul'] by auto
qed

lemma lookup_undo_inv:
  assumes inv: "sem_inv {} R {} {} s" and ul: "ulists s ul = Some ulp" and i: "0 \<le> i"
  obtains r s' where "lookup_undo ul i s = Some (r, s')" "sem_inv {} R {} {} s'" "tasks s' = tasks s"
    "sem_ids s' = sem_ids s" "smas s' = smas s" "\<exists>ulp'. ulists s' ul = Some ulp'"
    "\<And>u. undos s u = None \<Longrightarrow> undos s' u = None"
    "\<And>u. r = Some u \<Longrightarrow> \<exists>ulp' un. ulists s' ul = Some ulp' \<and> u \<in> set (proc_list ulp') \<and> undos s' u = Some un \<and> semid un = i"
proof -
  have u: "undos_inv {} {} s" using inv by (simp add: sem_inv_def)
  obtain r F where rF: "lookup_loop i (proc_list ulp) (undos s) =
      Some (r, filter (\<lambda>u. u \<notin> F) (proc_list ulp), \<lambda>u. if u \<in> F then None else undos s u)"
    "F \<subseteq> set (proc_list ulp)" "\<forall>u \<in> F. \<exists>un. undos s u = Some un \<and> semid un = -1"
    "\<forall>u. r = Some u \<longrightarrow> u \<in> set (proc_list ulp) - F \<and> (\<exists>un. undos s u = Some un \<and> semid un = i)"
    using lookup_loop_spec [OF undos_inv_list(1,2) [OF u ul], of i] i by auto
  let ?ulp = "ulp\<lparr>proc_list := filter (\<lambda>u. u \<notin> F) (proc_list ulp)\<rparr>"
  let ?s = "s\<lparr>ulists := (ulists s)(ul \<mapsto> ?ulp), undos := (\<lambda>u. if u \<in> F then None else undos s u)\<rparr>"
  have lk: "lookup_undo ul i s = Some (r, ?s)" using ul rF(1) by (simp add: lookup_undo_def)
  have notF: "v \<notin> F" if "sits s l a m" "v \<in> set (sem_undos m)" for l a m v
  proof
    assume "v \<in> F"
    then obtain un where "undos s v = Some un" "semid un = -1" using rF(3) by blast
    moreover have "map_option undo_shape (undos s v) = Some (sma_id l m, sem_nsems m)"
      using sits_array_inv [OF inv that(1)] that(2) unfolding array_inv_def by blast
    ultimately have "sma_id l m = -1" by (simp add: undo_shape_def)
    then show False using sma_id_nonneg [of l "seq (sem_perm m)"] by linarith
  qed
  from drop_undos_inv [OF u ul rF(2)] have "sem_inv {} R {} {} ?s"
  proof (rule undo_change_inv [OF inv, rotated -1])
    show "\<exists>x. ulists ?s ul' = Some x \<and> v \<in> set (proc_list x)"
      if "sits s l a m" "v \<in> set (sem_undos m)" "ulists s ul' = Some y" "v \<in> set (proc_list y)" for l a m v ul' y
      using notF [OF that(1,2)] that(3,4) ul by (cases "ul' = ul") auto
    show "undos ?s v = undos s v" if "sits s l a m" "v \<in> set (sem_undos m)" for l a m v
      using notF [OF that] by simp
  qed simp_all
  then show thesis using lk rF(4) by (intro that [of r ?s]) auto
qed

text \<open>The undo structure that a sequence of the running task \<open>t\<close> works with.\<close>

definition undo_ready :: "semsys \<Rightarrow> task \<Rightarrow> int \<Rightarrow> addr \<Rightarrow> bool" where
  "undo_ready s t i u \<longleftrightarrow>
     (\<exists>ul ulp un. undo_list (tasks s t) = Some ul \<and> ulists s ul = Some ulp \<and> u \<in> set (proc_list ulp) \<and>
        undos s u = Some un \<and> semid un = i)"

lemma find_undo_inv:
  assumes inv: "sem_inv0 s" and t: "pc (tasks s t) = Idle" and fr: "fresh mem (ulists s)" and i: "0 \<le> i"
  obtains (found) u s' where "find_undo t i mem s = Some (Found u, s')" "sem_inv0 s'" "pc (tasks s' t) = Idle"
      "undo_ready s' t i u"
  | (failed) e s' where "find_undo t i mem s = Some (Failed e, s')" "sem_inv0 s'" "pc (tasks s' t) = Idle"
  | (alloc) a n s' where "find_undo t i mem s = Some (Allocate a n, s')"
      "\<And>ops timeout. sem_inv0 (resume_to t (Block (In_undo_alloc i ops timeout a n)) s')"
  using inv t fr
proof (cases rule: get_undo_list_inv)
  case fail
  then show ?thesis using inv t by (intro failed [of _ s]) (auto simp: find_undo_def)
next
  case (got ul ulp s1)
  from got(2,4) i obtain r s2 where s2: "lookup_undo ul i s1 = Some (r, s2)" "sem_inv0 s2" "tasks s2 = tasks s1"
    "sem_ids s2 = sem_ids s1" "smas s2 = smas s1" "\<exists>ulp'. ulists s2 ul = Some ulp'"
    "\<And>u. undos s1 u = None \<Longrightarrow> undos s2 u = None"
    "\<And>u. r = Some u \<Longrightarrow> \<exists>ulp' un. ulists s2 ul = Some ulp' \<and> u \<in> set (proc_list ulp') \<and> undos s2 u = Some un \<and> semid un = i"
    by (rule lookup_undo_inv) blast
  show ?thesis
  proof (cases r)
    case (Some u)
    then show ?thesis using got s2 by (intro found [of u s2]) (auto simp: find_undo_def undo_ready_def)
  next
    case None
    have "slots_inv s2" using s2(2) by (simp add: sem_inv_def)
    then show ?thesis
    proof (cases rule: sem_lock_cases [of s2 i])
      case missing
      then show ?thesis using got s2 None by (intro failed [of "- EINVAL" s2]) (auto simp: find_undo_def)
    next
      case (found a sma)
      have sma: "smas s2 a = Some sma" using found(2) by (simp add: sits_def)
      show ?thesis
      proof (cases "ipc_checkid (sem_perm sma) i = 0")
        case False
        then show ?thesis using got s2 None found sma
          by (intro failed [of "- EIDRM" s2]) (auto simp: find_undo_def)
      next
        case True
        then have id: "i = sma_id (lid_of i) sma" using checkid_eq [OF i] by blast
        have "\<exists>s'. ipc_rcu_getref a s2 = Some s' \<and>
            sem_inv0 (resume_to t (Block (In_undo_alloc i ops timeout a (sem_nsems sma))) s')" for ops timeout
          using got(3,5) s2(3) i id by (intro getref_block [OF s2(2) found(2)]) auto
        then obtain s3 where "ipc_rcu_getref a s2 = Some s3"
            "\<And>ops timeout. sem_inv0 (resume_to t (Block (In_undo_alloc i ops timeout a (sem_nsems sma))) s3)"
          by (metis option.inject)
        then show ?thesis using got s2 None found sma True
          by (intro alloc [of a "sem_nsems sma" s3]) (auto simp: find_undo_def)
      qed
    qed
  qed
qed

text \<open>A new undo structure joins the list of the task and that of the array.\<close>

definition join_undo :: "nat \<Rightarrow> addr \<Rightarrow> sem_array \<Rightarrow> addr \<Rightarrow> addr \<Rightarrow> sem_undo_list \<Rightarrow> semsys \<Rightarrow> semsys" where
  "join_undo l a sma new ul ulp s =
     s\<lparr>undos := (undos s)(new \<mapsto> \<lparr>semid = sma_id l sma, semadj = replicate (sem_nsems sma) 0\<rparr>),
       ulists := (ulists s)(ul \<mapsto> ulp\<lparr>proc_list := new # proc_list ulp\<rparr>),
       smas := (smas s)(a \<mapsto> sma\<lparr>sem_undos := new # sem_undos sma\<rparr>)\<rparr>"

lemma join_undo_change:
  assumes "sits s l a sma"
  shows "array_change l a sma (sma\<lparr>sem_undos := new # sem_undos sma\<rparr>) s (join_undo l a sma new ul ulp s)"
  using assms by (simp add: array_change_def join_undo_def)

lemma new_undo_fresh:
  assumes "sem_inv0 s" "undos s new = None"
  shows "ulists s ul = Some x \<Longrightarrow> new \<notin> set (proc_list x)" "sits s l b m \<Longrightarrow> new \<notin> set (sem_undos m)"
proof -
  have u: "undos_inv {} {} s" using assms(1) by (simp add: sem_inv_def)
  show "new \<notin> set (proc_list x)" if "ulists s ul = Some x" using undos_inv_list(2) [OF u that] assms(2) by auto
  show "new \<notin> set (sem_undos m)" if "sits s l b m"
    using sits_array_inv [OF assms(1) that] assms(2) unfolding array_inv_def by auto
qed

lemma join_undo_lists:
  assumes "ulists s ul = Some ulp" "ulists s ul' = Some x"
  shows "\<exists>x'. ulists (join_undo l a sma new ul ulp s) ul' = Some x' \<and> set (proc_list x) \<subseteq> set (proc_list x')"
  using assms by (cases "ul' = ul") (auto simp: join_undo_def)

lemma join_undo_array:
  assumes inv: "sem_inv0 s" and a: "sits s l a sma" and fr: "undos s new = None" and ul: "ulists s ul = Some ulp"
  shows "array_inv {} (join_undo l a sma new ul ulp s) l a (sma\<lparr>sem_undos := new # sem_undos sma\<rparr>)" (is "array_inv {} ?s l a ?sma")
proof -
  note ai = sits_array_inv [OF inv a] and na = new_undo_fresh(2) [OF inv fr a]
  have sma: "smas s a = Some sma" using a by (simp add: sits_def)
  have ev: "entry_valid s sma t" if "t \<in> set (sem_pending sma)" for t
    using ai that sma unfolding array_inv_def array_valid_def by auto
  have shape: "map_option undo_shape (undos ?s v) = Some (sma_id l sma, sem_nsems sma)" if "v \<in> set (sem_undos ?sma)" for v
    using ai that unfolding array_inv_def by (auto simp: undo_shape_def join_undo_def)
  have "\<forall>t \<in> set (sem_pending sma). entry_valid ?s ?sma t" using ev by (auto simp: entry_valid_def Let_def join_undo_def)
  moreover have "\<forall>v \<in> set (sem_undos ?sma). \<exists>k. map_option undo_shape (undos ?s v) = Some (k, sem_nsems ?sma)"
    using shape by fastforce
  ultimately have "array_valid ?s a" using ai sma unfolding array_inv_def array_valid_def by (simp add: join_undo_def)
  moreover have "entry_blocked ?s a t" if t: "t \<in> set (sem_pending sma)" for t
  proof -
    have "undo (queue (tasks s t)) \<noteq> Some new" using ev [OF t] na by (auto simp: entry_valid_def Let_def)
    then have "read_adj (undo (queue (tasks s t))) ?s = read_adj (undo (queue (tasks s t))) s"
      by (cases "undo (queue (tasks s t))") (auto simp: read_adj_def join_undo_def)
    moreover have "entry_blocked s a t" using ai t unfolding array_inv_def by blast
    ultimately show ?thesis using sma by (simp add: entry_blocked_def join_undo_def)
  qed
  moreover have "entry_inv ?s l ?sma t" if t: "t \<in> set (sem_pending sma)" for t
  proof -
    have e: "entry_inv s l sma t" using ai t unfolding array_inv_def by blast
    have "\<exists>ul' x. undo_list (tasks s t) = Some ul' \<and> ulists ?s ul' = Some x \<and> v \<in> set (proc_list x)"
      if v: "undo (queue (tasks s t)) = Some v" for v
      using e v join_undo_lists [OF ul] unfolding entry_inv_def by blast
    then show ?thesis using e by (simp add: entry_inv_def join_undo_def)
  qed
  ultimately show ?thesis using ai na shape unfolding array_inv_def by simp
qed

lemma join_undo_undos:
  assumes inv: "sem_inv0 s" and a: "sits s l a sma" and fr: "undos s new = None" and ul: "ulists s ul = Some ulp"
  shows "undos_inv {} {} (join_undo l a sma new ul ulp s)" (is "undos_inv {} {} ?s")
proof (rule undos_invI)
  have u: "undos_inv {} {} s" and sl: "slots_inv s" using inv by (simp_all add: sem_inv_def)
  note nl = new_undo_fresh(1) [OF inv fr] and c = join_undo_change [OF a, of new ul ulp]
  have f: "ulists ?s = (ulists s)(ul \<mapsto> ulp\<lparr>proc_list := new # proc_list ulp\<rparr>)" "tasks ?s = tasks s"
    "undos ?s = (undos s)(new \<mapsto> \<lparr>semid = sma_id l sma, semadj = replicate (sem_nsems sma) 0\<rparr>)"
    "live_users ?s ul' = live_users s ul'" for ul' by (simp_all add: join_undo_def live_users_def)
  show "distinct (proc_list x) \<and> set (proc_list x) \<subseteq> dom (undos ?s) \<and>
      refcnt x = int (card (live_users ?s ul')) \<and> (ul' \<notin> {} \<longrightarrow> refcnt x > 0)" if x: "ulists ?s ul' = Some x" for ul' x
  proof (cases "ul' = ul")
    case True
    then show ?thesis using x undos_inv_list [OF u ul] nl [OF ul] unfolding f by auto
  next
    case False
    then have x': "ulists s ul' = Some x" using x by (simp add: f)
    show ?thesis using undos_inv_list [OF u x'] unfolding f by auto
  qed
  show "ul2 = ul1" if "ulists ?s ul1 = Some ulp1" "ulists ?s ul2 = Some ulp2"
      "v \<in> set (proc_list ulp1)" "v \<in> set (proc_list ulp2)" for ul1 ul2 ulp1 ulp2 v
  proof -
    have "(\<exists>x. ulists s u' = Some x \<and> v \<in> set (proc_list x)) \<or> v = new \<and> u' = ul"
      if "ulists ?s u' = Some y" "v \<in> set (proc_list y)" for u' y
      using that ul by (cases "u' = ul") (auto simp: f)
    with that show ?thesis using undos_inv_disjoint [OF u] nl by metis
  qed
  show "\<exists>l' b m. sits ?s l' b m \<and> v \<in> set (sem_undos m)" if hp: "undos ?s v = Some un" "semid un \<noteq> -1" for v un
  proof (cases "v = new")
    case True
    then show ?thesis using array_change_sits [OF c sl, of l a] by (intro exI) auto
  next
    case False
    then obtain l' b m where m: "sits s l' b m" "v \<in> set (sem_undos m)"
      using undos_inv_array [OF u, of v un] hp by (auto simp: f)
    show ?thesis using array_change_member [OF c sl m] by auto
  qed
  show "\<exists>ul' x. ulists ?s ul' = Some x \<and> v \<in> set (proc_list x)" if hp: "undos ?s v = Some un" for v un
  proof (cases "v = new")
    case False
    then obtain ul' x where "ulists s ul' = Some x" "v \<in> set (proc_list x)"
      using undos_inv_owner [OF u, of v un] hp by (auto simp: f)
    then show ?thesis using join_undo_lists [OF ul] by blast
  qed (auto simp: f)
  show "\<exists>x. ulists ?s ul' = Some x" if "pc (tasks ?s t') \<noteq> Dead" "undo_list (tasks ?s t') = Some ul'" for t' ul'
    using that undos_inv_user [OF u, of t' ul'] by (auto simp: f)
qed

lemma new_undo_inv:
  assumes inv: "sem_inv0 s" and a: "sits s l a sma" and fr: "undos s new = None" and ul: "ulists s ul = Some ulp"
  shows "sem_inv0 (join_undo l a sma new ul ulp s)" (is "sem_inv0 ?s")
proof -
  have i: "slots_inv s" "refs_inv (\<lambda>_. 0) s" "pcs_inv s" "arrays_inv {} s" "sleepers_inv s"
    using inv by (simp_all add: sem_inv_def)
  note c = join_undo_change [OF a, of new ul ulp]
  have f: "tasks ?s = tasks s" "\<And>v. v \<noteq> new \<Longrightarrow> undos ?s v = undos s v" by (simp_all add: join_undo_def)
  have "arrays_inv {} ?s"
  proof (rule array_change_arrays [OF c i(1,4) join_undo_array [OF inv a fr ul] _ _ _ join_undo_lists [OF ul]])
    show "undos ?s v = undos s v" if "sits s l' b m" "v \<in> set (sem_undos m)" for l' b m v
      using new_undo_fresh(2) [OF inv fr that(1)] that(2) f(2) by metis
  qed (simp_all add: f)
  moreover have "sleepers_inv ?s" by (rule array_change_sleepers [OF c i(1,5)]) (simp add: f)
  moreover have "refs_inv (\<lambda>_. 0) ?s" "pcs_inv ?s"
    using array_change_refs [OF c i(2)] array_change_pcs [OF c i(1,3)] f(1) by simp_all
  ultimately show ?thesis
    using array_change_slots [OF c i(1)] join_undo_undos [OF inv a fr ul] by (simp add: sem_inv_def)
qed

lemma find_undo_finish_inv:
  assumes inv: "sem_inv0 s" and t: "pc (tasks s t) = In_undo_alloc i ops timeout a n" and fr: "fresh mem (undos s)"
  obtains (found) u s' where "find_undo_finish t i a n mem (running t s) = Some (Found u, s')" "sem_inv0 s'"
      "pc (tasks s' t) = Idle" "undo_ready s' t i u"
  | (failed) e s' where "find_undo_finish t i a n mem (running t s) = Some (Failed e, s')" "sem_inv0 s'"
      "pc (tasks s' t) = Idle"
proof -
  let ?s = "running t s"
  have h: "held (pc (tasks s t)) = Some (a, n)" using t by simp
  have p: "0 \<le> i" "undo_list (tasks s t) \<noteq> None" "\<forall>l sma. sits s l a sma \<longrightarrow> i = sma_id l sma"
    using inv t unfolding sem_inv_def pcs_inv_def by metis+
  obtain sma where sma: "smas s a = Some sma" "sem_nsems sma = n" "deleted (sem_perm sma) \<or> a \<in> ran (slot (sem_ids s))"
    using inv h unfolding sem_inv_def pcs_inv_def by blast
  have f: "smas ?s = smas s" "sem_ids ?s = sem_ids s" "undos ?s = undos s" "ulists ?s = ulists s"
    "\<And>t'. undo_list (tasks ?s t') = undo_list (tasks s t')"
    by (simp_all add: running_def set_task_def)
  have inv1: "sem_inv {} ((\<lambda>_. 0)(a := 1)) {} {} ?s" by (rule running_inv [OF inv h])
  have R0: "((\<lambda>_. 0)(a := 1))(a := ((\<lambda>_. 0)(a := 1)) a - 1) = (\<lambda>_. 0 :: int)" by auto
  show thesis
  proof (cases mem)
    case None
    obtain s' where "ipc_rcu_putref a ?s = Some s'" "sem_inv0 s'" "s' = set_sma a (sma\<lparr>refcount := refcount sma - 1\<rparr>) ?s"
      using putref_inv [OF inv1, of a sma] sma(1) f(1) R0 by metis
    then show thesis using None by (intro failed [of "- ENOMEM" s']) (auto simp: find_undo_finish_def set_sma_def)
  next
    case (Some new)
    obtain ul where ul: "undo_list (tasks s t) = Some ul" using p(2) by auto
    have dead: "pc (tasks s t) \<noteq> Dead" using t by simp
    obtain ulp where ulp: "ulists ?s ul = Some ulp"
      using undos_inv_user [OF _ dead ul] inv f(4) unfolding sem_inv_def by metis
    from inv1 ulp p(1) obtain r s1 where s1: "lookup_undo ul i ?s = Some (r, s1)" "sem_inv {} ((\<lambda>_. 0)(a := 1)) {} {} s1"
      "tasks s1 = tasks ?s" "sem_ids s1 = sem_ids ?s" "smas s1 = smas ?s" "\<exists>ulp'. ulists s1 ul = Some ulp'"
      "\<And>u. undos ?s u = None \<Longrightarrow> undos s1 u = None"
      "\<And>u. r = Some u \<Longrightarrow> \<exists>ulp' un. ulists s1 ul = Some ulp' \<and> u \<in> set (proc_list ulp') \<and> undos s1 u = Some un \<and> semid un = i"
      by (rule lookup_undo_inv) blast
    let ?sma = "sma\<lparr>refcount := refcount sma - 1\<rparr>"
    let ?s2 = "set_sma a ?sma s1"
    have s2: "ipc_rcu_putref a s1 = Some ?s2" "sem_inv0 ?s2"
      using putref_inv [OF s1(2), of a sma] sma(1) f(1) s1(5) R0 by metis+
    have g: "smas ?s2 a = Some ?sma" "undos ?s2 = undos s1" "ulists ?s2 = ulists s1" "undo_list (tasks ?s2 t) = Some ul"
      "pc (tasks ?s2 t) = Idle" "sem_ids ?s2 = sem_ids s"
      using s1(3,4) f ul by (simp_all add: set_sma_def)
    have ult: "undo_list (tasks ?s t) = Some ul" using ul f(5) by simp
    show thesis
    proof (cases r)
      case (Some u)
      then show thesis using s1(1) s2 s1(8) [OF Some] g ult \<open>mem = Some new\<close>
        by (intro found [of u ?s2]) (auto simp: find_undo_finish_def undo_ready_def)
    next
      case None
      show thesis
      proof (cases "deleted (sem_perm sma)")
        case True
        then show thesis using s1(1) s2 g ult None \<open>mem = Some new\<close>
          by (intro failed [of "- EIDRM" ?s2]) (auto simp: find_undo_finish_def)
      next
        case False
        then obtain l where l: "slot (sem_ids s) l = Some a" using sma(3) by (auto simp: ran_def)
        then have si: "sits s l a sma" "sits ?s2 l a ?sma" using sma(1) g by (simp_all add: sits_def)
        have id: "i = sma_id l ?sma" using p(3) si(1) by auto
        have fr': "undos ?s2 new = None" using fr \<open>mem = Some new\<close> s1(7) f(3) g(2) by (auto simp: fresh_def)
        obtain ulp' where ulp': "ulists ?s2 ul = Some ulp'" using s1(6) g(3) by auto
        let ?s3 = "?s2\<lparr>undos := (undos ?s2)(new \<mapsto> \<lparr>semid = i, semadj = replicate n 0\<rparr>),
            ulists := (ulists ?s2)(ul \<mapsto> ulp'\<lparr>proc_list := new # proc_list ulp'\<rparr>),
            smas := (smas ?s2)(a \<mapsto> ?sma\<lparr>sem_undos := new # sem_undos ?sma\<rparr>)\<rparr>"
        have "sem_inv0 ?s3" using new_undo_inv [OF s2(2) si(2) fr' ulp'] id sma(2) by (simp add: join_undo_def)
        moreover have "find_undo_finish t i a n mem ?s = Some (Found new, ?s3)"
          using s1(1) s2(1) g(1) ult None \<open>mem = Some new\<close> False ulp'
          by (simp add: find_undo_finish_def set_undo_def set_sma_def)
        ultimately show thesis using g by (intro found [of new ?s3]) (auto simp: undo_ready_def)
      qed
    qed
  qed
qed

section \<open>Queueing and waking\<close>

lemma ops_max_bound: "ops_max ops < n \<longleftrightarrow> 0 < n \<and> (\<forall>sop \<in> set ops. unat (sem_num sop) < n)"
proof -
  have "foldl (\<lambda>m sop. if unat (sem_num sop) \<ge> m then unat (sem_num sop) else m) k ops < n \<longleftrightarrow>
      k < n \<and> (\<forall>sop \<in> set ops. unat (sem_num sop) < n)" for k
    by (induction ops arbitrary: k) auto
  then show ?thesis by (simp add: ops_max_def)
qed

text \<open>
  A task enters or leaves the queue of array \<open>a\<close>: the queue becomes \<open>pend\<close>, the task's entry \<open>q\<close>
  and its point \<open>p\<close>.
\<close>

definition requeue :: "task \<Rightarrow> addr \<Rightarrow> sem_array \<Rightarrow> task list \<Rightarrow> sem_queue \<Rightarrow> task_state \<Rightarrow> sem_pc \<Rightarrow> semsys \<Rightarrow> semsys" where
  "requeue t a sma pend q st p s =
     s\<lparr>smas := (smas s)(a \<mapsto> sma\<lparr>sem_pending := pend\<rparr>),
       tasks := (tasks s)(t := (tasks s t)\<lparr>queue := q, tsk_state := st, pc := p\<rparr>)\<rparr>"

lemma requeue_inv:
  assumes inv: "sem_inv0 s" and a: "sits s l a sma"
    and t: "pc (tasks s t) \<noteq> Dead" "held (pc (tasks s t)) = None" and p: "p = Idle \<or> (\<exists>timeout. p = Asleep timeout)"
    and pend: "distinct pend" "set pend - {t} = set (sem_pending sma) - {t}"
    and nt: "\<And>l' b m. sits s l' b m \<Longrightarrow> b \<noteq> a \<Longrightarrow> t \<notin> set (sem_pending m)"
    and tp: "t \<in> set pend \<Longrightarrow> entry_valid (requeue t a sma pend q st p s) (sma\<lparr>sem_pending := pend\<rparr>) t \<and>
        entry_blocked (requeue t a sma pend q st p s) a t \<and> entry_inv (requeue t a sma pend q st p s) l (sma\<lparr>sem_pending := pend\<rparr>) t"
    and sl: "\<And>timeout. p = Asleep timeout \<Longrightarrow> status q \<noteq> IN_WAKEUP \<and> (status q = - EINTR \<longrightarrow> t \<in> set pend)"
  shows "sem_inv0 (requeue t a sma pend q st p s)" (is "sem_inv0 ?s")
proof -
  have i: "slots_inv s" "refs_inv (\<lambda>_. 0) s" "pcs_inv s" "arrays_inv {} s" "sleepers_inv s" "undos_inv {} {} s"
    using inv by (simp_all add: sem_inv_def)
  let ?sma = "sma\<lparr>sem_pending := pend\<rparr>"
  have sma: "smas s a = Some sma" using a by (simp add: sits_def)
  have f: "smas ?s = (smas s)(a \<mapsto> ?sma)" "undos ?s = undos s" "ulists ?s = ulists s"
    "\<And>t'. t' \<noteq> t \<Longrightarrow> tasks ?s t' = tasks s t'" "pc (tasks ?s t) = p" "queue (tasks ?s t) = q"
    "\<And>t'. undo_list (tasks ?s t') = undo_list (tasks s t')"
    by (simp_all add: requeue_def)
  have c: "array_change l a sma ?sma s ?s" using a by (simp add: array_change_def requeue_def)
  have pcs: "pc (tasks ?s t') = Dead \<longleftrightarrow> pc (tasks s t') = Dead" "held (pc (tasks ?s t')) = held (pc (tasks s t'))"
    "pc (tasks ?s t') = pc (tasks s t') \<or> pc (tasks ?s t') = Idle \<or> (\<exists>timeout. pc (tasks ?s t') = Asleep timeout)" for t'
    using t p f(4,5) by (cases "t' = t"; auto)+
  note ai = sits_array_inv [OF inv a]
  have e: "entry_valid ?s ?sma t' \<and> entry_blocked ?s a t' \<and> entry_inv ?s l ?sma t'" if t': "t' \<in> set pend" for t'
  proof (cases "t' = t")
    case False
    have ra: "read_adj v ?s = read_adj v s" for v by (cases v) (simp_all add: read_adj_def f)
    have "t' \<in> set (sem_pending sma)" using t' pend(2) False by auto
    then have "entry_valid s sma t'" "entry_blocked s a t'" "entry_inv s l sma t'"
      using ai sma unfolding array_inv_def array_valid_def by auto
    then show ?thesis using f(4) [OF False] ra sma by (simp add: entry_valid_def entry_blocked_def entry_inv_def f)
  qed (use tp t' in simp)
  then have "array_valid ?s a" using ai sma pend(1) unfolding array_inv_def array_valid_def f(1,2) by auto
  then have "array_inv {} ?s l a ?sma" using ai e unfolding array_inv_def f(2) by simp
  then have "arrays_inv {} ?s"
  proof (rule array_change_arrays [OF c i(1,4)])
    show "tasks ?s t' = tasks s t'" if "sits s l' b m" "b \<noteq> a" "t' \<in> set (sem_pending m)" for l' b m t'
      using nt [OF that(1,2)] that(3) f(4) by metis
  qed (simp_all add: f)
  moreover have "sleepers_inv ?s"
  proof (rule array_change_sleepers [OF c i(1,5)])
    fix t' timeout assume "pc (tasks ?s t') = Asleep timeout"
    then show "tasks ?s t' = tasks s t' \<and> (t' \<in> set (sem_pending sma) \<longrightarrow> t' \<in> set (sem_pending ?sma)) \<or>
      status (queue (tasks ?s t')) \<noteq> IN_WAKEUP \<and> (status (queue (tasks ?s t')) = - EINTR \<longrightarrow> t' \<in> set (sem_pending ?sma))"
      using sl f(4-6) pend(2) by (cases "t' = t") auto
  qed
  moreover have "undos_inv {} {} ?s" using array_change_undos [OF c i(1,6) f(3)] f(2,7) pcs(1) by simp
  moreover have "refs_inv (\<lambda>_. 0) ?s" "pcs_inv ?s"
    using array_change_refs [OF c i(2)] array_change_pcs [OF c i(1,3)] pcs f(7) by simp_all
  ultimately show ?thesis using array_change_slots [OF c i(1)] by (simp add: sem_inv_def)
qed

lemma asleep_inv:
  assumes inv: "sem_inv0 s" and t: "pc (tasks s t) = Idle" and a: "sits s l a sma"
    and pend: "distinct pend" "set pend = insert t (set (sem_pending sma))"
    and q: "linked q" "status q = - EINTR" "q_id q = sma_id l sma" "alter q = ops_alter (sops q)"
      "\<forall>sop \<in> set (sops q). unat (sem_num sop) < sem_nsems sma" "undo q = None \<longrightarrow> ops_undos (sops q) = 0"
      "\<And>u. undo q = Some u \<Longrightarrow> u \<in> set (sem_undos sma) \<and> undo_ready s t (sma_id l sma) u"
      "\<exists>adj. read_adj (undo q) s = Some adj \<and> blocked (sem_base sma) adj (sops q)"
  shows "sem_inv0 (requeue t a sma pend q TASK_INTERRUPTIBLE (Asleep timeout) s)" (is "sem_inv0 ?s")
proof (rule requeue_inv [OF inv a])
  have "read_adj v ?s = read_adj v s" for v by (cases v) (simp_all add: read_adj_def requeue_def)
  then have "entry_blocked ?s a t" using q(8) by (simp add: entry_blocked_def requeue_def)
  moreover have "entry_valid ?s (sma\<lparr>sem_pending := pend\<rparr>) t"
    using q(4-7) by (simp add: entry_valid_def requeue_def Let_def)
  moreover have "\<exists>ul ulp. undo_list (tasks s t) = Some ul \<and> ulists s ul = Some ulp \<and> v \<in> set (proc_list ulp)" if "undo q = Some v" for v
    using q(7) [OF that] unfolding undo_ready_def by blast
  then have "entry_inv ?s l (sma\<lparr>sem_pending := pend\<rparr>) t" using q(1-3) by (simp add: entry_inv_def requeue_def)
  ultimately show "entry_valid ?s (sma\<lparr>sem_pending := pend\<rparr>) t \<and> entry_blocked ?s a t \<and> entry_inv ?s l (sma\<lparr>sem_pending := pend\<rparr>) t"
    by blast
  show "t \<notin> set (sem_pending m)" if "sits s l' b m" for l' b m using not_pending [OF inv that] t by simp
qed (use t pend q(2) in auto)

lemma undo_ready_array:
  assumes inv: "sem_inv0 s" and a: "sits s (lid_of i) a sma" and id: "i = sma_id (lid_of i) sma" and u: "undo_ready s t i u"
  shows "u \<in> set (sem_undos sma)"
proof -
  obtain un where un: "undos s u = Some un" "semid un = i" using u by (auto simp: undo_ready_def)
  have "0 \<le> i" using id sma_id_nonneg by metis
  then have "semid un \<noteq> -1" using un(2) by simp
  then obtain l b m where m: "sits s l b m" "u \<in> set (sem_undos m)"
    using undos_inv_array [of "{}" "{}" s u un] un inv by (auto simp: sem_inv_def)
  then have "map_option undo_shape (undos s u) = Some (sma_id l m, sem_nsems m)"
    using sits_array_inv [OF inv m(1)] unfolding array_inv_def by blast
  then have "i = sma_id l m" using un by (simp add: undo_shape_def)
  moreover have "l < 32768" using sitsD [OF m(1)] inv by (simp add: sem_inv_def)
  ultimately have "lid_of i = l" using lid_of_buildid by metis
  then show ?thesis using m a by (simp add: sits_def)
qed

lemma not_alter_try_inv:
  assumes inv: "sem_inv0 s" and a: "sits s l a sma" and tr: "try_atomic_semop a ops un pid s = Some (r, s')"
    and un: "\<And>u. un = Some u \<Longrightarrow> u \<in> set (sem_undos sma)" and na: "\<not> ops_alter ops"
  shows "sem_inv0 s'"
proof -
  have sma: "smas s a = Some sma" "slot (sem_ids s) l = Some a" using a by (simp_all add: sits_def)
  have st: "queue_step a {} s s'" by (rule try_atomic_semop_step [OF tr sma(1) un])
  then have ts: "tasks s' = tasks s" by (auto elim!: queue_stepE simp: fun_eq_iff)
  have "entry_blocked s' a t = entry_blocked s a t" for t
    by (rule entry_blocked_cong) (use try_not_alter [OF tr na] ts in auto)
  moreover have "pending_of a s' = sem_pending sma" using queue_step_pending [OF st] sma(1) by (simp add: pending_of_def)
  ultimately have "\<forall>t \<in> set (pending_of a s'). entry_blocked s' a t"
    using sits_array_inv [OF inv a] by (auto simp: array_inv_def)
  then show ?thesis using queue_step_inv [OF sem_inv_mono [OF inv] st _ sma(2)] by blast
qed

lemma semop_enqueue_eq:
  assumes "smas s a = Some sma"
  shows "(if alt then append_to_queue a t (set_queue t q s) else prepend_to_queue a t (set_queue t q s)) =
      Some s1 \<Longrightarrow> resume_to t (Block (Asleep timeout)) (set_task t ((tasks s1 t)\<lparr>tsk_state := TASK_INTERRUPTIBLE\<rparr>) s1) =
      requeue t a sma (if alt then sem_pending sma @ [t] else t # sem_pending sma) (q\<lparr>linked := True\<rparr>) TASK_INTERRUPTIBLE (Asleep timeout) s"
  using assms
  by (auto simp: append_to_queue_def prepend_to_queue_def set_queue_def set_task_def set_sma_def resume_to_def requeue_def
      Let_def split: if_splits)

lemma try_blocked:
  assumes tr: "try_atomic_semop a ops un pid s = Some (r, s')" and sma: "smas s a = Some sma" "read_adj un s = Some adj"
    and r: "0 < r"
  shows "blocked (sem_base sma) adj ops"
proof -
  obtain base' adj' where x: "try_atomic (sem_base sma) ops adj pid = Some (r, base', adj')"
    using tr sma by (auto simp: try_atomic_semop_def bind_Some_iff Let_def)
  then have "r = 1" "base' = sem_base sma" "adj' = adj" using try_atomic_fail [OF x] r by auto
  then show ?thesis using x blocked_iff by metis
qed

text \<open>The two ways on for an accepted call: its operations are done or refused now, or the task goes to sleep.\<close>

lemma semop_now_inv:
  assumes inv: "sem_inv0 s" and a: "sits s l a sma" and t: "pc (tasks s t) = Idle"
    and unm: "\<And>u. un = Some u \<Longrightarrow> u \<in> set (sem_undos sma)" and tr: "try_atomic_semop a ops un pid s = Some (r, s1)" and r: "r \<le> 0"
  shows "\<exists>s'. (if ops_alter ops \<and> r = 0 then update_queue a s1 else Some s1) = Some s' \<and> sem_inv0 s' \<and> pc (tasks s' t) = Idle"
proof -
  have sma: "smas s a = Some sma" "slot (sem_ids s) l = Some a" using a by (simp_all add: sits_def)
  have step: "queue_step a {} s s1" by (rule try_atomic_semop_step [OF tr sma(1) unm])
  consider "ops_alter ops" "r = 0" | "\<not> ops_alter ops" "r = 0" | "r \<noteq> 0" by blast
  then show ?thesis
  proof cases
    case 1
    then show ?thesis using set_and_scan [OF inv step sma(2)] t by metis
  next
    case 2
    then show ?thesis using not_alter_try_inv [OF inv a tr unm] queue_step_pc [OF step] t by auto
  next
    case 3
    then show ?thesis using try_atomic_semop_fail [OF tr] inv t by simp
  qed
qed

lemma semop_sleep_inv:
  assumes inv: "sem_inv0 s" and a: "sits s l a sma" and t: "pc (tasks s t) = Idle"
    and un: "un = None \<and> ops_undos ops = 0 \<or> (\<exists>u. un = Some u \<and> undo_ready s t (sma_id l sma) u)"
    and unm: "\<And>u. un = Some u \<Longrightarrow> u \<in> set (sem_undos sma)" and ops: "\<forall>sop \<in> set ops. unat (sem_num sop) < sem_nsems sma"
    and adj: "read_adj un s = Some adj" and bl: "blocked (sem_base sma) adj ops"
    and q: "q = \<lparr>linked = False, undo = un, q_pid = tgid (tasks s t), status = - EINTR, q_sma = a, q_id = sma_id l sma,
                sops = ops, alter = ops_alter ops\<rparr>"
  shows "\<exists>s2. (if ops_alter ops then append_to_queue a t (set_queue t q s) else prepend_to_queue a t (set_queue t q s)) = Some s2 \<and>
    sem_inv0 (resume_to t (Block (Asleep timeout)) (set_task t ((tasks s2 t)\<lparr>tsk_state := TASK_INTERRUPTIBLE\<rparr>) s2))"
proof -
  have sma: "smas s a = Some sma" using a by (simp add: sits_def)
  note ai = sits_array_inv [OF inv a]
  let ?pend = "if ops_alter ops then sem_pending sma @ [t] else t # sem_pending sma"
  have "\<exists>s2. (if ops_alter ops then append_to_queue a t (set_queue t q s) else prepend_to_queue a t (set_queue t q s)) = Some s2"
    using sma by (simp add: append_to_queue_def prepend_to_queue_def set_queue_def set_task_def Let_def)
  then obtain s2 where s2: "(if ops_alter ops then append_to_queue a t (set_queue t q s)
      else prepend_to_queue a t (set_queue t q s)) = Some s2" ..
  have nt: "t \<notin> set (sem_pending sma)" using not_pending [OF inv a] t by simp
  have d: "distinct (sem_pending sma)" using ai sma unfolding array_inv_def array_valid_def by auto
  have "sem_inv0 (requeue t a sma ?pend (q\<lparr>linked := True\<rparr>) TASK_INTERRUPTIBLE (Asleep timeout) s)"
  proof (rule asleep_inv [OF inv t a])
    show "u \<in> set (sem_undos sma) \<and> undo_ready s t (sma_id l sma) u" if "undo (q\<lparr>linked := True\<rparr>) = Some u" for u
      using unm un that q by auto
  qed (use nt d ops un adj bl in \<open>auto simp: q\<close>)
  then show ?thesis using semop_enqueue_eq [OF sma s2 [unfolded q]] s2 by (simp add: q)
qed

lemma semop_locked_inv:
  assumes inv: "sem_inv0 s" and t: "pc (tasks s t) = Idle" and i: "0 \<le> i"
    and un: "un = None \<and> ops_undos ops = 0 \<or> (\<exists>u. un = Some u \<and> undo_ready s t i u)"
  shows "\<exists>r s'. semop_locked t i ops timeout un s = Some (r, s') \<and> sem_inv0 (resume_to t r s')"
proof -
  have stale: "(case un of None \<Rightarrow> Some False | Some u \<Rightarrow> map_option (\<lambda>un. semid un = -1) (undos s u)) = Some False"
    using un i by (auto simp: undo_ready_def)
  have "slots_inv s" using inv by (simp add: sem_inv_def)
  then show ?thesis
  proof (cases rule: sem_lock_cases [of s i])
    case missing
    then show ?thesis using inv t by (simp add: semop_locked_def)
  next
    case (found a sma)
    note a = found(2)
    have sma: "smas s a = Some sma" using a by (simp add: sits_def)
    let ?perm = "ipcperms (sem_perm sma) (task_cred (tasks s t)) (if ops_alter ops then S_IWUGO else S_IRUGO)"
    show ?thesis
    proof (cases "ipc_checkid (sem_perm sma) i = 0 \<and> ops_max ops < sem_nsems sma \<and> ?perm = 0")
      case False
      then have "\<exists>e. semop_locked t i ops timeout un s = Some (ret e, s)"
        using found(1) sma stale by (auto simp: semop_locked_def)
      then show ?thesis using inv t by (metis resume_Ret)
    next
      case ok: True
      have id: "i = sma_id (lid_of i) sma" using checkid_eq [OF i] ok by blast
      have unm: "u \<in> set (sem_undos sma)" if "un = Some u" for u
        using undo_ready_array [OF inv a id] un that by auto
      have ops: "\<forall>sop \<in> set ops. unat (sem_num sop) < sem_nsems sma" using ok ops_max_bound by blast
      let ?q = "\<lparr>linked = False, undo = un, q_pid = tgid (tasks s t), status = - EINTR, q_sma = a, q_id = i,
                sops = ops, alter = ops_alter ops\<rparr>"
      have "\<exists>adj. read_adj (undo ?q) s = Some adj \<and> ops_ok (sem_nsems sma) adj (sops ?q)"
      proof (rule read_adj_ok)
        show "\<exists>k. map_option undo_shape (undos s u) = Some (k, sem_nsems sma)" if "undo ?q = Some u" for u
          using sits_array_inv [OF inv a] unm that unfolding array_inv_def by auto
      qed (use un ops in auto)
      then obtain adj where adj: "read_adj un s = Some adj" "ops_ok (length (sem_base sma)) adj ops"
        using array_inv_len [OF sits_array_inv [OF inv a] a] by auto
      obtain r s1 where tr: "try_atomic_semop a ops un (tgid (tasks s t)) s = Some (r, s1)"
        using try_atomic_semop_some [OF sma adj] by blast
      show ?thesis
      proof (cases "r \<le> 0")
        case True
        then show ?thesis using semop_now_inv [OF inv a t unm tr True] found(1) sma stale ok tr
          by (auto simp: semop_locked_def Let_def)
      next
        case False
        then have s1: "s1 = s" using try_atomic_semop_fail [OF tr] by auto
        have "blocked (sem_base sma) adj ops" using try_blocked [OF tr sma adj(1)] False by simp
        from semop_sleep_inv [OF inv a t _ unm ops adj(1) this, where q = ?q and timeout = timeout] obtain s2 where
          "(if ops_alter ops then append_to_queue a t (set_queue t ?q s) else prepend_to_queue a t (set_queue t ?q s)) = Some s2"
          "sem_inv0 (resume_to t (Block (Asleep timeout)) (set_task t ((tasks s2 t)\<lparr>tsk_state := TASK_INTERRUPTIBLE\<rparr>) s2))"
          using un id by auto
        then show ?thesis using False found(1) sma stale ok tr unfolding s1 by (auto simp: semop_locked_def Let_def)
      qed
    qed
  qed
qed

lemma semop_undos_inv:
  assumes inv: "sem_inv0 s" and t: "pc (tasks s t) = Idle" and fr: "fresh mem (ulists s)" and i: "0 \<le> i"
  shows "\<exists>r s'. semop_undos t i ops timeout mem s = Some (r, s') \<and> sem_inv0 (resume_to t r s')"
proof (cases "ops_undos ops = 0")
  case True
  then show ?thesis using semop_locked_inv [OF inv t i, of None ops timeout] by (simp add: semop_undos_def)
next
  case False
  show ?thesis
    using inv t fr i
  proof (cases rule: find_undo_inv)
    case (found u s')
    then show ?thesis using semop_locked_inv [OF found(2,3) i, of "Some u" ops timeout] False
      by (simp add: semop_undos_def)
  qed (use False in \<open>auto simp: semop_undos_def\<close>)
qed

lemma semop_undo_alloc_inv:
  assumes inv: "sem_inv0 s" and t: "pc (tasks s t) = In_undo_alloc i ops timeout a n" and fr: "fresh mem (undos s)"
  shows "\<exists>r s'. semop_undo_alloc t i ops timeout a n mem (running t s) = Some (r, s') \<and> sem_inv0 (resume_to t r s')"
proof -
  have i: "0 \<le> i" using inv t unfolding sem_inv_def pcs_inv_def by blast
  show ?thesis
    using inv t fr
  proof (cases rule: find_undo_finish_inv)
    case (found u s')
    then show ?thesis using semop_locked_inv [OF found(2,3) i, of "Some u" ops timeout]
      by (simp add: semop_undo_alloc_def)
  qed (auto simp: semop_undo_alloc_def)
qed

lemma sys_semtimedop_inv:
  assumes inv: "sem_inv0 s" and t: "pc (tasks s t) = Idle" and fr: "fresh mem (ulists s)"
  shows "\<exists>r s'. sys_semtimedop t i user_ops nsops timeout got mem s = Some (r, s') \<and> sem_inv0 (resume_to t r s')"
proof (cases "i < 0")
  case True
  then show ?thesis using inv t by (simp add: sys_semtimedop_def)
next
  case False
  then have "\<exists>r s'. semop_undos t i ops b mem s = Some (r, s') \<and> sem_inv0 (resume_to t r s')" for ops b
    using semop_undos_inv [OF inv t fr] by simp
  then show ?thesis using inv t
    by (auto simp: sys_semtimedop_def split: option.split)
qed

text \<open>Leaving the queue.\<close>

lemma awake_inv:
  assumes inv: "sem_inv0 s" and t: "pc (tasks s t) = Asleep timeout" and a: "sits s l a sma"
    and tp: "t \<in> set (sem_pending sma)"
  shows "sem_inv0 (requeue t a sma (remove1 t (sem_pending sma)) q st Idle s)"
proof (rule requeue_inv [OF inv a])
  have i: "slots_inv s" "arrays_inv {} s" using inv by (simp_all add: sem_inv_def)
  have d: "distinct (sem_pending sma)"
    using sits_array_inv [OF inv a] a unfolding array_inv_def array_valid_def sits_def by auto
  then show "distinct (remove1 t (sem_pending sma))"
    "set (remove1 t (sem_pending sma)) - {t} = set (sem_pending sma) - {t}" by auto
  show "t \<notin> set (sem_pending m)" if "sits s l' b m" "b \<noteq> a" for l' b m
    using pending_disjoint [OF i a that(1) tp] that(2) by blast
  have "t \<notin> set (remove1 t (sem_pending sma))" using d by simp
  then show "entry_valid (requeue t a sma (remove1 t (sem_pending sma)) q st Idle s) (sma\<lparr>sem_pending := remove1 t (sem_pending sma)\<rparr>) t \<and>
      entry_blocked (requeue t a sma (remove1 t (sem_pending sma)) q st Idle s) a t \<and>
      entry_inv (requeue t a sma (remove1 t (sem_pending sma)) q st Idle s) l (sma\<lparr>sem_pending := remove1 t (sem_pending sma)\<rparr>) t"
    if "t \<in> set (remove1 t (sem_pending sma))" using that by blast
qed (use t in auto)

text \<open>A task that has left the queue already only returns.\<close>

lemma woken_inv:
  assumes inv: "sem_inv0 s" and t: "pc (tasks s t) = Asleep timeout" and st: "status (queue (tasks s t)) \<noteq> - EINTR"
  shows "sem_inv0 (set_pc t Idle s)"
proof -
  let ?s = "set_pc t Idle s"
  have i: "slots_inv s" "refs_inv (\<lambda>_. 0) s" "pcs_inv s" "arrays_inv {} s" "sleepers_inv s" and u: "undos_inv {} {} s"
    using inv by (simp_all add: sem_inv_def)
  have f: "sem_ids ?s = sem_ids s" "smas ?s = smas s" "undos ?s = undos s" "ulists ?s = ulists s"
    "\<And>t'. undo_list (tasks ?s t') = undo_list (tasks s t')" "\<And>t'. queue (tasks ?s t') = queue (tasks s t')"
    "\<And>t'. t' \<noteq> t \<Longrightarrow> tasks ?s t' = tasks s t'" "pc (tasks ?s t) = Idle"
    by (simp_all add: set_task_def)
  have sits: "sits ?s l a m = sits s l a m" for l a m by (simp add: sits_def f)
  have dead: "pc (tasks ?s t') = Dead \<longleftrightarrow> pc (tasks s t') = Dead" for t' using t f(7,8) by (cases "t' = t") auto
  have held: "held (pc (tasks ?s t')) = held (pc (tasks s t'))" for t' using t f(7,8) by (cases "t' = t") auto
  have "slots_inv ?s" using i(1) by (simp add: slots_inv_def f)
  moreover have "refs_inv (\<lambda>_. 0) ?s" using i(2) unfolding refs_inv_def holders_def f(1,2) held dead .
  moreover have "pcs_inv ?s"
  proof -
    have "pc_ok ?s t' x = pc_ok s t' x" for t' x by (simp add: pc_ok_def sits f)
    moreover have "pc_ok s t Idle" by (simp add: pc_ok_def)
    ultimately show ?thesis using i(3) f(7,8) unfolding pcs_inv_pc_ok by metis
  qed
  moreover have "arrays_inv {} ?s"
    unfolding arrays_inv_def sits
  proof (intro allI impI)
    fix l a m assume a: "sits s l a m"
    note ai = sits_array_inv [OF inv a]
    then have "t \<notin> set (sem_pending m)" using st unfolding array_inv_def entry_inv_def by blast
    then show "array_inv {} ?s l a m"
      using a ai by (intro array_inv_frame [of "{}" s l a m ?s]) (auto simp: sits_def set_task_def)
  qed
  moreover have "sleepers_inv ?s"
    unfolding sleepers_inv_def sits f(6)
  proof (intro allI impI)
    fix t' timeout' assume "pc (tasks ?s t') = Asleep timeout'"
    then have "pc (tasks s t') = Asleep timeout'" using f(7,8) by (cases "t' = t") auto
    then show "status (queue (tasks s t')) \<noteq> IN_WAKEUP \<and>
        (status (queue (tasks s t')) = - EINTR \<longrightarrow> (\<exists>l a sma. sits s l a sma \<and> t' \<in> set (sem_pending sma)))"
      using i(5) unfolding sleepers_inv_def by blast
  qed
  moreover have "undos_inv {} {} ?s"
    using u by (rule undos_inv_frame) (use u in \<open>auto simp: f dead sits dest: undos_inv_array\<close>)
  ultimately show ?thesis by (simp add: sem_inv_def)
qed

lemma semop_wake_inv:
  assumes inv: "sem_inv0 s" and t: "pc (tasks s t) = Asleep timeout"
  shows "\<exists>r s'. semop_wake t timeout expired s = Some (r, s') \<and> sem_inv0 (resume_to t r s')"
proof -
  let ?q = "queue (tasks s t)"
  have i: "slots_inv s" "sleepers_inv s" using inv by (simp_all add: sem_inv_def)
  have nw: "status ?q \<noteq> IN_WAKEUP" using i(2) t unfolding sleepers_inv_def by blast
  show ?thesis
  proof (cases "status ?q = - EINTR")
    case False
    then show ?thesis using nw woken_inv [OF inv t False] by (simp add: semop_wake_def resume_to_def Let_def)
  next
    case True
    then obtain l a sma where a: "sits s l a sma" "t \<in> set (sem_pending sma)"
      using i(2) t unfolding sleepers_inv_def by blast
    then have "q_id ?q = sma_id l sma" using sits_array_inv [OF inv a(1)] unfolding array_inv_def entry_inv_def by blast
    then have lk: "sem_lock (q_id ?q) s = Some (Some a)" using sem_lock_id [OF i(1) a(1)] by simp
    have sma: "smas s a = Some sma" using a(1) by (simp add: sits_def)
    let ?s = "set_queue t (?q\<lparr>linked := False\<rparr>) (set_sma a (sma\<lparr>sem_pending := remove1 t (sem_pending sma)\<rparr>) s)"
    have "remove_from_queue a t s = Some ?s"
      using sma a(2) by (simp add: remove_from_queue_def Let_def set_sma_def)
    moreover have "resume_to t (ret e) ?s = requeue t a sma (remove1 t (sem_pending sma)) (?q\<lparr>linked := False\<rparr>)
        (tsk_state (tasks s t)) Idle s" for e
      by (simp add: resume_to_def requeue_def set_queue_def set_task_def set_sma_def)
    ultimately show ?thesis
      using nw True lk awake_inv [OF inv t a] by (simp add: semop_wake_def Let_def)
  qed
qed

end
