(* ===== verification/SemSys.thy ===== *)
theory SemSys
  imports SemOp
begin

text \<open>
  Tasks that start and end (\<^verbatim>\<open>copy_semundo\<close>, \<^verbatim>\<open>exit_sem\<close>), the step relation of \<^verbatim>\<open>ipc/sem.c\<close> as an
  invariant system, and the properties of the semaphores in every reachable state.
\<close>

unbundle bit_operations_syntax

section \<open>Tasks start and end\<close>

text \<open>
  Tasks start and end and undo lists change: arrays, identifiers and queues stay, tasks inside
  a call too, and no undo structure of an array goes.
\<close>

lemma task_change_inv:
  assumes inv: "sem_inv X R D E s"
    and f: "sem_ids s' = sem_ids s" "smas s' = smas s"
      "\<And>t. pc (tasks s' t) = pc (tasks s t) \<or> pc (tasks s t) \<in> {Idle, Dead} \<and> pc (tasks s' t) \<in> {Idle, Dead}"
      "\<And>t. queue (tasks s' t) = queue (tasks s t)"
      "\<And>t. pc (tasks s t) \<notin> {Idle, Dead} \<Longrightarrow> undo_list (tasks s' t) = undo_list (tasks s t)"
      "finite {t. pc (tasks s' t) \<noteq> Dead}"
    and keep: "\<And>l a sma u. sits s l a sma \<Longrightarrow> u \<in> set (sem_undos sma) \<Longrightarrow> undos s' u = undos s u"
      "\<And>l a sma ul ulp u. sits s l a sma \<Longrightarrow> u \<in> set (sem_undos sma) \<Longrightarrow> ulists s ul = Some ulp \<Longrightarrow>
         u \<in> set (proc_list ulp) \<Longrightarrow> \<exists>ulp'. ulists s' ul = Some ulp' \<and> u \<in> set (proc_list ulp')"
    and u: "undos_inv D' E' s'"
  shows "sem_inv X R D' E' s'"
proof -
  have i: "slots_inv s" "refs_inv R s" "pcs_inv s" "arrays_inv X s" "sleepers_inv s"
    using inv by (simp_all add: sem_inv_def)
  have sits: "sits s' l a m = sits s l a m" for l a m by (simp add: sits_def f)
  have h: "held (pc (tasks s' t)) = held (pc (tasks s t))" for t using f(3) [of t] by auto
  have pc: "pc (tasks s' t) = p \<longleftrightarrow> pc (tasks s t) = p" if "p \<notin> {Idle, Dead}" for t p using f(3) [of t] that by auto
  have "pc_ok s' t (pc (tasks s' t))" for t
  proof (cases "pc (tasks s t) \<in> {Idle, Dead}")
    case True
    then show ?thesis using f(3) [of t] by (auto simp: pc_ok_def)
  next
    case False
    then have "pc (tasks s' t) = pc (tasks s t)" "undo_list (tasks s' t) = undo_list (tasks s t)"
      using f(3,5) [of t] by auto
    then show ?thesis using i(3) unfolding pcs_inv_pc_ok pc_ok_def sits f(1,2) by simp
  qed
  then have "pcs_inv s'" by (simp add: pcs_inv_pc_ok)
  moreover have "slots_inv s'" using i(1) by (simp add: slots_inv_def f)
  moreover have "refs_inv R s'" using i(2) f(6) by (simp add: refs_inv_def holders_def f(1,2) h)
  moreover have "array_inv X s' l a m" if a: "sits s l a m" for l a m
    by (rule array_inv_kept [OF a sits_array_inv [OF inv a] f(2,4) _ _ keep(1) [OF a] keep(2) [OF a]]) (use pc f(5) in auto)
  then have "arrays_inv X s'" unfolding arrays_inv_def sits by blast
  moreover have "sleepers_inv s'" using i(5) pc unfolding sleepers_inv_def sits f(4) by simp
  ultimately show ?thesis using u by (simp add: sem_inv_def)
qed

lemma users_change_inv:
  assumes inv: "sem_inv0 s" and f: "sem_ids s' = sem_ids s" "smas s' = smas s" "undos s' = undos s"
      "\<And>t. queue (tasks s' t) = queue (tasks s t)"
    and t: "\<And>t'. t' \<noteq> t \<Longrightarrow> tasks s' t' = tasks s t'" "pc (tasks s t) \<in> {Idle, Dead}" "pc (tasks s' t) \<in> {Idle, Dead}"
    and lists: "\<And>ul. map_option proc_list (ulists s' ul) = map_option proc_list (ulists s ul)"
    and counts: "\<And>ul p. ulists s' ul = Some p \<Longrightarrow> refcnt p = int (card (live_users s' ul)) \<and> (ul \<notin> D \<longrightarrow> refcnt p > 0)"
    and users: "\<And>ul. pc (tasks s' t) \<noteq> Dead \<Longrightarrow> undo_list (tasks s' t) = Some ul \<Longrightarrow> \<exists>p. ulists s ul = Some p"
  shows "sem_inv {} (\<lambda>_. 0) D {} s'"
proof (rule task_change_inv [OF inv])
  have un: "undos_inv {} {} s" using inv by (simp add: sem_inv_def)
  have bwd: "\<exists>q. ulists s ul = Some q \<and> proc_list q = proc_list p" if "ulists s' ul = Some p" for ul p
    using lists [of ul] that by (cases "ulists s ul") auto
  have fwd: "\<exists>p. ulists s' ul = Some p \<and> proc_list p = proc_list q" if "ulists s ul = Some q" for ul q
    using lists [of ul] that by auto
  have sits: "sits s' l a m = sits s l a m" for l a m by (simp add: sits_def f)
  show "undos_inv D {} s'"
  proof (rule undos_invI)
    show "distinct (proc_list p) \<and> set (proc_list p) \<subseteq> dom (undos s') \<and>
        refcnt p = int (card (live_users s' ul)) \<and> (ul \<notin> D \<longrightarrow> refcnt p > 0)" if "ulists s' ul = Some p" for ul p
      using counts [OF that] bwd [OF that] undos_inv_list(1,2) [OF un, of ul] f(3) by metis
    show "ul2 = ul1" if "ulists s' ul1 = Some p1" "ulists s' ul2 = Some p2"
        "v \<in> set (proc_list p1)" "v \<in> set (proc_list p2)" for ul1 ul2 p1 p2 v
      using bwd [OF that(1)] bwd [OF that(2)] that(3,4) undos_inv_disjoint [OF un, of ul1 _ ul2 _ v] by metis
    show "\<exists>l a sma. sits s' l a sma \<and> v \<in> set (sem_undos sma)" if "undos s' v = Some x" "semid x \<noteq> -1" for v x
      using that undos_inv_array [OF un, of v x] sits f(3) by auto
    show "\<exists>ul p. ulists s' ul = Some p \<and> v \<in> set (proc_list p)" if "undos s' v = Some x" for v x
      using undos_inv_owner [OF un, of v x] fwd that f(3) by metis
    show "\<exists>p. ulists s' ul = Some p" if "pc (tasks s' t') \<noteq> Dead" "undo_list (tasks s' t') = Some ul" for t' ul
    proof -
      have "\<exists>q. ulists s ul = Some q" using that users undos_inv_user [OF un, of t' ul] t(1) by (cases "t' = t") auto
      then show ?thesis using fwd by blast
    qed
  qed
  show "pc (tasks s' t') = pc (tasks s t') \<or> pc (tasks s t') \<in> {Idle, Dead} \<and> pc (tasks s' t') \<in> {Idle, Dead}" for t'
    using t by (cases "t' = t") auto
  show "undo_list (tasks s' t') = undo_list (tasks s t')" if "pc (tasks s t') \<notin> {Idle, Dead}" for t'
    using that t by (cases "t' = t") auto
  have "{t. pc (tasks s' t) \<noteq> Dead} \<subseteq> insert t {t. pc (tasks s t) \<noteq> Dead}" using t(1) by force
  then show "finite {t. pc (tasks s' t) \<noteq> Dead}"
    using inv by (auto simp: sem_inv_def refs_inv_def intro: finite_subset)
  show "\<exists>p. ulists s' ul = Some p \<and> v \<in> set (proc_list p)" if "ulists s ul = Some q" "v \<in> set (proc_list q)" for ul q v
    using fwd that by metis
qed (simp_all add: f)

lemma finite_live_users: "sem_inv X R D E s \<Longrightarrow> finite (live_users s ul)"
  by (auto simp: sem_inv_def refs_inv_def live_users_def intro: finite_subset [of _ "{t. pc (tasks s t) \<noteq> Dead}"])

lemma clone_inv:
  assumes inv: "sem_inv0 s" and t: "pc (tasks s t) = Idle" and tsk: "pc (tasks s tsk) = Dead" and fr: "fresh mem (ulists s)"
  shows "\<exists>r s'. copy_semundo t flags tsk mem s = Some (r, s') \<and>
    sem_inv0 (if r = 0 then set_task tsk ((tasks s' tsk)\<lparr>pc := Idle\<rparr>) s' else s')"
proof (cases "flags AND CLONE_SYSVSEM = 0")
  case True
  let ?s = "set_task tsk ((tasks s tsk)\<lparr>undo_list := None, pc := Idle\<rparr>) s"
  have un: "undos_inv {} {} s" using inv by (simp add: sem_inv_def)
  have lu: "live_users ?s ul = live_users s ul" for ul using tsk by (auto simp: live_users_def set_task_def)
  have "sem_inv0 ?s"
    by (rule users_change_inv [OF inv, where t = tsk])
      (use tsk lu in \<open>auto simp: set_task_def dest: undos_inv_list [OF un]\<close>)
  then show ?thesis using True by (simp add: copy_semundo_def set_task_def)
next
  case False
  from inv t fr show ?thesis
  proof (cases rule: get_undo_list_inv)
    case fail
    then show ?thesis using False inv by (simp add: copy_semundo_def)
  next
    case (got ul ulp s1)
    have un: "undos_inv {} {} s1" using got(2) by (simp add: sem_inv_def)
    have "tasks s1 tsk = tasks s tsk"
      using got(1) t tsk by (auto simp: get_undo_list_def set_task_def split: option.splits)
    then have tsk1: "pc (tasks s1 tsk) = Dead" using tsk by simp
    let ?s = "s1\<lparr>ulists := (ulists s1)(ul \<mapsto> ulp\<lparr>refcnt := refcnt ulp + 1\<rparr>),
        tasks := (tasks s1)(tsk := (tasks s1 tsk)\<lparr>undo_list := Some ul, pc := Idle\<rparr>)\<rparr>"
    have lu: "live_users ?s ul' = (if ul' = ul then insert tsk (live_users s1 ul) else live_users s1 ul')" for ul'
      using tsk1 by (auto simp: live_users_def)
    have nl: "tsk \<notin> live_users s1 ul" using tsk1 by (simp add: live_users_def)
    have "sem_inv0 ?s"
    proof (rule users_change_inv [OF got(2), where t = tsk])
      show "refcnt p = int (card (live_users ?s ul')) \<and> (ul' \<notin> {} \<longrightarrow> refcnt p > 0)" if "ulists ?s ul' = Some p" for ul' p
        using that lu [of ul'] nl finite_live_users [OF got(2)] undos_inv_list(3,4) [OF un got(4)] undos_inv_list(3,4) [OF un, of ul' p]
        by (cases "ul' = ul") auto
    qed (use got(4) tsk1 in auto)
    then show ?thesis using False got(1,4) by (simp add: copy_semundo_def set_task_def)
  qed
qed

section \<open>Exit\<close>

lemma undo_leaves_inv:
  assumes inv: "sem_inv (insert a X) R D E s" and a: "sits s l a sma" and u: "u \<in> set (sem_undos sma)"
    and no: "\<And>t. t \<in> set (sem_pending sma) \<Longrightarrow> undo (queue (tasks s t)) \<noteq> Some u"
  shows "sem_inv (insert a X) R D (insert u E) (set_sma a (sma\<lparr>sem_undos := remove1 u (sem_undos sma)\<rparr>) s)" (is "sem_inv _ _ _ _ ?s")
proof -
  have i: "slots_inv s" "refs_inv R s" "pcs_inv s" "arrays_inv (insert a X) s" "sleepers_inv s" and un: "undos_inv D E s"
    using inv by (simp_all add: sem_inv_def)
  let ?sma = "sma\<lparr>sem_undos := remove1 u (sem_undos sma)\<rparr>"
  have sma: "smas s a = Some sma" using a by (simp add: sits_def)
  note ai = sits_array_inv [OF inv a]
  have d: "set (remove1 u (sem_undos sma)) = set (sem_undos sma) - {u}" "distinct (remove1 u (sem_undos sma))"
    using ai unfolding array_inv_def by auto
  have f: "smas ?s = (smas s)(a \<mapsto> ?sma)" "undos ?s = undos s" "ulists ?s = ulists s" "tasks ?s = tasks s"
    by (simp_all add: set_sma_def)
  have c: "array_change l a sma ?sma s ?s" using a by (simp add: array_change_def set_sma_def)
  have "entry_valid ?s ?sma t" if "t \<in> set (sem_pending sma)" for t
    using ai sma that no [OF that] unfolding array_inv_def array_valid_def entry_valid_def Let_def by (auto simp: f d)
  then have "array_valid ?s a"
    using ai sma unfolding array_inv_def array_valid_def f(1,2) by (auto simp: d)
  moreover have "entry_inv ?s l ?sma t" if "t \<in> set (sem_pending sma)" for t
    using ai that unfolding array_inv_def entry_inv_def f(3,4) by simp
  ultimately have "array_inv (insert a X) ?s l a ?sma" using ai d unfolding array_inv_def f(2) by simp
  then have "arrays_inv (insert a X) ?s"
    by (rule array_change_arrays [OF c i(1,4)]) (auto simp: f)
  moreover have "sleepers_inv ?s" by (rule array_change_sleepers [OF c i(1,5)]) (simp add: f)
  moreover have "undos_inv D (insert u E) ?s"
    using un
  proof (rule undos_inv_frame)
    show "\<exists>l b m. sits ?s l b m \<and> v \<in> set (sem_undos m)" if hp: "undos ?s v = Some x" "semid x \<noteq> -1" "v \<notin> insert u E" for v x
    proof -
      obtain l' b m where m: "sits s l' b m" "v \<in> set (sem_undos m)" using undos_inv_array [OF un, of v x] hp f(2) by auto
      show ?thesis using array_change_member [OF c i(1) m] d(1) hp(3) by simp
    qed
  qed (simp_all add: f)
  moreover have "refs_inv R ?s" "pcs_inv ?s"
    using array_change_refs [OF c i(2)] array_change_pcs [OF c i(1,3)] f(4) by simp_all
  ultimately show ?thesis using array_change_slots [OF c i(1)] by (simp add: sem_inv_def)
qed

lemma exit_adjust_ok:
  assumes "sems_ok base" shows "sems_ok (map2 (exit_adjust pid) (take n base) (take n adj) @ drop n base)"
proof -
  have "0 \<le> semval (exit_adjust pid sm v) \<and> semval (exit_adjust pid sm v) \<le> SEMVMX" if "sm \<in> set (take n base)" for sm v
    using assms in_set_takeD [OF that] by (auto simp: sems_ok_def exit_adjust_def Let_def)
  then show ?thesis using assms unfolding sems_ok_def by (auto dest: set_zip_leftD in_set_dropD)
qed

text \<open>An undo structure that no array has any more is freed.\<close>

lemma free_undo_inv:
  assumes inv: "sem_inv {} R {ul} E s" and ul: "ulists s ul = Some ulp" "proc_list ulp = u # us" and E: "E \<subseteq> {u}"
    and no: "\<And>l a sma. sits s l a sma \<Longrightarrow> u \<notin> set (sem_undos sma)"
  shows "sem_inv {} R {ul} {} (s\<lparr>ulists := (ulists s)(ul \<mapsto> ulp\<lparr>proc_list := us\<rparr>), undos := (undos s)(u := None)\<rparr>)"
    (is "sem_inv _ _ _ _ ?s")
proof (rule task_change_inv [OF inv])
  have un: "undos_inv {ul} E s" using inv by (simp add: sem_inv_def)
  note l = undos_inv_list [OF un]
  have sits: "sits ?s l a m = sits s l a m" for l a m by (simp add: sits_def)
  have lu: "live_users ?s ul' = live_users s ul'" for ul' by (simp add: live_users_def)
  have other: "u \<notin> set (proc_list ulp')" if "ulists s ul' = Some ulp'" "ul' \<noteq> ul" for ul' ulp'
    using undos_inv_disjoint [OF un ul(1) that(1)] that(2) ul(2) by auto
  show "undos_inv {ul} {} ?s"
  proof (rule undos_invI)
    show "distinct (proc_list p) \<and> set (proc_list p) \<subseteq> dom (undos ?s) \<and>
        refcnt p = int (card (live_users ?s ul')) \<and> (ul' \<notin> {ul} \<longrightarrow> refcnt p > 0)"
      if "ulists ?s ul' = Some p" for ul' p
      using that l [of ul' p] l [OF ul(1)] other [of ul' p] ul(2) lu [of ul'] by (cases "ul' = ul") auto
    show "ul2 = ul1" if "ulists ?s ul1 = Some p1" "ulists ?s ul2 = Some p2"
        "v \<in> set (proc_list p1)" "v \<in> set (proc_list p2)" for ul1 ul2 p1 p2 v
    proof -
      have "\<exists>q. ulists s ul' = Some q \<and> v \<in> set (proc_list q)" if "ulists ?s ul' = Some p" "v \<in> set (proc_list p)" for ul' p
        using that ul by (cases "ul' = ul") auto
      then show ?thesis using that undos_inv_disjoint [OF un] by metis
    qed
    show "\<exists>l a sma. sits ?s l a sma \<and> v \<in> set (sem_undos sma)" if "undos ?s v = Some x" "semid x \<noteq> -1" for v x
      using that undos_inv_array [OF un, of v x] E sits by (cases "v = u") auto
    show "\<exists>ul' p. ulists ?s ul' = Some p \<and> v \<in> set (proc_list p)" if hp: "undos ?s v = Some x" for v x
    proof -
      have vu: "v \<noteq> u" "undos s v = Some x" using hp by (auto split: if_splits)
      then obtain ul' p where p: "ulists s ul' = Some p" "v \<in> set (proc_list p)" using undos_inv_owner [OF un] by blast
      then show ?thesis using vu(1) ul
        by (intro exI [of _ ul'] exI [of _ "if ul' = ul then ulp\<lparr>proc_list := us\<rparr> else p"]) auto
    qed
    show "\<exists>p. ulists ?s ul' = Some p" if "pc (tasks ?s t) \<noteq> Dead" "undo_list (tasks ?s t) = Some ul'" for t ul'
      using that undos_inv_user [OF un, of t ul'] by auto
  qed
  show "undos ?s v = undos s v" if "sits s l a m" "v \<in> set (sem_undos m)" for l a m v using no [OF that(1)] that(2) by auto
  show "\<exists>p'. ulists ?s ul' = Some p' \<and> v \<in> set (proc_list p')"
    if "sits s l a m" "v \<in> set (sem_undos m)" "ulists s ul' = Some p" "v \<in> set (proc_list p)" for l a m v ul' p
  proof -
    have "v \<noteq> u" using no [OF that(1)] that(2) by auto
    then show ?thesis using that ul by (cases "ul' = ul") auto
  qed
qed (use inv in \<open>auto simp: sem_inv_def refs_inv_def\<close>)


text \<open>Nobody sleeps with a structure of a list that has no users.\<close>

lemma no_user_no_entry:
  assumes inv: "sem_inv {} (\<lambda>_. 0) {ul} {} s" and ul: "ulists s ul = Some ulp" "u \<in> set (proc_list ulp)" "refcnt ulp = 0"
    and a: "sits s l a sma" and t: "t \<in> set (sem_pending sma)"
  shows "undo (queue (tasks s t)) \<noteq> Some u"
proof
  have un: "undos_inv {ul} {} s" using inv by (simp add: sem_inv_def)
  have none: "live_users s ul = {}" using undos_inv_list(3) [OF un ul(1)] ul(3) finite_live_users [OF inv] by simp
  assume "undo (queue (tasks s t)) = Some u"
  moreover have "entry_inv s l sma t" using sits_array_inv [OF inv a] t unfolding array_inv_def by simp
  ultimately obtain ul' p timeout where p: "undo_list (tasks s t) = Some ul'" "ulists s ul' = Some p" "u \<in> set (proc_list p)"
    "pc (tasks s t) = Asleep timeout" unfolding entry_inv_def by auto
  then have "ul' = ul" using undos_inv_disjoint [OF un ul(1) p(2), of u] p(3) ul(2) by simp
  then have "t \<in> live_users s ul" using p(1,4) by (simp add: live_users_def)
  then show False using none by simp
qed

lemma exit_undo_applied:
  assumes inv: "sem_inv {} (\<lambda>_. 0) {ul} {} s" and ul: "ulists s ul = Some ulp" "u \<in> set (proc_list ulp)" "refcnt ulp = 0"
    and x: "undos s u = Some x" "semid x \<noteq> -1" and a: "sits s l a sma" "u \<in> set (sem_undos sma)"
  shows "\<exists>s'. exit_undo pid u s = Some s' \<and> sem_inv {} (\<lambda>_. 0) {ul} {u} s' \<and> ulists s' = ulists s \<and>
    (\<forall>l a sma. sits s' l a sma \<longrightarrow> u \<notin> set (sem_undos sma))"
proof -
  have i: "slots_inv s" "arrays_inv {} s" using inv by (simp_all add: sem_inv_def)
  note ai = sits_array_inv [OF inv a(1)]
  have sma: "smas s a = Some sma" "slot (sem_ids s) l = Some a" using a(1) by (simp_all add: sits_def)
  have id: "semid x = sma_id l sma" "length (semadj x) = sem_nsems sma"
    using ai a(2) x unfolding array_inv_def by (auto simp: undo_shape_def)
  have len: "length (sem_base sma) = sem_nsems sma" by (rule array_inv_len [OF ai a(1)])
  have lk: "sem_lock (semid x) s = Some (Some a)" using sem_lock_id [OF i(1) a(1)] id by simp
  let ?n = "sem_nsems sma"
  let ?base = "map2 (exit_adjust pid) (take ?n (sem_base sma)) (take ?n (semadj x)) @ drop ?n (sem_base sma)"
  let ?sma1 = "sma\<lparr>sem_base := ?base, sem_otime := seconds s\<rparr>"
  let ?s1 = "set_sma a ?sma1 s"
  let ?s2 = "set_sma a (?sma1\<lparr>sem_undos := remove1 u (sem_undos sma)\<rparr>) ?s1"
  have step: "queue_step a {} s ?s1"
    using sma len id(2) exit_adjust_ok [of "sem_base sma" pid ?n "semadj x"]
    by (intro queue_stepI [where sma = sma and sma' = ?sma1 and us = "undos s" and ts = "tasks s"])
      (auto simp: set_sma_def sma_frame_def)
  have inv1: "sem_inv {a} (\<lambda>_. 0) {ul} {} ?s1" using value_step_inv [OF inv step sma(2)] .
  have a1: "sits ?s1 l a ?sma1" using sma by (simp add: sits_def set_sma_def)
  have "undo (queue (tasks ?s1 t)) \<noteq> Some u" if "t \<in> set (sem_pending ?sma1)" for t
    using no_user_no_entry [OF inv ul a(1)] that by (simp add: set_sma_def)
  then have inv2: "sem_inv {a} (\<lambda>_. 0) {ul} {u} ?s2" using undo_leaves_inv [OF inv1 a1, of u] a(2) by simp
  have sl2: "slot (sem_ids ?s2) l = Some a" using sma(2) by (simp add: set_sma_def)
  from inv2 sl2 obtain s' W where s': "update_queue a ?s2 = Some s'" "sem_inv {} (\<lambda>_. 0) {ul} {u} s'" "queue_step a W ?s2 s'"
    by (rule update_queue_inv)
  have rec: "sma\<lparr>sem_base := b, sem_otime := tm, sem_undos := v\<rparr> = sma\<lparr>sem_undos := v, sem_base := b, sem_otime := tm\<rparr>" for b tm v
    by (cases sma) simp
  have "exit_undo pid u s = Some s'"
    using x lk sma(1) a(2) len id s'(1) checkid_buildid [of l] sitsD [OF a(1) i(1)]
    by (simp add: exit_undo_def set_sma_def Let_def rec)
  moreover have "ulists s' = ulists s" using s'(3) by (auto elim!: queue_stepE simp: set_sma_def)
  moreover have "u \<notin> set (sem_undos m)" if hp: "sits s' l' b m" for l' b m
  proof (cases "b = a")
    case True
    then show ?thesis using hp s'(3) ai unfolding array_inv_def
      by (auto elim!: queue_stepE simp: set_sma_def sits_def sma_frame_def)
  next
    case False
    then have "sits s l' b m" using hp s'(3) by (auto elim!: queue_stepE simp: set_sma_def sits_def)
    then show ?thesis using undos_disjoint [OF i a(1) _ a(2)] False by blast
  qed
  ultimately show ?thesis using s'(2) by blast
qed

lemma exit_undo_inv:
  assumes inv: "sem_inv {} (\<lambda>_. 0) {ul} {} s" and ul: "ulists s ul = Some ulp" "proc_list ulp = u # us" "refcnt ulp = 0"
  obtains s' E where "exit_undo pid u s = Some s'" "sem_inv {} (\<lambda>_. 0) {ul} E s'" "E \<subseteq> {u}" "ulists s' = ulists s"
    "\<And>l a sma. sits s' l a sma \<Longrightarrow> u \<notin> set (sem_undos sma)"
proof -
  have un: "undos_inv {ul} {} s" using inv by (simp add: sem_inv_def)
  obtain x where x: "undos s u = Some x" using undos_inv_list(2) [OF un ul(1)] ul(2) by auto
  show thesis
  proof (cases "semid x = -1")
    case True
    have "u \<notin> set (sem_undos sma)" if "sits s l a sma" for l a sma
    proof
      assume "u \<in> set (sem_undos sma)"
      then have "semid x = sma_id l sma"
        using sits_array_inv [OF inv that] x unfolding array_inv_def by (auto simp: undo_shape_def)
      then show False using True sma_id_nonneg [of l "seq (sem_perm sma)"] by simp
    qed
    then show thesis using True x inv by (intro that [of s "{}"]) (auto simp: exit_undo_def)
  next
    case False
    then obtain l a sma where a: "sits s l a sma" "u \<in> set (sem_undos sma)" using undos_inv_array [OF un x] by blast
    have "u \<in> set (proc_list ulp)" using ul(2) by simp
    from exit_undo_applied [OF inv ul(1) this ul(3) x False a, of pid] show thesis using that by blast
  qed
qed

lemma exit_loop_inv:
  assumes "sem_inv {} (\<lambda>_. 0) {ul} {} s" "ulists s ul = Some ulp" "proc_list ulp = us" "refcnt ulp = 0"
  shows "\<exists>s' ulp'. exit_loop pid ul us s = Some s' \<and> sem_inv {} (\<lambda>_. 0) {ul} {} s' \<and> ulists s' ul = Some ulp' \<and>
    proc_list ulp' = [] \<and> refcnt ulp' = 0"
  using assms
proof (induction us arbitrary: s ulp)
  case Nil
  then show ?case by auto
next
  case (Cons u us)
  obtain s' E where s': "exit_undo pid u s = Some s'" "sem_inv {} (\<lambda>_. 0) {ul} E s'" "E \<subseteq> {u}" "ulists s' = ulists s"
    "\<And>l a sma. sits s' l a sma \<Longrightarrow> u \<notin> set (sem_undos sma)"
    using Cons.prems by (rule exit_undo_inv) blast
  have ul': "ulists s' ul = Some ulp" using s'(4) Cons.prems(2) by simp
  let ?s = "s'\<lparr>ulists := (ulists s')(ul \<mapsto> ulp\<lparr>proc_list := us\<rparr>), undos := (undos s')(u := None)\<rparr>"
  have "sem_inv {} (\<lambda>_. 0) {ul} {} ?s" using free_undo_inv [OF s'(2) ul' Cons.prems(3) s'(3,5)] .
  then show ?case using Cons.IH [of ?s "ulp\<lparr>proc_list := us\<rparr>"] Cons.prems(4) s'(1) ul' by simp
qed

text \<open>The empty list of a process with no task left is freed.\<close>

lemma free_ulist_inv:
  assumes inv: "sem_inv {} (\<lambda>_. 0) {ul} {} s" and ul: "ulists s ul = Some ulp" "proc_list ulp = []" "refcnt ulp = 0"
  shows "sem_inv0 (s\<lparr>ulists := (ulists s)(ul := None)\<rparr>)" (is "sem_inv0 ?s")
proof (rule task_change_inv [OF inv])
  have un: "undos_inv {ul} {} s" using inv by (simp add: sem_inv_def)
  have none: "live_users s ul = {}" using undos_inv_list(3) [OF un ul(1)] ul(3) finite_live_users [OF inv] by simp
  have sits: "sits ?s l a m = sits s l a m" for l a m by (simp add: sits_def)
  have lu: "live_users ?s ul' = live_users s ul'" for ul' by (simp add: live_users_def)
  show "undos_inv {} {} ?s"
  proof (rule undos_invI)
    show "distinct (proc_list p) \<and> set (proc_list p) \<subseteq> dom (undos ?s) \<and>
        refcnt p = int (card (live_users ?s ul')) \<and> (ul' \<notin> {} \<longrightarrow> refcnt p > 0)" if "ulists ?s ul' = Some p" for ul' p
      using that undos_inv_list [OF un, of ul' p] lu [of ul'] by (auto split: if_splits)
    show "ul2 = ul1" if "ulists ?s ul1 = Some p1" "ulists ?s ul2 = Some p2"
        "v \<in> set (proc_list p1)" "v \<in> set (proc_list p2)" for ul1 ul2 p1 p2 v
      using that undos_inv_disjoint [OF un, of ul1 p1 ul2 p2 v] by (auto split: if_splits)
    show "\<exists>l a sma. sits ?s l a sma \<and> v \<in> set (sem_undos sma)" if "undos ?s v = Some x" "semid x \<noteq> -1" for v x
      using that undos_inv_array [OF un, of v x] sits by auto
    show "\<exists>ul' p. ulists ?s ul' = Some p \<and> v \<in> set (proc_list p)" if hp: "undos ?s v = Some x" for v x
    proof -
      obtain ul' p where "ulists s ul' = Some p" "v \<in> set (proc_list p)" using undos_inv_owner [OF un, of v x] hp by auto
      moreover then have "ul' \<noteq> ul" using ul by auto
      ultimately show ?thesis by auto
    qed
    show "\<exists>p. ulists ?s ul' = Some p" if "pc (tasks ?s t) \<noteq> Dead" "undo_list (tasks ?s t) = Some ul'" for t ul'
      using that undos_inv_user [OF un, of t ul'] none by (auto simp: live_users_def)
  qed
  show "\<exists>p'. ulists ?s ul' = Some p' \<and> v \<in> set (proc_list p')"
    if "ulists s ul' = Some p" "v \<in> set (proc_list p)" for v ul' p using that ul by auto
qed (use inv in \<open>auto simp: sem_inv_def refs_inv_def\<close>)

lemma exit_sem_inv:
  assumes inv: "sem_inv0 s" and t: "pc (tasks s t) = Idle"
  shows "\<exists>s'. exit_sem pid t (dying t s) = Some s' \<and> sem_inv0 s'"
proof -
  let ?d = "dying t s"
  have un: "undos_inv {} {} s" using inv by (simp add: sem_inv_def)
  have f: "sem_ids ?d = sem_ids s" "smas ?d = smas s" "undos ?d = undos s" "ulists ?d = ulists s"
    "\<And>t'. queue (tasks ?d t') = queue (tasks s t')" "\<And>t'. undo_list (tasks ?d t') = undo_list (tasks s t')"
    "\<And>t'. t' \<noteq> t \<Longrightarrow> tasks ?d t' = tasks s t'" "pc (tasks ?d t) = Dead"
    by (simp_all add: dying_def set_task_def)
  have lu: "live_users ?d ul = live_users s ul - {t}" for ul
  proof (rule set_eqI)
    fix t' show "t' \<in> live_users ?d ul \<longleftrightarrow> t' \<in> live_users s ul - {t}"
      by (cases "t' = t") (simp_all add: live_users_def f)
  qed
  show ?thesis
  proof (cases "undo_list (tasks s t)")
    case None
    have "live_users ?d ul = live_users s ul" for ul using lu [of ul] None by (auto simp: live_users_def)
    then have "sem_inv0 ?d"
      by (intro users_change_inv [OF inv, where t = t]) (use t in \<open>auto simp: f dest: undos_inv_list [OF un]\<close>)
    then show ?thesis using None by (simp add: exit_sem_def f(6))
  next
    case (Some ul)
    then obtain ulp where ulp: "ulists s ul = Some ulp" using undos_inv_user [OF un, of t ul] t by auto
    have tl: "t \<in> live_users s ul" using t Some by (simp add: live_users_def)
    let ?p = "ulp\<lparr>refcnt := refcnt ulp - 1\<rparr>"
    let ?s = "?d\<lparr>ulists := (ulists s)(ul \<mapsto> ?p)\<rparr>"
    have lu': "live_users ?s ul' = (if ul' = ul then live_users s ul - {t} else live_users s ul')" for ul'
      using lu [of ul'] Some by (auto simp: live_users_def)
    have cnt: "refcnt ulp - 1 = int (card (live_users s ul - {t}))"
    proof -
      have "0 < card (live_users s ul)" using tl finite_live_users [OF inv] card_gt_0_iff by blast
      then show ?thesis using undos_inv_list(3) [OF un ulp] tl finite_live_users [OF inv] by (simp add: card_Diff_singleton of_nat_diff)
    qed
    have inv1: "sem_inv {} (\<lambda>_. 0) (if refcnt ?p = 0 then {ul} else {}) {} ?s"
    proof (rule users_change_inv [OF inv, where t = t])
      show "refcnt p = int (card (live_users ?s ul')) \<and> (ul' \<notin> (if refcnt ?p = 0 then {ul} else {}) \<longrightarrow> refcnt p > 0)"
        if "ulists ?s ul' = Some p" for ul' p
      proof (cases "ul' = ul")
        case True
        define n where "n = card (live_users ?s ul')"
        have "refcnt p = refcnt ulp - 1" using that True by auto
        moreover have "refcnt ulp - 1 = int n" using cnt lu' [of ul'] True by (simp add: n_def)
        ultimately show ?thesis unfolding n_def [symmetric] using True by simp
      next
        case False
        then show ?thesis using that lu' [of ul'] undos_inv_list(3,4) [OF un, of ul' p] by simp
      qed
    qed (use t ulp in \<open>auto simp: f\<close>)
    show ?thesis
    proof (cases "refcnt ?p = 0")
      case False
      then show ?thesis using inv1 Some ulp by (simp add: exit_sem_def f Let_def)
    next
      case True
      then have "\<exists>s' ulp'. exit_loop pid ul (proc_list ulp) ?s = Some s' \<and> sem_inv {} (\<lambda>_. 0) {ul} {} s' \<and> ulists s' ul = Some ulp' \<and>
          proc_list ulp' = [] \<and> refcnt ulp' = 0"
        using inv1 by (intro exit_loop_inv [where ulp = ?p]) auto
      then obtain s' ulp' where s': "exit_loop pid ul (proc_list ulp) ?s = Some s'" "sem_inv {} (\<lambda>_. 0) {ul} {} s'"
        "ulists s' ul = Some ulp'" "proc_list ulp' = []" "refcnt ulp' = 0" by blast
      then show ?thesis using free_ulist_inv [OF s'(2-5)] True Some ulp by (simp add: exit_sem_def f Let_def)
    qed
  qed
qed

section \<open>Only \<^verbatim>\<open>sysctl\<close> changes the limits\<close>

definition ctls :: "semsys \<Rightarrow> int list" where
  "ctls s = [sc_semmsl s, sc_semmns s, sc_semopm s, sc_semmni s]"

named_theorems ctls_keep \<open>operations that keep the limits\<close>

lemma ctls_update [simp]:
  "ctls (s\<lparr>sem_ids := a\<rparr>) = ctls s" "ctls (s\<lparr>used_sems := b\<rparr>) = ctls s" "ctls (s\<lparr>smas := c\<rparr>) = ctls s" "ctls (s\<lparr>undos := d\<rparr>) = ctls s"
  "ctls (s\<lparr>ulists := e\<rparr>) = ctls s" "ctls (s\<lparr>tasks := f\<rparr>) = ctls s" "ctls (s\<lparr>seconds := g\<rparr>) = ctls s"
  by (simp_all add: ctls_def)

lemma ctls_set [simp]:
  "ctls (set_sma a sma s) = ctls s" "ctls (set_undo u x s) = ctls s" "ctls (set_task t tsk s) = ctls s" "ctls (set_queue t q s) = ctls s"
  "ctls (set_status t r s) = ctls s" "ctls (wake_up_process t s) = ctls s" "ctls (write_adj un adj s) = ctls s"
  "ctls (resume_to t out s) = ctls s" "ctls (running t s) = ctls s" "ctls (dying t s) = ctls s" "ctls (rcu_free s) = ctls s"
  by (simp_all add: set_sma_def set_undo_def set_task_def set_queue_def set_status_def wake_up_process_def write_adj_def
      resume_to_def running_def dying_def rcu_free_def split: option.split)

lemma ctls_ref [ctls_keep]:
  "ipc_rcu_getref a s = Some s' \<Longrightarrow> ctls s' = ctls s" "ipc_rcu_putref a s = Some s' \<Longrightarrow> ctls s' = ctls s"
  by (auto simp: ipc_rcu_getref_def ipc_rcu_putref_def bind_Some_iff)

lemma ctls_queue [ctls_keep]:
  "append_to_queue a t s = Some s' \<Longrightarrow> ctls s' = ctls s" "prepend_to_queue a t s = Some s' \<Longrightarrow> ctls s' = ctls s"
  "remove_from_queue a t s = Some s' \<Longrightarrow> ctls s' = ctls s"
  "try_atomic_semop a ops un pid s = Some (r, s') \<Longrightarrow> ctls s' = ctls s"
  by (auto simp: append_to_queue_def prepend_to_queue_def remove_from_queue_def try_atomic_semop_def bind_Some_iff Let_def split: if_splits)

lemma ctls_update_loop: "update_loop a ts s = Some s' \<Longrightarrow> ctls s' = ctls s"
  by (induction a ts s rule: update_loop.induct)
    (auto simp: Let_def finish_entry_def bind_Some_iff dest!: ctls_keep split: option.splits if_splits)

lemma ctls_update_queue [ctls_keep]: "update_queue a s = Some s' \<Longrightarrow> ctls s' = ctls s"
  by (auto simp: update_queue_def bind_Some_iff dest: ctls_update_loop)

lemma ctls_newary [ctls_keep]: "newary t k nsems semflg mem got s = Some (r, s') \<Longrightarrow> ctls s' = ctls s"
  by (auto simp: newary_def bind_Some_iff Let_def dest!: ctls_keep split: if_splits option.splits)

lemma ctls_semget [ctls_keep]: "sys_semget t k nsems semflg mem got s = Some (r, s') \<Longrightarrow> ctls s' = ctls s"
  by (auto simp: sys_semget_def bind_Some_iff dest!: ctls_keep split: if_splits)

lemma ctls_loops [ctls_keep]:
  "invalidate_undos us s = Some s' \<Longrightarrow> ctls s' = ctls s" "clear_adj n us s = Some s' \<Longrightarrow> ctls s' = ctls s"
  "clear_all_adj n us s = Some s' \<Longrightarrow> ctls s' = ctls s"
  by (induction us arbitrary: s) (auto simp: bind_Some_iff split: if_splits)

lemma ctls_wake_all [simp]: "ctls (wake_all ts s) = ctls s"
  by (induction ts arbitrary: s) (simp_all add: Let_def)

lemma ctls_freeary [ctls_keep]: "freeary a i s = Some s' \<Longrightarrow> ctls s' = ctls s"
  by (auto simp: freeary_def bind_Some_iff Let_def dest!: ctls_keep)

lemma ctls_setval [ctls_keep]: "semctl_setval t a n v s = Some (r, s') \<Longrightarrow> ctls s' = ctls s"
  by (auto simp: semctl_setval_def bind_Some_iff Let_def dest!: ctls_keep split: if_splits)

lemma ctls_main [ctls_keep]:
  assumes "semctl_main t i semnum cmd arg s = Some (r, s')"
  shows "ctls s' = ctls s"
proof (cases "sem_lock i s = Some None")
  case False
  then obtain a sma where a: "sem_lock i s = Some (Some a)" "smas s a = Some sma"
    using assms by (auto simp: semctl_main_def bind_Some_iff split: option.splits)
  show ?thesis using assms unfolding semctl_main_def a Let_def option.case bind.simps
    by (simp only: bind_Some_iff option.distinct split: if_split_asm) (auto dest!: ctls_keep)
qed (use assms in \<open>simp add: semctl_main_def\<close>)

lemma ctls_down [ctls_keep]: "semctl_down t i cmd arg s = Some (r, s') \<Longrightarrow> ctls s' = ctls s"
  by (auto simp: semctl_down_def bind_Some_iff Let_def dest!: ctls_keep split: if_splits option.splits)

lemma ctls_semctl [ctls_keep]: "sys_semctl t i semnum cmd arg s = Some (r, s') \<Longrightarrow> ctls s' = ctls s"
  by (auto simp: sys_semctl_def bind_Some_iff simp del: insert_iff dest!: ctls_keep split: if_splits)

lemma ctls_finish [ctls_keep]:
  "getall_finish a nsems got arg s = Some (r, s') \<Longrightarrow> ctls s' = ctls s" "setall_finish a nsems got arg s = Some (r, s') \<Longrightarrow> ctls s' = ctls s"
  by (auto simp: getall_finish_def setall_finish_def bind_Some_iff Let_def dest!: ctls_keep split: if_splits option.splits)

lemma ctls_undo_list: "get_undo_list t mem s = (r, s') \<Longrightarrow> ctls s' = ctls s"
  by (auto simp: get_undo_list_def Let_def split: option.splits)

lemma ctls_lookup [ctls_keep]: "lookup_undo ul i s = Some (r, s') \<Longrightarrow> ctls s' = ctls s"
  by (auto simp: lookup_undo_def bind_Some_iff)

lemma ctls_find_undo [ctls_keep]: "find_undo t i mem s = Some (r, s') \<Longrightarrow> ctls s' = ctls s"
  by (auto simp: find_undo_def bind_Some_iff dest!: ctls_keep ctls_undo_list split: prod.splits sum.splits if_splits option.splits)

lemma ctls_find_undo_finish [ctls_keep]: "find_undo_finish t i a nsems mem s = Some (r, s') \<Longrightarrow> ctls s' = ctls s"
  by (auto simp: find_undo_finish_def bind_Some_iff Let_def dest!: ctls_keep split: if_splits option.splits)

lemma ctls_locked [ctls_keep]: "semop_locked t i ops tm un s = Some (r, s') \<Longrightarrow> ctls s' = ctls s"
  by (auto simp: semop_locked_def bind_Some_iff Let_def dest!: ctls_keep split: if_splits option.splits)

lemma ctls_semop [ctls_keep]:
  "semop_undos t i ops tm mem s = Some (r, s') \<Longrightarrow> ctls s' = ctls s"
  "semop_undo_alloc t i ops tm a nsems mem s = Some (r, s') \<Longrightarrow> ctls s' = ctls s"
proof -
  have "find_undo t i mem s \<bind> (\<lambda>(x, s). case x of Found u \<Rightarrow> semop_locked t i ops tm (Some u) s | Failed error \<Rightarrow> Some (ret error, s)
      | Allocate a nsems \<Rightarrow> Some (Block (In_undo_alloc i ops tm a nsems), s)) = Some (r, s') \<Longrightarrow> ctls s' = ctls s"
    by (cases "find_undo t i mem s"; cases "fst (the (find_undo t i mem s))") (auto dest!: ctls_keep)
  then show "semop_undos t i ops tm mem s = Some (r, s') \<Longrightarrow> ctls s' = ctls s"
    by (auto simp: semop_undos_def dest!: ctls_keep split: if_splits)
  show "semop_undo_alloc t i ops tm a nsems mem s = Some (r, s') \<Longrightarrow> ctls s' = ctls s"
    by (cases "find_undo_finish t i a nsems mem s"; cases "fst (the (find_undo_finish t i a nsems mem s))")
      (auto simp: semop_undo_alloc_def dest!: ctls_keep)
qed

lemma ctls_semtimedop [ctls_keep]: "sys_semtimedop t i user_ops nsops timeout got mem s = Some (r, s') \<Longrightarrow> ctls s' = ctls s"
  by (auto simp: sys_semtimedop_def dest!: ctls_keep split: if_splits option.splits)

lemma ctls_wake [ctls_keep]: "semop_wake t tm expired s = Some (r, s') \<Longrightarrow> ctls s' = ctls s"
  by (auto simp: semop_wake_def bind_Some_iff Let_def dest!: ctls_keep split: if_splits option.splits)

lemma ctls_clone [ctls_keep]: "copy_semundo t flags tsk mem s = Some (r, s') \<Longrightarrow> ctls s' = ctls s"
  by (auto simp: copy_semundo_def bind_Some_iff Let_def dest!: ctls_undo_list split: if_splits option.splits sum.splits prod.splits)

lemma ctls_exit_undo [ctls_keep]: "exit_undo pid u s = Some s' \<Longrightarrow> ctls s' = ctls s"
  by (auto simp: exit_undo_def bind_Some_iff Let_def dest!: ctls_keep split: if_splits option.splits)

lemma ctls_exit_loop [ctls_keep]: "exit_loop pid ul us s = Some s' \<Longrightarrow> ctls s' = ctls s"
  by (induction us arbitrary: s) (force simp: bind_Some_iff dest!: ctls_keep)+

lemma ctls_exit [ctls_keep]: "exit_sem pid t s = Some s' \<Longrightarrow> ctls s' = ctls s"
  by (auto simp: exit_sem_def bind_Some_iff Let_def dest!: ctls_keep split: if_splits option.splits)

lemma sem_step_ctls:
  assumes "sem_step s s'" "ctls_ok s"
  shows "ctls_ok s'"
proof -
  have "ctls s' = ctls s \<or> ctls_ok s'"
    using assms(1) by cases (auto dest!: ctls_keep)
  then show ?thesis using assms(2) by (auto simp: ctls_ok_def ctls_def)
qed

text \<open>A \<^verbatim>\<open>semget\<close> that reads no mapped pointer behind the table changes nothing if it returns.\<close>

lemma semget_unmapped:
  assumes "unmapped_behind (sem_ids s) (sc_semmni s) got" "sys_semget t k nsems semflg mem got s = Some (r, s')"
  shows "s' = s"
proof -
  have "ipc_addid (sem_ids s) a perm cur (sc_semmni s) got = None" for a perm cur
    using grow_ary_crash(1) [OF assms(1)] by (simp add: ipc_addid_def)
  then have "newary t k nsems semflg mem got s = Some (r', s'') \<Longrightarrow> s'' = s" for r' s''
    by (auto simp: newary_def set_sma_def Let_def split: if_splits option.splits)
  then show ?thesis using assms(2) by (auto simp: sys_semget_def bind_Some_iff split: if_splits)
qed

section \<open>Every step keeps the invariant\<close>

lemma outside_inv:
  assumes "sem_inv X R D E s" "sem_ids s' = sem_ids s" "smas s' = smas s" "undos s' = undos s" "ulists s' = ulists s" "tasks s' = tasks s"
  shows "sem_inv X R D E s'"
proof (rule task_change_inv [OF assms(1)])
  show "undos_inv D E s'"
    using assms(1) unfolding sem_inv_def undos_inv_def sits_def live_users_def assms(2-6) by blast
qed (use assms in \<open>auto simp: sem_inv_def refs_inv_def\<close>)

lemma retry_inv:
  assumes inv: "sem_inv0 s" and t: "pc (tasks s t) = In_retry i ops tm" and fr: "fresh mem (ulists s)"
  shows "\<exists>r s'. semop_undos t i ops tm mem (running t s) = Some (r, s') \<and> sem_inv0 (resume_to t r s')"
proof -
  have "0 \<le> i" using inv t unfolding sem_inv_def pcs_inv_def by blast
  moreover have "sem_inv {} (moved (\<lambda>_. 0) (pc (tasks s t)) Idle) {} {} (set_pc t Idle s)"
    using inv t by (intro set_pc_inv) (auto simp: pc_ok_def)
  moreover have "moved (\<lambda>_. 0) (pc (tasks s t)) Idle = (\<lambda>_. 0)" using t by (auto simp: moved_def)
  ultimately have "sem_inv0 (running t s)" "0 \<le> i" by (simp_all add: running_def)
  then show ?thesis using fr semop_undos_inv [of "running t s" t mem i ops tm] by (auto simp: running_def set_task_def)
qed

lemma sem_step_inv: "sem_step s s' \<Longrightarrow> sem_inv0 s \<Longrightarrow> ctls_ok s \<Longrightarrow> sem_inv0 s'"
proof (induction rule: sem_step.induct)
  case (semget s t mem k nsems semflg got r s')
  then show ?case using sys_semget_inv [of s t mem got k nsems semflg] semget_unmapped [of s got t k nsems semflg mem r s'] by auto
next
  case (semctl s t i semnum cmd arg r s')
  then show ?case using sys_semctl_inv [of s t i semnum cmd arg] by auto
next
  case (getall s t a nsems got arg r s')
  then show ?case using getall_finish_inv [of s t a nsems got arg] by auto
next
  case (setall s t a nsems got arg r s')
  then show ?case using setall_finish_inv [of s t a nsems got arg] by auto
next
  case (semop s t mem i user_ops nsops timeout got r s')
  then show ?case using sys_semtimedop_inv [of s t mem i user_ops nsops timeout got] by auto
next
  case (retry s t i ops timeout' mem r s')
  then show ?case using retry_inv [of s t i ops timeout' mem] by auto
next
  case (undo_alloc s t i ops timeout' a nsems mem r s')
  then show ?case using semop_undo_alloc_inv [of s t i ops timeout' a nsems mem] by auto
next
  case (wake s t timeout' expired r s')
  then show ?case using semop_wake_inv [of s t timeout' expired] by auto
next
  case (clone s t tsk mem flags r s')
  then show ?case using clone_inv [of s t tsk mem flags] by auto
next
  case (exit s t s')
  then show ?case using exit_sem_inv [of s t "tgid (tasks s t)"] by auto
next
  case (grace s)
  from grace(1) show ?case by (rule rcu_free_inv)
qed (rule outside_inv; simp)+

lemma sem_start_inv: "sem_start s \<Longrightarrow> sem_inv0 s"
proof -
  assume st: "sem_start s"
  then have ids: "sem_ids s = ipc_init_ids (sc_semmni s) True" by (simp add: sem_start_def)
  have na: "\<not> at_nullentry (sem_ids s)" unfolding ids by (simp add: ipc_init_ids_def Let_def)
  have sl: "slot (sem_ids s) l = None" for l unfolding ids by (auto simp: slot_def ipc_init_ids_def Let_def)
  have pc: "pc (tasks s t) \<in> {Idle, Dead}" for t using st by (simp add: sem_start_def)
  have "held (pc (tasks s t)) = None" for t using pc [of t] by auto
  then have "slots_inv s \<and> refs_inv (\<lambda>_. 0) s \<and> pcs_inv s \<and> arrays_inv {} s \<and> sleepers_inv s \<and> undos_inv {} {} s"
    using st sl pc na ipc_init_ids_ok [of "sc_semmni s" True]
    by (simp add: slots_inv_def refs_inv_def pcs_inv_def arrays_inv_def sleepers_inv_def undos_inv_def sits_def sem_start_def ids)
      (metis insert_iff sem_pc.distinct singletonD)
  then show ?thesis by (simp add: sem_inv_def)
qed

interpretation sem_sys: invariant_system sem_start sem_step "\<lambda>s. sem_inv0 s \<and> ctls_ok s"
  by unfold_locales (auto simp: sem_start_def intro: sem_start_inv sem_step_inv sem_step_ctls)

lemma sem_reach: "sem_start s0 \<Longrightarrow> sem_step\<^sup>*\<^sup>* s0 s \<Longrightarrow> sem_inv0 s" "sem_start s0 \<Longrightarrow> sem_step\<^sup>*\<^sup>* s0 s \<Longrightarrow> ctls_ok s"
  using sem_sys.reach_inv by blast+

section \<open>Properties\<close>

text \<open>
  Two tasks that may call \<^verbatim>\<open>semop\<close>; task 1 creates a set with one semaphore, which gets the
  identifier 0, and task 2 sleeps on it.
\<close>

definition sem_demo0 :: semsys where
  "sem_demo0 = \<lparr>sem_ids = ipc_init_ids 4 True, used_sems = 0, smas = (\<lambda>_. None), undos = (\<lambda>_. None), ulists = (\<lambda>_. None),
     tasks = (\<lambda>t. \<lparr>tgid = int t, task_cred = \<lparr>euid = 0, egid = 0, in_group_p = (\<lambda>_. False), cap_ipc_owner = False, cap_sys_admin = False\<rparr>,
       undo_list = None, tsk_state = TASK_RUNNING,
       queue = \<lparr>linked = False, undo = None, q_pid = 0, status = 0, q_sma = 0, q_id = 0, sops = [], alter = False\<rparr>,
       pc = (if t = 1 \<or> t = 2 then Idle else Dead)\<rparr>),
     seconds = 0, sc_semmsl = 250, sc_semmns = 32000, sc_semopm = 32, sc_semmni = 4\<rparr>"

definition sem_demo_op :: sembuf where
  "sem_demo_op = \<lparr>sem_num = 0, sem_op = -1, sem_flg = 0\<rparr>"

definition sem_demo1 :: semsys where
  "sem_demo1 = snd (the (sys_semget 1 77 1 0x380 (Some 9) None sem_demo0))"

definition sem_demo2 :: semsys where
  "sem_demo2 = (case the (sys_semtimedop 2 0 (Some (\<lambda>_. sem_demo_op)) 1 None True None sem_demo1) of (r, s) \<Rightarrow> resume_to 2 r s)"

lemma sem_demo_reach: "sem_start sem_demo0" "sem_step\<^sup>*\<^sup>* sem_demo0 sem_demo2"
proof -
  have "{t. t = Suc 0 \<or> t = 2} = {1, 2 :: nat}" by auto
  then show "sem_start sem_demo0" by (auto simp: sem_start_def sem_demo0_def ctls_ok_def)
  have "Option.is_none (sys_semget 1 77 1 0x380 (Some 9) None sem_demo0) = False" by code_simp
  then obtain r where "sys_semget 1 77 1 0x380 (Some 9) None sem_demo0 = Some (r, sem_demo1)"
    by (cases "sys_semget 1 77 1 0x380 (Some 9) None sem_demo0") (auto simp: sem_demo1_def)
  then have 1: "sem_step sem_demo0 sem_demo1"
    by (rule sem_step.semget [rotated 2]) (simp_all add: sem_demo0_def fresh_def)
  have "Option.is_none (sys_semtimedop 2 0 (Some (\<lambda>_. sem_demo_op)) 1 None True None sem_demo1) = False" by code_simp
  then obtain r s where "sys_semtimedop 2 0 (Some (\<lambda>_. sem_demo_op)) 1 None True None sem_demo1 = Some (r, s)" "sem_demo2 = resume_to 2 r s"
    by (cases "sys_semtimedop 2 0 (Some (\<lambda>_. sem_demo_op)) 1 None True None sem_demo1") (auto simp: sem_demo2_def)
  moreover have "pc (tasks sem_demo1 2) = Idle" by code_simp
  ultimately have "sem_step sem_demo1 sem_demo2"
    by (metis sem_step.semop fresh_def option.case(1))
  with 1 show "sem_step\<^sup>*\<^sup>* sem_demo0 sem_demo2" by auto
qed

lemma sem_demo_asleep: "pc (tasks sem_demo2 2) = Asleep False" "status (queue (tasks sem_demo2 2)) = - EINTR"
  "slot (sem_ids sem_demo2) 0 = Some 9"
  by code_simp+

text \<open>A set whose size overflows an \<^verbatim>\<open>int\<close>.\<close>

lemma newary_short:
  "\<exists>r s' sma. sys_semget 1 IPC_PRIVATE 536870913 0x180 (Some 9) None (sem_demo0\<lparr>sc_semmsl := 536870913, sc_semmns := 536870913\<rparr>) = Some (r, s') \<and>
     0 \<le> r \<and> slot (sem_ids s') 0 = Some 9 \<and> smas s' 9 = Some sma \<and> sem_nsems sma = 536870913 \<and> length (sem_base sma) = 1"
proof -
  have sz: "newary_size 536870913 = 112" "to_int 536870913 = 536870913" by (simp_all add: newary_size_def to_int_def)
  have "\<exists>ids' p'. ipc_addid (ipc_init_ids 4 True) 9 p c 4 None = Some (0, ids', p') \<and> slot ids' 0 = Some 9 \<and> seq p' = 0" for p c
    by (simp add: ipc_addid_def grow_ary_def ipc_init_ids_def eval_nat_numeral Let_def slot_def)
  then obtain ids' p' where "ipc_addid (ipc_init_ids 4 True) 9
        \<lparr>deleted = False, key = 0, uid = 0, gid = 0, cuid = 0, cgid = 0, mode = 0x180 AND S_IRWXUGO, seq = 0\<rparr> (task_cred (tasks sem_demo0 1)) 4 None = Some (0, ids', p')"
      "slot ids' 0 = Some 9" "seq p' = 0" by blast
  then show ?thesis
    by (simp add: sys_semget_def newary_def sz sem_demo0_def Let_def set_sma_def ipc_buildid_def)
qed

text \<open>
  What a call would crash on: a null or freed pointer, an index outside an array, a \<^verbatim>\<open>BUG\<close>. There is one case for each sleeping point.
  The one crash that can happen is not counted: \<open>unmapped_behind\<close>, the pointer that \<^verbatim>\<open>grow_ary\<close> reads behind the old table of identifiers, when
  this address is not mapped.
\<close>

inductive sem_oops :: "semsys \<Rightarrow> bool" where
  "pc (tasks s t) = Idle \<Longrightarrow> fresh mem (smas s) \<Longrightarrow> \<not> unmapped_behind (sem_ids s) (sc_semmni s) got \<Longrightarrow>
     sys_semget t k nsems semflg mem got s = None \<Longrightarrow> sem_oops s"
| "pc (tasks s t) = Idle \<Longrightarrow> sys_semctl t i semnum cmd arg s = None \<Longrightarrow> sem_oops s"
| "pc (tasks s t) = In_getall a n \<Longrightarrow> getall_finish a n got arg (running t s) = None \<Longrightarrow> sem_oops s"
| "pc (tasks s t) = In_setall a n \<Longrightarrow> setall_finish a n got arg (running t s) = None \<Longrightarrow> sem_oops s"
| "pc (tasks s t) = Idle \<Longrightarrow> fresh mem (ulists s) \<Longrightarrow>
     sys_semtimedop t i user_ops nsops timeout got mem s = None \<Longrightarrow> sem_oops s"
| "pc (tasks s t) = In_retry i ops tm \<Longrightarrow> fresh mem (ulists s) \<Longrightarrow>
     semop_undos t i ops tm mem (running t s) = None \<Longrightarrow> sem_oops s"
| "pc (tasks s t) = In_undo_alloc i ops tm a n \<Longrightarrow> fresh mem (undos s) \<Longrightarrow>
     semop_undo_alloc t i ops tm a n mem (running t s) = None \<Longrightarrow> sem_oops s"
| "pc (tasks s t) = Asleep tm \<Longrightarrow> semop_wake t tm expired s = None \<Longrightarrow> sem_oops s"
| "pc (tasks s t) = Idle \<Longrightarrow> pc (tasks s tsk) = Dead \<Longrightarrow> fresh mem (ulists s) \<Longrightarrow>
     copy_semundo t flags tsk mem s = None \<Longrightarrow> sem_oops s"
| "pc (tasks s t) = Idle \<Longrightarrow> exit_sem (tgid (tasks s t)) t (dying t s) = None \<Longrightarrow> sem_oops s"

text \<open>
  C1: However the calls of any number of tasks interleave at their sleeping points, with any
  arguments, failing allocations and ends of RCU grace periods, no call of \<^verbatim>\<open>ipc/sem.c\<close> follows a null
  or freed pointer, leaves the bounds of an array, meets a \<^verbatim>\<open>BUG\<close> or spins in the wake-up loop, with one exception: when \<^verbatim>\<open>semget\<close> lets
  \<^verbatim>\<open>grow_ary\<close> enlarge the table of identifiers, it reads one pointer behind the old table. What it reads there has no effect, but it crashes if the address is not mapped.
  The claim is about systems whose table could be allocated at boot and whose limits stay in the range of \<open>ctls_ok\<close>: a set of \<^verbatim>\<open>sc_semmsl\<close> semaphores has a size that is an \<^verbatim>\<open>int\<close>, which
  all documented values meet.
\<close>

theorem sem_no_oops:
  assumes "sem_start s0" and "sem_step\<^sup>*\<^sup>* s0 s"
  shows "\<not> sem_oops s"
proof
  have inv: "sem_inv0 s" using assms by (rule sem_reach(1))
  assume "sem_oops s"
  then show False using inv
  proof cases
    case 1
    then show ?thesis using sys_semget_inv [OF inv 1(1,2) sem_reach(2) [OF assms] 1(3)] by (metis option.distinct(1))
  next
    case 2
    then show ?thesis using sys_semctl_inv [OF inv 2(1)] by (metis option.distinct(1))
  next
    case 3
    then show ?thesis using getall_finish_inv [OF inv 3(1)] by (metis option.distinct(1))
  next
    case 4
    then show ?thesis using setall_finish_inv [OF inv 4(1)] by (metis option.distinct(1))
  next
    case 5
    then show ?thesis using sys_semtimedop_inv [OF inv 5(1,2)] by (metis option.distinct(1))
  next
    case 6
    then show ?thesis using retry_inv [OF inv 6(1,2)] by (metis option.distinct(1))
  next
    case 7
    then show ?thesis using semop_undo_alloc_inv [OF inv 7(1,2)] by (metis option.distinct(1))
  next
    case 8
    then show ?thesis using semop_wake_inv [OF inv 8(1)] by (metis option.distinct(1))
  next
    case 9
    then show ?thesis using clone_inv [OF inv 9(1-3)] by (metis option.distinct(1))
  next
    case 10
    then show ?thesis using exit_sem_inv [OF inv 10(1)] by (metis option.distinct(1))
  qed
qed

theorem sem_no_oops_witness: "pc (tasks sem_demo2 2) = Asleep False \<and> \<not> sem_oops sem_demo2"
  using sem_no_oops [OF sem_demo_reach] sem_demo_asleep(1) by simp

text \<open>
  C22: In every reachable state each used index of the identifier table holds an allocated set
  that has not been removed, has memory for as many semaphores as \<^verbatim>\<open>sem_nsems\<close> says, and every value is between 0
  and \<^verbatim>\<open>SEMVMX\<close>. The steps of the system set only limits in the range of \<open>ctls_ok\<close>, and this is needed: with a limit of 536870913 semaphores per set, which \<^verbatim>\<open>sysctl\<close> accepts, the size
  of a set of as many semaphores overflows an \<^verbatim>\<open>int\<close>, and \<^verbatim>\<open>semget\<close> makes a set that has memory for one of them.
\<close>

theorem sem_values_in_range:
  assumes "sem_start s0" and "sem_step\<^sup>*\<^sup>* s0 s" and "slot (sem_ids s) l = Some a"
  shows "(\<exists>sma. smas s a = Some sma \<and> \<not> deleted (sem_perm sma) \<and> length (sem_base sma) = sem_nsems sma \<and>
      list_all (\<lambda>sm. 0 \<le> semval sm \<and> semval sm \<le> SEMVMX) (sem_base sma)) \<and>
    (\<exists>r s' sma. sys_semget 1 IPC_PRIVATE 536870913 0x180 (Some 9) None (sem_demo0\<lparr>sc_semmsl := 536870913, sc_semmns := 536870913\<rparr>) = Some (r, s') \<and>
      0 \<le> r \<and> slot (sem_ids s') 0 = Some 9 \<and> smas s' 9 = Some sma \<and> sem_nsems sma = 536870913 \<and> length (sem_base sma) = 1)"
proof
  have inv: "sem_inv0 s" using assms(1,2) by (rule sem_reach(1))
  then obtain sma where a: "sits s l a sma" "\<not> deleted (sem_perm sma)"
    using assms(3) by (auto simp: sem_inv_def slots_inv_def sits_def)
  note ai = sits_array_inv [OF inv a(1)]
  then show "\<exists>sma. smas s a = Some sma \<and> \<not> deleted (sem_perm sma) \<and> length (sem_base sma) = sem_nsems sma \<and>
      list_all (\<lambda>sm. 0 \<le> semval sm \<and> semval sm \<le> SEMVMX) (sem_base sma)"
    using a array_inv_len [OF ai a(1)] by (auto simp: sits_def array_inv_def sems_ok_def list_all_iff)
qed (rule newary_short)

theorem sem_values_in_range_witness:
  "slot (sem_ids sem_demo2) 0 = Some 9 \<and>
   (\<exists>sma. smas sem_demo2 9 = Some sma \<and> list_all (\<lambda>sm. 0 \<le> semval sm \<and> semval sm \<le> SEMVMX) (sem_base sma))"
  using sem_values_in_range [OF sem_demo_reach sem_demo_asleep(3)] sem_demo_asleep(3) by blast

text \<open>
  C2: No wake-up is lost. In every reachable state a task that sleeps in \<^verbatim>\<open>semop\<close> and has not been
  given a result is queued on an existing set, and its operations still cannot be done: trying
  them would report again that the task has to wait, and change nothing.
\<close>

theorem sem_no_lost_wakeup:
  assumes "sem_start s0" and "sem_step\<^sup>*\<^sup>* s0 s" and "pc (tasks s t) = Asleep tm" and "status (queue (tasks s t)) = - EINTR"
  shows "\<exists>l a sma adj. slot (sem_ids s) l = Some a \<and> smas s a = Some sma \<and> t \<in> set (sem_pending sma) \<and>
    read_adj (undo (queue (tasks s t))) s = Some adj \<and>
    try_atomic (sem_base sma) (sops (queue (tasks s t))) adj pid = Some (1, sem_base sma, adj)"
proof -
  have inv: "sem_inv0 s" using assms(1,2) by (rule sem_reach(1))
  then obtain l a sma where a: "sits s l a sma" "t \<in> set (sem_pending sma)"
    using assms(3,4) unfolding sem_inv_def sleepers_inv_def by blast
  then have "entry_blocked s a t" using sits_array_inv [OF inv a(1)] unfolding array_inv_def by blast
  then show ?thesis using a blocked_iff unfolding entry_blocked_def sits_def by fastforce
qed

theorem sem_no_lost_wakeup_witness:
  "\<exists>l a sma adj. slot (sem_ids sem_demo2) l = Some a \<and> smas sem_demo2 a = Some sma \<and> 2 \<in> set (sem_pending sma) \<and>
    read_adj (undo (queue (tasks sem_demo2 2))) sem_demo2 = Some adj \<and>
    try_atomic (sem_base sma) (sops (queue (tasks sem_demo2 2))) adj 2 = Some (1, sem_base sma, adj)"
  using sem_no_lost_wakeup [OF sem_demo_reach sem_demo_asleep(1,2)] .

text \<open>
  C10: \<^verbatim>\<open>semop\<close> is atomic. A sequence that is not done, because it has to wait, may not wait or would
  leave the range, changes nothing at all; one that is done adds to every semaphore exactly the
  sum of its operations on it, and no value leaves the range.
\<close>

theorem try_atomic_semop_atomic:
  assumes "try_atomic_semop a ops un pid s = Some (r, s')" and "smas s a = Some sma"
  shows "if r = 0
    then \<exists>sma'. smas s' a = Some sma' \<and> (sems_ok (sem_base sma) \<longrightarrow> sems_ok (sem_base sma')) \<and>
      map semval (sem_base sma') = map (\<lambda>n. semval (sem_base sma ! n) + delta ops n) [0..<length (sem_base sma)]
    else s' = s \<and> r \<in> {1, - EAGAIN, - ERANGE}"
proof (cases "r = 0")
  case False
  obtain adj base adj' where "try_atomic (sem_base sma) ops adj pid = Some (r, base, adj')"
    using assms by (auto simp: try_atomic_semop_def bind_Some_iff)
  then show ?thesis using try_atomic_semop_fail [OF assms(1) False] try_atomic_fail(3) False by simp
next
  case True
  obtain adj base adj' where ta: "try_atomic (sem_base sma) ops adj pid = Some (0, base, adj')"
    "s' = set_sma a (sma\<lparr>sem_base := base, sem_otime := seconds s\<rparr>) (write_adj un adj' s)"
    using assms True by (auto simp: try_atomic_semop_def bind_Some_iff Let_def)
  have "map semval base = map (\<lambda>n. semval (sem_base sma ! n) + delta ops n) [0..<length (sem_base sma)]"
    using try_atomic_vals [OF ta(1)] try_atomic_length [OF ta(1)] by (intro nth_equalityI) auto
  then show ?thesis using True ta try_atomic_sems_ok [OF ta(1)] by (auto simp: set_sma_def)
qed

theorem try_atomic_semop_atomic_witness:
  "try_atomic_semop 9 [sem_demo_op] None 1 sem_demo2 = Some (1, sem_demo2)"
proof -
  have "Option.is_none (smas sem_demo2 9) = False" by code_simp
  then obtain sma where s: "smas sem_demo2 9 = Some sma" by (auto simp: Option.is_none_def)
  have "map_option fst (try_atomic_semop 9 [sem_demo_op] None 1 sem_demo2) = Some 1" by code_simp
  then obtain s' where t: "try_atomic_semop 9 [sem_demo_op] None 1 sem_demo2 = Some (1, s')" by auto
  show ?thesis using try_atomic_semop_atomic [OF t s] t by simp
qed


text \<open>
  C23: \<^verbatim>\<open>update_queue\<close> ends, whatever the queue of the set holds, and stops only when no waiting task can
  proceed: the sequence of every task that it leaves in the queue would still block.
\<close>

theorem update_queue_ends:
  assumes "array_valid s a"
  shows "\<exists>s'. update_queue a s = Some s' \<and> (\<forall>t \<in> set (pending_of a s'). entry_blocked s' a t)"
proof -
  obtain s' W where "update_queue a s = Some s'" "queue_step a W s s'"
    "\<forall>t \<in> set (pending_of a s'). entry_blocked s' a t" using assms by (rule update_queue_spec)
  then show ?thesis by blast
qed

lemma sem_demo_array: "array_valid sem_demo2 9"
proof -
  have inv: "sem_inv0 sem_demo2" using sem_demo_reach by (rule sem_reach(1))
  then obtain sma where "sits sem_demo2 0 9 sma"
    using sem_demo_asleep(3) by (auto simp: sem_inv_def slots_inv_def sits_def)
  then show ?thesis using sits_array_inv [OF inv] unfolding array_inv_def by blast
qed

theorem update_queue_ends_witness: "\<exists>s'. update_queue 9 sem_demo2 = Some s'"
  using update_queue_ends [OF sem_demo_array] by blast

lemma sum_list_pos: "x \<in> set xs \<Longrightarrow> 0 < f x \<Longrightarrow> (\<And>y. 0 \<le> f y) \<Longrightarrow> 0 < sum_list (map f xs)" for f :: "'a \<Rightarrow> int"
proof (induction xs)
  case (Cons y xs)
  have "0 \<le> sum_list (map f xs)" using Cons.prems(3) by (intro sum_list_nonneg) auto
  then show ?case using Cons by (auto simp: add_pos_nonneg add_nonneg_pos)
qed simp

text \<open>
  C24: A queued task is counted. In every reachable state the sequence of a task in the queue of a
  set has an operation because of which the set's \<^verbatim>\<open>GETNCNT\<close> (it decreases the semaphore) or \<^verbatim>\<open>GETZCNT\<close>
  (it waits for zero) is positive for that semaphore.
\<close>

theorem sem_sleeper_counted:
  assumes "sem_start s0" and "sem_step\<^sup>*\<^sup>* s0 s" and "slot (sem_ids s) l = Some a" and "smas s a = Some sma"
    and "t \<in> set (sem_pending sma)"
  shows "\<exists>sop. sop \<in> set (sops (queue (tasks s t))) \<and>
    (if sem_op sop = 0 then count_semzcnt sma (sem_num sop) s > 0 else count_semncnt sma (sem_num sop) s > 0)"
proof -
  have inv: "sem_inv0 s" using assms(1,2) by (rule sem_reach(1))
  have a: "sits s l a sma" using assms by (simp add: sits_def)
  note ai = sits_array_inv [OF inv a]
  let ?ops = "sops (queue (tasks s t))"
  obtain adj where "blocked (sem_base sma) adj ?ops" "sems_ok (sem_base sma)"
    using ai assms(4,5) unfolding array_inv_def entry_blocked_def by auto
  then obtain ex rd b where l: "semop_loop adj [] ?ops (sem_base sma) = Some (ex, rd, b)"
    "try_atomic (sem_base sma) ?ops adj 0 = Some (1, sem_base sma, adj)"
    unfolding blocked_iff [of _ _ _ 0] by (cases "semop_loop adj [] ?ops (sem_base sma)") (auto simp: try_atomic_def)
  then obtain sop where ex: "ex = Would_block sop" "sem_flg sop AND IPC_NOWAIT = 0"
    by (cases ex) (auto simp: try_atomic_def split: if_splits)
  then have sop: "sop \<in> set ?ops" "sint (sem_op sop) \<le> 0" "sem_flg sop AND IPC_NOWAIT = 0"
    using semop_loop_block l(1) \<open>sems_ok (sem_base sma)\<close> by blast+
  let ?f = "\<lambda>P. \<lambda>t. count_ops P (sem_num sop) (sops (queue (tasks s t)))"
  have "0 < ?f P t" if "P (sint (sem_op sop))" for P
    using sop that by (auto simp: count_ops_def filter_empty_conv)
  then have *: "0 < sum_list (map (?f P) (sem_pending sma))" if "P (sint (sem_op sop))" for P
    using that by (intro sum_list_pos [OF assms(5)]) (auto simp: count_ops_def)
  have "sint (sem_op sop) = 0 \<longleftrightarrow> sem_op sop = 0" by (simp add: signed_eq_0_iff)
  then have "if sem_op sop = 0 then count_semzcnt sma (sem_num sop) s > 0 else count_semncnt sma (sem_num sop) s > 0"
    using * [of "\<lambda>x. x = 0"] * [of "\<lambda>x. x < 0"] sop(2) by (auto simp: count_semzcnt_def count_semncnt_def)
  then show ?thesis using sop(1) by blast
qed

theorem sem_sleeper_counted_witness:
  "\<exists>sma. smas sem_demo2 9 = Some sma \<and> count_semncnt sma 0 sem_demo2 > 0"
proof -
  have "map_option sem_pending (smas sem_demo2 9) = Some [2]" by code_simp
  then obtain sma where s: "smas sem_demo2 9 = Some sma" "2 \<in> set (sem_pending sma)" by auto
  have "sops (queue (tasks sem_demo2 2)) = [\<lparr>sem_num = 0, sem_op = -1, sem_flg = 0\<rparr>]" by code_simp
  then show ?thesis using sem_sleeper_counted [OF sem_demo_reach sem_demo_asleep(3) s] s(1) by auto
qed

lemma semop_loop_undo:
  "semop_loop adj rdone ops base = Some (Completed, rdone', base') \<Longrightarrow> sop \<in> set ops \<Longrightarrow> undo_out_of_range adj sop = Some False"
  by (induction adj rdone ops base rule: semop_loop.induct) (auto simp: Let_def split: if_splits option.splits bool.splits)

definition undo_ops :: "sembuf list \<Rightarrow> sembuf list" where
  "undo_ops ops = filter (\<lambda>sop. sem_flg sop AND SEM_UNDO \<noteq> 0) ops"

lemma filter_unat_once:
  "distinct (map f xs) \<Longrightarrow> filter (\<lambda>x. unat (f x) = n) xs = [] \<or> (\<exists>x \<in> set xs. filter (\<lambda>x. unat (f x) = n) xs = [x])"
proof (induction xs)
  case (Cons x xs)
  show ?case
  proof (cases "unat (f x) = n")
    case True
    then have "filter (\<lambda>x. unat (f x) = n) xs = []"
      using Cons.prems by (auto simp: filter_empty_conv) (metis image_eqI word_unat_eq_iff)
    then show ?thesis using True by simp
  qed (use Cons in auto)
qed simp

lemma sint_diff_exact:
  fixes a b :: u16
  assumes "- 32768 \<le> sint a - sint b" "sint a - sint b \<le> 32767"
  shows "sint (a - b) = sint a - sint b"
  using assms by (simp add: sint_word_ariths signed_take_bit_int_eq_self)

lemma undo_wraps:
  "try_atomic [\<lparr>semval = 0, sempid = 0\<rparr>]
     [\<lparr>sem_num = 0, sem_op = 32767, sem_flg = SEM_UNDO\<rparr>, \<lparr>sem_num = 0, sem_op = -32767, sem_flg = 0\<rparr>,
      \<lparr>sem_num = 0, sem_op = 32767, sem_flg = SEM_UNDO\<rparr>] (Some [0]) pid =
   Some (0, [\<lparr>semval = 32767, sempid = pid\<rparr>], Some [2])"
  by (simp add: try_atomic_def undo_out_of_range_def Let_def)

text \<open>
  C25: What \<^verbatim>\<open>SEM_UNDO\<close> records is exact. When a sequence with at most one \<^verbatim>\<open>SEM_UNDO\<close> operation on each
  semaphore is done, the adjustment of every semaphore decreases by exactly the sum of its
  \<^verbatim>\<open>SEM_UNDO\<close> operations, without leaving the range of its 16 bits. With two \<^verbatim>\<open>SEM_UNDO\<close> operations on one semaphore the range check, which looks at the
  unchanged \<^verbatim>\<open>semadj\<close> each time, lets the adjustment wrap: the sequence +32767 (undo), -32767, +32767 (undo) is done, raises the semaphore by
  32767 and records an adjustment of 2 instead of -65534.
\<close>

theorem sem_undo_exact:
  assumes "try_atomic base ops (Some adj) pid = Some (0, base', Some adj')"
    and "distinct (map sem_num (undo_ops ops))" and "n < length adj"
  shows "sint (adj' ! n) = sint (adj ! n) -
    sum_list (map (\<lambda>sop. sint (sem_op sop)) (filter (\<lambda>sop. unat (sem_num sop) = n) (undo_ops ops))) \<and>
    try_atomic [\<lparr>semval = 0, sempid = 0\<rparr>]
      [\<lparr>sem_num = 0, sem_op = 32767, sem_flg = SEM_UNDO\<rparr>, \<lparr>sem_num = 0, sem_op = -32767, sem_flg = 0\<rparr>,
       \<lparr>sem_num = 0, sem_op = 32767, sem_flg = SEM_UNDO\<rparr>] (Some [0]) pid =
      Some (0, [\<lparr>semval = 32767, sempid = pid\<rparr>], Some [2])"
proof -
  let ?l = "filter (\<lambda>sop. unat (sem_num sop) = n) (undo_ops ops)"
  have "adj' ! n = adj ! n - undo_delta ops n" using try_atomic_adj(2) [OF assms(1)] assms(3) by simp
  moreover have "undo_delta ops n = sum_list (map sem_op ?l)"
    by (simp add: undo_delta_def undo_ops_def conj_commute)
  moreover have "sint (adj ! n - sem_op sop) = sint (adj ! n) - sint (sem_op sop)" if "?l = [sop]" for sop
  proof -
    have "sop \<in> set ?l" using that by simp
    then have sop: "sop \<in> set ops" "sem_flg sop AND SEM_UNDO \<noteq> 0" "unat (sem_num sop) = n" by (auto simp: undo_ops_def)
    obtain b where "semop_loop (Some adj) [] ops base = Some (Completed, rev ops, b)"
      using try_atomic_done [OF assms(1)] .
    from semop_loop_undo [OF this sop(1)] show ?thesis
      using sop assms(3) by (intro sint_diff_exact) (auto simp: undo_out_of_range_def Let_def)
  qed
  ultimately show ?thesis using filter_unat_once [OF assms(2), of n] undo_wraps by auto
qed

theorem sem_undo_exact_witness:
  "\<exists>base'. try_atomic [\<lparr>semval = 5, sempid = 0\<rparr>] [\<lparr>sem_num = 0, sem_op = -3, sem_flg = SEM_UNDO\<rparr>] (Some [7]) 1 = Some (0, base', Some [10]) \<and>
     sint ([10 :: u16] ! 0) = sint ([7 :: u16] ! 0) - (-3)"
proof -
  let ?ops = "[\<lparr>sem_num = 0, sem_op = -3, sem_flg = SEM_UNDO\<rparr>]"
  have t: "try_atomic [\<lparr>semval = 5, sempid = 0\<rparr>] ?ops (Some [7]) 1 = Some (0, [\<lparr>semval = 2, sempid = 1\<rparr>], Some [10])"
    by code_simp
  show ?thesis using sem_undo_exact [OF t, of 0] t by (simp add: undo_ops_def)
qed

text \<open>
  C26: Identifiers round-trip. The identifier built for a new object is a non-negative \<^verbatim>\<open>int\<close>, leads
  \<^verbatim>\<open>ipc_lock\<close> back to the index that holds the object, passes \<^verbatim>\<open>ipc_checkid\<close>, and is the only
  non-negative number that does both.
\<close>

theorem ipc_id_roundtrip:
  assumes "ids_ok ids" and "a \<notin> ran (slot ids)" and "ipc_addid ids a new cur sz got = Some (i, ids', perm)" and "i \<noteq> -1"
  shows "0 \<le> ipc_buildid i (seq perm) \<and> ipc_buildid i (seq perm) \<le> INT_MAX \<and>
    slot ids' (lid_of (ipc_buildid i (seq perm))) = Some a \<and>
    (\<forall>j \<ge> 0. slot ids' (lid_of j) = Some a \<and> ipc_checkid perm j = 0 \<longleftrightarrow> j = ipc_buildid i (seq perm))"
proof -
  have "\<forall>l. slot ids l \<noteq> Some a" using assms(2) by (auto simp: ran_def)
  note assms(1) and this
  moreover have "grow_ary ids sz got \<noteq> None" using assms(3) by (cases "grow_ary ids sz got") (simp_all add: ipc_addid_def)
  ultimately show ?thesis
  proof (cases rule: ipc_addid_cases [where perm = new and cur = cur and n = sz and got = got])
    case (full ids1)
    then show ?thesis using assms(3,4) by simp
  next
    case (added l ids1)
    then have i: "i = int l" "seq perm = ucast (ids_seq ids)" "ids' = ids1" using assms(3) by auto
    have "slot ids' l' = Some a \<longleftrightarrow> l' = l" for l' using added(3) i(3) assms(2) by (auto simp: ran_def)
    then show ?thesis
      using buildid_range [OF added(5)] lid_of_buildid [OF added(5)] checkid_eq [of _ perm] i(2) unfolding i(1) by auto
  qed
qed

theorem ipc_id_roundtrip_witness:
  "\<exists>ids' perm. ipc_addid (ipc_init_ids 4 True) 9 (perm\<lparr>mode := 0x180\<rparr>) (task_cred (tasks sem_demo0 1)) 4 None = Some (0, ids', perm) \<and>
     slot ids' (lid_of (ipc_buildid 0 (seq perm))) = Some 9"
proof -
  let ?new = "\<lparr>deleted = False, key = 77, uid = 0, gid = 0, cuid = 0, cgid = 0, mode = 0x180, seq = 0\<rparr>"
  let ?add = "ipc_addid (ipc_init_ids 4 True) 9 ?new (task_cred (tasks sem_demo0 1)) 4 None"
  have "map_option (\<lambda>(i, ids, perm). (i, perm)) ?add = Some (0, ?new)" by code_simp
  then obtain ids' where a: "?add = Some (0, ids', ?new)" by auto
  have "9 \<notin> ran (slot (ipc_init_ids 4 True))" unfolding ipc_init_ids_ok(2) by (simp add: ran_def)
  then show ?thesis using ipc_id_roundtrip [OF ipc_init_ids_ok(1) _ a] a by (intro exI [of _ ids'] exI [of _ ?new]) simp
qed

end
