(* ===== verification/Radix.thy ===== *)
theory Radix
  imports Prelude
begin

text \<open>
  The radix tree of \<^verbatim>\<open>lib/radix-tree.c\<close>, the index of the page cache. The nodes of a tree are
  a value: every node is referenced from one slot only. An entry of a slot is a node above the
  lowest level and an item of the user at the lowest; following an item as if it were a node
  is a crash of the model. The slab cache that nodes come from is an argument: the list of the results of
  the next allocations, with the contents that the returned nodes have. It has a constructor that clears a node once, so
  a freed node must be clear again.
\<close>

unbundle bit_operations_syntax

section \<open>Data\<close>

abbreviation (input) RADIX_TREE_MAP_SHIFT :: nat where "RADIX_TREE_MAP_SHIFT \<equiv> 6"
abbreviation (input) RADIX_TREE_TAGS :: nat where "RADIX_TREE_TAGS \<equiv> 2"
abbreviation (input) RADIX_TREE_MAP_SIZE :: nat where "RADIX_TREE_MAP_SIZE \<equiv> 64"
abbreviation (input) RADIX_TREE_MAP_MASK :: ulong where "RADIX_TREE_MAP_MASK \<equiv> 63"
abbreviation (input) RADIX_TREE_INDEX_BITS :: nat where "RADIX_TREE_INDEX_BITS \<equiv> 64"
abbreviation (input) RADIX_TREE_MAX_PATH :: nat where "RADIX_TREE_MAX_PATH \<equiv> 12"

datatype 'a radix_tree_node =
    Item 'a
  | Node (node_count: u32) (slots: "'a radix_tree_node option list") (tags: "ulong list")

record 'a radix_tree_root =
  height :: nat
  gfp_wait :: bool
  rnode :: "'a radix_tree_node option"

text \<open>\<open>kmem\<close> are the results of the coming slab allocations, \<open>preloads\<close> the nodes in the per-CPU pool.\<close>

record 'a radix_tree_pool =
  kmem :: "'a radix_tree_node option list"
  preloads :: "'a radix_tree_node list"

section \<open>Nodes\<close>

definition radix_tree_node_ctor :: "'a radix_tree_node" where
  "radix_tree_node_ctor = Node 0 (replicate RADIX_TREE_MAP_SIZE None) (replicate RADIX_TREE_TAGS 0)"

definition kmem_cache_alloc :: "'a radix_tree_pool \<Rightarrow> 'a radix_tree_node option \<times> 'a radix_tree_pool" where
  "kmem_cache_alloc p = (case kmem p of [] \<Rightarrow> (None, p) | r # rs \<Rightarrow> (r, p\<lparr>kmem := rs\<rparr>))"

definition radix_tree_node_alloc :: "'a radix_tree_root \<Rightarrow> 'a radix_tree_pool \<Rightarrow>
    'a radix_tree_node option \<times> 'a radix_tree_pool" where
  "radix_tree_node_alloc root p =
     (let (ret, p) = kmem_cache_alloc p
      in if Option.is_none ret \<and> \<not> gfp_wait root \<and> preloads p \<noteq> []
         then (Some (last (preloads p)), p\<lparr>preloads := butlast (preloads p)\<rparr>)
         else (ret, p))"

text \<open>
  The loop of \<^verbatim>\<open>radix_tree_preload\<close>. The allocation may sleep, and other tasks may use the pool
  meanwhile: each element of the first argument is the result of an allocation with the contents of
  the pool when the task runs again. \<open>None\<close> is a loop that has not ended yet; the last component of the result
  is the list of the nodes that go back to the slab cache.
\<close>

fun radix_tree_preload :: "('a radix_tree_node option \<times> 'a radix_tree_node list) list \<Rightarrow> 'a radix_tree_node list \<Rightarrow>
    (int \<times> 'a radix_tree_node list \<times> 'a radix_tree_node list) option" where
  "radix_tree_preload [] rtp = (if length rtp < RADIX_TREE_MAX_PATH then None else Some (0, rtp, []))"
| "radix_tree_preload ((node, rtp') # rs) rtp =
     (if length rtp < RADIX_TREE_MAX_PATH
      then case node of
             None \<Rightarrow> Some (- ENOMEM, rtp', [])
           | Some n \<Rightarrow>
               if length rtp' < RADIX_TREE_MAX_PATH then radix_tree_preload rs (rtp' @ [n])
               else map_option (\<lambda>(r, p, freed). (r, p, n # freed)) (radix_tree_preload rs rtp')
      else Some (0, rtp, []))"

fun tag_set :: "'a radix_tree_node \<Rightarrow> nat \<Rightarrow> nat \<Rightarrow> 'a radix_tree_node option" where
  "tag_set (Item x) tag offset = None"
| "tag_set (Node c sl tg) tag offset =
     (if tag < length tg
      then Some (if bit (tg ! tag) offset then Node c sl tg else Node c sl (tg[tag := set_bit offset (tg ! tag)]))
      else None)"

fun tag_clear :: "'a radix_tree_node \<Rightarrow> nat \<Rightarrow> nat \<Rightarrow> 'a radix_tree_node option" where
  "tag_clear (Item x) tag offset = None"
| "tag_clear (Node c sl tg) tag offset =
     (if tag < length tg then Some (Node c sl (tg[tag := unset_bit offset (tg ! tag)])) else None)"

fun tag_get :: "'a radix_tree_node \<Rightarrow> nat \<Rightarrow> nat \<Rightarrow> bool option" where
  "tag_get (Item x) tag offset = None"
| "tag_get (Node c sl tg) tag offset = (if tag < length tg then Some (bit (tg ! tag) offset) else None)"

text \<open>\<^verbatim>\<open>node->tags[tag][idx]\<close> for the one word that a tag has.\<close>

fun tag_word :: "'a radix_tree_node \<Rightarrow> nat \<Rightarrow> ulong option" where
  "tag_word (Item x) tag = None"
| "tag_word (Node c sl tg) tag = (if tag < length tg then Some (tg ! tag) else None)"

fun get_slot :: "'a radix_tree_node \<Rightarrow> nat \<Rightarrow> 'a radix_tree_node option option" where
  "get_slot (Item x) offset = None"
| "get_slot (Node c sl tg) offset = (if offset < length sl then Some (sl ! offset) else None)"

fun set_slot :: "'a radix_tree_node \<Rightarrow> nat \<Rightarrow> 'a radix_tree_node option \<Rightarrow> 'a radix_tree_node" where
  "set_slot (Item x) offset s = Item x"
| "set_slot (Node c sl tg) offset s = Node c (sl[offset := s]) tg"

fun set_count :: "(u32 \<Rightarrow> u32) \<Rightarrow> 'a radix_tree_node \<Rightarrow> 'a radix_tree_node" where
  "set_count f (Item x) = Item x"
| "set_count f (Node c sl tg) = Node (f c) sl tg"

definition maxindex :: "nat \<Rightarrow> ulong" where
  "maxindex h =
     (let tmp = h * RADIX_TREE_MAP_SHIFT
      in if tmp \<ge> RADIX_TREE_INDEX_BITS then NOT 0
         else drop_bit 1 (drop_bit (RADIX_TREE_INDEX_BITS - tmp - 1) (NOT 0)))"

text \<open>The table \<^verbatim>\<open>height_to_maxindex\<close>, filled by \<^verbatim>\<open>radix_tree_init_maxindex\<close>.\<close>

definition radix_tree_maxindex :: "nat \<Rightarrow> ulong option" where
  "radix_tree_maxindex h = (if h < RADIX_TREE_MAX_PATH then Some (maxindex h) else None)"

definition offset_of :: "ulong \<Rightarrow> nat \<Rightarrow> nat" where
  "offset_of index shift = unat (drop_bit shift index AND RADIX_TREE_MAP_MASK)"

section \<open>Insertion\<close>

text \<open>The height that a tree needs for an index.\<close>

function extend_height :: "ulong \<Rightarrow> nat \<Rightarrow> nat option" where
  "extend_height index h =
     (case radix_tree_maxindex h of
        None \<Rightarrow> None
      | Some m \<Rightarrow> if index > m then extend_height index (Suc h) else Some h)"
  by pat_completeness auto
termination
  by (relation "measure (\<lambda>(_, h). RADIX_TREE_MAX_PATH - h)") (auto simp: radix_tree_maxindex_def split: if_splits)

declare extend_height.simps [simp del]

text \<open>The loop that pushes one new root per level; \<open>tg\<close> tells which tags the old root has.\<close>

fun extend_tags :: "bool list \<Rightarrow> nat \<Rightarrow> 'a radix_tree_node \<Rightarrow> 'a radix_tree_node option" where
  "extend_tags [] tag node = Some node"
| "extend_tags (t # ts) tag node = do {
     node \<leftarrow> (if t then tag_set node tag 0 else Some node);
     extend_tags ts (Suc tag) node
   }"

fun extend_loop :: "nat \<Rightarrow> bool list \<Rightarrow> 'a radix_tree_root \<Rightarrow> 'a radix_tree_pool \<Rightarrow>
    (int \<times> 'a radix_tree_root \<times> 'a radix_tree_pool) option" where
  "extend_loop 0 tg root p = Some (0, root, p)"
| "extend_loop (Suc k) tg root p =
     (case radix_tree_node_alloc root p of
        (None, p) \<Rightarrow> Some (- ENOMEM, root, p)
      | (Some node, p) \<Rightarrow> do {
          _ \<leftarrow> get_slot node 0;
          let node = set_slot node 0 (rnode root);
          node \<leftarrow> extend_tags tg 0 node;
          let node = set_count (\<lambda>_. 1) node;
          extend_loop k tg (root\<lparr>rnode := Some node, height := height root + 1\<rparr>) p
        })"

definition radix_tree_extend :: "'a radix_tree_root \<Rightarrow> ulong \<Rightarrow> 'a radix_tree_pool \<Rightarrow>
    (int \<times> 'a radix_tree_root \<times> 'a radix_tree_pool) option" where
  "radix_tree_extend root index p = do {
     h \<leftarrow> extend_height index (height root + 1);
     case rnode root of
       None \<Rightarrow> Some (0, root\<lparr>height := h\<rparr>, p)
     | Some n \<Rightarrow> do {
         w0 \<leftarrow> tag_word n 0;
         w1 \<leftarrow> tag_word n 1;
         extend_loop (h - height root) [w0 \<noteq> 0, w1 \<noteq> 0] root p
       }
   }"

text \<open>
  The way down of \<^verbatim>\<open>radix_tree_insert\<close> from the node at the given height. At height 1 the slot
  takes the item; above, a missing child is allocated.
\<close>

fun insert_down :: "'a radix_tree_root \<Rightarrow> nat \<Rightarrow> ulong \<Rightarrow> 'a \<Rightarrow> 'a radix_tree_node \<Rightarrow> 'a radix_tree_pool \<Rightarrow>
    (int \<times> 'a radix_tree_node \<times> 'a radix_tree_pool) option" where
  "insert_down root 0 index item node p = None"
| "insert_down root (Suc h) index item node p = (
     let offset = offset_of index (h * RADIX_TREE_MAP_SHIFT) in do {
       slot \<leftarrow> get_slot node offset;
       if h = 0
       then (case slot of
               Some _ \<Rightarrow> Some (- EEXIST, node, p)
             | None \<Rightarrow> do {
                 t0 \<leftarrow> tag_get node 0 offset;
                 BUG_ON t0;
                 t1 \<leftarrow> tag_get node 1 offset;
                 BUG_ON t1;
                 Some (0, set_slot (set_count (\<lambda>c. c + 1) node) offset (Some (Item item)), p)
               })
       else (case slot of
               Some child \<Rightarrow> do {
                 (r, child, p) \<leftarrow> insert_down root h index item child p;
                 Some (r, set_slot node offset (Some child), p)
               }
             | None \<Rightarrow>
                 (case radix_tree_node_alloc root p of
                    (None, p) \<Rightarrow> Some (- ENOMEM, node, p)
                  | (Some tmp, p) \<Rightarrow> do {
                      (r, child, p) \<leftarrow> insert_down root h index item tmp p;
                      Some (r, set_slot (set_count (\<lambda>c. c + 1) node) offset (Some child), p)
                    }))
     })"

definition radix_tree_insert :: "'a radix_tree_root \<Rightarrow> ulong \<Rightarrow> 'a \<Rightarrow> 'a radix_tree_pool \<Rightarrow>
    (int \<times> 'a radix_tree_root \<times> 'a radix_tree_pool) option" where
  "radix_tree_insert root index item p = do {
     m \<leftarrow> radix_tree_maxindex (height root);
     (error, root, p) \<leftarrow> (if index = 0 \<and> Option.is_none (rnode root) \<or> index > m then radix_tree_extend root index p else Some (0, root, p));
     if error \<noteq> 0 then Some (error, root, p)
     else if height root = 0
     then (case rnode root of
             Some _ \<Rightarrow> Some (- EEXIST, root, p)
           | None \<Rightarrow> Some (0, root\<lparr>rnode := Some (Item item)\<rparr>, p))
     else (case rnode root of
             Some node \<Rightarrow> do {
               (r, node, p) \<leftarrow> insert_down root (height root) index item node p;
               Some (r, root\<lparr>rnode := Some node\<rparr>, p)
             }
           | None \<Rightarrow>
               (case radix_tree_node_alloc root p of
                  (None, p) \<Rightarrow> Some (- ENOMEM, root, p)
                | (Some tmp, p) \<Rightarrow> do {
                    (r, node, p) \<leftarrow> insert_down root (height root) index item tmp p;
                    Some (r, root\<lparr>rnode := Some node\<rparr>, p)
                  }))
   }"

section \<open>Lookup and tags\<close>

fun lookup_down :: "nat \<Rightarrow> ulong \<Rightarrow> 'a radix_tree_node option \<Rightarrow> 'a radix_tree_node option option" where
  "lookup_down 0 index slot = Some slot"
| "lookup_down (Suc h) index slot =
     (case slot of
        None \<Rightarrow> Some None
      | Some node \<Rightarrow> do {
          slot \<leftarrow> get_slot node (offset_of index (h * RADIX_TREE_MAP_SHIFT));
          lookup_down h index slot
        })"

definition radix_tree_lookup :: "'a radix_tree_root \<Rightarrow> ulong \<Rightarrow> 'a radix_tree_node option option" where
  "radix_tree_lookup root index = do {
     m \<leftarrow> radix_tree_maxindex (height root);
     if index > m then Some None else lookup_down (height root) index (rnode root)
   }"

text \<open>The result of the call and the new contents of the slot.\<close>

fun tag_set_down :: "nat \<Rightarrow> ulong \<Rightarrow> nat \<Rightarrow> 'a radix_tree_node option \<Rightarrow>
    ('a radix_tree_node option \<times> 'a radix_tree_node option) option" where
  "tag_set_down 0 index tag slot = Some (slot, slot)"
| "tag_set_down (Suc h) index tag slot =
     (case slot of
        None \<Rightarrow> None
      | Some node \<Rightarrow> (
          let offset = offset_of index (h * RADIX_TREE_MAP_SHIFT) in do {
            node \<leftarrow> tag_set node tag offset;
            slot \<leftarrow> get_slot node offset;
            BUG_ON (Option.is_none slot);
            (ret, slot) \<leftarrow> tag_set_down h index tag slot;
            Some (ret, Some (set_slot node offset slot))
          }))"

definition radix_tree_tag_set :: "'a radix_tree_root \<Rightarrow> ulong \<Rightarrow> nat \<Rightarrow>
    ('a radix_tree_node option \<times> 'a radix_tree_root) option" where
  "radix_tree_tag_set root index tag = do {
     m \<leftarrow> radix_tree_maxindex (height root);
     if index > m then Some (None, root)
     else do {
       (ret, slot) \<leftarrow> tag_set_down (height root) index tag (rnode root);
       Some (ret, root\<lparr>rnode := slot\<rparr>)
     }
   }"

text \<open>
  The array \<^verbatim>\<open>path\<close> of \<^verbatim>\<open>radix_tree_tag_clear\<close> and \<^verbatim>\<open>radix_tree_delete\<close>: the nodes on the way with the
  offsets taken, the lowest first, and the slot reached. The inner \<open>None\<close> is the exit at a
  null slot.
\<close>

type_synonym 'a radix_tree_path = "('a radix_tree_node \<times> nat) list"

fun path_down :: "nat \<Rightarrow> ulong \<Rightarrow> 'a radix_tree_node option \<Rightarrow> 'a radix_tree_path \<Rightarrow>
    ('a radix_tree_path \<times> 'a radix_tree_node option) option option" where
  "path_down 0 index slot path = Some (Some (path, slot))"
| "path_down (Suc h) index slot path =
     (case slot of
        None \<Rightarrow> Some None
      | Some node \<Rightarrow> (
          let offset = offset_of index (h * RADIX_TREE_MAP_SHIFT) in do {
            slot \<leftarrow> get_slot node offset;
            path_down h index slot ((node, offset) # path)
          }))"

text \<open>The tree with changed nodes on the path above a slot.\<close>

fun path_up :: "'a radix_tree_node option \<Rightarrow> 'a radix_tree_path \<Rightarrow> 'a radix_tree_node option" where
  "path_up slot [] = slot"
| "path_up slot ((node, offset) # path) = path_up (Some (set_slot node offset slot)) path"

fun tag_clear_up :: "nat \<Rightarrow> 'a radix_tree_path \<Rightarrow> 'a radix_tree_path option" where
  "tag_clear_up tag [] = None"
| "tag_clear_up tag ((node, offset) # path) = do {
     node \<leftarrow> tag_clear node tag offset;
     w \<leftarrow> tag_word node tag;
     if w \<noteq> 0 \<or> path = [] then Some ((node, offset) # path)
     else do { path \<leftarrow> tag_clear_up tag path; Some ((node, offset) # path) }
   }"

definition radix_tree_tag_clear :: "'a radix_tree_root \<Rightarrow> ulong \<Rightarrow> nat \<Rightarrow>
    ('a radix_tree_node option \<times> 'a radix_tree_root) option" where
  "radix_tree_tag_clear root index tag = do {
     m \<leftarrow> radix_tree_maxindex (height root);
     if index > m then Some (None, root)
     else do {
       walk \<leftarrow> path_down (height root) index (rnode root) [];
       case walk of
         None \<Rightarrow> Some (None, root)
       | Some (path, ret) \<Rightarrow>
           if Option.is_none ret then Some (None, root)
           else do {
             path \<leftarrow> tag_clear_up tag path;
             Some (ret, root\<lparr>rnode := path_up ret path\<rparr>)
           }
     }
   }"

definition radix_tree_tagged :: "'a radix_tree_root \<Rightarrow> nat \<Rightarrow> bool option" where
  "radix_tree_tagged root tag =
     (case rnode root of
        None \<Rightarrow> Some False
      | Some node \<Rightarrow> map_option (\<lambda>w. w \<noteq> 0) (tag_word node tag))"

section \<open>Deletion\<close>

text \<open>
  The loop over the tags of one node: \<open>kept\<close> is the array \<^verbatim>\<open>tags\<close>, true where a lower node still has a
  tagged slot, \<open>nr\<close> is \<^verbatim>\<open>nr_cleared_tags\<close>.
\<close>

fun delete_tags_node :: "nat list \<Rightarrow> nat \<Rightarrow> bool list \<Rightarrow> nat \<Rightarrow> 'a radix_tree_node \<Rightarrow> (bool list \<times> nat \<times> 'a radix_tree_node) option" where
  "delete_tags_node [] offset kept nr node = Some (kept, nr, node)"
| "delete_tags_node (tag # rest) offset kept nr node =
     (if kept ! tag then delete_tags_node rest offset kept nr node
      else do {
        node \<leftarrow> tag_clear node tag offset;
        w \<leftarrow> tag_word node tag;
        if w \<noteq> 0 then delete_tags_node rest offset (kept[tag := True]) (nr - 1) node
        else delete_tags_node rest offset kept nr node
      })"

fun delete_tags_up :: "bool list \<Rightarrow> 'a radix_tree_path \<Rightarrow> 'a radix_tree_path option" where
  "delete_tags_up kept [] = None"
| "delete_tags_up kept ((node, offset) # path) = do {
     (kept, nr, node) \<leftarrow> delete_tags_node [0..<RADIX_TREE_TAGS] offset kept RADIX_TREE_TAGS node;
     if path \<noteq> [] \<and> nr \<noteq> 0 then do { path \<leftarrow> delete_tags_up kept path; Some ((node, offset) # path) }
     else Some ((node, offset) # path)
   }"

text \<open>
  The slot that a path starts at: the slot taken in its lowest node, or \<^verbatim>\<open>root->rnode\<close>, which is \<open>rn\<close>.
\<close>

fun slot_above :: "'a radix_tree_node option \<Rightarrow> 'a radix_tree_path \<Rightarrow> 'a radix_tree_node option option" where
  "slot_above rn [] = Some rn"
| "slot_above rn ((node, offset) # path) = get_slot node offset"

text \<open>
  The last loop: the slot is cleared, and nodes that become empty are freed, after the \<^verbatim>\<open>BUG_ON\<close> that the slot above such a node is not
  null; the second component are the freed nodes.
\<close>

fun delete_up :: "'a radix_tree_node option \<Rightarrow> 'a radix_tree_path \<Rightarrow> ('a radix_tree_node option \<times> 'a radix_tree_node list) option" where
  "delete_up rn [] = Some (None, [])"
| "delete_up rn ((node, offset) # path) =
     (let node = set_count (\<lambda>c. c - 1) (set_slot node offset None)
      in if node_count node = 0
         then do {
           above \<leftarrow> slot_above rn path;
           BUG_ON (Option.is_none above);
           (slot, freed) \<leftarrow> delete_up rn path;
           Some (slot, node # freed)
         }
         else Some (path_up (Some node) path, []))"

definition radix_tree_delete :: "'a radix_tree_root \<Rightarrow> ulong \<Rightarrow>
    ('a radix_tree_node option \<times> 'a radix_tree_root \<times> 'a radix_tree_node list) option" where
  "radix_tree_delete root index = do {
     m \<leftarrow> radix_tree_maxindex (height root);
     if index > m then Some (None, root, [])
     else do {
       walk \<leftarrow> path_down (height root) index (rnode root) [];
       case walk of
         None \<Rightarrow> Some (None, root, [])
       | Some (path, ret) \<Rightarrow>
           if Option.is_none ret then Some (None, root, [])
           else do {
             path \<leftarrow> delete_tags_up (replicate RADIX_TREE_TAGS False) path;
             (slot, freed) \<leftarrow> delete_up (rnode root) path;
             let root = root\<lparr>rnode := slot\<rparr>;
             Some (ret, if Option.is_none slot then root\<lparr>height := 0\<rparr> else root, freed)
           }
     }
   }"

section \<open>Gang lookup\<close>

text \<open>
  \<^verbatim>\<open>__lookup\<close> and \<^verbatim>\<open>__lookup_tag\<close> differ in the test of a slot only: \<open>sel_slot\<close> and \<open>sel_tag\<close>.
\<close>

definition sel_slot :: "'a radix_tree_node \<Rightarrow> nat \<Rightarrow> bool option" where
  "sel_slot node i = map_option (\<lambda>s. \<not> Option.is_none s) (get_slot node i)"

definition sel_tag :: "nat \<Rightarrow> 'a radix_tree_node \<Rightarrow> nat \<Rightarrow> bool option" where
  "sel_tag tag node i = do {
     b \<leftarrow> tag_get node tag i;
     if b then do { s \<leftarrow> get_slot node i; BUG_ON (Option.is_none s); Some True } else Some False
   }"

text \<open>The search for the next slot: \<open>k\<close> slots remain. \<open>None\<close> inside is \<^verbatim>\<open>goto out\<close>.\<close>

fun scan_slots :: "('a radix_tree_node \<Rightarrow> nat \<Rightarrow> bool option) \<Rightarrow> 'a radix_tree_node \<Rightarrow> nat \<Rightarrow> nat \<Rightarrow> ulong \<Rightarrow>
    (nat option \<times> ulong) option" where
  "scan_slots sel node shift 0 index = Some (None, index)"
| "scan_slots sel node shift (Suc k) index = do {
     b \<leftarrow> sel node (RADIX_TREE_MAP_SIZE - Suc k);
     if b then Some (Some (RADIX_TREE_MAP_SIZE - Suc k), index)
     else let index = (index AND NOT (2 ^ shift - 1)) + 2 ^ shift
          in if index = 0 then Some (None, index) else scan_slots sel node shift k index
   }"

text \<open>The bottom level: \<open>k\<close> slots remain and \<open>room\<close> results may still be stored.\<close>

fun grab_items :: "('a radix_tree_node \<Rightarrow> nat \<Rightarrow> bool option) \<Rightarrow> 'a radix_tree_node \<Rightarrow> nat \<Rightarrow> nat \<Rightarrow> ulong \<Rightarrow>
    ('a radix_tree_node list \<times> ulong) option" where
  "grab_items sel node 0 room index = Some ([], index)"
| "grab_items sel node (Suc k) room index = (
     let j = RADIX_TREE_MAP_SIZE - Suc k; index = index + 1 in do {
       b \<leftarrow> sel node j;
       if b then do {
         s \<leftarrow> get_slot node j;
         item \<leftarrow> s;
         if room = 1 then Some ([item], index)
         else do {
           (items, index) \<leftarrow> grab_items sel node k (room - 1) index;
           Some (item # items, index)
         }
       }
       else grab_items sel node k room index
     })"

fun lookup_level :: "('a radix_tree_node \<Rightarrow> nat \<Rightarrow> bool option) \<Rightarrow> nat \<Rightarrow> ulong \<Rightarrow> nat \<Rightarrow> 'a radix_tree_node option \<Rightarrow>
    ('a radix_tree_node list \<times> ulong) option" where
  "lookup_level sel 0 index room slot = Some ([], index)"
| "lookup_level sel (Suc h) index room slot = do {
     node \<leftarrow> slot;
     (found, index) \<leftarrow> scan_slots sel node (h * RADIX_TREE_MAP_SHIFT)
        (RADIX_TREE_MAP_SIZE - offset_of index (h * RADIX_TREE_MAP_SHIFT)) index;
     case found of
       None \<Rightarrow> Some ([], index)
     | Some i \<Rightarrow>
         if h = 0 then grab_items sel node (RADIX_TREE_MAP_SIZE - offset_of index 0) room index
         else do { slot \<leftarrow> get_slot node i; lookup_level sel h index room slot }
   }"

partial_function (option) gang_loop :: "('a radix_tree_node \<Rightarrow> nat \<Rightarrow> bool option) \<Rightarrow> 'a radix_tree_root \<Rightarrow> ulong \<Rightarrow> nat \<Rightarrow> ulong \<Rightarrow>
    'a radix_tree_node list \<Rightarrow> 'a radix_tree_node list option" where
  "gang_loop sel root max_index max_items cur_index results =
     (if length results < max_items \<and> cur_index \<le> max_index
      then do {
        (items, next_index) \<leftarrow> lookup_level sel (height root) cur_index (max_items - length results) (rnode root);
        if next_index = 0 then Some (results @ items)
        else gang_loop sel root max_index max_items next_index (results @ items)
      }
      else Some results)"

definition radix_tree_gang_lookup :: "'a radix_tree_root \<Rightarrow> ulong \<Rightarrow> nat \<Rightarrow> 'a radix_tree_node list option" where
  "radix_tree_gang_lookup root first_index max_items = do {
     m \<leftarrow> radix_tree_maxindex (height root);
     gang_loop sel_slot root m max_items first_index []
   }"

definition radix_tree_gang_lookup_tag :: "'a radix_tree_root \<Rightarrow> ulong \<Rightarrow> nat \<Rightarrow> nat \<Rightarrow> 'a radix_tree_node list option" where
  "radix_tree_gang_lookup_tag root first_index max_items tag = do {
     m \<leftarrow> radix_tree_maxindex (height root);
     gang_loop (sel_tag tag) root m max_items first_index []
   }"

section \<open>Indices\<close>

lemma offset_eq: "offset_of index (h * 6) = unat index div 64 ^ h mod 64"
proof -
  have "unat (drop_bit (h * 6) index AND 63) = unat (drop_bit (h * 6) index) mod 64"
    using mask_is_mod [of "64 :: ulong" 6 "drop_bit (h * 6) index"] by simp
  moreover have "unat (drop_bit (h * 6) index) = unat index div 64 ^ h"
  proof -
    have "(2 :: nat) ^ (h * 6) = 64 ^ h" by (simp add: mult.commute [of h] power_mult)
    then show ?thesis by (simp only: unat_drop_bit_eq drop_bit_eq_div [of _ "unat index"])
  qed
  ultimately show ?thesis by (simp add: offset_of_def)
qed

lemma offset_less: "offset_of index s < 64"
proof -
  have "drop_bit s index AND 63 \<le> (63 :: ulong)" by (rule word_and_le1)
  then show ?thesis by (simp add: offset_of_def word_le_nat_alt)
qed

lemma unat_maxindex: "h < 12 \<Longrightarrow> unat (maxindex h) = min (64 ^ h) (2 ^ 64) - 1"
proof -
  assume "h < 12"
  then have "h \<in> {0, 1, 2, 3, 4, 5, 6, 7, 8, 9, 10, 11}" by (simp add: eval_nat_numeral less_Suc_eq)
  then show ?thesis by (auto simp: maxindex_def mask_eq_exp_minus_1 unsigned_minus_1_eq_mask)
qed

lemma maxindex_less: "h < 12 \<Longrightarrow> maxindex h < index \<longleftrightarrow> 64 ^ h \<le> unat index"
proof -
  assume h: "h < 12"
  have "unat index < 2 ^ 64" using unat_bound [of index] by simp
  moreover have "(64 :: nat) ^ h > 0" by simp
  ultimately show ?thesis unfolding word_less_nat_alt unat_maxindex [OF h] by linarith
qed

lemma div_mod_Suc: "(j :: nat) mod 64 ^ Suc h = i mod 64 ^ Suc h \<longleftrightarrow> j div 64 ^ h mod 64 = i div 64 ^ h mod 64 \<and> j mod 64 ^ h = i mod 64 ^ h"
proof -
  have split: "x mod 64 ^ Suc h = 64 ^ h * (x div 64 ^ h mod 64) + x mod 64 ^ h" for x :: nat
    using mod_mult2_eq [of x "64 ^ h" 64] by (simp add: mult.commute)
  have inj: "a = b \<and> c = d" if "m * a + c = m * b + d" "c < m" "d < m" for a b c d m :: nat
  proof -
    have "(m * a + c) div m = a" "(m * b + d) div m = b" using that(2,3) by simp_all
    then show ?thesis using that(1) by simp
  qed
  show ?thesis
    unfolding split using inj [of "64 ^ h" "j div 64 ^ h mod 64" "j mod 64 ^ h" "i div 64 ^ h mod 64" "i mod 64 ^ h"] by auto
qed


section \<open>What a tree holds\<close>

text \<open>
  The item and the tags at an index below a slot at height \<open>h\<close>. Both depend on the index modulo
  \<open>64 ^ h\<close> only.
\<close>

fun look :: "nat \<Rightarrow> 'a radix_tree_node option \<Rightarrow> nat \<Rightarrow> 'a option" where
  "look 0 (Some (Item x)) i = Some x"
| "look (Suc h) (Some (Node c sl tg)) i = look h (sl ! (i div 64 ^ h mod 64)) i"
| "look _ _ i = None"

fun tagged :: "nat \<Rightarrow> nat \<Rightarrow> 'a radix_tree_node option \<Rightarrow> nat \<Rightarrow> bool" where
  "tagged t (Suc h) (Some (Node c sl tg)) i =
     (if h = 0 then bit (tg ! t) (i mod 64) else tagged t h (sl ! (i div 64 ^ h mod 64)) i)"
| "tagged t _ _ i = False"

fun occupied :: "'b option list \<Rightarrow> nat" where
  "occupied [] = 0"
| "occupied (s # sl) = of_bool (s \<noteq> None) + occupied sl"

fun has_tag :: "nat \<Rightarrow> 'a radix_tree_node option \<Rightarrow> bool" where
  "has_tag t (Some (Node c sl tg)) = (tg ! t \<noteq> 0)"
| "has_tag t _ = False"

text \<open>
  A well-formed subtree: its depth is \<open>h\<close>, each node counts its slots, a tag bit of an inner node tells whether
  the child has that tag anywhere, and a tag bit of a lowest node belongs to an item.
\<close>

fun rt_ok :: "nat \<Rightarrow> 'a radix_tree_node option \<Rightarrow> bool" where
  "rt_ok _ None = True"
| "rt_ok 0 (Some (Item x)) = True"
| "rt_ok (Suc h) (Some (Node c sl tg)) \<longleftrightarrow>
     length sl = 64 \<and> length tg = 2 \<and> c = of_nat (occupied sl) \<and> (\<forall>s \<in> set sl. rt_ok h s) \<and>
     (\<forall>t < 2. \<forall>i < 64. if h = 0 then bit (tg ! t) i \<longrightarrow> sl ! i \<noteq> None else bit (tg ! t) i = has_tag t (sl ! i))"
| "rt_ok _ _ = False"

lemma rt_ok_SucD: "rt_ok (Suc h) (Some n) \<Longrightarrow> \<exists>c sl tg. n = Node c sl tg"
  by (cases n) auto

lemma rt_ok_0: "rt_ok 0 s \<longleftrightarrow> s = None \<or> (\<exists>x. s = Some (Item x))"
  by (cases s rule: option.exhaust; cases "the s") auto

lemma rt_ok_child: "rt_ok (Suc h) (Some (Node c sl tg)) \<Longrightarrow> i < 64 \<Longrightarrow> rt_ok h (sl ! i)"
  by simp

lemma look_None [simp]: "look h None i = None"
  by (cases h) auto

lemma tagged_None [simp]: "tagged t h None i = False" "tagged t 0 s i = False"
  by (cases h; simp) (cases s; simp)

lemma rt_ok_None [simp]: "rt_ok h None" by (cases h) auto

lemma look_mod: "j mod 64 ^ h = i mod 64 ^ h \<Longrightarrow> look h s j = look h s i"
proof (induction h arbitrary: s)
  case 0
  then show ?case by (cases "(0 :: nat, s, j)" rule: look.cases) auto
next
  case (Suc h)
  then have "j div 64 ^ h mod 64 = i div 64 ^ h mod 64" "j mod 64 ^ h = i mod 64 ^ h"
    unfolding div_mod_Suc by auto
  then show ?case using Suc.IH by (cases "(Suc h, s, j)" rule: look.cases) auto
qed

lemma occupied_le: "occupied sl \<le> length sl"
  by (induction sl) auto

lemma occupied_update:
  "i < length sl \<Longrightarrow> occupied (sl[i := v]) + of_bool (sl ! i \<noteq> None) = occupied sl + of_bool (v \<noteq> None)"
proof (induction sl arbitrary: i)
  case (Cons s sl)
  then show ?case by (cases i) (simp_all del: not_None_eq)
qed simp

lemma occupied_0: "occupied sl = 0 \<longleftrightarrow> (\<forall>s \<in> set sl. s = None)"
  by (induction sl) auto

lemma of_nat_occupied_0: "length sl = 64 \<Longrightarrow> (of_nat (occupied sl) :: u32) = 0 \<longleftrightarrow> occupied sl = 0"
  using occupied_le [of sl] by (simp add: word_of_nat_eq_0_iff) (auto dest: dvd_imp_le)

text \<open>Tags belong to items.\<close>

lemma word_nonzero_bit: "(w :: ulong) \<noteq> 0 \<longleftrightarrow> (\<exists>i < 64. bit w i)"
proof -
  have "w = 0" if "\<not> (\<exists>i < 64. bit w i)" using that by (intro bit_word_eqI) auto
  then show ?thesis by auto
qed

lemma tagged_mod: "j mod 64 ^ h = i mod 64 ^ h \<Longrightarrow> tagged t h s j = tagged t h s i" for s :: "'a radix_tree_node option"
proof (induction h arbitrary: s)
  case (Suc h)
  then have *: "j div 64 ^ h mod 64 = i div 64 ^ h mod 64" "j mod 64 ^ h = i mod 64 ^ h"
    unfolding div_mod_Suc by auto
  have "tagged t h s' j = tagged t h s' i" for s' :: "'a radix_tree_node option" using *(2) by (rule Suc.IH)
  then show ?case using * by (cases "(t, Suc h, s, j)" rule: tagged.cases) (auto split: if_splits)
qed simp

lemma index_at: "k < 64 \<Longrightarrow> \<exists>i :: nat. i div 64 ^ h mod 64 = k \<and> i mod 64 ^ h = j mod 64 ^ h"
  by (rule exI [of _ "64 ^ h * k + j mod 64 ^ h"]) simp

lemma tagged_look: "rt_ok h s \<Longrightarrow> t < 2 \<Longrightarrow> tagged t h s i \<Longrightarrow> look h s i \<noteq> None"
proof (induction h arbitrary: s)
  case (Suc h)
  then obtain c sl tg where s: "s = Some (Node c sl tg)" by (cases "(t, Suc h, s, i)" rule: tagged.cases) auto
  show ?case
  proof (cases "h = 0")
    case True
    then have "sl ! (i mod 64) \<noteq> None" "rt_ok 0 (sl ! (i mod 64))" using Suc.prems s by auto
    then show ?thesis using s True by (auto simp: rt_ok_0)
  next
    case False
    then show ?thesis using Suc.IH [of "sl ! (i div 64 ^ h mod 64)"] Suc.prems s by auto
  qed
qed simp

lemma has_tag_tagged: "rt_ok h s \<Longrightarrow> t < 2 \<Longrightarrow> has_tag t s \<longleftrightarrow> (\<exists>i. tagged t h s i)"
proof (induction h arbitrary: s)
  case 0
  then show ?case by (auto simp: rt_ok_0)
next
  case (Suc h)
  show ?case
  proof (cases s)
    case (Some n)
    then obtain c sl tg where s: "s = Some (Node c sl tg)" using Suc.prems rt_ok_SucD by blast
    have "has_tag t s \<longleftrightarrow> (\<exists>k < 64. bit (tg ! t) k)" by (simp only: s has_tag.simps word_nonzero_bit)
    moreover have "(\<exists>i. tagged t (Suc h) s i) \<longleftrightarrow> (\<exists>k < 64. bit (tg ! t) k)"
    proof (cases "h = 0")
      case True
      show ?thesis
      proof
        assume "\<exists>k < 64. bit (tg ! t) k"
        then obtain k where "k < 64" "bit (tg ! t) k" by blast
        then show "\<exists>i. tagged t (Suc h) s i" using s True by (intro exI [of _ k]) simp
      qed (use s True in \<open>auto intro: exI [of _ "_ mod 64"]\<close>)
    next
      case False
      then have c: "bit (tg ! t) k \<longleftrightarrow> (\<exists>i. tagged t h (sl ! k) i)" if "k < 64" for k
        using Suc.prems s that Suc.IH [of "sl ! k"] by auto
      have "\<exists>i. tagged t (Suc h) s i" if "tagged t h (sl ! k) j" "k < 64" for k j
      proof -
        obtain i where "i div 64 ^ h mod 64 = k" "i mod 64 ^ h = j mod 64 ^ h" using index_at \<open>k < 64\<close> by blast
        then have "tagged t (Suc h) s i" using s False that(1) tagged_mod [of i h j t "sl ! k"] by simp
        then show ?thesis ..
      qed
      moreover have "tagged t (Suc h) s i \<Longrightarrow> tagged t h (sl ! (i div 64 ^ h mod 64)) i" for i using s False by simp
      ultimately show ?thesis using c by (metis mod_less_divisor zero_less_numeral)
    qed
    ultimately show ?thesis by simp
  qed simp
qed

text \<open>No node of a subtree is empty.\<close>

fun full :: "nat \<Rightarrow> 'a radix_tree_node option \<Rightarrow> bool" where
  "full (Suc h) (Some (Node c sl tg)) \<longleftrightarrow> occupied sl > 0 \<and> (\<forall>s \<in> set sl. full h s)"
| "full _ _ = True"

lemma full_None [simp]: "full h None" "full 0 s"
  by (cases h; simp) (cases s; simp)

section \<open>Changing one slot\<close>

lemma look_set_slot:
  "length sl = 64 \<Longrightarrow> look (Suc h) (Some (Node c' (sl[k := s]) tg')) j =
     (if j div 64 ^ h mod 64 = k then look h s j else look (Suc h) (Some (Node c sl tg)) j)"
  by auto

lemma tagged_set_slot:
  "length sl = 64 \<Longrightarrow> 0 < h \<Longrightarrow> tagged t (Suc h) (Some (Node c' (sl[k := s]) tg')) j =
     (if j div 64 ^ h mod 64 = k then tagged t h s j else tagged t (Suc h) (Some (Node c sl tg)) j)"
  by auto

lemma rt_ok_set_slot:
  assumes "rt_ok (Suc h) (Some (Node c sl tg))" "0 < h" "k < 64" "rt_ok h s"
    "\<And>t. t < 2 \<Longrightarrow> has_tag t s = has_tag t (sl ! k)" "c' = of_nat (occupied (sl[k := s]))"
  shows "rt_ok (Suc h) (Some (Node c' (sl[k := s]) tg))"
proof -
  have "\<forall>s' \<in> set (sl[k := s]). rt_ok h s'" using assms(1,4) set_update_subset_insert [of sl k s] by auto
  then show ?thesis using assms by (auto simp: nth_list_update)
qed

lemma full_set_slot:
  assumes "\<forall>s \<in> set sl. full h s" "full h (Some e)" "k < length sl"
  shows "full (Suc h) (Some (Node c (sl[k := Some e]) tg))"
proof -
  have "\<forall>s' \<in> set (sl[k := Some e]). full h s'" using assms set_update_subset_insert [of sl k "Some e"] by auto
  moreover have "occupied (sl[k := Some e]) \<noteq> 0" using assms(3) set_update_memI [of k sl "Some e"] by (auto simp: occupied_0)
  ultimately show ?thesis by simp
qed

section \<open>Insertion\<close>

definition pool_ok :: "'a radix_tree_pool \<Rightarrow> bool" where
  "pool_ok p \<longleftrightarrow> set (kmem p) \<subseteq> {None, Some radix_tree_node_ctor} \<and> set (preloads p) \<subseteq> {radix_tree_node_ctor}"

lemma occupied_replicate [simp]: "occupied (replicate n None) = 0"
  by (simp add: occupied_0)

lemma ctor_wf [simp]: "rt_ok (Suc h) (Some radix_tree_node_ctor)"
  by (auto simp: radix_tree_node_ctor_def nth_Cons' numeral_2_eq_2 less_Suc_eq)

lemma ctor_look [simp]: "look (Suc h) (Some radix_tree_node_ctor) j = None"
  by (simp add: radix_tree_node_ctor_def)

lemma ctor_tagged [simp]: "t < 2 \<Longrightarrow> tagged t (Suc h) (Some radix_tree_node_ctor) j = False"
  by (auto simp: radix_tree_node_ctor_def nth_Cons' numeral_2_eq_2 less_Suc_eq)

lemma ctor_has_tag [simp]: "t < 2 \<Longrightarrow> has_tag t (Some radix_tree_node_ctor) = False"
  by (auto simp: radix_tree_node_ctor_def nth_Cons' numeral_2_eq_2 less_Suc_eq)

lemma ctor_slots: "s \<in> set (slots radix_tree_node_ctor) \<Longrightarrow> s = None"
  by (auto simp: radix_tree_node_ctor_def)

text \<open>An allocation gives a clear node, or fails with the pool of preloaded nodes unused or empty.\<close>

lemma node_alloc_cases:
  assumes "pool_ok p"
  obtains (fail) p' where "radix_tree_node_alloc root p = (None, p')" "pool_ok p'" "gfp_wait root \<or> preloads p = []"
    "preloads p' = preloads p"
  | (got) p' where "radix_tree_node_alloc root p = (Some radix_tree_node_ctor, p')" "pool_ok p'"
    "length (preloads p) \<le> length (preloads p') + 1"
proof (cases "kmem p")
  case Nil
  then show ?thesis
  proof (cases "gfp_wait root \<or> preloads p = []")
    case True
    then show ?thesis using assms Nil by (intro fail [of p]) (auto simp: radix_tree_node_alloc_def kmem_cache_alloc_def)
  next
    case False
    then have "last (preloads p) = radix_tree_node_ctor" using assms last_in_set [of "preloads p"] unfolding pool_ok_def by blast
    then show ?thesis using assms Nil False
      by (intro got [of "p\<lparr>preloads := butlast (preloads p)\<rparr>"])
        (auto simp: radix_tree_node_alloc_def kmem_cache_alloc_def pool_ok_def dest: in_set_butlastD)
  qed
next
  case (Cons r rs)
  let ?p = "p\<lparr>kmem := rs\<rparr>"
  show ?thesis
  proof (cases r)
    case (Some n)
    then show ?thesis using assms Cons
      by (intro got [of ?p]) (auto simp: radix_tree_node_alloc_def kmem_cache_alloc_def pool_ok_def)
  next
    case None
    show ?thesis
    proof (cases "gfp_wait root \<or> preloads p = []")
      case True
      then show ?thesis using assms Cons None
        by (intro fail [of ?p]) (auto simp: radix_tree_node_alloc_def kmem_cache_alloc_def pool_ok_def)
    next
      case False
      then have "last (preloads p) = radix_tree_node_ctor" using assms last_in_set [of "preloads p"] unfolding pool_ok_def by blast
      then show ?thesis using assms Cons None False
        by (intro got [of "?p\<lparr>preloads := butlast (preloads p)\<rparr>"])
          (auto simp: radix_tree_node_alloc_def kmem_cache_alloc_def pool_ok_def dest: in_set_butlastD)
    qed
  qed
qed

definition inserted :: "nat \<Rightarrow> nat \<Rightarrow> 'a \<Rightarrow> 'a radix_tree_node \<Rightarrow> int \<Rightarrow> 'a radix_tree_node \<Rightarrow> bool" where
  "inserted h i item n r n' \<longleftrightarrow>
     rt_ok (Suc h) (Some n') \<and> tags n' = tags n \<and> r \<in> {0, - EEXIST, - ENOMEM} \<and>
     (r = - EEXIST \<longleftrightarrow> look (Suc h) (Some n) i \<noteq> None) \<and> (r = - EEXIST \<longrightarrow> n' = n) \<and>
     (\<forall>j. look (Suc h) (Some n') j =
        (if r = 0 \<and> j mod 64 ^ Suc h = i mod 64 ^ Suc h then Some item else look (Suc h) (Some n) j)) \<and>
     (\<forall>t < 2. \<forall>j. tagged t (Suc h) (Some n') j = tagged t (Suc h) (Some n) j) \<and>
     (r = 0 \<and> (\<forall>s \<in> set (slots n). full h s) \<longrightarrow> full (Suc h) (Some n'))"

lemma inserted_leaf:
  assumes w: "rt_ok (Suc 0) (Some (Node c sl tg))" and k: "k = i mod 64"
  shows "inserted 0 i item (Node c sl tg) (if sl ! k = None then 0 else - EEXIST)
    (if sl ! k = None then Node (c + 1) (sl[k := Some (Item item)]) tg else Node c sl tg)"
proof (cases "sl ! k = None")
  case True
  have k64: "k < 64" using k by simp
  have "occupied (sl[k := Some (Item item)]) = Suc (occupied sl)"
    using occupied_update [of k sl "Some (Item item)"] True w k64 by simp
  moreover have "\<forall>s \<in> set (sl[k := Some (Item item)]). rt_ok 0 s"
    using w set_update_subset_insert [of sl k "Some (Item item)"] by auto
  ultimately have "rt_ok (Suc 0) (Some (Node (c + 1) (sl[k := Some (Item item)]) tg))"
    using w k64 by (auto simp: nth_list_update)
  moreover have "full (Suc 0) (Some (Node (c + 1) (sl[k := Some (Item item)]) tg))"
    using w k64 by (intro full_set_slot) auto
  ultimately show ?thesis using True w k k64 by (auto simp: inserted_def)
next
  case False
  moreover have "rt_ok 0 (sl ! k)" using w k by simp
  ultimately have "look (Suc 0) (Some (Node c sl tg)) i \<noteq> None" using k by (auto simp: rt_ok_0)
  then show ?thesis using False w by (auto simp: inserted_def)
qed

lemma inserted_inner:
  assumes w: "rt_ok (Suc h) (Some (Node c sl tg))" and h: "0 < h" "h = Suc h'" and k: "k = i div 64 ^ h mod 64"
    and c: "inserted h' i item child r child'"
    and s: "sl ! k = Some child \<or> sl ! k = None \<and> child = radix_tree_node_ctor"
  shows "inserted h i item (Node c sl tg) r (Node (if sl ! k = None then c + 1 else c) (sl[k := Some child']) tg)"
    (is "inserted _ _ _ _ _ (Node ?c ?sl tg)")
proof -
  have k64: "k < 64" "length sl = 64" using k w by auto
  have old: "look h (sl ! k) j = look h (Some child) j" "t < 2 \<Longrightarrow> tagged t h (sl ! k) j = tagged t h (Some child) j"
    "t < 2 \<Longrightarrow> has_tag t (sl ! k) = has_tag t (Some child)" for t j
    using s h(2) by auto
  obtain c1 sl1 tg1 c2 sl2 tg2 where nodes: "child = Node c1 sl1 tg1" "child' = Node c2 sl2 tg2"
    using c s w k64 rt_ok_child [OF w k64(1)] h(2) rt_ok_SucD ctor_wf unfolding inserted_def by metis
  have tags: "has_tag t (Some child') = has_tag t (sl ! k)" if "t < 2" for t
  proof -
    show ?thesis using c nodes old(3) [OF that] by (simp add: inserted_def)
  qed
  have "occupied ?sl = (if sl ! k = None then Suc (occupied sl) else occupied sl)"
    using occupied_update [of k sl "Some child'"] k64 by auto
  then have "?c = of_nat (occupied ?sl)" using w by auto
  then have "rt_ok (Suc h) (Some (Node ?c ?sl tg))"
    using c tags h k64 by (intro rt_ok_set_slot [OF w]) (auto simp: inserted_def)
  moreover have "full (Suc h) (Some (Node ?c ?sl tg))" if "r = 0" "\<forall>s \<in> set sl. full h s"
  proof -
    have "\<forall>s' \<in> set (slots child). full h' s'"
    proof (cases "sl ! k")
      case None
      then show ?thesis using s by (auto dest: ctor_slots)
    next
      case (Some x)
      then have "full h (Some child)" using that(2) k64 s nth_mem [of k sl] by auto
      then show ?thesis using h(2) nodes by auto
    qed
    then have "full h (Some child')" using c that(1) h(2) by (simp add: inserted_def)
    then show ?thesis using that k64 by (intro full_set_slot) auto
  qed
  moreover have "look (Suc h) (Some (Node ?c ?sl tg)) j =
      (if r = 0 \<and> j mod 64 ^ Suc h = i mod 64 ^ Suc h then Some item else look (Suc h) (Some (Node c sl tg)) j)" for j
    using c old(1) [of j] k h(2) unfolding look_set_slot [OF k64(2), of h ?c k "Some child'" tg j c tg] div_mod_Suc [of j h i] inserted_def
    by auto
  moreover have "tagged t (Suc h) (Some (Node ?c ?sl tg)) j = tagged t (Suc h) (Some (Node c sl tg)) j" if "t < 2" for t j
    using c old(2) [OF that, of j] that h(2) unfolding tagged_set_slot [OF k64(2) h(1), of t ?c k "Some child'" tg j c tg] inserted_def
    by auto
  moreover have "look (Suc h) (Some (Node c sl tg)) i = look h (Some child) i" using old(1) [of i] k by simp
  moreover have "Node ?c ?sl tg = Node c sl tg" if "r = - EEXIST"
  proof -
    have "look h (Some child) i \<noteq> None" "child' = child" using c that h(2) by (simp_all add: inserted_def)
    then have "sl ! k = Some child" using s h(2) by auto
    then show ?thesis using \<open>child' = child\<close> by (simp add: list_update_same_conv k64)
  qed
  ultimately show ?thesis using c h(2) unfolding inserted_def by auto
qed


lemma insert_down_spec:
  assumes "rt_ok (Suc h) (Some n)" "pool_ok p"
  shows "\<exists>r n' p'. insert_down root (Suc h) index item n p = Some (r, n', p') \<and> inserted h (unat index) item n r n' \<and> pool_ok p' \<and>
    length (preloads p) \<le> length (preloads p') + h \<and> (r = - ENOMEM \<and> \<not> gfp_wait root \<longrightarrow> length (preloads p) < h)"
  using assms
proof (induction h arbitrary: n p)
  case 0
  then obtain c sl tg where n: "n = Node c sl tg" using rt_ok_SucD by blast
  let ?k = "unat index mod 64"
  have k: "offset_of index 0 = ?k" using offset_eq [of index 0] by simp
  have "bit (tg ! t) ?k \<longrightarrow> sl ! ?k \<noteq> None" if "t < 2" for t using 0 n that by simp
  from this [of 0] this [of 1] have l: "length tg = 2" "\<not> bit (tg ! 0) ?k \<and> \<not> bit (tg ! 1) ?k" if "sl ! ?k = None"
    using 0 n that by simp_all
  have "length sl = 64" using 0 n by simp
  then have e: "insert_down root (Suc 0) index item n p =
      Some (if sl ! ?k = None then 0 else - EEXIST,
            if sl ! ?k = None then Node (c + 1) (sl[?k := Some (Item item)]) tg else Node c sl tg, p)"
    using n k l by (auto simp: Let_def split: option.split)
  have "inserted 0 (unat index) item n (if sl ! ?k = None then 0 else - EEXIST)
      (if sl ! ?k = None then Node (c + 1) (sl[?k := Some (Item item)]) tg else Node c sl tg)"
    unfolding n using 0 n by (intro inserted_leaf) auto
  then show ?case unfolding e using 0 by auto
next
  case (Suc h)
  then obtain c sl tg where n: "n = Node c sl tg" using rt_ok_SucD by blast
  let ?k = "unat index div 64 ^ Suc h mod 64"
  have k: "offset_of index (Suc h * 6) = ?k" by (rule offset_eq)
  have l: "length sl = 64" using Suc.prems n by simp
  show ?case
  proof (cases "sl ! ?k")
    case (Some child)
    have "rt_ok (Suc h) (Some child)" using Suc.prems n Some rt_ok_child [of "Suc h" c sl tg ?k] by simp
    from Suc.IH [OF this Suc.prems(2)] obtain r child' p' where
      i: "insert_down root (Suc h) index item child p = Some (r, child', p')" "inserted h (unat index) item child r child'" "pool_ok p'"
        "length (preloads p) \<le> length (preloads p') + h" "r = - ENOMEM \<and> \<not> gfp_wait root \<longrightarrow> length (preloads p) < h" by blast
    have "insert_down root (Suc (Suc h)) index item n p = Some (r, Node c (sl[?k := Some child']) tg, p')"
      using n k l Some i(1) by (subst insert_down.simps(2)) (simp add: Let_def del: mult_Suc insert_down.simps)
    then show ?thesis
      using inserted_inner [OF _ _ refl refl i(2), of c sl tg] Suc.prems n Some i(3-5) by auto
  next
    case None
    from Suc.prems(2) show ?thesis
    proof (cases rule: node_alloc_cases [where root = root])
      case (fail p')
      have "insert_down root (Suc (Suc h)) index item n p = Some (- ENOMEM, n, p')"
        using n k l None fail(1) by (subst insert_down.simps(2)) (simp add: Let_def del: mult_Suc insert_down.simps)
      moreover have "inserted (Suc h) (unat index) item n (- ENOMEM) n" using Suc.prems(1) None n by (auto simp: inserted_def)
      ultimately show ?thesis using fail by auto
    next
      case (got p1)
      obtain r child' p' where
        i: "insert_down root (Suc h) index item radix_tree_node_ctor p1 = Some (r, child', p')"
          "inserted h (unat index) item radix_tree_node_ctor r child'" "pool_ok p'"
          "length (preloads p1) \<le> length (preloads p') + h" "r = - ENOMEM \<and> \<not> gfp_wait root \<longrightarrow> length (preloads p1) < h"
        using Suc.IH [OF ctor_wf got(2)] by blast
      have "insert_down root (Suc (Suc h)) index item n p = Some (r, Node (c + 1) (sl[?k := Some child']) tg, p')"
        using n k l None i(1) got(1) by (subst insert_down.simps(2)) (simp add: Let_def del: mult_Suc insert_down.simps)
      then show ?thesis
        using inserted_inner [OF _ _ refl refl i(2), of c sl tg] Suc.prems n None i(3-5) got(3) by auto
    qed
  qed
qed


section \<open>The whole tree\<close>

text \<open>What a tree maps indices to, which indices have a tag, and the invariant of a root.\<close>

definition content :: "'a radix_tree_root \<Rightarrow> nat \<rightharpoonup> 'a" where
  "content root i = (if i < 64 ^ height root then look (height root) (rnode root) i else None)"

definition tagged_in :: "nat \<Rightarrow> 'a radix_tree_root \<Rightarrow> nat \<Rightarrow> bool" where
  "tagged_in t root i \<longleftrightarrow> i < 64 ^ height root \<and> tagged t (height root) (rnode root) i"

definition root_ok :: "'a radix_tree_root \<Rightarrow> bool" where
  "root_ok root \<longleftrightarrow> height root < RADIX_TREE_MAX_PATH \<and> rt_ok (height root) (rnode root) \<and>
     (rnode root \<noteq> None \<longrightarrow> 0 < height root) \<and> (\<forall>i. content root i \<noteq> None \<longrightarrow> i < 2 ^ 64)"

lemma radix_maxindex: "root_ok root \<Longrightarrow> radix_tree_maxindex (height root) = Some (maxindex (height root))"
  by (simp add: root_ok_def radix_tree_maxindex_def)

lemma root_maxindex: "root_ok root \<Longrightarrow> maxindex (height root) < index \<longleftrightarrow> 64 ^ height root \<le> unat index"
  by (simp add: root_ok_def maxindex_less)

lemma content_look: "unat index < 64 ^ height root \<Longrightarrow> content root (unat index) = look (height root) (rnode root) (unat index)"
  by (simp add: content_def)

lemma extend_height_spec:
  assumes "h < 12"
  shows "\<exists>H. extend_height index h = Some H \<and> h \<le> H \<and> H < 12 \<and> unat index < 64 ^ H"
  using assms
proof (induction "12 - h" arbitrary: h)
  case (Suc d)
  show ?case
  proof (cases "maxindex h < index")
    case False
    then have "extend_height index h = Some h" using Suc.prems by (simp add: extend_height.simps [of index h] radix_tree_maxindex_def)
    then show ?thesis using False Suc.prems maxindex_less [of h index] by auto
  next
    case True
    then have e: "extend_height index h = extend_height index (Suc h)"
      using Suc.prems by (simp add: extend_height.simps [of index h] radix_tree_maxindex_def)
    have "(64 :: nat) ^ h \<le> unat index" using True Suc.prems maxindex_less [of h index] by simp
    moreover have "unat index < 64 ^ 11" using unat_bound [of index] by simp
    ultimately have "(64 :: nat) ^ h < 64 ^ 11" by linarith
    then have "h < 11" using power_strict_increasing_iff [of "64 :: nat" h 11] by simp
    then have "d = 12 - Suc h" "Suc h < 12" using Suc.hyps(2) by simp_all
    then show ?thesis unfolding e using Suc.hyps(1) by (metis Suc_leD)
  qed
qed simp

lemma div_lt: "i < 64 ^ Suc h \<Longrightarrow> i div 64 ^ h mod 64 = 0 \<longleftrightarrow> (i :: nat) < 64 ^ h"
proof -
  assume "i < 64 ^ Suc h"
  then have "i div 64 ^ h < 64" by (simp add: less_mult_imp_div_less mult.commute)
  then show ?thesis by (auto simp: div_eq_0_iff)
qed

lemma extend_step:
  assumes ok: "root_ok root" and n: "rnode root = Some n" and h: "height root < 11"
    and tg: "tg = map (\<lambda>t. if has_tag t (Some n) then 1 else 0) [0, 1]"
    and r': "root' = root\<lparr>rnode := Some (Node 1 ((replicate 64 None)[0 := Some n]) tg), height := height root + 1\<rparr>"
  shows "root_ok root' \<and> content root' = content root \<and> (\<forall>t < 2. tagged_in t root' = tagged_in t root) \<and>
    (\<forall>t < 2. has_tag t (rnode root') = has_tag t (rnode root)) \<and> (full (height root) (rnode root) \<longrightarrow> full (height root') (rnode root'))"
proof -
  let ?h = "height root" and ?sl = "(replicate 64 None)[0 := Some n]"
  have h0: "0 < ?h" and w: "rt_ok ?h (Some n)" using ok n by (auto simp: root_ok_def)
  have bits: "bit (tg ! t) i \<longleftrightarrow> i = 0 \<and> has_tag t (Some n)" if "t < 2" for t i
    using that unfolding tg by (auto simp: bit_1_iff less_2_cases_iff)
  have "occupied ?sl = 1" using occupied_update [of 0 "replicate 64 None" "Some n"] by simp
  moreover have "\<forall>s \<in> set ?sl. rt_ok ?h s" using w set_update_subset_insert [of "replicate 64 None" 0 "Some n"] by auto
  ultimately have w': "rt_ok (Suc ?h) (Some (Node 1 ?sl tg))"
    using h0 bits by (auto simp: tg nth_list_update)
  have c: "content root' = content root"
  proof
    fix i show "content root' i = content root i"
      using div_lt [of i ?h] h0 by (cases "i < 64 ^ Suc ?h") (auto simp: content_def r' n)
  qed
  have "tagged_in t root' = tagged_in t root" for t
  proof
    fix i show "tagged_in t root' i = tagged_in t root i"
      using div_lt [of i ?h] h0 by (cases "i < 64 ^ Suc ?h") (auto simp: tagged_in_def r' n)
  qed
  moreover have "has_tag t (rnode root') = has_tag t (rnode root)" if "t < 2" for t
    using that by (auto simp: r' n tg less_2_cases_iff)
  moreover have "full (height root') (rnode root')" if "full ?h (rnode root)"
    using that full_set_slot [of "replicate 64 None" ?h n 0 1 tg] by (simp add: r' n)
  moreover have "root_ok root'" using ok c w' h by (auto simp: root_ok_def r')
  ultimately show ?thesis using c by blast
qed


lemma extend_loop_spec:
  assumes "root_ok root" "rnode root = Some n" "height root + k < 12" "pool_ok p"
    "tg = [has_tag 0 (Some n), has_tag 1 (Some n)]"
  shows "\<exists>r root' p'. extend_loop k tg root p = Some (r, root', p') \<and> root_ok root' \<and> content root' = content root \<and>
    (\<forall>t < 2. tagged_in t root' = tagged_in t root) \<and> pool_ok p' \<and> gfp_wait root' = gfp_wait root \<and> rnode root' \<noteq> None \<and>
    (r = 0 \<and> height root' = height root + k \<and> (full (height root) (rnode root) \<longrightarrow> full (height root') (rnode root')) \<or> r = - ENOMEM) \<and>
    length (preloads p) \<le> length (preloads p') + k \<and> (r = - ENOMEM \<and> \<not> gfp_wait root \<longrightarrow> length (preloads p) < k)"
  using assms
proof (induction k arbitrary: root n p)
  case 0
  then show ?case by simp
next
  case (Suc k)
  from Suc.prems(4) show ?case
  proof (cases rule: node_alloc_cases [where root = root])
    case (fail p')
    then show ?thesis using Suc.prems by auto
  next
    case (got p1)
    let ?root = "root\<lparr>rnode := Some (Node 1 ((replicate 64 None)[0 := Some n]) (map (\<lambda>t. if has_tag t (Some n) then 1 else 0) [0, 1])),
        height := height root + 1\<rparr>"
    have e: "extend_loop (Suc k) tg root p = extend_loop k tg ?root p1"
      using got(1) Suc.prems(2,5)
      by (cases "has_tag 0 (Some n)"; cases "has_tag 1 (Some n)") (simp_all add: radix_tree_node_ctor_def numeral_2_eq_2 set_bit_eq_or)
    have s: "root_ok ?root \<and> content ?root = content root \<and> (\<forall>t < 2. tagged_in t ?root = tagged_in t root) \<and>
        (\<forall>t < 2. has_tag t (rnode ?root) = has_tag t (rnode root)) \<and> (full (height root) (rnode root) \<longrightarrow> full (height ?root) (rnode ?root))"
      using Suc.prems by (intro extend_step [OF _ _ _ refl refl]) auto
    have tg: "tg = [has_tag 0 (rnode ?root), has_tag 1 (rnode ?root)]" using s Suc.prems(2,5) by simp
    have "\<exists>r root' p'. extend_loop k tg ?root p1 = Some (r, root', p') \<and> root_ok root' \<and> content root' = content ?root \<and>
      (\<forall>t < 2. tagged_in t root' = tagged_in t ?root) \<and> pool_ok p' \<and> gfp_wait root' = gfp_wait ?root \<and> rnode root' \<noteq> None \<and>
      (r = 0 \<and> height root' = height ?root + k \<and> (full (height ?root) (rnode ?root) \<longrightarrow> full (height root') (rnode root')) \<or> r = - ENOMEM) \<and>
      length (preloads p1) \<le> length (preloads p') + k \<and> (r = - ENOMEM \<and> \<not> gfp_wait ?root \<longrightarrow> length (preloads p1) < k)"
      using s Suc.prems(3) got(2) tg by (intro Suc.IH) auto
    then obtain r root' p' where i: "extend_loop k tg ?root p1 = Some (r, root', p')" "root_ok root'" "content root' = content ?root"
      "\<forall>t < 2. tagged_in t root' = tagged_in t ?root" "pool_ok p'" "gfp_wait root' = gfp_wait ?root" "rnode root' \<noteq> None"
      "r = 0 \<and> height root' = height ?root + k \<and> (full (height ?root) (rnode ?root) \<longrightarrow> full (height root') (rnode root')) \<or> r = - ENOMEM"
      "length (preloads p1) \<le> length (preloads p') + k" "r = - ENOMEM \<and> \<not> gfp_wait ?root \<longrightarrow> length (preloads p1) < k" by blast
    have "r = 0 \<and> height root' = height root + Suc k \<and> (full (height root) (rnode root) \<longrightarrow> full (height root') (rnode root')) \<or> r = - ENOMEM"
      using i(8) s by auto
    moreover have "length (preloads p) \<le> length (preloads p') + Suc k" "r = - ENOMEM \<and> \<not> gfp_wait root \<longrightarrow> length (preloads p) < Suc k"
      using i(9,10) got(3) by auto
    moreover have "content root' = content root" "\<forall>t < 2. tagged_in t root' = tagged_in t root" "gfp_wait root' = gfp_wait root"
      using i(3,4,6) s by auto
    ultimately show ?thesis unfolding e using i(1,2,5,7) by blast
  qed
qed

definition tree_full :: "'a radix_tree_root \<Rightarrow> bool" where
  "tree_full root \<longleftrightarrow> full (height root) (rnode root)"

text \<open>The way down once the tree is high enough.\<close>

definition insert_found :: "'a radix_tree_root \<Rightarrow> ulong \<Rightarrow> 'a \<Rightarrow> 'a radix_tree_node \<Rightarrow> 'a radix_tree_pool \<Rightarrow>
    (int \<times> 'a radix_tree_root \<times> 'a radix_tree_pool) option" where
  "insert_found root index item node p = do {
     (r, node, p) \<leftarrow> insert_down root (height root) index item node p;
     Some (r, root\<lparr>rnode := Some node\<rparr>, p)
   }"

lemma insert_found_spec:
  assumes ok: "root_ok root" and h: "0 < height root" and ix: "unat index < 64 ^ height root" and p: "pool_ok p"
    and n: "rnode root = Some n \<or> rnode root = None \<and> n = radix_tree_node_ctor"
  shows "\<exists>r root' p'. insert_found root index item n p = Some (r, root', p') \<and> root_ok root' \<and> pool_ok p' \<and>
    (\<forall>t < 2. tagged_in t root' = tagged_in t root) \<and> rnode root' \<noteq> None \<and>
    (r = 0 \<and> content root (unat index) = None \<and> content root' = (content root)(unat index \<mapsto> item) \<and> (tree_full root \<longrightarrow> tree_full root') \<or>
     r = - EEXIST \<and> content root (unat index) \<noteq> None \<and> root' = root \<or>
     r = - ENOMEM \<and> content root (unat index) = None \<and> content root' = content root) \<and>
    (r = - ENOMEM \<and> \<not> gfp_wait root \<longrightarrow> length (preloads p) < height root - 1)"
proof -
  obtain h' where h': "height root = Suc h'" using h by (cases "height root") auto
  let ?i = "unat index"
  have w: "rt_ok (Suc h') (Some n)" using ok n h' by (auto simp: root_ok_def)
  from insert_down_spec [OF w p, of root index item] obtain r n' p' where
    i: "insert_down root (Suc h') index item n p = Some (r, n', p')" "inserted h' ?i item n r n'" "pool_ok p'"
      "r = - ENOMEM \<and> \<not> gfp_wait root \<longrightarrow> length (preloads p) < h'" by blast
  let ?root = "root\<lparr>rnode := Some n'\<rparr>"
  have old: "look (Suc h') (rnode root) j = look (Suc h') (Some n) j" "t < 2 \<Longrightarrow> tagged t (Suc h') (rnode root) j = tagged t (Suc h') (Some n) j" for t j
    using n by auto
  have c: "content ?root j = (if r = 0 \<and> j = ?i then Some item else content root j)" for j
    using i(2) ix h' old(1) [of j] by (auto simp: inserted_def content_def)
  have "?i < 2 ^ 64" using unat_bound [of index] by simp
  then have "root_ok ?root" using ok i(2) h' c by (auto simp: root_ok_def inserted_def split: if_splits)
  moreover have "tagged_in t ?root = tagged_in t root" if "t < 2" for t
    using i(2) h' old(2) [OF that] that by (auto simp: tagged_in_def inserted_def fun_eq_iff)
  moreover have "content root ?i = look (Suc h') (Some n) ?i" using ix h' old(1) by (simp add: content_def)
  moreover have "?root = root" if "r = - EEXIST"
  proof -
    have "look (Suc h') (Some n) ?i \<noteq> None" "n' = n" using i(2) that by (auto simp: inserted_def)
    then have "rnode root = Some n" using n by auto
    then show ?thesis using \<open>n' = n\<close> by simp
  qed
  moreover have "tree_full ?root" if "r = 0" "tree_full root"
  proof -
    have "full h' s" if "s \<in> set (slots radix_tree_node_ctor)" for s using ctor_slots [OF that] by simp
    then have "\<forall>s \<in> set (slots n). full h' s"
      using n that(2) h' rt_ok_SucD [OF w] by (auto simp: tree_full_def)
    then show ?thesis using i(2) that(1) h' by (simp add: tree_full_def inserted_def)
  qed
  moreover have "content ?root = (if r = 0 then (content root)(?i \<mapsto> item) else content root)" using c by (auto simp: fun_eq_iff)
  moreover have "insert_found root index item n p = Some (r, ?root, p')" using i(1) h' by (simp add: insert_found_def)
  moreover have "r = 0 \<or> r = - EEXIST \<and> look (Suc h') (Some n) ?i \<noteq> None \<or> r = - ENOMEM"
      "r \<noteq> - EEXIST \<longrightarrow> look (Suc h') (Some n) ?i = None" using i(2) by (auto simp: inserted_def)
  ultimately show ?thesis using i(3,4) h' by (intro exI [of _ r] exI [of _ ?root] exI [of _ p']) auto
qed

text \<open>The same with a root node that may have to be allocated.\<close>

definition insert_at_root :: "'a radix_tree_root \<Rightarrow> ulong \<Rightarrow> 'a \<Rightarrow> 'a radix_tree_pool \<Rightarrow>
    (int \<times> 'a radix_tree_root \<times> 'a radix_tree_pool) option" where
  "insert_at_root root index item p =
     (case rnode root of
        Some node \<Rightarrow> insert_found root index item node p
      | None \<Rightarrow>
          (case radix_tree_node_alloc root p of
             (None, p) \<Rightarrow> Some (- ENOMEM, root, p)
           | (Some tmp, p) \<Rightarrow> insert_found root index item tmp p))"

lemma insert_at_root_spec:
  assumes ok: "root_ok root" and h: "0 < height root" and ix: "unat index < 64 ^ height root" and p: "pool_ok p"
  shows "\<exists>r root' p'. insert_at_root root index item p = Some (r, root', p') \<and> root_ok root' \<and> pool_ok p' \<and>
    (\<forall>t < 2. tagged_in t root' = tagged_in t root) \<and>
    (r = 0 \<and> content root (unat index) = None \<and> content root' = (content root)(unat index \<mapsto> item) \<and> (tree_full root \<longrightarrow> tree_full root') \<or>
     r = - EEXIST \<and> content root (unat index) \<noteq> None \<and> root' = root \<or>
     r = - ENOMEM \<and> content root (unat index) = None \<and> content root' = content root) \<and>
    (r = - ENOMEM \<and> \<not> gfp_wait root \<longrightarrow> length (preloads p) < (if rnode root = None then height root else height root - 1))"
proof (cases "rnode root")
  case (Some n)
  then show ?thesis using insert_found_spec [OF ok h ix p, of n item] by (simp add: insert_at_root_def) blast
next
  case None
  from p show ?thesis
  proof (cases rule: node_alloc_cases [where root = root])
    case (fail p')
    then show ?thesis using None ok h by (auto simp: insert_at_root_def content_def)
  next
    case (got p1)
    have "insert_at_root root index item p = insert_found root index item radix_tree_node_ctor p1"
      using None got(1) by (simp add: insert_at_root_def)
    then show ?thesis using insert_found_spec [OF ok h ix got(2), of radix_tree_node_ctor item] None got(3) by fastforce
  qed
qed


lemma insert_eq:
  assumes "root_ok root"
  shows "radix_tree_insert root index item p = do {
     (error, root, p) \<leftarrow> (if index = 0 \<and> rnode root = None \<or> 64 ^ height root \<le> unat index then radix_tree_extend root index p else Some (0, root, p));
     if error \<noteq> 0 then Some (error, root, p)
     else if height root = 0
     then (case rnode root of
             Some _ \<Rightarrow> Some (- EEXIST, root, p)
           | None \<Rightarrow> Some (0, root\<lparr>rnode := Some (Item item)\<rparr>, p))
     else insert_at_root root index item p
   }"
  using radix_maxindex [OF assms] root_maxindex [OF assms, of index]
  by (simp add: radix_tree_insert_def insert_at_root_def insert_found_def Option.is_none_def cong: if_cong option.case_cong)

lemma root_ok_empty: "rnode root = None \<Longrightarrow> h < 12 \<Longrightarrow> root_ok (root\<lparr>height := h\<rparr>)"
  by (auto simp: root_ok_def content_def)

text \<open>An insertion into a tree that has the height for the index, into an empty tree, and into one that is too low.\<close>

lemma insert_fits:
  assumes ok: "root_ok root" and p: "pool_ok p"
    and fits: "\<not> (index = 0 \<and> rnode root = None)" "unat index < 64 ^ height root"
  shows "\<exists>r root' p'. radix_tree_insert root index item p = Some (r, root', p') \<and> root_ok root' \<and> pool_ok p' \<and>
    (\<forall>t < 2. tagged_in t root' = tagged_in t root) \<and>
    (r = 0 \<and> content root (unat index) = None \<and> content root' = (content root)(unat index \<mapsto> item) \<and> (tree_full root \<longrightarrow> tree_full root') \<or>
     r = - EEXIST \<and> content root (unat index) \<noteq> None \<and> root' = root \<or>
     r = - ENOMEM \<and> content root (unat index) = None \<and> content root' = content root) \<and>
    (r = - ENOMEM \<and> \<not> gfp_wait root \<longrightarrow>
       length (preloads p) < (if rnode root = None \<or> unat index < 64 ^ height root then 11 else 20))"
proof -
  let ?i = "unat index"
  have h11: "height root \<le> 11" using ok by (simp add: root_ok_def)
  have h: "0 < height root"
  proof (rule ccontr)
    assume "\<not> 0 < height root"
    then have "height root = 0" "?i = 0" using fits(2) by auto
    then show False using fits(1) ok by (auto simp: root_ok_def unat_eq_0)
  qed
  have "radix_tree_insert root index item p = insert_at_root root index item p"
    unfolding insert_eq [OF ok] using fits h by auto
  then show ?thesis using insert_at_root_spec [OF ok h fits(2) p, of item] fits(2) h11 by (auto split: if_splits)
qed

lemma insert_empty:
  assumes ok: "root_ok root" and p: "pool_ok p" and room: "rnode root = None \<Longrightarrow> height root < 11"
    and empty: "index = 0 \<and> rnode root = None \<or> 64 ^ height root \<le> unat index" "rnode root = None"
  shows "\<exists>r root' p'. radix_tree_insert root index item p = Some (r, root', p') \<and> root_ok root' \<and> pool_ok p' \<and>
    (\<forall>t < 2. tagged_in t root' = tagged_in t root) \<and>
    (r = 0 \<and> content root (unat index) = None \<and> content root' = (content root)(unat index \<mapsto> item) \<and> (tree_full root \<longrightarrow> tree_full root') \<or>
     r = - EEXIST \<and> content root (unat index) \<noteq> None \<and> root' = root \<or>
     r = - ENOMEM \<and> content root (unat index) = None \<and> content root' = content root) \<and>
    (r = - ENOMEM \<and> \<not> gfp_wait root \<longrightarrow>
       length (preloads p) < (if rnode root = None \<or> unat index < 64 ^ height root then 11 else 20))"
proof -
  let ?i = "unat index"
  obtain H where H: "extend_height index (height root + 1) = Some H" "height root + 1 \<le> H" "H < 12" "?i < 64 ^ H"
    using extend_height_spec [of "height root + 1" index] room empty(2) by auto
  let ?root = "root\<lparr>height := H\<rparr>"
  have e: "radix_tree_insert root index item p = insert_at_root ?root index item p"
    unfolding insert_eq [OF ok] using empty H(1,2) by (auto simp: radix_tree_extend_def)
  have ok': "root_ok ?root" using root_ok_empty empty(2) H(3) by blast
  have same: "content ?root = content root" "tagged_in t ?root = tagged_in t root" "tree_full ?root = tree_full root" for t
    using empty(2) by (auto simp: content_def tagged_in_def tree_full_def fun_eq_iff)
  have "0 < height ?root" "?i < 64 ^ height ?root" using H by simp_all
  from insert_at_root_spec [OF ok' this p, of item] obtain r root' p' where
    s: "insert_at_root ?root index item p = Some (r, root', p')" "root_ok root'" "pool_ok p'"
      "\<forall>t < 2. tagged_in t root' = tagged_in t root"
      "r = 0 \<and> content root ?i = None \<and> content root' = (content root)(?i \<mapsto> item) \<and> (tree_full root \<longrightarrow> tree_full root') \<or>
       r = - EEXIST \<and> content root ?i \<noteq> None \<and> root' = ?root \<or>
       r = - ENOMEM \<and> content root ?i = None \<and> content root' = content root"
      "r = - ENOMEM \<and> \<not> gfp_wait root \<longrightarrow> length (preloads p) < H"
    unfolding same using empty(2) by auto
  moreover have "content root ?i = None" using empty(2) by (simp add: content_def)
  ultimately show ?thesis unfolding e using H(3) empty(2) by auto
qed

lemma insert_high:
  assumes ok: "root_ok root" and p: "pool_ok p"
    and high: "64 ^ height root \<le> unat index" "rnode root = Some n"
  shows "\<exists>r root' p'. radix_tree_insert root index item p = Some (r, root', p') \<and> root_ok root' \<and> pool_ok p' \<and>
    (\<forall>t < 2. tagged_in t root' = tagged_in t root) \<and>
    (r = 0 \<and> content root (unat index) = None \<and> content root' = (content root)(unat index \<mapsto> item) \<and> (tree_full root \<longrightarrow> tree_full root') \<or>
     r = - EEXIST \<and> content root (unat index) \<noteq> None \<and> root' = root \<or>
     r = - ENOMEM \<and> content root (unat index) = None \<and> content root' = content root) \<and>
    (r = - ENOMEM \<and> \<not> gfp_wait root \<longrightarrow>
       length (preloads p) < (if rnode root = None \<or> unat index < 64 ^ height root then 11 else 20))"
proof -
  let ?i = "unat index"
  have h11: "height root \<le> 11" using ok by (simp add: root_ok_def)
  have h: "height root < 11"
  proof (rule ccontr)
    assume "\<not> height root < 11"
    then have "height root = 11" using h11 by simp
    then show False using high(1) unat_bound [of index] by simp
  qed
  obtain H where H: "extend_height index (height root + 1) = Some H" "height root + 1 \<le> H" "H < 12" "?i < 64 ^ H"
    using extend_height_spec [of "height root + 1" index] h by auto
  have w: "rt_ok (height root) (Some n)" "0 < height root" using ok high(2) by (auto simp: root_ok_def)
  then obtain c sl tg where n: "n = Node c sl tg" "length tg = 2" by (cases "height root"; cases n) auto
  have x: "radix_tree_extend root index p = extend_loop (H - height root) [has_tag 0 (Some n), has_tag 1 (Some n)] root p"
    using H(1) high(2) n by (simp add: radix_tree_extend_def)
  from ok high(2) have "\<exists>r root' p'. extend_loop (H - height root) [has_tag 0 (Some n), has_tag 1 (Some n)] root p = Some (r, root', p') \<and> root_ok root' \<and> content root' = content root \<and>
    (\<forall>t < 2. tagged_in t root' = tagged_in t root) \<and> pool_ok p' \<and> gfp_wait root' = gfp_wait root \<and> rnode root' \<noteq> None \<and>
    (r = 0 \<and> height root' = height root + (H - height root) \<and> (full (height root) (rnode root) \<longrightarrow> full (height root') (rnode root')) \<or> r = - ENOMEM) \<and>
    length (preloads p) \<le> length (preloads p') + (H - height root) \<and> (r = - ENOMEM \<and> \<not> gfp_wait root \<longrightarrow> length (preloads p) < (H - height root))"
    by (rule extend_loop_spec) (use H p in auto)
  then obtain r1 root1 p1 where
    s1: "extend_loop (H - height root) [has_tag 0 (Some n), has_tag 1 (Some n)] root p = Some (r1, root1, p1)" "root_ok root1" "content root1 = content root"
      "\<forall>t < 2. tagged_in t root1 = tagged_in t root" "pool_ok p1" "gfp_wait root1 = gfp_wait root" "rnode root1 \<noteq> None"
      "r1 = 0 \<and> height root1 = H \<and> (tree_full root \<longrightarrow> tree_full root1) \<or> r1 = - ENOMEM"
      "length (preloads p) \<le> length (preloads p1) + (H - height root)" "r1 = - ENOMEM \<and> \<not> gfp_wait root \<longrightarrow> length (preloads p) < H - height root"
    using H(2) by (auto simp: tree_full_def)
  have none: "content root ?i = None" using high(1) by (simp add: content_def)
  show ?thesis
  proof (cases "r1 = 0")
    case False
    then have "radix_tree_insert root index item p = Some (- ENOMEM, root1, p1)"
      unfolding insert_eq [OF ok] using high x s1(1,8) by simp
    then show ?thesis using False s1 none w(2) H(3) high by auto
  next
    case True
    then have h1: "height root1 = H" "tree_full root \<longrightarrow> tree_full root1" using s1(8) by auto
    have e: "radix_tree_insert root index item p = insert_at_root root1 index item p1"
      unfolding insert_eq [OF ok] using high x s1(1) True h1(1) H(2) by simp
    have "0 < height root1" "?i < 64 ^ height root1" using h1 H by simp_all
    from insert_at_root_spec [OF s1(2) this s1(5), of item] obtain r root' p' where
      s: "insert_at_root root1 index item p1 = Some (r, root', p')" "root_ok root'" "pool_ok p'"
        "\<forall>t < 2. tagged_in t root' = tagged_in t root"
        "r = 0 \<and> content root' = (content root)(?i \<mapsto> item) \<and> (tree_full root \<longrightarrow> tree_full root') \<or>
         r = - ENOMEM \<and> content root' = content root"
        "r = - ENOMEM \<and> \<not> gfp_wait root \<longrightarrow> length (preloads p1) < H - 1"
      unfolding s1(3,6) using s1(4,7) h1 none by auto
    moreover have "length (preloads p1) < H - 1 \<longrightarrow> length (preloads p) < 20"
      using s1(9) H(2,3) w(2) by linarith
    ultimately show ?thesis unfolding e using none high by auto
  qed
qed

text \<open>The one insertion that does not return: \<^verbatim>\<open>radix_tree_extend\<close> reads the entry behind the end of \<^verbatim>\<open>height_to_maxindex\<close>.\<close>

definition beyond_maxindex :: "'a radix_tree_root \<Rightarrow> ulong \<Rightarrow> bool" where
  "beyond_maxindex root index \<longleftrightarrow> rnode root = None \<and> height root = RADIX_TREE_MAX_PATH - 1 \<and> index = 0"

lemma insert_beyond: "beyond_maxindex root index \<Longrightarrow> radix_tree_insert root index item p = None"
  by (auto simp: beyond_maxindex_def radix_tree_insert_def radix_tree_extend_def radix_tree_maxindex_def extend_height.simps)

lemma radix_tree_insert_spec:
  assumes ok: "root_ok root" and p: "pool_ok p" and room: "\<not> beyond_maxindex root index"
  shows "\<exists>r root' p'. radix_tree_insert root index item p = Some (r, root', p') \<and> root_ok root' \<and> pool_ok p' \<and>
    (\<forall>t < 2. tagged_in t root' = tagged_in t root) \<and>
    (r = 0 \<and> content root (unat index) = None \<and> content root' = (content root)(unat index \<mapsto> item) \<and> (tree_full root \<longrightarrow> tree_full root') \<or>
     r = - EEXIST \<and> content root (unat index) \<noteq> None \<and> root' = root \<or>
     r = - ENOMEM \<and> content root (unat index) = None \<and> content root' = content root) \<and>
    (r = - ENOMEM \<and> \<not> gfp_wait root \<longrightarrow>
       length (preloads p) < (if rnode root = None \<or> unat index < 64 ^ height root then 11 else 20))"
proof -
  consider (fits) "\<not> (index = 0 \<and> rnode root = None)" "unat index < 64 ^ height root"
    | (empty) "index = 0 \<and> rnode root = None \<or> 64 ^ height root \<le> unat index" "rnode root = None"
    | (high) n where "64 ^ height root \<le> unat index" "rnode root = Some n" by (cases "rnode root") fastforce+
  then show ?thesis
  proof cases
    case fits
    from insert_fits [OF ok p this] show ?thesis .
  next
    case empty
    have "unat index < 64 ^ 11" using unat_bound [of index] by simp
    moreover have "height root < 12" using ok by (simp add: root_ok_def)
    ultimately have "height root < 11"
      using room empty by (cases "height root = 11") (auto simp: beyond_maxindex_def)
    from insert_empty [OF ok p this empty] show ?thesis .
  next
    case high
    from insert_high [OF ok p this] show ?thesis .
  qed
qed

section \<open>Lookup and tags\<close>

lemma lookup_down_spec: "rt_ok h s \<Longrightarrow> lookup_down h index s = Some (map_option Item (look h s (unat index)))"
proof (induction h arbitrary: s)
  case 0
  then show ?case by (auto simp: rt_ok_0)
next
  case (Suc h)
  show ?case
  proof (cases s)
    case (Some n)
    then obtain c sl tg where n: "n = Node c sl tg" using Suc.prems rt_ok_SucD by blast
    then show ?thesis using Suc.IH [of "sl ! (unat index div 64 ^ h mod 64)"] Suc.prems Some by (simp add: offset_eq)
  qed simp
qed

lemma radix_tree_lookup_spec:
  assumes "root_ok root"
  shows "radix_tree_lookup root index = Some (map_option Item (content root (unat index)))"
  using assms lookup_down_spec [of "height root" "rnode root" index] radix_maxindex [OF assms] root_maxindex [OF assms, of index]
  by (auto simp: radix_tree_lookup_def content_def root_ok_def)

lemma tag_set_eq: "t < length tg \<Longrightarrow> tag_set (Node c sl tg) t k = Some (Node c sl (tg[t := set_bit k (tg ! t)]))"
proof -
  have "set_bit k w = w" if "bit w k" for w :: ulong using that by (intro bit_word_eqI) (auto simp: bit_set_bit_iff)
  then show "t < length tg \<Longrightarrow> ?thesis" by auto
qed

lemma set_bit_nonzero: "k < 64 \<Longrightarrow> set_bit k (w :: ulong) \<noteq> 0"
  unfolding word_nonzero_bit by (auto simp: bit_set_bit_iff intro!: exI [of _ k])

lemma tag_set_down_spec:
  assumes "rt_ok (Suc h) (Some n)" "look (Suc h) (Some n) (unat index) = Some x" "t < 2"
  shows "\<exists>n'. tag_set_down (Suc h) index t (Some n) = Some (Some (Item x), Some n') \<and> rt_ok (Suc h) (Some n') \<and>
    look (Suc h) (Some n') = look (Suc h) (Some n) \<and>
    (\<forall>t' < 2. \<forall>j. tagged t' (Suc h) (Some n') j \<longleftrightarrow> tagged t' (Suc h) (Some n) j \<or> t' = t \<and> j mod 64 ^ Suc h = unat index mod 64 ^ Suc h) \<and>
    (\<forall>t' < 2. has_tag t' (Some n') \<longleftrightarrow> has_tag t' (Some n) \<or> t' = t) \<and> (full (Suc h) (Some n) \<longrightarrow> full (Suc h) (Some n'))"
  using assms(1,2)
proof (induction h arbitrary: n)
  case 0
  then obtain c sl tg where n: "n = Node c sl tg" using rt_ok_SucD by blast
  let ?k = "unat index mod 64" and ?tg = "tg[t := set_bit (unat index mod 64) (tg ! t)]"
  have l: "length sl = 64" "length tg = 2" using 0 n by simp_all
  have k: "offset_of index 0 = ?k" using offset_eq [of index 0] by simp
  have x: "sl ! ?k = Some (Item x)" using 0 n by (cases "(0 :: nat, sl ! ?k, unat index)" rule: look.cases) auto
  have "tag_set_down (Suc 0) index t (Some n) = Some (Some (Item x), Some (Node c sl ?tg))"
    using n k x l assms(3) list_update_id [of sl ?k] by (simp add: tag_set_eq Let_def del: tag_set.simps)
  moreover have "rt_ok (Suc 0) (Some (Node c sl ?tg))"
    using 0 n l x assms(3) by (auto simp: nth_list_update bit_set_bit_iff)
  moreover have "tagged t' (Suc 0) (Some (Node c sl ?tg)) j \<longleftrightarrow> tagged t' (Suc 0) (Some n) j \<or> t' = t \<and> j mod 64 ^ Suc 0 = unat index mod 64 ^ Suc 0"
    for t' j using n l assms(3) by (auto simp: nth_list_update bit_set_bit_iff)
  moreover have "has_tag t' (Some (Node c sl ?tg)) \<longleftrightarrow> has_tag t' (Some n) \<or> t' = t" for t'
    using n l assms(3) set_bit_nonzero [of ?k] by (auto simp: nth_list_update)
  moreover have "look (Suc 0) (Some (Node c sl ?tg)) = look (Suc 0) (Some n)" using n by (auto simp: fun_eq_iff)
  moreover have "full (Suc 0) (Some n) \<longrightarrow> full (Suc 0) (Some (Node c sl ?tg))" using n by simp
  ultimately show ?case by blast
next
  case (Suc h)
  then obtain c sl tg where n: "n = Node c sl tg" using rt_ok_SucD by blast
  let ?k = "unat index div 64 ^ Suc h mod 64" and ?tg = "tg[t := set_bit (unat index div 64 ^ Suc h mod 64) (tg ! t)]"
  have l: "length sl = 64" "length tg = 2" using Suc.prems n by simp_all
  have k: "offset_of index (Suc h * 6) = ?k" by (rule offset_eq)
  have w: "rt_ok (Suc (Suc h)) (Some (Node c sl tg))" using Suc.prems n by simp
  have x: "look (Suc h) (sl ! ?k) (unat index) = Some x" using Suc.prems(2) n by simp
  then obtain child where ch: "sl ! ?k = Some child" by (cases "sl ! ?k") auto
  have "rt_ok (Suc h) (Some child)" using rt_ok_child [OF w, of ?k] ch by simp
  from Suc.IH [OF this] x ch obtain child' where
    i: "tag_set_down (Suc h) index t (Some child) = Some (Some (Item x), Some child')" "rt_ok (Suc h) (Some child')"
      "look (Suc h) (Some child') = look (Suc h) (Some child)"
      "\<And>t' j. t' < 2 \<Longrightarrow> tagged t' (Suc h) (Some child') j \<longleftrightarrow> tagged t' (Suc h) (Some child) j \<or> t' = t \<and> j mod 64 ^ Suc h = unat index mod 64 ^ Suc h"
      "\<And>t'. t' < 2 \<Longrightarrow> has_tag t' (Some child') \<longleftrightarrow> has_tag t' (Some child) \<or> t' = t" "full (Suc h) (Some child) \<longrightarrow> full (Suc h) (Some child')"
    by auto
  let ?n = "Node c (sl[?k := Some child']) ?tg"
  have "tag_set_down (Suc (Suc h)) index t (Some n) = Some (Some (Item x), Some ?n)"
    using n k l ch assms(3) i(1) by (subst tag_set_down.simps(2)) (simp add: tag_set_eq Let_def del: tag_set.simps tag_set_down.simps mult_Suc)
  moreover have "rt_ok (Suc (Suc h)) (Some ?n)"
  proof -
    have "occupied (sl[?k := Some child']) = occupied sl" using occupied_update [of ?k sl "Some child'"] ch l by simp
    moreover have "\<forall>s \<in> set (sl[?k := Some child']). rt_ok (Suc h) s"
      using w i(2) set_update_subset_insert [of sl ?k "Some child'"] by auto
    moreover have "bit (?tg ! t') j = has_tag t' (sl[?k := Some child'] ! j)" if "t' < 2" "j < 64" for t' j
      using w that ch i(5) [OF that(1)] l assms(3) by (auto simp: nth_list_update bit_set_bit_iff)
    ultimately show ?thesis using w by simp
  qed
  moreover have "look (Suc (Suc h)) (Some ?n) = look (Suc (Suc h)) (Some n)"
  proof
    fix j show "look (Suc (Suc h)) (Some ?n) j = look (Suc (Suc h)) (Some n) j"
      unfolding look_set_slot [OF l(1), of "Suc h" c ?k _ _ j c tg] n using i(3) ch by auto
  qed
  moreover have "tagged t' (Suc (Suc h)) (Some ?n) j \<longleftrightarrow> tagged t' (Suc (Suc h)) (Some n) j \<or> t' = t \<and> j mod 64 ^ Suc (Suc h) = unat index mod 64 ^ Suc (Suc h)"
    if "t' < 2" for t' j
    unfolding tagged_set_slot [OF l(1) zero_less_Suc, of t' h c ?k _ _ j c tg] div_mod_Suc [of j "Suc h"] n using i(4) [OF that] ch by auto
  moreover have "has_tag t' (Some ?n) \<longleftrightarrow> has_tag t' (Some n) \<or> t' = t" for t'
    using n l assms(3) set_bit_nonzero [of ?k] by (auto simp: nth_list_update)
  moreover have "full (Suc (Suc h)) (Some ?n)" if "full (Suc (Suc h)) (Some n)"
  proof (rule full_set_slot)
    show "\<forall>s \<in> set sl. full (Suc h) s" using that n by simp
    then have "full (Suc h) (Some child)" using ch l nth_mem [of ?k sl] by force
    then show "full (Suc h) (Some child')" using i(6) by simp
  qed (use l in simp)
  ultimately show ?case by blast
qed

lemma radix_tree_tag_set_spec:
  assumes ok: "root_ok root" and x: "content root (unat index) = Some x" and t: "t < 2"
  shows "\<exists>root'. radix_tree_tag_set root index t = Some (Some (Item x), root') \<and> root_ok root' \<and> content root' = content root \<and>
    (\<forall>t' < 2. \<forall>j. tagged_in t' root' j \<longleftrightarrow> tagged_in t' root j \<or> t' = t \<and> j = unat index) \<and> (tree_full root \<longrightarrow> tree_full root')"
proof -
  have ix: "unat index < 64 ^ height root" "look (height root) (rnode root) (unat index) = Some x"
    using x by (auto simp: content_def split: if_splits)
  then obtain n where n: "rnode root = Some n" by (cases "rnode root") auto
  then obtain h where h: "height root = Suc h" "rt_ok (Suc h) (Some n)" using ok by (cases "height root") (auto simp: root_ok_def)
  obtain n' where s: "tag_set_down (Suc h) index t (Some n) = Some (Some (Item x), Some n')" "rt_ok (Suc h) (Some n')"
    "look (Suc h) (Some n') = look (Suc h) (Some n)"
    "\<And>t' j. t' < 2 \<Longrightarrow> tagged t' (Suc h) (Some n') j \<longleftrightarrow> tagged t' (Suc h) (Some n) j \<or> t' = t \<and> j mod 64 ^ Suc h = unat index mod 64 ^ Suc h"
    "full (Suc h) (Some n) \<longrightarrow> full (Suc h) (Some n')"
    using tag_set_down_spec [OF h(2) _ t, of index x] ix n h(1) by auto
  let ?root = "root\<lparr>rnode := Some n'\<rparr>"
  have c: "content ?root = content root" using s(3) n h(1) by (auto simp: content_def fun_eq_iff)
  have "radix_tree_tag_set root index t = Some (Some (Item x), ?root)"
    using radix_maxindex [OF ok] root_maxindex [OF ok, of index] ix(1) s(1) n h(1) by (simp add: radix_tree_tag_set_def)
  moreover have "root_ok ?root" using ok c s(2) h(1) by (simp add: root_ok_def)
  moreover have "tagged_in t' ?root j \<longleftrightarrow> tagged_in t' root j \<or> t' = t \<and> j = unat index" if "t' < 2" for t' j
    using s(4) [OF that, of j] n h(1) ix(1) by (auto simp: tagged_in_def)
  moreover have "tree_full root \<longrightarrow> tree_full ?root" using s(5) n h(1) by (simp add: tree_full_def)
  ultimately show ?thesis using c by blast
qed

section \<open>Paths\<close>

lemma look_0: "look 0 s i = Some x \<longleftrightarrow> s = Some (Item x)"
  by (cases "(0 :: nat, s, i)" rule: look.cases) auto

text \<open>The nodes on the way to index \<open>i\<close>, the lowest first.\<close>

fun path_of :: "nat \<Rightarrow> nat \<Rightarrow> 'a radix_tree_node \<Rightarrow> 'a radix_tree_path" where
  "path_of 0 i n = [(n, i mod 64)]"
| "path_of (Suc h) i n =
     path_of h i (the (slots n ! (i div 64 ^ Suc h mod 64))) @ [(n, i div 64 ^ Suc h mod 64)]"

lemma path_of_not_Nil [simp]: "path_of h i n \<noteq> []"
  by (cases h) auto

lemma path_down_found:
  assumes "rt_ok (Suc h) (Some n)" "look (Suc h) (Some n) (unat index) = Some x"
  shows "path_down (Suc h) index (Some n) rest = Some (Some (path_of h (unat index) n @ rest, Some (Item x)))"
  using assms
proof (induction h arbitrary: n rest)
  case 0
  then obtain c sl tg where n: "n = Node c sl tg" using rt_ok_SucD by blast
  have "sl ! (unat index mod 64) = Some (Item x)" using 0 n by (simp add: look_0)
  then show ?case using 0 n offset_eq [of index 0] by simp
next
  case (Suc h)
  then obtain c sl tg where n: "n = Node c sl tg" using rt_ok_SucD by blast
  let ?k = "unat index div 64 ^ Suc h mod 64"
  have w: "rt_ok (Suc (Suc h)) (Some (Node c sl tg))" and l: "length sl = 64" using Suc.prems n by simp_all
  have x: "look (Suc h) (sl ! ?k) (unat index) = Some x" using Suc.prems(2) n by simp
  then obtain child where ch: "sl ! ?k = Some child" by (cases "sl ! ?k") auto
  then have "rt_ok (Suc h) (Some child)" using rt_ok_child [OF w, of ?k] by simp
  with Suc.IH [of child "(n, ?k) # rest"] x ch
  have "path_down (Suc h) index (Some child) ((n, ?k) # rest) = Some (Some (path_of h (unat index) child @ (n, ?k) # rest, Some (Item x)))"
    by simp
  then show ?case using n ch l offset_eq [of index "Suc h"]
    by (subst path_down.simps(2)) (simp del: path_down.simps mult_Suc power_Suc)
qed

lemma path_down_missing:
  assumes "rt_ok h s" "look h s (unat index) = None"
  shows "\<exists>r. path_down h index s rest = Some r \<and> (\<forall>q e. r = Some (q, e) \<longrightarrow> e = None)"
  using assms
proof (induction h arbitrary: s rest)
  case 0
  then show ?case by (auto simp: rt_ok_0)
next
  case (Suc h)
  show ?case
  proof (cases s)
    case (Some n)
    then obtain c sl tg where n: "n = Node c sl tg" using Suc.prems rt_ok_SucD by blast
    then show ?thesis
      using Suc.IH [of "sl ! (unat index div 64 ^ h mod 64)"] Suc.prems Some by (simp add: offset_eq Let_def)
  qed simp
qed

text \<open>
  What \<open>delete_up\<close> computes on a path whose slots are not null, as every path of \<open>path_down\<close> is.
\<close>

fun cut_path :: "'a radix_tree_path \<Rightarrow> 'a radix_tree_node option \<times> 'a radix_tree_node list" where
  "cut_path [] = (None, [])"
| "cut_path ((node, offset) # path) =
     (let node = set_count (\<lambda>c. c - 1) (set_slot node offset None)
      in if node_count node = 0
         then (let (slot, freed) = cut_path path in (slot, node # freed))
         else (path_up (Some node) path, []))"

fun linked_path :: "'a radix_tree_node option \<Rightarrow> 'a radix_tree_path \<Rightarrow> bool" where
  "linked_path rn [] \<longleftrightarrow> True"
| "linked_path rn (_ # path) \<longleftrightarrow> (\<exists>n. slot_above rn path = Some (Some n)) \<and> linked_path rn path"

lemma delete_up_linked: "linked_path rn path \<Longrightarrow> delete_up rn path = Some (cut_path path)"
  by (induction path) (auto simp: Let_def BUG_ON_def split: prod.split)

lemma linked_path_of:
  assumes "rt_ok (Suc h) (Some n)" "look (Suc h) (Some n) i = Some x" "slot_above rn rest = Some (Some n)" "linked_path rn rest"
  shows "linked_path rn (path_of h i n @ rest)"
  using assms
proof (induction h arbitrary: n rest)
  case (Suc h)
  then obtain c sl tg where n: "n = Node c sl tg" using rt_ok_SucD by blast
  let ?k = "i div 64 ^ Suc h mod 64"
  have l: "length sl = 64" using Suc.prems n by simp
  have x: "look (Suc h) (sl ! ?k) i = Some x" using Suc.prems(2) n by simp
  then obtain child where ch: "sl ! ?k = Some child" by (cases "sl ! ?k") auto
  then have "rt_ok (Suc h) (Some child)" using rt_ok_child [of "Suc h" c sl tg ?k] Suc.prems(1) n by simp
  then have "linked_path rn (path_of h i child @ (n, ?k) # rest)" using Suc.prems x ch n l by (intro Suc.IH) auto
  then show ?case using n ch by simp
qed auto

text \<open>The loop over the tags leaves the slots alone.\<close>

lemma tag_clear_slot: "tag_clear n tag k = Some n' \<Longrightarrow> get_slot n' j = get_slot n j"
  by (cases n) (auto split: if_splits)

lemma delete_tags_node_slot: "delete_tags_node ts k kept nr n = Some (kept', nr', n') \<Longrightarrow> get_slot n' j = get_slot n j"
  by (induction ts k kept nr n rule: delete_tags_node.induct) (auto simp: bind_Some_iff dest!: tag_clear_slot split: if_splits)

lemma linked_path_cong: "list_all2 (\<lambda>(n, k) (n', k'). get_slot n k = get_slot n' k') p p' \<Longrightarrow> linked_path rn p \<longleftrightarrow> linked_path rn p'"
proof (induction p p' rule: list_all2_induct)
  case (Cons x xs y ys)
  then have "slot_above rn xs = slot_above rn ys" by (cases xs; cases ys) auto
  then show ?case using Cons by simp
qed simp

lemma delete_tags_up_slots:
  "delete_tags_up kept p = Some p' \<Longrightarrow> list_all2 (\<lambda>(n, k) (n', k'). get_slot n k = get_slot n' k') p p'"
proof (induction kept p arbitrary: p' rule: delete_tags_up.induct)
  case (2 kept node offset path)
  then obtain kept' nr n' where n: "delete_tags_node [0..<2] offset kept 2 node = Some (kept', nr, n')" by (auto simp: bind_Some_iff)
  then show ?case using 2 delete_tags_node_slot [OF n, of offset]
    by (auto simp: bind_Some_iff intro: list_all2_refl split: if_splits)
qed simp

text \<open>Paths that agree but for the slots they lead through.\<close>

definition same_path :: "'a radix_tree_path \<Rightarrow> 'a radix_tree_path \<Rightarrow> bool" where
  "same_path = list_all2 (\<lambda>(n, k) (m, k'). k' = k \<and> set_slot n k None = set_slot m k None)"

lemma set_slot_again [simp]: "set_slot (set_slot n k s) k s' = set_slot n k s'"
  by (cases n) auto

lemma set_slot_same: "set_slot n k None = set_slot m k None \<Longrightarrow> set_slot n k s = set_slot m k s"
  by (metis set_slot_again)

lemma same_path_up: "same_path q q' \<Longrightarrow> path_up s (q @ rest) = path_up s (q' @ rest)"
  unfolding same_path_def
proof (induction q q' arbitrary: s rule: list_all2_induct)
  case (Cons x xs y ys)
  then show ?case using set_slot_same by (cases x; cases y) fastforce
qed simp

lemma same_cut_path: "same_path q q' \<Longrightarrow> cut_path (q @ rest) = cut_path (q' @ rest)"
  unfolding same_path_def
proof (induction q q' rule: list_all2_induct)
  case (Cons x xs y ys)
  have "path_up s (xs @ rest) = path_up s (ys @ rest)" for s using Cons.hyps same_path_up unfolding same_path_def by blast
  then show ?case using Cons set_slot_same by (cases x; cases y) (auto simp: Let_def)
qed simp

lemma same_path_append: "same_path q q' \<Longrightarrow> set_slot n k None = set_slot m k None \<Longrightarrow> same_path (q @ [(n, k)]) (q' @ [(m, k)])"
  by (auto simp: same_path_def intro!: list_all2_appendI)

lemma same_path_refl: "same_path q q"
  by (auto simp: same_path_def intro: list_all2_refl)

lemma path_up_path_of:
  assumes "rt_ok (Suc h) (Some n)" "look (Suc h) (Some n) i = Some x"
  shows "path_up (Some (Item x)) (path_of h i n @ rest) = path_up (Some n) rest"
  using assms
proof (induction h arbitrary: n rest)
  case 0
  then obtain c sl tg where n: "n = Node c sl tg" using rt_ok_SucD by blast
  have "sl ! (i mod 64) = Some (Item x)" using 0 n by (simp add: look_0)
  then have "sl[i mod 64 := Some (Item x)] = sl" by (metis list_update_id)
  then show ?case using n by simp
next
  case (Suc h)
  then obtain c sl tg where n: "n = Node c sl tg" using rt_ok_SucD by blast
  let ?k = "i div 64 ^ Suc h mod 64"
  have w: "rt_ok (Suc (Suc h)) (Some (Node c sl tg))" using Suc.prems n by simp
  have x: "look (Suc h) (sl ! ?k) i = Some x" using Suc.prems(2) n by simp
  then obtain child where ch: "sl ! ?k = Some child" by (cases "sl ! ?k") auto
  then have "rt_ok (Suc h) (Some child)" using rt_ok_child [OF w, of ?k] by simp
  moreover have "sl[?k := Some child] = sl" using ch by (metis list_update_id)
  ultimately show ?case using Suc.IH [of child "(n, ?k) # rest"] x ch n by (simp del: power_Suc)
qed

text \<open>The tags in \<open>T\<close> taken from index \<open>i\<close>.\<close>

definition untagged :: "nat set \<Rightarrow> nat \<Rightarrow> nat \<Rightarrow> 'a radix_tree_node \<Rightarrow> 'a radix_tree_node \<Rightarrow> bool" where
  "untagged T h i n n' \<longleftrightarrow>
     rt_ok (Suc h) (Some n') \<and> look (Suc h) (Some n') = look (Suc h) (Some n) \<and>
     (\<forall>t < 2. \<forall>j. tagged t (Suc h) (Some n') j \<longleftrightarrow> tagged t (Suc h) (Some n) j \<and> \<not> (t \<in> T \<and> j mod 64 ^ Suc h = i mod 64 ^ Suc h)) \<and>
     (\<forall>t < 2. has_tag t (Some n') \<longrightarrow> has_tag t (Some n)) \<and> (\<forall>t < 2. t \<notin> T \<longrightarrow> has_tag t (Some n') = has_tag t (Some n)) \<and>
     (full (Suc h) (Some n) \<longrightarrow> full (Suc h) (Some n'))"

lemma bit_unset: "k < 64 \<Longrightarrow> bit (unset_bit k (w :: ulong)) j \<longleftrightarrow> bit w j \<and> j \<noteq> k"
  by (auto simp: bit_unset_bit_iff)

lemma untagged_leaf:
  assumes w: "rt_ok (Suc 0) (Some (Node c sl tg))" and tg: "length tg' = 2"
    "\<And>t. t < 2 \<Longrightarrow> tg' ! t = (if t \<in> T then unset_bit (i mod 64) (tg ! t) else tg ! t)"
  shows "untagged T 0 i (Node c sl tg) (Node c sl tg')"
proof -
  have "unset_bit k w \<noteq> 0 \<Longrightarrow> w \<noteq> 0" for k and w :: ulong by (auto simp: unset_bit_eq_and_not)
  then show ?thesis using w tg by (auto simp: untagged_def fun_eq_iff bit_unset)
qed

lemma untagged_inner:
  assumes w: "rt_ok (Suc (Suc h)) (Some (Node c sl tg))" and k: "k = i div 64 ^ Suc h mod 64" and ch: "sl ! k = Some child"
    and u: "untagged T h i child child'" and tg: "length tg' = 2"
      "\<And>t. t < 2 \<Longrightarrow> tg' ! t = (if has_tag t (Some child') \<or> t \<notin> T then tg ! t else unset_bit k (tg ! t))"
  shows "untagged T (Suc h) i (Node c sl tg) (Node c (sl[k := Some child']) tg')" (is "untagged _ _ _ _ ?n")
proof -
  have k64: "k < 64" "length sl = 64" using k w by auto
  have "bit (tg' ! t) j = has_tag t (sl[k := Some child'] ! j)" if t: "t < 2" and j: "j < 64" for t j
  proof (cases "j = k")
    case True
    have "bit (tg ! t) k = has_tag t (Some child)" using w t k64 ch by auto
    moreover have "has_tag t (Some child') \<longrightarrow> has_tag t (Some child)" "t \<notin> T \<longrightarrow> has_tag t (Some child') = has_tag t (Some child)"
      using u t by (auto simp: untagged_def)
    ultimately show ?thesis using True tg(2) [OF t] k64 by (auto simp: bit_unset)
  next
    case False
    then show ?thesis using w t j tg(2) [OF t] k64 by (auto simp: bit_unset)
  qed
  moreover have "occupied (sl[k := Some child']) = occupied sl" using occupied_update [of k sl "Some child'"] ch k64 by simp
  moreover have "\<forall>s \<in> set (sl[k := Some child']). rt_ok (Suc h) s"
    using w u set_update_subset_insert [of sl k "Some child'"] by (auto simp: untagged_def)
  ultimately have "rt_ok (Suc (Suc h)) (Some ?n)" using w tg(1) by simp
  moreover have "look (Suc (Suc h)) (Some ?n) = look (Suc (Suc h)) (Some (Node c sl tg))"
  proof
    fix j show "look (Suc (Suc h)) (Some ?n) j = look (Suc (Suc h)) (Some (Node c sl tg)) j"
      unfolding look_set_slot [OF k64(2), of "Suc h" c k _ _ j c tg] using u ch by (auto simp: untagged_def)
  qed
  moreover have "tagged t (Suc (Suc h)) (Some ?n) j \<longleftrightarrow>
      tagged t (Suc (Suc h)) (Some (Node c sl tg)) j \<and> \<not> (t \<in> T \<and> j mod 64 ^ Suc (Suc h) = i mod 64 ^ Suc (Suc h))" if "t < 2" for t j
    unfolding tagged_set_slot [OF k64(2) zero_less_Suc, of t h c k _ _ j c tg] div_mod_Suc [of j "Suc h"]
    using u ch k that by (auto simp: untagged_def)
  moreover have "unset_bit k v \<noteq> 0 \<Longrightarrow> v \<noteq> 0" for v :: ulong by (auto simp: unset_bit_eq_and_not)
  then have "has_tag t (Some ?n) \<longrightarrow> has_tag t (Some (Node c sl tg))" "t \<notin> T \<longrightarrow> has_tag t (Some ?n) = has_tag t (Some (Node c sl tg))"
    if "t < 2" for t using tg(2) [OF that] by (auto split: if_splits)
  moreover have "full (Suc (Suc h)) (Some ?n)" if "full (Suc (Suc h)) (Some (Node c sl tg))"
  proof (rule full_set_slot)
    show "\<forall>s \<in> set sl. full (Suc h) s" using that by simp
    then have "full (Suc h) (Some child)" using ch k64 nth_mem [of k sl] by force
    then show "full (Suc h) (Some child')" using u by (simp add: untagged_def)
  qed (use k64 in simp)
  ultimately show ?thesis unfolding untagged_def by blast
qed


lemma tag_clear_up_spec:
  assumes "rt_ok (Suc h) (Some n)" "look (Suc h) (Some n) i = Some x" "t < 2"
  shows "\<exists>q n'. (\<forall>rest. tag_clear_up t (path_of h i n @ rest) =
      (if \<not> has_tag t (Some n') \<and> rest \<noteq> [] then map_option ((@) q) (tag_clear_up t rest) else Some (q @ rest))) \<and>
    same_path q (path_of h i n') \<and> untagged {t} h i n n'"
  using assms(1,2)
proof (induction h arbitrary: n)
  case 0
  then obtain c sl tg where n: "n = Node c sl tg" using rt_ok_SucD by blast
  let ?tg = "tg[t := unset_bit (i mod 64) (tg ! t)]"
  have "untagged {t} 0 i n (Node c sl ?tg)" using 0 n by (auto intro!: untagged_leaf simp: nth_list_update)
  moreover have "tag_clear_up t (path_of 0 i n @ rest) =
      (if \<not> has_tag t (Some (Node c sl ?tg)) \<and> rest \<noteq> [] then map_option ((@) [(Node c sl ?tg, i mod 64)]) (tag_clear_up t rest)
       else Some ([(Node c sl ?tg, i mod 64)] @ rest))" for rest
    using 0 n assms(3) by (cases "tag_clear_up t rest") auto
  ultimately show ?case using same_path_refl
    by (intro exI [of _ "[(Node c sl ?tg, i mod 64)]"] exI [of _ "Node c sl ?tg"]) auto
next
  case (Suc h)
  then obtain c sl tg where n: "n = Node c sl tg" using rt_ok_SucD by blast
  let ?k = "i div 64 ^ Suc h mod 64"
  have w: "rt_ok (Suc (Suc h)) (Some (Node c sl tg))" and l: "length tg = 2" using Suc.prems n by simp_all
  have x: "look (Suc h) (sl ! ?k) i = Some x" using Suc.prems(2) n by simp
  then obtain child where ch: "sl ! ?k = Some child" by (cases "sl ! ?k") auto
  then have "rt_ok (Suc h) (Some child)" using rt_ok_child [OF w, of ?k] by simp
  with Suc.IH [of child] x ch obtain q child' where
    i: "\<And>rest. tag_clear_up t (path_of h i child @ rest) =
      (if \<not> has_tag t (Some child') \<and> rest \<noteq> [] then map_option ((@) q) (tag_clear_up t rest) else Some (q @ rest))"
      "same_path q (path_of h i child')" "untagged {t} h i child child'" by auto
  let ?tg = "if has_tag t (Some child') then tg else tg[t := unset_bit ?k (tg ! t)]"
  let ?n = "Node c (sl[?k := Some child']) ?tg" and ?m = "Node c sl ?tg"
  have u: "untagged {t} (Suc h) i n ?n"
    unfolding n using ch i(3) l assms(3) by (intro untagged_inner [OF w refl]) (auto simp: nth_list_update)
  have p: "path_of (Suc h) i ?n = path_of h i child' @ [(?n, ?k)]" using w by (simp del: power_Suc)
  have "same_path (q @ [(?m, ?k)]) (path_of (Suc h) i ?n)" unfolding p by (rule same_path_append [OF i(2)]) simp
  moreover have "tag_clear_up t (path_of (Suc h) i n @ rest) =
      (if \<not> has_tag t (Some ?n) \<and> rest \<noteq> [] then map_option ((@) (q @ [(?m, ?k)])) (tag_clear_up t rest) else Some ((q @ [(?m, ?k)]) @ rest))" for rest
  proof -
    have "tag_clear_up t (path_of (Suc h) i n @ rest) = tag_clear_up t (path_of h i child @ (n, ?k) # rest)"
      using n ch by (simp del: power_Suc)
    also have "\<dots> = (if \<not> has_tag t (Some child') then map_option ((@) q) (tag_clear_up t ((n, ?k) # rest)) else Some (q @ (n, ?k) # rest))"
      unfolding i(1) by simp
    also have "\<dots> = (if \<not> has_tag t (Some ?n) \<and> rest \<noteq> [] then map_option ((@) (q @ [(?m, ?k)])) (tag_clear_up t rest) else Some ((q @ [(?m, ?k)]) @ rest))"
    proof (cases "has_tag t (Some child')")
      case True
      then have "has_tag t (Some child)" using i(3) assms(3) by (simp add: untagged_def)
      then have "bit (tg ! t) ?k" using w assms(3) ch by auto
      then have "has_tag t (Some ?n)" using True by auto
      then show ?thesis using True n by auto
    next
      case False
      then show ?thesis using n l assms(3) by (cases "tag_clear_up t rest") auto
    qed
    finally show ?thesis .
  qed
  ultimately show ?case using u by blast
qed

lemma radix_tree_tag_clear_spec:
  assumes ok: "root_ok root" and t: "t < 2"
  shows "\<exists>root'. radix_tree_tag_clear root index t = Some (map_option Item (content root (unat index)), root') \<and> root_ok root' \<and>
    content root' = content root \<and> (\<forall>t' < 2. \<forall>j. tagged_in t' root' j \<longleftrightarrow> tagged_in t' root j \<and> \<not> (t' = t \<and> j = unat index)) \<and>
    (tree_full root \<longrightarrow> tree_full root')"
proof (cases "content root (unat index)")
  case None
  have nt: "\<not> tagged_in t (root) (unat index)"
    using None ok t tagged_look [of "height root" "rnode root" t "unat index"] by (auto simp: tagged_in_def content_def root_ok_def)
  have "radix_tree_tag_clear root index t = Some (None, root)"
  proof (cases "unat index < 64 ^ height root")
    case True
    then have "\<exists>r. path_down (height root) index (rnode root) [] = Some r \<and> (\<forall>q e. r = Some (q, e) \<longrightarrow> e = None)"
      using None ok by (intro path_down_missing) (auto simp: content_def root_ok_def)
    then show ?thesis using True radix_maxindex [OF ok] root_maxindex [OF ok, of index]
      by (auto simp: radix_tree_tag_clear_def split: option.splits)
  qed (use radix_maxindex [OF ok] root_maxindex [OF ok, of index] in \<open>simp add: radix_tree_tag_clear_def\<close>)
  then show ?thesis using None nt ok by auto
next
  case (Some x)
  then have ix: "unat index < 64 ^ height root" "look (height root) (rnode root) (unat index) = Some x"
    by (auto simp: content_def split: if_splits)
  then obtain n where n: "rnode root = Some n" by (cases "rnode root") auto
  then obtain h where h: "height root = Suc h" "rt_ok (Suc h) (Some n)" using ok by (cases "height root") (auto simp: root_ok_def)
  have lk: "look (Suc h) (Some n) (unat index) = Some x" using ix n h by simp
  obtain q n' where s: "\<And>rest. tag_clear_up t (path_of h (unat index) n @ rest) =
      (if \<not> has_tag t (Some n') \<and> rest \<noteq> [] then map_option ((@) q) (tag_clear_up t rest) else Some (q @ rest))"
    "same_path q (path_of h (unat index) n')" "untagged {t} h (unat index) n n'"
    using tag_clear_up_spec [OF h(2) lk t] by blast
  let ?root = "root\<lparr>rnode := Some n'\<rparr>"
  have "path_up (Some (Item x)) q = Some n'"
    using same_path_up [OF s(2), of "Some (Item x)" "[]"] path_up_path_of [of h n' "unat index" x "[]"] s(3) lk by (simp add: untagged_def)
  then have "radix_tree_tag_clear root index t = Some (Some (Item x), ?root)"
    using radix_maxindex [OF ok] root_maxindex [OF ok, of index] ix(1) n h(1) s(1) [of "[]"] path_down_found [OF h(2) lk, of "[]"]
    by (simp add: radix_tree_tag_clear_def del: path_down.simps)
  moreover have c: "content ?root = content root" using s(3) n h(1) by (auto simp: content_def fun_eq_iff untagged_def)
  moreover have "root_ok ?root" using ok c s(3) h(1) by (simp add: root_ok_def untagged_def)
  moreover have "tagged_in t' ?root j \<longleftrightarrow> tagged_in t' root j \<and> \<not> (t' = t \<and> j = unat index)" if "t' < 2" for t' j
    using s(3) that n h(1) ix(1) by (auto simp: tagged_in_def untagged_def)
  moreover have "tree_full root \<longrightarrow> tree_full ?root" using s(3) n h(1) by (simp add: tree_full_def untagged_def)
  ultimately show ?thesis using Some by auto
qed


section \<open>Deletion\<close>

lemma delete_tags_node_spec:
  assumes "length tg = 2" "length kept = 2"
  shows "\<exists>kept' nr tg'. delete_tags_node [0..<2] k kept 2 (Node c sl tg) = Some (kept', nr, Node c sl tg') \<and>
    length kept' = 2 \<and> length tg' = 2 \<and> (nr = 0 \<longrightarrow> (\<forall>t < 2. kept' ! t)) \<and>
    (\<forall>t < 2. tg' ! t = (if kept ! t then tg ! t else unset_bit k (tg ! t)) \<and> (kept' ! t \<longleftrightarrow> kept ! t \<or> tg' ! t \<noteq> 0))"
proof -
  obtain a b where kept: "kept = [a, b]" using assms(2) by (auto simp: numeral_2_eq_2 length_Suc_conv)
  obtain v w where tg: "tg = [v, w]" using assms(1) by (auto simp: numeral_2_eq_2 length_Suc_conv)
  have "[0..<2] = [0, 1 :: nat]" by (simp add: upt_rec)
  then show ?thesis unfolding kept tg by (auto simp: less_2_cases_iff)
qed

lemma delete_tags_up_spec:
  assumes "rt_ok (Suc h) (Some n)" "look (Suc h) (Some n) i = Some x"
  shows "\<exists>q n' go kept. (\<forall>rest. delete_tags_up [False, False] (path_of h i n @ rest) =
      (if go \<and> rest \<noteq> [] then map_option ((@) q) (delete_tags_up kept rest) else Some (q @ rest))) \<and>
    same_path q (path_of h i n') \<and> untagged {0, 1} h i n n' \<and> length kept = 2 \<and>
    (\<forall>t < 2. kept ! t = has_tag t (Some n')) \<and> (\<not> go \<longrightarrow> (\<forall>t < 2. has_tag t (Some n')))"
  using assms
proof (induction h arbitrary: n)
  case 0
  then obtain c sl tg where n: "n = Node c sl tg" using rt_ok_SucD by blast
  have F: "[False, False] ! t = False" if "t < 2" for t using that by (auto simp: less_2_cases_iff)
  have l: "length tg = 2" "length [False, False] = 2" using 0 n by simp_all
  obtain kept nr tg' where d: "delete_tags_node [0..<2] (i mod 64) [False, False] 2 n = Some (kept, nr, Node c sl tg')"
    "length kept = 2" "length tg' = 2" "nr = 0 \<longrightarrow> (\<forall>t < 2. kept ! t)"
    "\<And>t. t < 2 \<Longrightarrow> tg' ! t = (if [False, False] ! t then tg ! t else unset_bit (i mod 64) (tg ! t)) \<and> (kept ! t \<longleftrightarrow> [False, False] ! t \<or> tg' ! t \<noteq> 0)"
    using delete_tags_node_spec [OF l, of "i mod 64" c sl] n by blast
  have "untagged {0, 1} 0 i n (Node c sl tg')" unfolding n
    using 0 n d(3,5) F by (intro untagged_leaf) (auto simp: less_2_cases_iff)
  moreover have "delete_tags_up [False, False] (path_of 0 i n @ rest) =
      (if nr \<noteq> 0 \<and> rest \<noteq> [] then map_option ((@) [(Node c sl tg', i mod 64)]) (delete_tags_up kept rest)
       else Some ([(Node c sl tg', i mod 64)] @ rest))" for rest
    using d(1) by (cases "delete_tags_up kept rest") auto
  moreover have "same_path [(Node c sl tg', i mod 64)] (path_of 0 i (Node c sl tg'))" using same_path_refl by simp
  moreover have "\<forall>t < 2. kept ! t = has_tag t (Some (Node c sl tg'))" using d(5) F by simp
  ultimately show ?case using d(2,4) by blast
next
  case (Suc h)
  then obtain c sl tg where n: "n = Node c sl tg" using rt_ok_SucD by blast
  let ?k = "i div 64 ^ Suc h mod 64"
  have w: "rt_ok (Suc (Suc h)) (Some (Node c sl tg))" and l: "length tg = 2" using Suc.prems n by simp_all
  have x: "look (Suc h) (sl ! ?k) i = Some x" using Suc.prems(2) n by simp
  then obtain child where ch: "sl ! ?k = Some child" by (cases "sl ! ?k") auto
  then have "rt_ok (Suc h) (Some child)" using rt_ok_child [OF w, of ?k] by simp
  with Suc.IH [of child] x ch obtain q child' go kept where
    i: "\<And>rest. delete_tags_up [False, False] (path_of h i child @ rest) =
      (if go \<and> rest \<noteq> [] then map_option ((@) q) (delete_tags_up kept rest) else Some (q @ rest))"
      "same_path q (path_of h i child')" "untagged {0, 1} h i child child'" "length kept = 2"
      "\<And>t. t < 2 \<Longrightarrow> kept ! t = has_tag t (Some child')" "\<not> go \<longrightarrow> (\<forall>t < 2. has_tag t (Some child'))" by auto
  have up: "delete_tags_up [False, False] (path_of (Suc h) i n @ rest) =
      (if go then map_option ((@) q) (delete_tags_up kept ((n, ?k) # rest)) else Some (q @ (n, ?k) # rest))" for rest
    using i(1) [of "(n, ?k) # rest"] n ch by (simp del: power_Suc)
  have bitk: "has_tag t (Some child') \<longrightarrow> tg ! t \<noteq> 0" if "t < 2" for t
  proof
    assume "has_tag t (Some child')"
    then have "has_tag t (Some child)" using i(3) that by (simp add: untagged_def)
    then have "bit (tg ! t) ?k" using w that ch by auto
    then show "tg ! t \<noteq> 0" by auto
  qed
  show ?case
  proof (cases go)
    case False
    let ?n = "Node c (sl[?k := Some child']) tg"
    have "untagged {0, 1} (Suc h) i n ?n"
      unfolding n using ch i(3,6) l False by (intro untagged_inner [OF w refl]) auto
    moreover have "path_of (Suc h) i ?n = path_of h i child' @ [(?n, ?k)]" using w by (simp del: power_Suc)
    then have "same_path (q @ [(n, ?k)]) (path_of (Suc h) i ?n)" using same_path_append [OF i(2), of n ?k ?n] n by simp
    moreover have "\<forall>t < 2. has_tag t (Some ?n)" using i(6) False bitk by auto
    ultimately show ?thesis using up False i(4-6)
      by (intro exI [of _ "q @ [(n, ?k)]"] exI [of _ ?n] exI [of _ False] exI [of _ kept]) auto
  next
    case True
    obtain kept' nr tg' where d: "delete_tags_node [0..<2] ?k kept 2 n = Some (kept', nr, Node c sl tg')"
      "length kept' = 2" "length tg' = 2" "nr = 0 \<longrightarrow> (\<forall>t < 2. kept' ! t)"
      "\<And>t. t < 2 \<Longrightarrow> tg' ! t = (if kept ! t then tg ! t else unset_bit ?k (tg ! t)) \<and> (kept' ! t \<longleftrightarrow> kept ! t \<or> tg' ! t \<noteq> 0)"
      using delete_tags_node_spec [OF l i(4), of ?k c sl] n by blast
    let ?n = "Node c (sl[?k := Some child']) tg'" and ?m = "Node c sl tg'"
    have u: "untagged {0, 1} (Suc h) i n ?n"
      unfolding n using ch i(3,5) d(3,5) by (intro untagged_inner [OF w refl]) (auto simp: less_2_cases_iff)
    have "path_of (Suc h) i ?n = path_of h i child' @ [(?n, ?k)]" using w by (simp del: power_Suc)
    then have s: "same_path (q @ [(?m, ?k)]) (path_of (Suc h) i ?n)" using same_path_append [OF i(2), of ?m ?k ?n] by simp
    have kt: "kept' ! t = has_tag t (Some ?n)" if "t < 2" for t using d(5) [OF that] i(5) [OF that] bitk [OF that] by auto
    have "delete_tags_up [False, False] (path_of (Suc h) i n @ rest) =
        (if nr \<noteq> 0 \<and> rest \<noteq> [] then map_option ((@) (q @ [(?m, ?k)])) (delete_tags_up kept' rest) else Some ((q @ [(?m, ?k)]) @ rest))" for rest
      unfolding up using True d(1) by (cases "delete_tags_up kept' rest") auto
    then show ?thesis using u s kt d(2,4) by blast
  qed
qed

text \<open>A node whose last slot goes is as the constructor leaves it.\<close>

lemma last_slot_ctor:
  assumes w: "rt_ok (Suc h) (Some (Node c sl tg))" and k: "k < 64" and z: "occupied (sl[k := None]) = 0"
    and t: "\<And>t. t < 2 \<Longrightarrow> \<not> bit (tg ! t) k"
  shows "Node 0 (sl[k := None]) tg = radix_tree_node_ctor" "\<not> has_tag t (Some (Node c sl tg)) \<or> \<not> t < 2"
proof -
  have l: "length sl = 64" "length tg = 2" using w by simp_all
  have none: "sl[k := None] ! j = None" if "j < 64" for j using z that l unfolding occupied_0 by simp
  then have "sl[k := None] = replicate 64 None" using l by (intro nth_equalityI) auto
  moreover have "tg ! t' = 0" if "t' < 2" for t'
  proof (rule ccontr)
    assume "tg ! t' \<noteq> 0"
    then obtain j where j: "j < 64" "bit (tg ! t') j" using word_nonzero_bit by blast
    then have "j \<noteq> k" using t that by auto
    then have "sl ! j = None" using none [OF j(1)] by simp
    moreover have "if h = 0 then bit (tg ! t') j \<longrightarrow> sl ! j \<noteq> None else bit (tg ! t') j = has_tag t' (sl ! j)"
      using w j(1) that by simp
    ultimately show False using j(2) by (simp split: if_splits)
  qed
  then have tg: "tg ! t' = 0" if "t' < 2" for t' using that .
  then have "tg = replicate 2 0" using l by (intro nth_equalityI) auto
  ultimately show "Node 0 (sl[k := None]) tg = radix_tree_node_ctor" by (simp add: radix_tree_node_ctor_def)
  show "\<not> has_tag t (Some (Node c sl tg)) \<or> \<not> t < 2" using tg by auto
qed

definition deleted :: "nat \<Rightarrow> nat \<Rightarrow> 'a radix_tree_node \<Rightarrow> 'a radix_tree_node option \<Rightarrow> 'a radix_tree_node list \<Rightarrow> bool" where
  "deleted h i n new freed \<longleftrightarrow>
     (\<forall>rest. cut_path (path_of h i n @ rest) =
        (case new of
           Some n' \<Rightarrow> (path_up (Some n') rest, freed)
         | None \<Rightarrow> (let (s, f) = cut_path rest in (s, freed @ f)))) \<and>
     rt_ok (Suc h) new \<and>
     (\<forall>j. look (Suc h) new j = (if j mod 64 ^ Suc h = i mod 64 ^ Suc h then None else look (Suc h) (Some n) j)) \<and>
     (\<forall>t < 2. \<forall>j. tagged t (Suc h) new j = tagged t (Suc h) (Some n) j) \<and>
     (\<forall>t < 2. has_tag t new = has_tag t (Some n)) \<and> set freed \<subseteq> {radix_tree_node_ctor} \<and>
     (full (Suc h) (Some n) \<longrightarrow> full (Suc h) new)"

text \<open>One node of the last loop: its slot \<open>k\<close> has become empty.\<close>

lemma delete_slot:
  assumes w: "rt_ok (Suc h) (Some (Node c sl tg))" and k: "k < 64" and s: "sl ! k \<noteq> None"
    and t': "\<forall>t < 2. \<not> bit (tg ! t) k"
  defines "n' \<equiv> Node (c - 1) (sl[k := None]) tg" and "new \<equiv> (if c - 1 = 0 then None else Some (Node (c - 1) (sl[k := None]) tg))"
  shows "cut_path ((Node c sl tg, k) # rest) =
      (case new of Some n' \<Rightarrow> (path_up (Some n') rest, []) | None \<Rightarrow> (let (s, f) = cut_path rest in (s, n' # f)))"
    and "rt_ok (Suc h) new" and "new = None \<Longrightarrow> n' = radix_tree_node_ctor"
    and "look (Suc h) new j = (if j div 64 ^ h mod 64 = k then None else look (Suc h) (Some (Node c sl tg)) j)"
    and "0 < h \<Longrightarrow> t < 2 \<Longrightarrow> tagged t (Suc h) new j = (if j div 64 ^ h mod 64 = k then False else tagged t (Suc h) (Some (Node c sl tg)) j)"
    and "h = 0 \<Longrightarrow> t < 2 \<Longrightarrow> tagged t (Suc h) new j = tagged t (Suc h) (Some (Node c sl tg)) j"
    and "t < 2 \<Longrightarrow> has_tag t new = has_tag t (Some (Node c sl tg))"
    and "full (Suc h) (Some (Node c sl tg)) \<Longrightarrow> full (Suc h) new"
proof -
  have t: "\<not> bit (tg ! t) k" if "t < 2" for t using t' that by blast
  have l: "length sl = 64" "length tg = 2" using w by simp_all
  have occ: "occupied sl = Suc (occupied (sl[k := None]))" using occupied_update [of k sl None] s k l by simp
  then have c1: "c - 1 = of_nat (occupied (sl[k := None]))" using w by simp
  then have zero: "c - 1 = 0 \<longleftrightarrow> occupied (sl[k := None]) = 0" using of_nat_occupied_0 [of "sl[k := None]"] l by simp
  have sub: "\<forall>s \<in> set (sl[k := None]). rt_ok h s" using w set_update_subset_insert [of sl k None] by auto
  have all: "sl[k := None] ! j = None" if "c - 1 = 0" "j < 64" for j using zero that l unfolding occupied_0 by simp
  note z = last_slot_ctor [OF w k _ t]
  show "cut_path ((Node c sl tg, k) # rest) =
      (case new of Some n' \<Rightarrow> (path_up (Some n') rest, []) | None \<Rightarrow> (let (s, f) = cut_path rest in (s, n' # f)))"
    by (simp add: new_def n'_def Let_def)
  have "if h = 0 then bit (tg ! t) j \<longrightarrow> sl[k := None] ! j \<noteq> None else bit (tg ! t) j = has_tag t (sl[k := None] ! j)"
    if "t < 2" "j < 64" for t j
    using w that t [OF that(1)] l by (cases "j = k") (auto split: if_splits)
  then show "rt_ok (Suc h) new" using l c1 sub by (simp add: new_def)
  show "n' = radix_tree_node_ctor" if "new = None"
    using that z(1) zero c1 by (auto simp: new_def n'_def split: if_splits)
  show "look (Suc h) new j = (if j div 64 ^ h mod 64 = k then None else look (Suc h) (Some (Node c sl tg)) j)"
  proof (cases "c - 1 = 0")
    case True
    then have "sl ! (j div 64 ^ h mod 64) = None" if "j div 64 ^ h mod 64 \<noteq> k" using all [of "j div 64 ^ h mod 64"] that by simp
    then show ?thesis using True by (auto simp: new_def)
  next
    case False
    then show ?thesis using look_set_slot [OF l(1), of h "c - 1" k None tg j c tg] by (simp add: new_def)
  qed
  show "tagged t (Suc h) new j = (if j div 64 ^ h mod 64 = k then False else tagged t (Suc h) (Some (Node c sl tg)) j)"
    if h: "0 < h" and "t < 2"
  proof (cases "c - 1 = 0")
    case True
    then have "sl ! (j div 64 ^ h mod 64) = None" if "j div 64 ^ h mod 64 \<noteq> k" using all [of "j div 64 ^ h mod 64"] that by simp
    then show ?thesis using True h by (auto simp: new_def)
  next
    case False
    then show ?thesis using tagged_set_slot [OF l(1) h, of t "c - 1" k None tg j c tg] by (simp add: new_def)
  qed
  have tz: "tg ! t = 0" if "c - 1 = 0" "t < 2" using z(2) [of t] zero that by auto
  show "tagged t (Suc h) new j = tagged t (Suc h) (Some (Node c sl tg)) j" if "h = 0" "t < 2"
    using that tz by (auto simp: new_def)
  show "has_tag t new = has_tag t (Some (Node c sl tg))" if "t < 2" using tz that by (simp add: new_def)
  show "full (Suc h) new" if f: "full (Suc h) (Some (Node c sl tg))"
  proof -
    have "\<forall>s \<in> set (sl[k := None]). full h s" using f set_update_subset_insert [of sl k None] by auto
    then show ?thesis using zero by (simp add: new_def)
  qed
qed

lemma cut_path_spec:
  assumes "rt_ok (Suc h) (Some n)" "look (Suc h) (Some n) i = Some x" "\<And>t. t < 2 \<Longrightarrow> \<not> tagged t (Suc h) (Some n) i"
  shows "\<exists>new freed. deleted h i n new freed"
  using assms
proof (induction h arbitrary: n)
  case 0
  then obtain c sl tg where n: "n = Node c sl tg" using rt_ok_SucD by blast
  let ?k = "i mod 64"
  have w: "rt_ok (Suc 0) (Some (Node c sl tg))" and s: "sl ! ?k \<noteq> None" and t: "\<forall>t < 2. \<not> bit (tg ! t) ?k"
    using 0 n by (auto simp: look_0)
  note d = delete_slot [OF w mod_less_divisor [OF zero_less_numeral] s t]
  let ?new = "if c - 1 = 0 then None else Some (Node (c - 1) (sl[?k := None]) tg)"
  let ?freed = "if c - 1 = 0 then [Node (c - 1) (sl[?k := None]) tg] else []"
  have del: "cut_path (path_of 0 i n @ rest) = (case ?new of
      Some n' \<Rightarrow> (path_up (Some n') rest, ?freed) | None \<Rightarrow> (let (s, f) = cut_path rest in (s, ?freed @ f)))" for rest
    using d(1) [of rest] n by (auto simp: split_beta Let_def)
  have lk: "look (Suc 0) ?new j = (if j mod 64 ^ Suc 0 = i mod 64 ^ Suc 0 then None else look (Suc 0) (Some n) j)" for j
    using d(4) [of j] unfolding n by (simp only: power_0 div_by_1 power_one_right One_nat_def [symmetric])
  have fr: "set ?freed \<subseteq> {radix_tree_node_ctor}" using d(3) by (cases "c - 1 = 0") auto
  have "deleted 0 i n ?new ?freed"
    unfolding deleted_def using del lk fr d(2) d(6) [OF refl] d(7,8) n by blast
  then show ?case by blast
next
  case (Suc h)
  then obtain c sl tg where n: "n = Node c sl tg" using rt_ok_SucD by blast
  let ?k = "i div 64 ^ Suc h mod 64"
  have k: "?k < 64" by simp
  have w: "rt_ok (Suc (Suc h)) (Some (Node c sl tg))" and l: "length sl = 64" using Suc.prems n by simp_all
  have x: "look (Suc h) (sl ! ?k) i = Some x" using Suc.prems(2) n by simp
  then obtain child where ch: "sl ! ?k = Some child" by (cases "sl ! ?k") auto
  have "rt_ok (Suc h) (Some child)" using rt_ok_child [OF w k] ch by simp
  moreover have "\<not> tagged t (Suc h) (Some child) i" if "t < 2" for t using Suc.prems(3) [OF that] n ch by simp
  ultimately obtain new freed where d: "deleted h i child new freed" using Suc.IH [of child] x ch by auto
  have up: "cut_path (path_of (Suc h) i n @ rest) = (case new of
      Some n' \<Rightarrow> (path_up (Some (set_slot n ?k (Some n'))) rest, freed)
    | None \<Rightarrow> (let (s, f) = cut_path ((n, ?k) # rest) in (s, freed @ f)))" for rest
    using d n ch by (simp add: deleted_def del: power_Suc cut_path.simps split: option.split)
  show ?case
  proof (cases new)
    case (Some n')
    let ?n = "Node c (sl[?k := Some n']) tg"
    have "occupied (sl[?k := Some n']) = occupied sl" using occupied_update [of ?k sl "Some n'"] ch l by simp
    then have "rt_ok (Suc (Suc h)) (Some ?n)" using w d Some ch by (intro rt_ok_set_slot [OF w]) (auto simp: deleted_def)
    moreover have "look (Suc (Suc h)) (Some ?n) j =
        (if j mod 64 ^ Suc (Suc h) = i mod 64 ^ Suc (Suc h) then None else look (Suc (Suc h)) (Some n) j)" for j
      unfolding look_set_slot [OF l, of "Suc h" c ?k "Some n'" tg j c tg] div_mod_Suc [of j "Suc h"] n
      using d Some ch by (auto simp: deleted_def)
    moreover have "tagged t (Suc (Suc h)) (Some ?n) j = tagged t (Suc (Suc h)) (Some n) j" if "t < 2" for t j
      unfolding tagged_set_slot [OF l zero_less_Suc, of t h c ?k "Some n'" tg j c tg] n using d Some ch that by (auto simp: deleted_def)
    moreover have "full (Suc (Suc h)) (Some ?n)" if f: "full (Suc (Suc h)) (Some n)"
    proof (rule full_set_slot)
      show "\<forall>s \<in> set sl. full (Suc h) s" using f n by simp
      then have "full (Suc h) (Some child)" using ch l nth_mem [of ?k sl] by force
      then show "full (Suc h) (Some n')" using d Some by (simp add: deleted_def)
    qed (use l in simp)
    ultimately have "deleted (Suc h) i n (Some ?n) freed" unfolding deleted_def up using Some n d by (auto simp: deleted_def)
    then show ?thesis by blast
  next
    case None
    have t: "\<forall>t < 2. \<not> bit (tg ! t) ?k" using d None w ch by (auto simp: deleted_def)
    note e = delete_slot [OF w k _ t]
    let ?new = "if c - 1 = 0 then None else Some (Node (c - 1) (sl[?k := None]) tg)"
    let ?freed = "freed @ (if c - 1 = 0 then [Node (c - 1) (sl[?k := None]) tg] else [])"
    have s: "sl ! ?k \<noteq> None" using ch by simp
    have none: "look (Suc h) (Some child) j = None" if "j mod 64 ^ Suc h \<noteq> i mod 64 ^ Suc h" for j
      using d None that by (simp add: deleted_def) (metis (no_types))
    have nt: "\<not> tagged t (Suc h) (Some child) j" if "t < 2" for t j using d None that by (simp add: deleted_def)
    have lk: "look (Suc (Suc h)) ?new j = (if j mod 64 ^ Suc (Suc h) = i mod 64 ^ Suc (Suc h) then None else look (Suc (Suc h)) (Some n) j)" for j
      unfolding e(4) [OF s] div_mod_Suc [of j "Suc h"] n using none [of j] ch by auto
    have tg: "tagged t (Suc (Suc h)) ?new j = tagged t (Suc (Suc h)) (Some n) j" if "t < 2" for t j
      unfolding e(5) [OF s zero_less_Suc that] n using nt [OF that] ch by auto
    have del: "cut_path (path_of (Suc h) i n @ rest) = (case ?new of
        Some n' \<Rightarrow> (path_up (Some n') rest, ?freed) | None \<Rightarrow> (let (s, f) = cut_path rest in (s, ?freed @ f)))" for rest
      using up [of rest] e(1) [OF s, of rest] None n by (auto simp: split_beta Let_def simp del: path_of.simps cut_path.simps)
    have "set ?freed \<subseteq> {radix_tree_node_ctor}" using d e(3) [OF s] by (auto simp: deleted_def)
    then have "deleted (Suc h) i n ?new ?freed"
      unfolding deleted_def using del lk tg e(2,7,8) [OF s] n by blast
    then show ?thesis by blast
  qed
qed


lemma full_content: "rt_ok (Suc h) (Some n) \<Longrightarrow> full (Suc h) (Some n) \<Longrightarrow> \<exists>i < 64 ^ Suc h. look (Suc h) (Some n) i \<noteq> None"
proof (induction h arbitrary: n)
  case 0
  then obtain c sl tg where n: "n = Node c sl tg" using rt_ok_SucD by blast
  then obtain s where "s \<in> set sl" "s \<noteq> None" using 0 occupied_0 [of sl] by auto
  then obtain k where "k < 64" "sl ! k \<noteq> None" using 0 n by (auto simp: in_set_conv_nth)
  moreover then have "rt_ok 0 (sl ! k)" using 0 n by simp
  ultimately show ?case using n by (intro exI [of _ k]) (auto simp: rt_ok_0)
next
  case (Suc h)
  then obtain c sl tg where n: "n = Node c sl tg" using rt_ok_SucD by blast
  then obtain s where "s \<in> set sl" "s \<noteq> None" using Suc.prems occupied_0 [of sl] by auto
  then obtain k child where k: "k < 64" "sl ! k = Some child" using Suc.prems n by (auto simp: in_set_conv_nth)
  have "Some child \<in> set sl" using k Suc.prems n nth_mem [of k sl] by force
  then have "rt_ok (Suc h) (Some child)" "full (Suc h) (Some child)" using Suc.prems n by auto
  then obtain j where j: "j < 64 ^ Suc h" "look (Suc h) (Some child) j \<noteq> None" using Suc.IH by blast
  let ?i = "64 ^ Suc h * k + j"
  have "look (Suc (Suc h)) (Some n) ?i = look (Suc h) (Some child) ?i" using n k j(1) by (simp del: power_Suc)
  moreover have "look (Suc h) (Some child) ?i = look (Suc h) (Some child) j" by (rule look_mod) simp
  moreover have "?i < 64 ^ Suc (Suc h)"
  proof -
    have "?i < 64 ^ Suc h * Suc k" using j(1) by simp
    also have "\<dots> \<le> 64 ^ Suc h * 64" using k(1) by (intro mult_le_mono2) simp
    finally show ?thesis by simp
  qed
  ultimately show ?case using j(2) by metis
qed

lemma radix_tree_delete_spec:
  assumes ok: "root_ok root"
  shows "\<exists>root' freed. radix_tree_delete root index = Some (map_option Item (content root (unat index)), root', freed) \<and> root_ok root' \<and>
    content root' = (content root)(unat index := None) \<and>
    (\<forall>t < 2. \<forall>j. tagged_in t root' j \<longleftrightarrow> tagged_in t root j \<and> j \<noteq> unat index) \<and>
    set freed \<subseteq> {radix_tree_node_ctor} \<and> (tree_full root \<longrightarrow> tree_full root') \<and>
    (content root (unat index) \<noteq> None \<and> rnode root' = None \<longrightarrow> height root' = 0)"
proof (cases "content root (unat index)")
  case None
  have nt: "\<not> tagged_in t root (unat index)" if "t < 2" for t
    using None ok that tagged_look [of "height root" "rnode root" t "unat index"] by (auto simp: tagged_in_def content_def root_ok_def)
  have "radix_tree_delete root index = Some (None, root, [])"
  proof (cases "unat index < 64 ^ height root")
    case True
    then have "\<exists>r. path_down (height root) index (rnode root) [] = Some r \<and> (\<forall>q e. r = Some (q, e) \<longrightarrow> e = None)"
      using None ok by (intro path_down_missing) (auto simp: content_def root_ok_def)
    then show ?thesis using True radix_maxindex [OF ok] root_maxindex [OF ok, of index]
      by (auto simp: radix_tree_delete_def split: option.splits)
  qed (use radix_maxindex [OF ok] root_maxindex [OF ok, of index] in \<open>simp add: radix_tree_delete_def\<close>)
  moreover have "content root = (content root)(unat index := None)" using None by (simp add: fun_upd_idem)
  ultimately show ?thesis using None nt ok by auto
next
  case (Some x)
  then have ix: "unat index < 64 ^ height root" "look (height root) (rnode root) (unat index) = Some x"
    by (auto simp: content_def split: if_splits)
  then obtain n where n: "rnode root = Some n" by (cases "rnode root") auto
  then obtain h where h: "height root = Suc h" "rt_ok (Suc h) (Some n)" using ok by (cases "height root") (auto simp: root_ok_def)
  let ?i = "unat index"
  have lk: "look (Suc h) (Some n) ?i = Some x" using ix n h by simp
  obtain q n' go kept where s: "\<And>rest. delete_tags_up [False, False] (path_of h ?i n @ rest) =
      (if go \<and> rest \<noteq> [] then map_option ((@) q) (delete_tags_up kept rest) else Some (q @ rest))"
    "same_path q (path_of h ?i n')" "untagged {0, 1} h ?i n n'"
    using delete_tags_up_spec [OF h(2) lk] by blast
  have a: "rt_ok (Suc h) (Some n')" "look (Suc h) (Some n') ?i = Some x" "\<And>t. t < 2 \<Longrightarrow> \<not> tagged t (Suc h) (Some n') ?i"
    using s(3) lk by (auto simp: untagged_def)
  obtain new freed where d: "deleted h ?i n' new freed" using cut_path_spec [OF a] by blast
  have "cut_path (path_of h ?i n' @ []) = (case new of
      Some n' \<Rightarrow> (path_up (Some n') [], freed) | None \<Rightarrow> (let (s, f) = cut_path [] in (s, freed @ f)))"
    using d unfolding deleted_def by blast
  then have "cut_path q = (new, freed)"
    using same_cut_path [OF s(2), of "[]"] by (cases new) simp_all
  moreover have "linked_path (rnode root) (path_of h ?i n @ [])" using h(2) lk n by (intro linked_path_of) simp_all
  then have "linked_path (rnode root) q"
    using s(1) [of "[]"] linked_path_cong [OF delete_tags_up_slots, of "[False, False]" "path_of h ?i n" q] by simp
  ultimately have up: "delete_up (Some n) q = Some (new, freed)" using delete_up_linked n by fastforce
  let ?root = "root\<lparr>rnode := new, height := (if new = None then 0 else height root)\<rparr>"
  have "(if new = None then root\<lparr>rnode := new, height := 0\<rparr> else root\<lparr>rnode := new\<rparr>) = ?root" by (cases root) simp
  then have "radix_tree_delete root index = Some (Some (Item x), ?root, freed)"
    using radix_maxindex [OF ok] root_maxindex [OF ok, of index] ix(1) n h(1) s(1) [of "[]"] path_down_found [OF h(2) lk, of "[]"] up
    by (simp add: radix_tree_delete_def numeral_2_eq_2 Option.is_none_def Let_def del: path_down.simps)
  moreover have c: "content ?root = (content root)(?i := None)"
  proof
    fix j show "content ?root j = ((content root)(?i := None)) j"
    proof (cases "new = None \<or> \<not> j < 64 ^ Suc h")
      case True
      have "look (Suc h) new j = (if j mod 64 ^ Suc h = ?i mod 64 ^ Suc h then None else look (Suc h) (Some n') j)"
        using d unfolding deleted_def by blast
      moreover have "look (Suc h) (Some n') j = look (Suc h) (Some n) j" using s(3) by (simp add: untagged_def)
      ultimately show ?thesis using True n h(1) ix(1) by (auto simp: content_def split: if_splits)
    next
      case False
      then show ?thesis using d s(3) n h(1) ix(1) by (auto simp: content_def deleted_def untagged_def)
    qed
  qed
  moreover have "root_ok ?root" using ok c d h(1) by (auto simp: root_ok_def deleted_def)
  moreover have "tagged_in t ?root j \<longleftrightarrow> tagged_in t root j \<and> j \<noteq> ?i" if "t < 2" for t j
  proof -
    have "tagged t (Suc h) new j \<longleftrightarrow> tagged t (Suc h) (Some n) j \<and> j mod 64 ^ Suc h \<noteq> ?i mod 64 ^ Suc h"
      using d s(3) that by (auto simp: deleted_def untagged_def less_2_cases_iff)
    then show ?thesis using n h(1) ix(1) by (cases "j < 64 ^ Suc h"; cases new) (auto simp: tagged_in_def)
  qed
  moreover have "tree_full root \<longrightarrow> tree_full ?root" using d s(3) n h(1) by (auto simp: tree_full_def deleted_def untagged_def)
  ultimately show ?thesis using Some d by (auto simp: deleted_def)
qed

section \<open>Gang lookup\<close>

text \<open>The entries of a map with indices from \<open>a\<close> to before \<open>b\<close>, in order.\<close>

definition entries_of :: "(nat \<rightharpoonup> 'a) \<Rightarrow> nat \<Rightarrow> nat \<Rightarrow> 'a list" where
  "entries_of f a b = map (the \<circ> f) (filter (\<lambda>i. f i \<noteq> None) [a..<b])"

lemma entries_append: "a \<le> b \<Longrightarrow> b \<le> c \<Longrightarrow> entries_of f a b @ entries_of f b c = entries_of f a c"
  using upt_add_eq_append [of a b "c - b"] by (simp add: entries_of_def)

lemma entries_empty: "(\<And>i. a \<le> i \<Longrightarrow> i < b \<Longrightarrow> f i = None) \<Longrightarrow> entries_of f a b = []"
  by (auto simp: entries_of_def filter_empty_conv)

lemma entries_cong: "(\<And>i. a \<le> i \<Longrightarrow> i < b \<Longrightarrow> f i = g i) \<Longrightarrow> entries_of f a b = entries_of g a b"
proof -
  assume *: "\<And>i. a \<le> i \<Longrightarrow> i < b \<Longrightarrow> f i = g i"
  then have "filter (\<lambda>i. f i \<noteq> None) [a..<b] = filter (\<lambda>i. g i \<noteq> None) [a..<b]" by (intro filter_cong) auto
  then show ?thesis using * unfolding entries_of_def by (auto intro!: map_cong)
qed

lemma entries_Suc: "entries_of f a (Suc a) = (case f a of None \<Rightarrow> [] | Some x \<Rightarrow> [x])"
  by (auto simp: entries_of_def split: option.split)

lemma align_next:
  "(index AND NOT (2 ^ (h * 6) - 1)) + 2 ^ (h * 6) = (of_nat ((unat index div 64 ^ h + 1) * 64 ^ h) :: ulong)"
proof -
  let ?n = "h * 6"
  have B: "(2 :: nat) ^ ?n = 64 ^ h" by (simp add: mult.commute [of h] power_mult)
  have "index AND NOT (mask ?n) = push_bit ?n (drop_bit ?n index)"
    by (rule bit_word_eqI) (auto simp: bit_simps)
  moreover have "drop_bit ?n index = of_nat (unat index div 2 ^ ?n)"
  proof -
    have "of_nat (unat (drop_bit ?n index)) = drop_bit ?n index" by simp
    then show ?thesis by (simp only: unat_drop_bit_eq drop_bit_eq_div [of _ "unat index"])
  qed
  ultimately have "index AND NOT (2 ^ ?n - 1) = of_nat (unat index div 2 ^ ?n) * 2 ^ ?n"
    by (simp add: mask_eq_exp_minus_1 push_bit_eq_mult)
  then have "(index AND NOT (2 ^ ?n - 1)) + 2 ^ ?n = of_nat ((unat index div 2 ^ ?n + 1) * 2 ^ ?n)" by (simp add: algebra_simps)
  then show ?thesis unfolding B .
qed

lemma pow_dvd: "h < 11 \<Longrightarrow> (64 :: nat) ^ h dvd 2 ^ 64"
proof -
  assume "h < 11"
  then have "(2 :: nat) ^ (6 * h) dvd 2 ^ 64" by (intro le_imp_power_dvd) simp
  then show ?thesis by (simp add: power_mult)
qed

text \<open>The end of the block of size \<open>B\<close> that holds \<open>i\<close>, and its position as a word.\<close>

lemma block_iff: "0 < B \<Longrightarrow> j div B = q \<longleftrightarrow> q * B \<le> j \<and> j < (q + 1) * B" for B :: nat
  using dividend_less_div_times [of B j] times_div_less_eq_dividend [of B j] div_nat_eqI [of B q j]
  by (auto simp: algebra_simps)

lemma block_end: "0 < B \<Longrightarrow> i < (i div B + 1) * B" for B :: nat
  using block_iff [of B i "i div B"] by simp

text \<open>Stepping to the next slot of a node stays in the node, leaves it, or wraps to 0.\<close>

lemma next_block:
  fixes i :: nat
  assumes "h < 11" "i < 2 ^ 64"
  defines "e \<equiv> (i div 64 ^ h + 1) * 64 ^ h"
  shows "i < e" "e \<le> 2 ^ 64" "i div 64 ^ h mod 64 = 63 \<Longrightarrow> e = (i div 64 ^ Suc h + 1) * 64 ^ Suc h"
    "i div 64 ^ h mod 64 \<noteq> 63 \<Longrightarrow> e div 64 ^ Suc h = i div 64 ^ Suc h \<and> e div 64 ^ h mod 64 = i div 64 ^ h mod 64 + 1"
    "e \<le> (i div 64 ^ Suc h + 1) * 64 ^ Suc h"
proof -
  let ?q = "i div 64 ^ h"
  have q: "i div 64 ^ Suc h = ?q div 64" by (simp only: power_Suc2 div_mult2_eq)
  show "i < e" unfolding e_def by (rule block_end) simp
  obtain m where m: "(2 :: nat) ^ 64 = 64 ^ h * m" using pow_dvd [OF assms(1)] by blast
  then have "?q < m" using assms(2) by (simp add: less_mult_imp_div_less mult.commute)
  then have "(?q + 1) * 64 ^ h \<le> m * 64 ^ h" by (intro mult_le_mono1) simp
  then show "e \<le> 2 ^ 64" unfolding e_def m by (simp add: mult.commute)
  have eq: "e div 64 ^ h = ?q + 1" by (simp add: e_def)
  have e64: "e div 64 ^ Suc h = (?q + 1) div 64" by (simp only: power_Suc2 div_mult2_eq eq)
  show "e = (i div 64 ^ Suc h + 1) * 64 ^ Suc h" if "?q mod 64 = 63"
  proof -
    have "x mod 64 = 63 \<Longrightarrow> x + 1 = (x div 64 + 1) * 64" for x :: nat using div_mult_mod_eq [of x 64] by simp
    then have "?q + 1 = (?q div 64 + 1) * 64" using that by blast
    then have "(?q + 1) * 64 ^ h = (?q div 64 + 1) * 64 * 64 ^ h" by (rule arg_cong)
    then show ?thesis unfolding e_def q by (simp only: mult.assoc power_Suc)
  qed
  show "e div 64 ^ Suc h = i div 64 ^ Suc h \<and> e div 64 ^ h mod 64 = ?q mod 64 + 1" if "?q mod 64 \<noteq> 63"
  proof -
    have "x mod 64 \<noteq> 63 \<Longrightarrow> (x + 1) div 64 = x div 64 \<and> (x + 1) mod 64 = x mod 64 + 1" for x :: nat by (simp add: mod_Suc div_Suc)
    then have "(?q + 1) div 64 = ?q div 64 \<and> (?q + 1) mod 64 = ?q mod 64 + 1" using that by blast
    then show ?thesis using e64 eq q by simp
  qed
  have "?q + 1 \<le> (?q div 64 + 1) * 64" using block_end [of 64 ?q] by simp
  then have "(?q + 1) * 64 ^ h \<le> (?q div 64 + 1) * 64 * 64 ^ h" by (rule mult_le_mono1)
  then show "e \<le> (i div 64 ^ Suc h + 1) * 64 ^ Suc h" unfolding e_def q by (simp only: mult.assoc power_Suc)
qed


lemma of_nat_zero: "0 < m \<Longrightarrow> m \<le> 2 ^ 64 \<Longrightarrow> (of_nat m :: ulong) = 0 \<longleftrightarrow> m = 2 ^ 64"
  by (auto simp: word_of_nat_eq_0_iff dest: dvd_imp_le)

text \<open>
  What the two gang lookups share: a test of slots that selects part of the content of a
  well-formed node.
\<close>

locale radix_select =
  fixes sel :: "'a radix_tree_node \<Rightarrow> nat \<Rightarrow> bool option" and F :: "nat \<Rightarrow> 'a radix_tree_node option \<Rightarrow> nat \<Rightarrow> 'a option"
  assumes sel_leaf: "rt_ok (Suc 0) (Some n) \<Longrightarrow> k < 64 \<Longrightarrow>
      sel n k = Some (F (Suc 0) (Some n) k \<noteq> None) \<and> (\<forall>x. F (Suc 0) (Some n) k = Some x \<longrightarrow> get_slot n k = Some (Some (Item x)))"
    and sel_inner: "rt_ok (Suc (Suc h)) (Some n) \<Longrightarrow> k < 64 \<Longrightarrow>
      \<exists>b s. sel n k = Some b \<and> get_slot n k = Some s \<and> (b \<longrightarrow> s \<noteq> None) \<and>
        (\<forall>j. j div 64 ^ Suc h mod 64 = k \<longrightarrow> F (Suc (Suc h)) (Some n) j = F (Suc h) s j) \<and>
        (\<not> b \<longrightarrow> (\<forall>j. F (Suc h) s j = None))"
    and F_leaf: "F (Suc 0) (Some n) j = F (Suc 0) (Some n) (j mod 64)"
    and F_None: "F h None j = None"
begin

lemma sel_block:
  assumes "rt_ok (Suc h) (Some n)" "k < 64"
  shows "\<exists>b. sel n k = Some b \<and> (\<not> b \<longrightarrow> (\<forall>j. j div 64 ^ h mod 64 = k \<longrightarrow> F (Suc h) (Some n) j = None))"
proof (cases h)
  case 0
  then show ?thesis using assms sel_leaf [of n k] F_leaf [of n] by force
next
  case (Suc h')
  then show ?thesis using assms sel_inner [of h' n k] by force
qed

lemma scan_slots_spec:
  assumes "rt_ok (Suc h) (Some n)" "h < 11" "K = 64 - unat index div 64 ^ h mod 64"
  shows "\<exists>r e. scan_slots sel n (h * 6) K index = Some (r, of_nat e) \<and> unat index \<le> e \<and> e \<le> 2 ^ 64 \<and>
    (\<forall>j. unat index \<le> j \<and> j < e \<longrightarrow> F (Suc h) (Some n) j = None) \<and>
    (case r of
       Some i \<Rightarrow> e < 2 ^ 64 \<and> e div 64 ^ Suc h = unat index div 64 ^ Suc h \<and> i = e div 64 ^ h mod 64 \<and> sel n i = Some True
     | None \<Rightarrow> unat index < e \<and> e \<le> (unat index div 64 ^ Suc h + 1) * 64 ^ Suc h)"
  using assms(3)
proof (induction K arbitrary: index)
  case 0
  have "unat index div 64 ^ h mod 64 < 64" by simp
  with 0 show ?case by linarith
next
  case (Suc K)
  let ?i = "unat index"
  let ?k = "?i div 64 ^ h mod 64"
  define e0 where "e0 = (?i div 64 ^ h + 1) * 64 ^ h"
  have i64: "?i < 2 ^ 64" using unat_bound [of index] by simp
  have "?k < 64" by simp
  with Suc.prems have k: "64 - Suc K = ?k" "K = 64 - (?k + 1)" by linarith+
  note nb = next_block [OF assms(2) i64, folded e0_def]
  obtain b where b: "sel n ?k = Some b" "\<not> b \<Longrightarrow> \<forall>j. j div 64 ^ h mod 64 = ?k \<longrightarrow> F (Suc h) (Some n) j = None"
    using sel_block [OF assms(1) \<open>?k < 64\<close>] by blast
  show ?case
  proof (cases b)
    case True
    have "scan_slots sel n (h * 6) (Suc K) index = Some (Some ?k, of_nat ?i)" using b(1) k(1) True by simp
    then show ?thesis using i64 b(1) True by (intro exI [of _ "Some ?k"] exI [of _ ?i]) auto
  next
    case False
    have none: "F (Suc h) (Some n) j = None" if "?i \<le> j" "j < e0" for j
    proof -
      have "?i div 64 ^ h * 64 ^ h \<le> ?i" by simp
      then have "?i div 64 ^ h * 64 ^ h \<le> j" using that(1) by (rule le_trans)
      then have "j div 64 ^ h = ?i div 64 ^ h" using that block_iff [of "64 ^ h" j "?i div 64 ^ h"] by (simp add: e0_def)
      then show ?thesis using b(2) [OF False] by simp
    qed
    have step: "scan_slots sel n (h * 6) (Suc K) index =
        (if (of_nat e0 :: ulong) = 0 then Some (None, of_nat e0) else scan_slots sel n (h * 6) K (of_nat e0))"
      using b(1) k(1) False align_next [of index h, folded e0_def] by (simp add: Let_def)
    have z: "(of_nat e0 :: ulong) = 0 \<longleftrightarrow> e0 = 2 ^ 64" using nb(1,2) by (intro of_nat_zero) auto
    show ?thesis
    proof (cases "e0 = 2 ^ 64 \<or> ?k = 63")
      case True
      then have "scan_slots sel n (h * 6) (Suc K) index = Some (None, of_nat e0)"
        unfolding step z using k(2) by auto
      then show ?thesis using nb(1,2,5) none by (intro exI [of _ None] exI [of _ e0]) auto
    next
      case False
      then have lt: "e0 < 2 ^ 64" using nb(2) by simp
      then have u: "unat (of_nat e0 :: ulong) = e0" by (simp add: unat_of_nat)
      have n63: "e0 div 64 ^ Suc h = ?i div 64 ^ Suc h" "e0 div 64 ^ h mod 64 = ?k + 1" using nb(4) False by auto
      have "K = 64 - unat (of_nat e0 :: ulong) div 64 ^ h mod 64" unfolding u n63(2) using k(2) .
      from Suc.IH [OF this, unfolded u] obtain r e where
        s: "scan_slots sel n (h * 6) K (of_nat e0) = Some (r, of_nat e)" "e0 \<le> e" "e \<le> 2 ^ 64"
          "\<forall>j. e0 \<le> j \<and> j < e \<longrightarrow> F (Suc h) (Some n) j = None"
          "case r of
             Some i \<Rightarrow> e < 2 ^ 64 \<and> e div 64 ^ Suc h = e0 div 64 ^ Suc h \<and> i = e div 64 ^ h mod 64 \<and> sel n i = Some True
           | None \<Rightarrow> e0 < e \<and> e \<le> (e0 div 64 ^ Suc h + 1) * 64 ^ Suc h" by blast
      have "scan_slots sel n (h * 6) (Suc K) index = Some (r, of_nat e)" unfolding step z using s(1) False by simp
      moreover have "F (Suc h) (Some n) j = None" if "?i \<le> j" "j < e" for j using none s(4) that by (cases "j < e0") auto
      moreover have "case r of
             Some i \<Rightarrow> e < 2 ^ 64 \<and> e div 64 ^ Suc h = ?i div 64 ^ Suc h \<and> i = e div 64 ^ h mod 64 \<and> sel n i = Some True
           | None \<Rightarrow> ?i < e \<and> e \<le> (?i div 64 ^ Suc h + 1) * 64 ^ Suc h"
        using s(5) n63(1) nb(1) by (cases r) auto
      ultimately show ?thesis using s(2,3) nb(1) by (intro exI [of _ r] exI [of _ e]) auto
    qed
  qed
qed

lemma grab_items_spec:
  assumes "rt_ok (Suc 0) (Some n)" "0 < room" "K = 64 - j" "j \<le> 64" "base mod 64 = 0" "base + 64 \<le> 2 ^ 64"
  shows "\<exists>e. grab_items sel n K room (of_nat (base + j)) = Some (map Item (entries_of (F (Suc 0) (Some n)) (base + j) e), of_nat e) \<and>
    base + j \<le> e \<and> e \<le> base + 64 \<and> (j < 64 \<longrightarrow> base + j < e) \<and> length (entries_of (F (Suc 0) (Some n)) (base + j) e) \<le> room"
  using assms(2-4)
proof (induction K arbitrary: j room)
  case 0
  then show ?case by (intro exI [of _ "base + j"]) (simp add: entries_of_def)
next
  case (Suc K)
  let ?f = "F (Suc 0) (Some n)"
  have j: "64 - Suc K = j" "K = 64 - Suc j" "j < 64" using Suc.prems by linarith+
  have "(base + j) mod 64 = j" using assms(5) j(3) by (simp add: mod_add_left_eq [of base 64 j, symmetric])
  then have fj: "?f (base + j) = ?f j" using F_leaf [of n "base + j"] by simp
  have sel: "sel n j = Some (?f j \<noteq> None)" "\<And>x. ?f j = Some x \<Longrightarrow> get_slot n j = Some (Some (Item x))" using sel_leaf [OF assms(1) j(3)] by auto
  have nx: "(of_nat (base + j) + 1 :: ulong) = of_nat (base + Suc j)" by simp
  have app: "entries_of ?f (base + j) e = entries_of ?f (base + j) (base + Suc j) @ entries_of ?f (base + Suc j) e" if "base + Suc j \<le> e" for e
    using entries_append [of "base + j" "base + Suc j" e ?f] that by simp
  have first: "entries_of ?f (base + j) (base + Suc j) = (case ?f j of None \<Rightarrow> [] | Some x \<Rightarrow> [x])" using entries_Suc [of ?f "base + j"] fj by simp
  show ?case
  proof (cases "?f j")
    case None
    from Suc.IH [OF Suc.prems(1) j(2)] j(3) obtain e where
      e: "grab_items sel n K room (of_nat (base + Suc j)) = Some (map Item (entries_of ?f (base + Suc j) e), of_nat e)"
        "base + Suc j \<le> e" "e \<le> base + 64" "length (entries_of ?f (base + Suc j) e) \<le> room" by auto
    have "grab_items sel n (Suc K) room (of_nat (base + j)) = Some (map Item (entries_of ?f (base + j) e), of_nat e)"
      using e(1) sel(1) j(1) None nx app [OF e(2)] first by (simp add: Let_def ac_simps)
    then show ?thesis using e(2-4) app [OF e(2)] first None by (intro exI [of _ e]) auto
  next
    case (Some x)
    show ?thesis
    proof (cases "room = 1")
      case True
      have "grab_items sel n (Suc K) room (of_nat (base + j)) = Some (map Item (entries_of ?f (base + j) (base + Suc j)), of_nat (base + Suc j))"
        using sel j(1) Some nx first True by (simp add: Let_def ac_simps)
      then show ?thesis using j(3) first Some True by (intro exI [of _ "base + Suc j"]) auto
    next
      case False
      then have r: "0 < room - 1" using Suc.prems(1) by simp
      from Suc.IH [OF r j(2)] j(3) obtain e where
        e: "grab_items sel n K (room - 1) (of_nat (base + Suc j)) = Some (map Item (entries_of ?f (base + Suc j) e), of_nat e)"
          "base + Suc j \<le> e" "e \<le> base + 64" "length (entries_of ?f (base + Suc j) e) \<le> room - 1" by auto
      have "grab_items sel n (Suc K) room (of_nat (base + j)) = Some (map Item (entries_of ?f (base + j) e), of_nat e)"
        using e(1) sel j(1) Some nx app [OF e(2)] first False by (simp add: Let_def ac_simps)
      then show ?thesis using e(2-4) app [OF e(2)] first Some r by (intro exI [of _ e]) auto
    qed
  qed
qed

lemma lookup_level_spec:
  assumes "rt_ok (Suc h) (Some n)" "h < 11" "0 < room"
  shows "\<exists>e. lookup_level sel (Suc h) index room (Some n) = Some (map Item (entries_of (F (Suc h) (Some n)) (unat index) e), of_nat e) \<and>
    unat index < e \<and> e \<le> 2 ^ 64 \<and> e \<le> (unat index div 64 ^ Suc h + 1) * 64 ^ Suc h \<and>
    length (entries_of (F (Suc h) (Some n)) (unat index) e) \<le> room"
  using assms(1,2)
proof (induction h arbitrary: n index)
  case 0
  let ?f = "F (Suc 0) (Some n)" and ?i = "unat index"
  obtain r e where s: "scan_slots sel n (0 * 6) (64 - offset_of index (0 * 6)) index = Some (r, of_nat e)" "?i \<le> e" "e \<le> 2 ^ 64"
    "\<And>j. ?i \<le> j \<and> j < e \<Longrightarrow> ?f j = None"
    "case r of Some i \<Rightarrow> e < 2 ^ 64 \<and> e div 64 ^ Suc 0 = ?i div 64 ^ Suc 0 \<and> i = e div 64 ^ 0 mod 64 \<and> sel n i = Some True
       | None \<Rightarrow> ?i < e \<and> e \<le> (?i div 64 ^ Suc 0 + 1) * 64 ^ Suc 0"
    using scan_slots_spec [OF 0(1,2) refl, of index] unfolding offset_eq by blast
  have none: "entries_of ?f ?i e = []" using s(4) by (intro entries_empty) auto
  show ?case
  proof (cases r)
    case None
    then have "lookup_level sel (Suc 0) index room (Some n) = Some (map Item (entries_of ?f ?i e), of_nat e)"
      using s(1) none by simp
    then show ?thesis using s(3,5) None none by (intro exI [of _ e]) auto
  next
    case (Some i)
    let ?b = "e div 64 * 64"
    have e: "e < 2 ^ 64" "e div 64 = ?i div 64" using s(5) Some by auto
    then have u: "unat (of_nat e :: ulong) = e" by (simp add: unat_of_nat)
    have be: "?b + e mod 64 = e" by simp
    have b64: "?b + 64 \<le> 2 ^ 64" using e(1) by (simp add: less_mult_imp_div_less) 
    obtain e' where g: "grab_items sel n (64 - e mod 64) room (of_nat (?b + e mod 64)) =
        Some (map Item (entries_of ?f (?b + e mod 64) e'), of_nat e')" "?b + e mod 64 \<le> e'" "e' \<le> ?b + 64" "?b + e mod 64 < e'"
        "length (entries_of ?f (?b + e mod 64) e') \<le> room"
      using grab_items_spec [OF 0(1) assms(3) refl, of "e mod 64" ?b] b64 by auto
    have ent: "entries_of ?f ?i e' = entries_of ?f e e'" using entries_append [of ?i e e' ?f] s(2) g(2) none be by simp
    have "offset_of (of_nat e) 0 = e mod 64" using offset_eq [of "of_nat e" 0] u by simp
    then have "lookup_level sel (Suc 0) index room (Some n) = Some (map Item (entries_of ?f ?i e'), of_nat e')"
      using s(1) Some g(1) ent unfolding be by simp
    moreover have "?b + 64 = (?i div 64 + 1) * 64" using e(2) by simp
    ultimately show ?thesis using g(3-5) s(2) b64 ent unfolding be by (intro exI [of _ e']) auto
  qed
next
  case (Suc h)
  let ?f = "F (Suc (Suc h)) (Some n)" and ?i = "unat index" and ?B = "64 ^ Suc h :: nat"
  obtain r e where s: "scan_slots sel n (Suc h * 6) (64 - offset_of index (Suc h * 6)) index = Some (r, of_nat e)" "?i \<le> e" "e \<le> 2 ^ 64"
    "\<And>j. ?i \<le> j \<and> j < e \<Longrightarrow> ?f j = None"
    "case r of Some i \<Rightarrow> e < 2 ^ 64 \<and> e div 64 ^ Suc (Suc h) = ?i div 64 ^ Suc (Suc h) \<and> i = e div ?B mod 64 \<and> sel n i = Some True
       | None \<Rightarrow> ?i < e \<and> e \<le> (?i div 64 ^ Suc (Suc h) + 1) * 64 ^ Suc (Suc h)"
    using scan_slots_spec [OF Suc.prems(1,2) refl, of index] unfolding offset_eq by blast
  have none: "entries_of ?f ?i e = []" using s(4) by (intro entries_empty) auto
  have step: "lookup_level sel (Suc (Suc h)) index room (Some n) = (case r of
      None \<Rightarrow> Some ([], of_nat e)
    | Some i \<Rightarrow> do { slot \<leftarrow> get_slot n i; lookup_level sel (Suc h) (of_nat e) room slot })"
    using s(1) by (subst lookup_level.simps(2)) (simp del: lookup_level.simps mult_Suc split: option.split)
  show ?case
  proof (cases r)
    case None
    then show ?thesis unfolding step using s(3,5) none by (intro exI [of _ e]) auto
  next
    case (Some i)
    then have e: "e < 2 ^ 64" "e div 64 ^ Suc (Suc h) = ?i div 64 ^ Suc (Suc h)" "i = e div ?B mod 64" "sel n i = Some True" using s(5) by auto
    then have u: "unat (of_nat e :: ulong) = e" by (simp add: unat_of_nat)
    have "i < 64" using e(3) by simp
    then obtain child where ch: "get_slot n i = Some (Some child)" "\<And>j. j div ?B mod 64 = i \<Longrightarrow> ?f j = F (Suc h) (Some child) j"
      using sel_inner [OF Suc.prems(1)] e(4) by force
    obtain c sl tg where n: "n = Node c sl tg" using Suc.prems(1) rt_ok_SucD by blast
    then have w: "rt_ok (Suc (Suc h)) (Some (Node c sl tg))" using Suc.prems(1) by simp
    have "sl ! i = Some child" using ch(1) n by (simp split: if_splits)
    then have "rt_ok (Suc h) (Some child)" using rt_ok_child [OF w \<open>i < 64\<close>] by simp
    from Suc.IH [OF this, of "of_nat e", unfolded u] Suc.prems(2) obtain e' where
      g: "lookup_level sel (Suc h) (of_nat e) room (Some child) = Some (map Item (entries_of (F (Suc h) (Some child)) e e'), of_nat e')"
        "e < e'" "e' \<le> 2 ^ 64" "e' \<le> (e div ?B + 1) * ?B" "length (entries_of (F (Suc h) (Some child)) e e') \<le> room" by auto
    have "entries_of ?f e e' = entries_of (F (Suc h) (Some child)) e e'"
    proof (rule entries_cong)
      fix j assume j: "e \<le> j" "j < e'"
      have "e div ?B * ?B \<le> e" by simp
      then have "e div ?B * ?B \<le> j" using j(1) by (rule le_trans)
      moreover have "j < (e div ?B + 1) * ?B" using j(2) g(4) by (rule less_le_trans)
      ultimately have "j div ?B = e div ?B" using block_iff [of ?B j "e div ?B"] by simp
      then show "?f j = F (Suc h) (Some child) j" using ch(2) e(3) by simp
    qed
    then have ent: "entries_of ?f ?i e' = entries_of (F (Suc h) (Some child)) e e'"
      using entries_append [of ?i e e' ?f] s(2) g(2) none by simp
    have "(e div ?B + 1) * ?B \<le> (?i div 64 ^ Suc (Suc h) + 1) * 64 ^ Suc (Suc h)"
      using next_block(5) [OF Suc.prems(2) e(1)] e(2) by simp
    then show ?thesis unfolding step using Some ch(1) g ent s(2) by (intro exI [of _ e']) auto
  qed
qed

text \<open>The selected part of the content of a tree.\<close>

definition selected :: "'a radix_tree_root \<Rightarrow> nat \<rightharpoonup> 'a" where
  "selected root i = (if i < 64 ^ height root then F (height root) (rnode root) i else None)"

lemma gang_loop_spec:
  assumes ok: "root_ok root" "rnode root = None \<longrightarrow> height root = 0"
    and res: "results = map Item (entries_of (selected root) a (unat cur))" "a \<le> unat cur" "length results \<le> max_items"
  shows "gang_loop sel root (maxindex (height root)) max_items cur results =
    Some (map Item (take max_items (entries_of (selected root) a (2 ^ 64))))"
  using res
proof (induction "2 ^ 64 - unat cur" arbitrary: cur results rule: less_induct)
  case less
  let ?g = "selected root" and ?i = "unat cur"
  have i64: "?i < 2 ^ 64" using unat_bound [of cur] by simp
  have app: "entries_of ?g a (2 ^ 64) = entries_of ?g a ?i @ entries_of ?g ?i (2 ^ 64)"
    using entries_append [of a ?i "2 ^ 64" ?g] less.prems(2) i64 by simp
  have le: "length (entries_of ?g a ?i) \<le> max_items" using less.prems by simp
  have unf: "gang_loop sel root (maxindex (height root)) max_items cur results =
     (if length results < max_items \<and> ?i < 64 ^ height root
      then do {
        (items, next_index) \<leftarrow> lookup_level sel (height root) cur (max_items - length results) (rnode root);
        if next_index = 0 then Some (results @ items)
        else gang_loop sel root (maxindex (height root)) max_items next_index (results @ items)
      }
      else Some results)"
    using root_maxindex [OF ok(1), of cur] by (subst gang_loop.simps) (simp add: not_less [symmetric])
  consider (full) "length results = max_items" | (beyond) "64 ^ height root \<le> ?i"
    | (step) "length results < max_items" "?i < 64 ^ height root" using less.prems(3) by linarith
  then show ?case
  proof cases
    case full
    then show ?thesis unfolding unf app using less.prems(1) by simp
  next
    case beyond
    then have "entries_of ?g ?i (2 ^ 64) = []" by (intro entries_empty) (auto simp: selected_def)
    then show ?thesis unfolding unf app using beyond less.prems(1) le by simp
  next
    case step
    show ?thesis
    proof (cases "height root")
      case 0
      then have "rnode root = None" "?i = 0" using ok(1) step by (auto simp: root_ok_def)
      then have "entries_of ?g a' (2 ^ 64) = []" for a' using F_None by (intro entries_empty) (auto simp: selected_def)
      then show ?thesis unfolding unf using step 0 \<open>?i = 0\<close> less.prems(1,2) by (simp add: unat_eq_0 entries_of_def)
    next
      case (Suc h)
      then obtain n where n: "rnode root = Some n" using ok(2) by (cases "rnode root") auto
      have w: "rt_ok (Suc h) (Some n)" "h < 11" "0 < max_items - length results" using ok(1) n Suc step by (auto simp: root_ok_def)
      obtain e where e: "lookup_level sel (Suc h) cur (max_items - length results) (Some n) =
          Some (map Item (entries_of (F (Suc h) (Some n)) ?i e), of_nat e)" "?i < e" "e \<le> 2 ^ 64" "e \<le> (?i div 64 ^ Suc h + 1) * 64 ^ Suc h"
          "length (entries_of (F (Suc h) (Some n)) ?i e) \<le> max_items - length results"
        using lookup_level_spec [OF w] by blast
      have "?i div 64 ^ Suc h = 0" using step(2) Suc by simp
      then have "e \<le> 64 ^ Suc h" using e(4) by simp
      then have ent: "entries_of (F (Suc h) (Some n)) ?i e = entries_of ?g ?i e" using Suc n by (intro entries_cong) (auto simp: selected_def)
      have app2: "entries_of ?g a e = entries_of ?g a ?i @ entries_of ?g ?i e" using entries_append [of a ?i e ?g] less.prems(2) e(2) by simp
      have results: "results @ map Item (entries_of ?g ?i e) = map Item (entries_of ?g a e)" unfolding app2 using less.prems(1) by simp
      have len: "length (entries_of ?g a e) \<le> max_items" unfolding app2 using e(5) ent less.prems(1,3) by simp
      have z: "(of_nat e :: ulong) = 0 \<longleftrightarrow> e = 2 ^ 64" using e(2,3) by (intro of_nat_zero) auto
      show ?thesis
      proof (cases "e = 2 ^ 64")
        case True
        then show ?thesis unfolding unf using step Suc n e(1) ent results len by simp
      next
        case False
        then have u: "unat (of_nat e :: ulong) = e" using e(3) by (simp add: unat_of_nat)
        have "gang_loop sel root (maxindex (height root)) max_items (of_nat e) (results @ map Item (entries_of ?g ?i e)) =
            Some (map Item (take max_items (entries_of ?g a (2 ^ 64))))"
          using less.hyps [of "of_nat e" "results @ map Item (entries_of ?g ?i e)"] e(2,3) i64 u results len less.prems(2) False by simp
        then show ?thesis unfolding unf using step Suc n e(1) ent z False by simp
      qed
    qed
  qed
qed

end

interpretation radix_all: radix_select sel_slot look
proof
  show "sel_slot n k = Some (look (Suc 0) (Some n) k \<noteq> None) \<and> (\<forall>x. look (Suc 0) (Some n) k = Some x \<longrightarrow> get_slot n k = Some (Some (Item x)))"
    if hp: "rt_ok (Suc 0) (Some n)" "k < 64" for n :: "'a radix_tree_node" and k
  proof -
    obtain c sl tg where n: "n = Node c sl tg" using hp rt_ok_SucD by blast
    have "rt_ok 0 (sl ! k)" using hp n by simp
    then consider "sl ! k = None" | x where "sl ! k = Some (Item x)" by (auto simp: rt_ok_0)
    then show ?thesis using hp n by cases (simp_all add: sel_slot_def)
  qed
  show "\<exists>b s. sel_slot n k = Some b \<and> get_slot n k = Some s \<and> (b \<longrightarrow> s \<noteq> None) \<and>
        (\<forall>j. j div 64 ^ Suc h mod 64 = k \<longrightarrow> look (Suc (Suc h)) (Some n) j = look (Suc h) s j) \<and> (\<not> b \<longrightarrow> (\<forall>j. look (Suc h) s j = None))"
    if hp: "rt_ok (Suc (Suc h)) (Some n)" "k < 64" for h and n :: "'a radix_tree_node" and k
  proof -
    obtain c sl tg where n: "n = Node c sl tg" using hp rt_ok_SucD by blast
    then show ?thesis using hp by (intro exI [of _ "sl ! k \<noteq> None"] exI [of _ "sl ! k"]) (auto simp: sel_slot_def Option.is_none_def)
  qed
  show "look (Suc 0) (Some n) j = look (Suc 0) (Some n) (j mod 64)" for n :: "'a radix_tree_node" and j by (rule look_mod) simp
qed simp

definition tag_look :: "nat \<Rightarrow> nat \<Rightarrow> 'a radix_tree_node option \<Rightarrow> nat \<Rightarrow> 'a option" where
  "tag_look t h s i = (if tagged t h s i then look h s i else None)"

lemma radix_select_tag:
  assumes "t < 2"
  shows "radix_select (sel_tag t) (tag_look t :: nat \<Rightarrow> 'a radix_tree_node option \<Rightarrow> nat \<Rightarrow> 'a option)"
proof
  show "sel_tag t n k = Some (tag_look t (Suc 0) (Some n) k \<noteq> None) \<and> (\<forall>x. tag_look t (Suc 0) (Some n) k = Some x \<longrightarrow> get_slot n k = Some (Some (Item x)))"
    if hp: "rt_ok (Suc 0) (Some n)" "k < 64" for n :: "'a radix_tree_node" and k
  proof -
    obtain c sl tg where n: "n = Node c sl tg" using hp rt_ok_SucD by blast
    have b: "rt_ok 0 (sl ! k)" "bit (tg ! t) k \<longrightarrow> sl ! k \<noteq> None" "length tg = 2" "length sl = 64" using hp n assms by simp_all
    then consider "sl ! k = None" | x where "sl ! k = Some (Item x)" by (auto simp: rt_ok_0)
    then show ?thesis
    proof cases
      case 1
      then show ?thesis using hp(2) n assms b(2-4) by (simp add: sel_tag_def tag_look_def)
    next
      case 2
      then show ?thesis using hp(2) n assms b(2-4) by (simp add: sel_tag_def tag_look_def)
    qed
  qed
  show "\<exists>b s. sel_tag t n k = Some b \<and> get_slot n k = Some s \<and> (b \<longrightarrow> s \<noteq> None) \<and>
        (\<forall>j. j div 64 ^ Suc h mod 64 = k \<longrightarrow> tag_look t (Suc (Suc h)) (Some n) j = tag_look t (Suc h) s j) \<and>
        (\<not> b \<longrightarrow> (\<forall>j. tag_look t (Suc h) s j = None))"
    if hp: "rt_ok (Suc (Suc h)) (Some n)" "k < 64" for h and n :: "'a radix_tree_node" and k
  proof -
    obtain c sl tg where n: "n = Node c sl tg" using hp rt_ok_SucD by blast
    have b: "bit (tg ! t) k = has_tag t (sl ! k)" "rt_ok (Suc h) (sl ! k)" "length tg = 2" "length sl = 64" using hp n assms by simp_all
    then have "sl ! k \<noteq> None" if "bit (tg ! t) k" using that by (cases "sl ! k") auto
    moreover have "tag_look t (Suc h) (sl ! k) j = None" if "\<not> bit (tg ! t) k" for j
      using b has_tag_tagged [OF b(2) assms] that by (auto simp: tag_look_def)
    moreover have "sel_tag t n k = Some (bit (tg ! t) k)"
      using hp(2) n assms b(3,4) calculation(1) by (cases "sl ! k") (auto simp: sel_tag_def)
    moreover have "tag_look t (Suc (Suc h)) (Some n) j = tag_look t (Suc h) (sl ! k) j" if "j div 64 ^ Suc h mod 64 = k" for j
      using n that by (simp add: tag_look_def del: power_Suc)
    moreover have "get_slot n k = Some (sl ! k)" using hp(2) n b(4) by simp
    ultimately show ?thesis by blast
  qed
  show "tag_look t (Suc 0) (Some n) j = tag_look t (Suc 0) (Some n) (j mod 64)" for n :: "'a radix_tree_node" and j
    using look_mod [of j "Suc 0" "j mod 64" "Some n"] tagged_mod [of j "Suc 0" "j mod 64" t "Some n"] by (simp add: tag_look_def)
  show "tag_look t h None j = None" for h j by (simp add: tag_look_def)
qed

interpretation radix_tag0: radix_select "sel_tag 0" "tag_look 0"
  by (rule radix_select_tag) simp

interpretation radix_tag1: radix_select "sel_tag 1" "tag_look 1"
  by (rule radix_select_tag) simp

end
