(* ===== verification/RadixProps.thy ===== *)
theory RadixProps
  imports Radix
begin

text \<open>
  The properties of the radix tree of \<^verbatim>\<open>lib/radix-tree.c\<close>: insertion, deletion, lookup, tags, gang lookup and preloading.
  \<open>content\<close> is the finite map that a tree stands for and \<open>tagged_in\<close> its tags.
\<close>

section \<open>Small trees\<close>

text \<open>An empty tree that may not wait for memory, a tree with one item, and a pool of \<open>k\<close> preloaded nodes without slab memory.\<close>

definition rt_empty :: "'a radix_tree_root" where
  "rt_empty = \<lparr>height = 0, gfp_wait = False, rnode = None\<rparr>"

definition rt_single :: "'a \<Rightarrow> 'a radix_tree_root" where
  "rt_single x = \<lparr>height = 1, gfp_wait = False, rnode = Some (Node 1 (Some (Item x) # replicate 63 None) [0, 0])\<rparr>"

definition rt_pool :: "nat \<Rightarrow> 'a radix_tree_pool" where
  "rt_pool k = \<lparr>kmem = [], preloads = replicate k radix_tree_node_ctor\<rparr>"

lemma rt_empty_ok [simp]: "root_ok rt_empty"
  by (simp add: rt_empty_def root_ok_def content_def)

lemma rt_pool_ok [simp]: "pool_ok (rt_pool k)"
  by (auto simp: rt_pool_def pool_ok_def)

lemma rt_empty_simps [simp]: "content rt_empty i = None" "height rt_empty = 0" "gfp_wait rt_empty = False" "rnode rt_empty = None"
  "tagged_in t rt_empty = (\<lambda>_. False)"
  by (auto simp: rt_empty_def content_def tagged_in_def)

lemma rt_single_simps [simp]: "height (rt_single x) = 1" "gfp_wait (rt_single x) = False" "rnode (rt_single x) \<noteq> None"
  by (auto simp: rt_single_def)

lemma rt_pool_simps [simp]: "kmem (rt_pool k) = []" "preloads (rt_pool k) = replicate k radix_tree_node_ctor"
  by (simp_all add: rt_pool_def)

lemma rt_single_look: "look 1 (rnode (rt_single x)) i = (if i mod 64 = 0 then Some x else None)"
proof -
  have "(Some (Item x) # replicate 63 None) ! (i mod 64) = (if i mod 64 = 0 then Some (Item x) else None)"
    using mod_less_divisor [of 64 i] by (simp add: nth_Cons' del: mod_less_divisor) 
  then show ?thesis by (simp add: rt_single_def)
qed

lemma rt_single_content: "content (rt_single x) = [0 \<mapsto> x]"
  by (auto simp: content_def fun_eq_iff rt_single_look simp del: One_nat_def)

lemma rt_single_ok [simp]: "root_ok (rt_single x)"
proof -
  have "rt_ok 1 (rnode (rt_single x))"
    by (auto simp: rt_single_def nth_Cons' numeral_2_eq_2 less_Suc_eq)
  then show ?thesis by (auto simp: root_ok_def rt_single_content split: if_splits)
qed

lemma rt_single_full [simp]: "tree_full (rt_single x)"
  by (simp add: tree_full_def rt_single_def)

lemma rt_single_tagged: "t < 2 \<Longrightarrow> \<not> tagged_in t (rt_single x) i"
  by (auto simp: tagged_in_def rt_single_def numeral_2_eq_2 less_Suc_eq)

section \<open>Properties\<close>

text \<open>
  C5: \<^verbatim>\<open>radix_tree_insert\<close> on a well-formed tree crashes in exactly one case: the tree is empty, its height is 11 nevertheless, which it is after eleven insertions
  at index 0 that failed with -ENOMEM, and the index is 0. Then it reads beyond the end of \<^verbatim>\<open>height_to_maxindex\<close>.
  In all other cases it keeps the tree well-formed and every tag as
  it was, and returns 0 when the index was free and the item is now there, -EEXIST with the tree unchanged
  when the index was taken, and -ENOMEM with the same contents when a node could not be
  allocated; the height of an empty tree may have grown then. No other index changes.
\<close>

theorem radix_insert:
  assumes "root_ok root" "pool_ok p"
  shows "if rnode root = None \<and> height root = 11 \<and> index = 0 then radix_tree_insert root index item p = None
   else \<exists>r root' p'. radix_tree_insert root index item p = Some (r, root', p') \<and> root_ok root' \<and> pool_ok p' \<and>
    (\<forall>t < 2. tagged_in t root' = tagged_in t root) \<and> (tree_full root \<and> r = 0 \<longrightarrow> tree_full root') \<and>
    (r = 0 \<and> content root (unat index) = None \<and> content root' = (content root)(unat index \<mapsto> item) \<or>
     r = - EEXIST \<and> content root (unat index) \<noteq> None \<and> root' = root \<or>
     r = - ENOMEM \<and> content root (unat index) = None \<and> content root' = content root)"
proof (cases "beyond_maxindex root index")
  case True
  then show ?thesis using insert_beyond [OF True, of item p] by (simp add: beyond_maxindex_def)
next
  case False
  then have "\<not> (rnode root = None \<and> height root = 11 \<and> index = 0)" by (simp add: beyond_maxindex_def)
  then show ?thesis using radix_tree_insert_spec [OF assms False, of item] by (subst if_not_P) fastforce+
qed

theorem radix_insert_witness:
  "\<exists>r root' p'. radix_tree_insert (rt_single (7::nat)) 0 8 (rt_pool 3) = Some (r, root', p') \<and> r = - EEXIST \<and> root' = rt_single 7"
  using radix_insert [of "rt_single (7::nat)" "rt_pool 3" 0 8] by (auto simp: rt_single_content)



text \<open>
  C27: An item that \<^verbatim>\<open>radix_tree_insert\<close> has put into the tree is what \<^verbatim>\<open>radix_tree_lookup\<close> finds at its index and what
  \<^verbatim>\<open>radix_tree_delete\<close> returns, and after both every lookup gives what it gave before.
\<close>

theorem radix_insert_lookup_delete:
  assumes "root_ok root" "pool_ok p" and "radix_tree_insert root index item p = Some (0, root', p')"
  shows "radix_tree_lookup root' index = Some (Some (Item item)) \<and>
    (\<exists>root'' freed. radix_tree_delete root' index = Some (Some (Item item), root'', freed) \<and>
       (\<forall>j. radix_tree_lookup root'' j = radix_tree_lookup root j))"
proof -
  have i: "root_ok root'" "content root (unat index) = None" "content root' = (content root)(unat index \<mapsto> item)"
    using radix_tree_insert_spec [of root p index item] insert_beyond [of root index item p] assms by auto
  obtain root'' freed where d: "radix_tree_delete root' index = Some (Some (Item item), root'', freed)" "root_ok root''"
    "content root'' = (content root')(unat index := None)"
    using radix_tree_delete_spec [OF i(1), of index] i(3) by auto
  have "content root'' = content root" using d(3) i(2,3) by auto
  then show ?thesis using d i assms(1) by (simp add: radix_tree_lookup_spec)
qed

theorem radix_insert_lookup_delete_witness:
  "\<exists>root' p'. radix_tree_insert (rt_single (7::nat)) 5 8 (rt_pool 0) = Some (0, root', p') \<and>
     radix_tree_lookup root' 5 = Some (Some (Item 8))"
proof -
  have "map_option fst (radix_tree_insert (rt_single (7::nat)) 5 8 (rt_pool 0)) = Some 0" by code_simp
  then obtain root' p' where "radix_tree_insert (rt_single (7::nat)) 5 8 (rt_pool 0) = Some (0, root', p')" by auto
  then show ?thesis using radix_insert_lookup_delete [of "rt_single (7::nat)" "rt_pool 0" 5 8 root' p'] by auto
qed

text \<open>
  C28: \<^verbatim>\<open>radix_tree_tagged\<close> tells whether any index of the tree has the tag, without a look below the root.
  \<^verbatim>\<open>radix_tree_tag_set\<close> on an index with an item and \<^verbatim>\<open>radix_tree_tag_clear\<close> on any index return the item and change
  this tag of this index only; no item moves.
\<close>

theorem radix_tags:
  assumes "root_ok root" "tag < 2"
  shows "radix_tree_tagged root tag = Some (\<exists>i. tagged_in tag root i) \<and>
    (content root (unat index) = Some x \<longrightarrow>
      (\<exists>root'. radix_tree_tag_set root index tag = Some (Some (Item x), root') \<and> root_ok root' \<and> content root' = content root \<and>
        (\<forall>t < 2. \<forall>j. tagged_in t root' j \<longleftrightarrow> tagged_in t root j \<or> t = tag \<and> j = unat index))) \<and>
    (\<exists>root'. radix_tree_tag_clear root index tag = Some (map_option Item (content root (unat index)), root') \<and> root_ok root' \<and>
      content root' = content root \<and>
      (\<forall>t < 2. \<forall>j. tagged_in t root' j \<longleftrightarrow> tagged_in t root j \<and> \<not> (t = tag \<and> j = unat index)))"
proof -
  have "radix_tree_tagged root tag = Some (has_tag tag (rnode root))"
  proof (cases "rnode root")
    case (Some n)
    then obtain h where "rt_ok (Suc h) (Some n)" using assms(1) by (cases "height root") (auto simp: root_ok_def)
    then show ?thesis using Some assms(2) by (cases n) (auto simp: radix_tree_tagged_def)
  qed (simp add: radix_tree_tagged_def)
  moreover have "has_tag tag (rnode root) \<longleftrightarrow> (\<exists>i. tagged_in tag root i)"
  proof -
    have "rt_ok (height root) (rnode root)" using assms(1) by (simp add: root_ok_def)
    then have "has_tag tag (rnode root) \<longleftrightarrow> (\<exists>i. tagged tag (height root) (rnode root) i)" by (rule has_tag_tagged) (rule assms(2))
    also have "\<dots> \<longleftrightarrow> (\<exists>i < 64 ^ height root. tagged tag (height root) (rnode root) i)"
      using tagged_mod [of _ "height root" "_ mod 64 ^ height root" tag "rnode root"] by (metis mod_less_divisor mod_mod_trivial zero_less_numeral zero_less_power)
    finally show ?thesis by (auto simp: tagged_in_def)
  qed
  ultimately show ?thesis
    using radix_tree_tag_set_spec [OF assms(1) _ assms(2), of index x] radix_tree_tag_clear_spec [OF assms, of index]
    by (intro conjI impI) (simp, blast, blast)
qed

theorem radix_tags_witness:
  "\<exists>root'. radix_tree_tag_set (rt_single (7::nat)) 0 1 = Some (Some (Item 7), root') \<and> content root' 0 = Some 7 \<and> tagged_in 1 root' 0"
  using radix_tags [of "rt_single (7::nat)" 1 0 7] by (fastforce simp: rt_single_content)

lemma gang_lookup_all:
  assumes "root_ok root" "rnode root = None \<longrightarrow> height root = 0"
  shows "radix_tree_gang_lookup root first_index max_items =
    Some (map Item (take max_items (entries_of (content root) (unat first_index) (2 ^ 64))))"
proof -
  have "radix_all.selected root = content root" by (simp add: fun_eq_iff radix_all.selected_def content_def)
  then show ?thesis
    using radix_all.gang_loop_spec [OF assms, of "[]" "unat first_index" first_index max_items] radix_maxindex [OF assms(1)]
    by (simp add: radix_tree_gang_lookup_def entries_of_def)
qed

lemma gang_lookup_tagged:
  assumes "root_ok root" "rnode root = None \<longrightarrow> height root = 0" "tag < 2"
  shows "radix_tree_gang_lookup_tag root first_index max_items tag =
    Some (map Item (take max_items (entries_of (\<lambda>i. if tagged_in tag root i then content root i else None) (unat first_index) (2 ^ 64))))"
proof -
  consider "tag = 0" | "tag = 1" using assms(3) by linarith
  then show ?thesis
  proof cases
    case 1
    then have "radix_tag0.selected root = (\<lambda>i. if tagged_in tag root i then content root i else None)"
      by (simp add: fun_eq_iff radix_tag0.selected_def tag_look_def tagged_in_def content_def)
    then show ?thesis
      using radix_tag0.gang_loop_spec [OF assms(1,2), of "[]" "unat first_index" first_index max_items] radix_maxindex [OF assms(1)] 1
      by (simp add: radix_tree_gang_lookup_tag_def entries_of_def)
  next
    case 2
    then have "radix_tag1.selected root = (\<lambda>i. if tagged_in tag root i then content root i else None)"
      by (simp add: fun_eq_iff radix_tag1.selected_def tag_look_def tagged_in_def content_def del: One_nat_def)
    then show ?thesis
      using radix_tag1.gang_loop_spec [OF assms(1,2), of "[]" "unat first_index" first_index max_items] radix_maxindex [OF assms(1)] 2
      by (simp add: radix_tree_gang_lookup_tag_def entries_of_def)
  qed
qed

text \<open>
  C12: The loops of \<^verbatim>\<open>radix_tree_gang_lookup\<close> and \<^verbatim>\<open>radix_tree_gang_lookup_tag\<close> end, and the calls return the first \<^verbatim>\<open>max_items\<close> items at or
  above \<^verbatim>\<open>first_index\<close> in ascending order of their indices, with none left out: what a scan of all indices, or of all indices with the tag, would give.
  This holds of every well-formed tree with one exception: in a tree without nodes whose height is not 0, as an insertion that fails with -ENOMEM leaves it, both
  follow the null root when they are asked for at least one item at an index within the height.
\<close>

theorem radix_gang_lookup:
  assumes "root_ok root" "tag < 2"
  shows "if rnode root = None \<and> height root \<noteq> 0 \<and> max_items \<noteq> 0 \<and> unat first_index < 64 ^ height root
   then radix_tree_gang_lookup root first_index max_items = None \<and> radix_tree_gang_lookup_tag root first_index max_items tag = None
   else radix_tree_gang_lookup root first_index max_items =
      Some (map Item (take max_items (entries_of (content root) (unat first_index) (2 ^ 64)))) \<and>
    radix_tree_gang_lookup_tag root first_index max_items tag =
      Some (map Item (take max_items (entries_of (\<lambda>i. if tagged_in tag root i then content root i else None) (unat first_index) (2 ^ 64))))"
proof (cases "rnode root = None \<and> height root \<noteq> 0")
  case False
  then have "rnode root = None \<longrightarrow> height root = 0" by blast
  then show ?thesis using gang_lookup_all [OF assms(1)] gang_lookup_tagged [OF assms(1) _ assms(2)]
    by (subst if_not_P) (auto simp: False)
next
  case True
  then obtain h where h: "height root = Suc h" by (cases "height root") auto
  have c: "content root i = None" for i using True by (simp add: content_def h)
  have e: "entries_of (content root) a b = []" "entries_of (\<lambda>i. if tagged_in tag root i then content root i else None) a b = []" for a b
    by (rule entries_empty; simp add: c)+
  show ?thesis unfolding e using True h radix_maxindex [OF assms(1)] root_maxindex [OF assms(1), of first_index]
    by (auto simp: radix_tree_gang_lookup_def radix_tree_gang_lookup_tag_def gang_loop.simps not_le not_less)
qed

theorem radix_gang_lookup_witness:
  "radix_tree_gang_lookup (rt_single (7::nat)) 0 4 = Some [Item 7] \<and> radix_tree_gang_lookup_tag (rt_single (7::nat)) 0 4 1 = Some []"
proof -
  have t: "entries_of (\<lambda>i. if tagged_in 1 (rt_single (7::nat)) i then content (rt_single 7) i else None) 0 (2 ^ 64) = []"
    using rt_single_tagged [of 1 "7::nat"] by (intro entries_empty) simp
  have "entries_of (content (rt_single (7::nat))) 0 (2 ^ 64) = entries_of (content (rt_single 7)) 0 1 @ entries_of (content (rt_single 7)) 1 (2 ^ 64)"
    by (rule entries_append [symmetric]) simp_all
  also have "entries_of (content (rt_single (7::nat))) 1 (2 ^ 64) = []"
    by (rule entries_empty) (simp add: rt_single_content)
  also have "entries_of (content (rt_single (7::nat))) 0 1 = [7]" by (simp add: rt_single_content entries_of_def)
  finally have "take 4 (entries_of (content (rt_single (7::nat))) 0 (2 ^ 64)) = [7]" by (simp only: append.simps take_Cons') simp
  then show ?thesis using t radix_gang_lookup [where root = "rt_single (7::nat)" and tag = 1 and first_index = 0 and max_items = 4] by simp
qed

lemma preload_short: "map_option fst (radix_tree_insert (rt_single x) (- 1) y (rt_pool 12)) = Some (- ENOMEM)"
  by code_simp

text \<open>
  C29: After \<^verbatim>\<open>radix_tree_preload\<close> has returned 0 the pool has the 12 nodes of a longest path, whatever other
  tasks did to it while the allocations slept. With them an insertion that may not wait, and is not the one into an empty tree of height 11 that crashes, does not fail for memory when
  the tree is empty or high enough for the index. 20 nodes are enough for every tree. But the 12 nodes do not ensure that every next
  insertion finds its memory, as the comment above \<^verbatim>\<open>radix_tree_preload\<close> says: a tree that has one item at index 0 needs ten
  new levels above it and nine nodes below them for the last index, and the insertion returns -ENOMEM with 12 nodes preloaded.
\<close>

theorem radix_preload_insert:
  assumes "root_ok root" "pool_ok p" "\<not> (rnode root = None \<and> height root = 11 \<and> index = 0)" "\<not> gfp_wait root"
    and "radix_tree_preload rs rtp = Some (0, preloads p, freed)"
    and "rnode root = None \<or> unat index < 64 ^ height root \<or> 20 \<le> length (preloads p)"
  shows "12 \<le> length (preloads p) \<and> (\<exists>r root' p'. radix_tree_insert root index item p = Some (r, root', p') \<and> r \<in> {0, - EEXIST}) \<and>
    map_option fst (radix_tree_insert (rt_single x) (- 1) y (rt_pool 12)) = Some (- ENOMEM)"
proof -
  have pre: "12 \<le> length q" if "radix_tree_preload rs rtp = Some (0, q, fr)" for rs and rtp q fr :: "'a radix_tree_node list"
    using that by (induction rs rtp arbitrary: fr rule: radix_tree_preload.induct) (auto split: if_splits option.splits)
  have len: "12 \<le> length (preloads p)" using pre [OF assms(5)] .
  obtain r root' p' where i: "radix_tree_insert root index item p = Some (r, root', p')" "r = 0 \<or> r = - EEXIST \<or> r = - ENOMEM"
    "r = - ENOMEM \<and> \<not> gfp_wait root \<longrightarrow> length (preloads p) < (if rnode root = None \<or> unat index < 64 ^ height root then 11 else 20)"
    using radix_tree_insert_spec [OF assms(1,2), of index item] assms(3) by (auto simp: beyond_maxindex_def)
  then have "r \<noteq> - ENOMEM" using assms(4,6) len by (auto split: if_splits)
  then have "\<exists>r root' p'. radix_tree_insert root index item p = Some (r, root', p') \<and> r \<in> {0, - EEXIST}" using i by blast
  then show ?thesis using len preload_short by (intro conjI)
qed

theorem radix_preload_insert_witness:
  "\<exists>r root' p'. radix_tree_insert rt_empty 5 (8::nat) (rt_pool 12) = Some (r, root', p') \<and> r \<in> {0, - EEXIST}"
  using radix_preload_insert [where root = rt_empty and p = "rt_pool 12" and rs = "[]" and rtp = "replicate 12 radix_tree_node_ctor" and freed = "[]" and
      index = 5 and item = "8::nat" and x = "0::nat" and y = "0::nat"]
  by (simp del: map_option_eq_Some)


end
