(* ===== verification/Resource.thy ===== *)
theory Resource
  imports Prelude
begin

text \<open>
  The tree of I/O resources of \<^verbatim>\<open>kernel/resource.c\<close>. The resources are a store from addresses to
  records with the links \<^verbatim>\<open>parent\<close>, \<^verbatim>\<open>sibling\<close> and \<^verbatim>\<open>child\<close>, and the operations follow and change the
  links as the code does; a step through a null or freed pointer is a crash. The loops over the links are
  partial functions, so that a loop that does not end is \<open>None\<close> as well. The write lock makes each
  operation one step. The memory for a new region is an argument: the address that
  \<^verbatim>\<open>kmalloc\<close> returns.
\<close>

unbundle bit_operations_syntax

section \<open>Data\<close>

abbreviation (input) IORESOURCE_BUSY :: ulong where "IORESOURCE_BUSY \<equiv> 0x80000000"

record resource =
  res_name :: string
  res_start :: ulong
  res_end :: ulong
  res_flags :: ulong
  res_parent :: "nat option"
  res_sibling :: "nat option"
  res_child :: "nat option"

type_synonym res_store = "nat \<rightharpoonup> resource"

text \<open>The pointers to a link, \<^verbatim>\<open>&r->child\<close> and \<^verbatim>\<open>&r->sibling\<close>, with the load and the store through them.\<close>

datatype res_link = Child_of nat | Sibling_of nat

fun get_link :: "res_store \<Rightarrow> res_link \<Rightarrow> nat option option" where
  "get_link s (Child_of a) = map_option res_child (s a)"
| "get_link s (Sibling_of a) = map_option res_sibling (s a)"

fun put_link :: "res_store \<Rightarrow> res_link \<Rightarrow> nat option \<Rightarrow> res_store option" where
  "put_link s (Child_of a) v = map_option (\<lambda>r. s(a \<mapsto> r\<lparr>res_child := v\<rparr>)) (s a)"
| "put_link s (Sibling_of a) v = map_option (\<lambda>r. s(a \<mapsto> r\<lparr>res_sibling := v\<rparr>)) (s a)"

definition put_parent :: "res_store \<Rightarrow> nat \<Rightarrow> nat option \<Rightarrow> res_store option" where
  "put_parent s a v = map_option (\<lambda>r. s(a \<mapsto> r\<lparr>res_parent := v\<rparr>)) (s a)"

section \<open>Request and release\<close>

partial_function (option) request_loop :: "nat \<Rightarrow> nat \<Rightarrow> ulong \<Rightarrow> ulong \<Rightarrow> res_store \<Rightarrow> res_link \<Rightarrow> (nat option \<times> res_store) option" where
  "request_loop root new lo hi s p = do {
     tmp \<leftarrow> get_link s p;
     clear \<leftarrow> (case tmp of None \<Rightarrow> Some True | Some t \<Rightarrow> map_option (\<lambda>r. res_start r > hi) (s t));
     if clear
     then do {
       s \<leftarrow> put_link s (Sibling_of new) tmp;
       s \<leftarrow> put_link s p (Some new);
       s \<leftarrow> put_parent s new (Some root);
       Some (None, s)
     }
     else do {
       t \<leftarrow> tmp;
       r \<leftarrow> s t;
       if res_end r < lo then request_loop root new lo hi s (Sibling_of t)
       else Some (Some t, s)
     }
   }"

text \<open>\<^verbatim>\<open>__request_resource\<close>: the resource in conflict, if any.\<close>

definition request_nolock :: "res_store \<Rightarrow> nat \<Rightarrow> nat \<Rightarrow> (nat option \<times> res_store) option" where
  "request_nolock s root new = do {
     n \<leftarrow> s new;
     r \<leftarrow> s root;
     if res_end n < res_start n then Some (Some root, s)
     else if res_start n < res_start r then Some (Some root, s)
     else if res_end n > res_end r then Some (Some root, s)
     else request_loop root new (res_start n) (res_end n) s (Child_of root)
   }"

partial_function (option) release_loop :: "nat \<Rightarrow> res_store \<Rightarrow> res_link \<Rightarrow> (int \<times> res_store) option" where
  "release_loop old s p = do {
     tmp \<leftarrow> get_link s p;
     case tmp of
       None \<Rightarrow> Some (- EINVAL, s)
     | Some t \<Rightarrow>
         if t = old
         then do {
           r \<leftarrow> s t;
           s \<leftarrow> put_link s p (res_sibling r);
           s \<leftarrow> put_parent s old None;
           Some (0, s)
         }
         else release_loop old s (Sibling_of t)
   }"

definition release_nolock :: "res_store \<Rightarrow> nat \<Rightarrow> (int \<times> res_store) option" where
  "release_nolock s old = do {
     r \<leftarrow> s old;
     parent \<leftarrow> res_parent r;
     release_loop old s (Child_of parent)
   }"

definition request_resource :: "res_store \<Rightarrow> nat \<Rightarrow> nat \<Rightarrow> (int \<times> res_store) option" where
  "request_resource s root new = do {
     (conflict, s) \<leftarrow> request_nolock s root new;
     Some (if Option.is_none conflict then 0 else - EBUSY, s)
   }"

text \<open>\<^verbatim>\<open>____request_resource\<close>\<close>

definition request_conflict :: "res_store \<Rightarrow> nat \<Rightarrow> nat \<Rightarrow> (nat option \<times> res_store) option" where
  "request_conflict s root new = request_nolock s root new"

definition release_resource :: "res_store \<Rightarrow> nat \<Rightarrow> (int \<times> res_store) option" where
  "release_resource s old = release_nolock s old"

section \<open>Allocation\<close>

type_synonym res_alignf = "resource \<Rightarrow> ulong \<Rightarrow> ulong \<Rightarrow> resource"

text \<open>The candidate in the gap that ends before \<^verbatim>\<open>this\<close>; \<open>hi\<close> is the end of the gap.\<close>

definition gap_candidate :: "ulong \<Rightarrow> ulong \<Rightarrow> ulong \<Rightarrow> ulong \<Rightarrow> res_alignf option \<Rightarrow> ulong \<Rightarrow> resource \<Rightarrow> resource" where
  "gap_candidate sz mn mx align alignf hi new = (
     let new = new\<lparr>res_end := hi\<rparr>;
         new = (if res_start new < mn then new\<lparr>res_start := mn\<rparr> else new);
         new = (if res_end new > mx then new\<lparr>res_end := mx\<rparr> else new);
         new = new\<lparr>res_start := (res_start new + align - 1) AND NOT (align - 1)\<rparr>
     in case alignf of None \<Rightarrow> new | Some f \<Rightarrow> f new sz align)"

partial_function (option) find_loop :: "nat \<Rightarrow> nat \<Rightarrow> ulong \<Rightarrow> ulong \<Rightarrow> ulong \<Rightarrow> ulong \<Rightarrow> res_alignf option \<Rightarrow>
    res_store \<Rightarrow> nat option \<Rightarrow> (int \<times> res_store) option" where
  "find_loop root new sz mn mx align alignf s this = do {
     hi \<leftarrow> (case this of Some t \<Rightarrow> map_option (\<lambda>r. res_start r - 1) (s t) | None \<Rightarrow> map_option res_end (s root));
     n \<leftarrow> s new;
     let n = gap_candidate sz mn mx align alignf hi n;
     let s = s(new \<mapsto> n);
     if res_start n < res_end n \<and> res_end n - res_start n + 1 \<ge> sz
     then Some (0, s(new \<mapsto> n\<lparr>res_end := res_start n + sz - 1\<rparr>))
     else case this of
       None \<Rightarrow> Some (- EBUSY, s)
     | Some t \<Rightarrow> do {
         r \<leftarrow> s t;
         find_loop root new sz mn mx align alignf (s(new \<mapsto> n\<lparr>res_start := res_end r + 1\<rparr>)) (res_sibling r)
       }
   }"

definition find_resource :: "res_store \<Rightarrow> nat \<Rightarrow> nat \<Rightarrow> ulong \<Rightarrow> ulong \<Rightarrow> ulong \<Rightarrow> ulong \<Rightarrow> res_alignf option \<Rightarrow> (int \<times> res_store) option" where
  "find_resource s root new sz mn mx align alignf = do {
     r \<leftarrow> s root;
     n \<leftarrow> s new;
     let s = s(new \<mapsto> n\<lparr>res_start := res_start r\<rparr>);
     case res_child r of
       None \<Rightarrow> find_loop root new sz mn mx align alignf s None
     | Some t \<Rightarrow> do {
         rt \<leftarrow> s t;
         if res_start rt = 0
         then find_loop root new sz mn mx align alignf (s(new \<mapsto> n\<lparr>res_start := res_end rt + 1\<rparr>)) (res_sibling rt)
         else find_loop root new sz mn mx align alignf s (Some t)
       }
   }"

definition allocate_resource :: "res_store \<Rightarrow> nat \<Rightarrow> nat \<Rightarrow> ulong \<Rightarrow> ulong \<Rightarrow> ulong \<Rightarrow> ulong \<Rightarrow> res_alignf option \<Rightarrow> (int \<times> res_store) option" where
  "allocate_resource s root new sz mn mx align alignf = do {
     (err, s) \<leftarrow> find_resource s root new sz mn mx align alignf;
     if err \<ge> 0
     then do {
       (conflict, s) \<leftarrow> request_nolock s root new;
       Some (if Option.is_none conflict then err else - EBUSY, s)
     }
     else Some (err, s)
   }"

section \<open>Insertion above and below existing resources\<close>

text \<open>The loop over the resources in conflict: the last of them, or \<open>None\<close> inside for a partial overlap.\<close>

partial_function (option) overlap_loop :: "resource \<Rightarrow> res_store \<Rightarrow> nat \<Rightarrow> nat option option" where
  "overlap_loop new s next = do {
     r \<leftarrow> s next;
     if res_start r < res_start new \<or> res_end r > res_end new then Some None
     else case res_sibling r of
       None \<Rightarrow> Some (Some next)
     | Some t \<Rightarrow> do {
         rt \<leftarrow> s t;
         if res_start rt > res_end new then Some (Some next) else overlap_loop new s t
       }
   }"

partial_function (option) adopt_loop :: "nat \<Rightarrow> res_store \<Rightarrow> nat option \<Rightarrow> res_store option" where
  "adopt_loop new s next =
     (if Option.is_none next then Some s
      else do {
        t \<leftarrow> next;
        s \<leftarrow> put_parent s t (Some new);
        r \<leftarrow> s t;
        adopt_loop new s (res_sibling r)
      })"

partial_function (option) before_loop :: "nat \<Rightarrow> res_store \<Rightarrow> nat \<Rightarrow> nat option" where
  "before_loop target s next = do {
     r \<leftarrow> s next;
     if res_sibling r = Some target then Some next
     else do { t \<leftarrow> res_sibling r; before_loop target s t }
   }"

text \<open>From \<^verbatim>\<open>result = 0\<close> on: \<open>new\<close> takes the place of the resources from \<open>first\<close> to \<open>next\<close>.\<close>

definition insert_above :: "res_store \<Rightarrow> nat \<Rightarrow> nat \<Rightarrow> nat \<Rightarrow> nat \<Rightarrow> res_store option" where
  "insert_above s parent new first next = do {
     s \<leftarrow> put_parent s new (Some parent);
     after \<leftarrow> get_link s (Sibling_of next);
     s \<leftarrow> put_link s (Sibling_of new) after;
     s \<leftarrow> put_link s (Child_of new) (Some first);
     s \<leftarrow> put_link s (Sibling_of next) None;
     s \<leftarrow> adopt_loop new s (Some first);
     head \<leftarrow> get_link s (Child_of parent);
     if head = Some first
     then put_link s (Child_of parent) (Some new)
     else do {
       h \<leftarrow> head;
       prev \<leftarrow> before_loop first s h;
       put_link s (Sibling_of prev) (Some new)
     }
   }"

partial_function (option) insert_loop :: "nat \<Rightarrow> res_store \<Rightarrow> nat \<Rightarrow> (int \<times> res_store) option" where
  "insert_loop new s parent = do {
     (conflict, s) \<leftarrow> request_nolock s parent new;
     case conflict of
       None \<Rightarrow> Some (0, s)
     | Some first \<Rightarrow>
         if first = parent then Some (- EBUSY, s)
         else do {
           f \<leftarrow> s first;
           n \<leftarrow> s new;
           if res_start f \<le> res_start n \<and> res_end f \<ge> res_end n then insert_loop new s first
           else do {
             covered \<leftarrow> overlap_loop n s first;
             case covered of
               None \<Rightarrow> Some (- EBUSY, s)
             | Some next \<Rightarrow> do { s \<leftarrow> insert_above s parent new first next; Some (0, s) }
           }
         }
   }"

definition insert_resource :: "res_store \<Rightarrow> nat \<Rightarrow> nat \<Rightarrow> (int \<times> res_store) option" where
  "insert_resource s parent new = insert_loop new s parent"

section \<open>Adjustment\<close>

partial_function (option) children_within :: "ulong \<Rightarrow> ulong \<Rightarrow> res_store \<Rightarrow> nat option \<Rightarrow> bool option" where
  "children_within lo hi s tmp =
     (if Option.is_none tmp then Some True
      else do {
        t \<leftarrow> tmp;
        r \<leftarrow> s t;
        if res_start r < lo \<or> res_end r > hi then Some False
        else children_within lo hi s (res_sibling r)
      })"

definition adjust_resource :: "res_store \<Rightarrow> nat \<Rightarrow> ulong \<Rightarrow> ulong \<Rightarrow> (int \<times> res_store) option" where
  "adjust_resource s res start sz = do {
     r \<leftarrow> s res;
     let hi = start + sz - 1;
     parent \<leftarrow> res_parent r;
     p \<leftarrow> s parent;
     if start < res_start p \<or> hi > res_end p then Some (- EBUSY, s)
     else do {
       inside \<leftarrow> children_within start hi s (res_child r);
       if \<not> inside then Some (- EBUSY, s)
       else do {
         blocked \<leftarrow> (case res_sibling r of None \<Rightarrow> Some False | Some t \<Rightarrow> map_option (\<lambda>rt. res_start rt \<le> hi) (s t));
         if blocked then Some (- EBUSY, s)
         else do {
           blocked \<leftarrow>
             (if res_child p = Some res then Some False
              else do {
                h \<leftarrow> res_child p;
                prev \<leftarrow> before_loop res s h;
                map_option (\<lambda>rp. start \<le> res_end rp) (s prev)
              });
           if blocked then Some (- EBUSY, s)
           else Some (0, s(res \<mapsto> r\<lparr>res_start := start, res_end := hi\<rparr>))
         }
       }
     }
   }"

section \<open>Regions\<close>

partial_function (option) region_loop :: "nat \<Rightarrow> res_store \<Rightarrow> nat \<Rightarrow> (bool \<times> res_store) option" where
  "region_loop res s parent = do {
     (conflict, s) \<leftarrow> request_nolock s parent res;
     case conflict of
       None \<Rightarrow> Some (True, s)
     | Some c \<Rightarrow> do {
         rc \<leftarrow> s c;
         if c \<noteq> parent \<and> res_flags rc AND IORESOURCE_BUSY = 0 then region_loop res s c
         else Some (False, s(res := None))
       }
   }"

text \<open>\<^verbatim>\<open>__request_region\<close>; \<open>mem\<close> is what \<^verbatim>\<open>kmalloc\<close> returns.\<close>

definition request_region :: "res_store \<Rightarrow> nat \<Rightarrow> ulong \<Rightarrow> ulong \<Rightarrow> string \<Rightarrow> nat option \<Rightarrow> (nat option \<times> res_store) option" where
  "request_region s parent start n name mem =
     (case mem of
        None \<Rightarrow> Some (None, s)
      | Some res \<Rightarrow> do {
          let s = s(res \<mapsto> \<lparr>res_name = name, res_start = start, res_end = start + n - 1, res_flags = IORESOURCE_BUSY,
                            res_parent = None, res_sibling = None, res_child = None\<rparr>);
          (ok, s) \<leftarrow> region_loop res s parent;
          Some (if ok then Some res else None, s)
        })"

definition check_region :: "res_store \<Rightarrow> nat \<Rightarrow> ulong \<Rightarrow> ulong \<Rightarrow> nat option \<Rightarrow> (int \<times> res_store) option" where
  "check_region s parent start n mem = do {
     (res, s) \<leftarrow> request_region s parent start n ''check-region'' mem;
     case res of
       None \<Rightarrow> Some (- EBUSY, s)
     | Some a \<Rightarrow> do {
         (_, s) \<leftarrow> release_resource s a;
         Some (0, s(a := None))
       }
   }"

text \<open>The first component of the result tells whether a region was freed; otherwise the code prints a warning.\<close>

partial_function (option) release_region_loop :: "ulong \<Rightarrow> ulong \<Rightarrow> res_store \<Rightarrow> res_link \<Rightarrow> (bool \<times> res_store) option" where
  "release_region_loop start hi s p = do {
     res \<leftarrow> get_link s p;
     case res of
       None \<Rightarrow> Some (False, s)
     | Some a \<Rightarrow> do {
         r \<leftarrow> s a;
         if res_start r \<le> start \<and> res_end r \<ge> hi
         then if res_flags r AND IORESOURCE_BUSY = 0 then release_region_loop start hi s (Child_of a)
              else if res_start r \<noteq> start \<or> res_end r \<noteq> hi then Some (False, s)
              else do { s \<leftarrow> put_link s p (res_sibling r); Some (True, s(a := None)) }
         else release_region_loop start hi s (Sibling_of a)
       }
   }"

definition release_region :: "res_store \<Rightarrow> nat \<Rightarrow> ulong \<Rightarrow> ulong \<Rightarrow> (bool \<times> res_store) option" where
  "release_region s parent start n = release_region_loop start (start + n - 1) s (Child_of parent)"

declare request_loop.simps [code] release_loop.simps [code] find_loop.simps [code] overlap_loop.simps [code] adopt_loop.simps [code]
  before_loop.simps [code] insert_loop.simps [code] children_within.simps [code] region_loop.simps [code] release_region_loop.simps [code]

section \<open>The links of a store\<close>

definition sib :: "res_store \<Rightarrow> nat \<Rightarrow> nat option" where "sib s x = res_sibling (the (s x))"
definition kid :: "res_store \<Rightarrow> nat \<Rightarrow> nat option" where "kid s x = res_child (the (s x))"
definition par :: "res_store \<Rightarrow> nat \<Rightarrow> nat option" where "par s x = res_parent (the (s x))"
definition start_of :: "res_store \<Rightarrow> nat \<Rightarrow> ulong" where "start_of s x = res_start (the (s x))"
definition end_of :: "res_store \<Rightarrow> nat \<Rightarrow> ulong" where "end_of s x = res_end (the (s x))"
definition busy :: "res_store \<Rightarrow> nat \<Rightarrow> bool" where "busy s x \<longleftrightarrow> res_flags (the (s x)) AND IORESOURCE_BUSY \<noteq> 0"

definition set_sib :: "res_store \<Rightarrow> nat \<Rightarrow> nat option \<Rightarrow> res_store" where "set_sib s a v = s(a \<mapsto> (the (s a))\<lparr>res_sibling := v\<rparr>)"
definition set_kid :: "res_store \<Rightarrow> nat \<Rightarrow> nat option \<Rightarrow> res_store" where "set_kid s a v = s(a \<mapsto> (the (s a))\<lparr>res_child := v\<rparr>)"
definition set_par :: "res_store \<Rightarrow> nat \<Rightarrow> nat option \<Rightarrow> res_store" where "set_par s a v = s(a \<mapsto> (the (s a))\<lparr>res_parent := v\<rparr>)"
definition set_range :: "res_store \<Rightarrow> nat \<Rightarrow> ulong \<Rightarrow> ulong \<Rightarrow> res_store" where
  "set_range s a lo hi = s(a \<mapsto> (the (s a))\<lparr>res_start := lo, res_end := hi\<rparr>)"

lemmas view_defs = sib_def kid_def par_def start_of_def end_of_def busy_def
lemmas set_defs = set_sib_def set_kid_def set_par_def set_range_def

lemma set_sib_views [simp]: "sib (set_sib s a v) = (sib s)(a := v)" "kid (set_sib s a v) = kid s" "par (set_sib s a v) = par s"
  "start_of (set_sib s a v) = start_of s" "end_of (set_sib s a v) = end_of s" "busy (set_sib s a v) = busy s"
  "dom (set_sib s a v) = insert a (dom s)"
  by (auto simp: view_defs set_defs fun_eq_iff)

lemma set_kid_views [simp]: "sib (set_kid s a v) = sib s" "kid (set_kid s a v) = (kid s)(a := v)" "par (set_kid s a v) = par s"
  "start_of (set_kid s a v) = start_of s" "end_of (set_kid s a v) = end_of s" "busy (set_kid s a v) = busy s"
  "dom (set_kid s a v) = insert a (dom s)"
  by (auto simp: view_defs set_defs fun_eq_iff)

lemma set_par_views [simp]: "sib (set_par s a v) = sib s" "kid (set_par s a v) = kid s" "par (set_par s a v) = (par s)(a := v)"
  "start_of (set_par s a v) = start_of s" "end_of (set_par s a v) = end_of s" "busy (set_par s a v) = busy s"
  "dom (set_par s a v) = insert a (dom s)"
  by (auto simp: view_defs set_defs fun_eq_iff)

lemma set_range_views [simp]: "sib (set_range s a lo hi) = sib s" "kid (set_range s a lo hi) = kid s" "par (set_range s a lo hi) = par s"
  "start_of (set_range s a lo hi) = (start_of s)(a := lo)" "end_of (set_range s a lo hi) = (end_of s)(a := hi)" "busy (set_range s a lo hi) = busy s"
  "dom (set_range s a lo hi) = insert a (dom s)"
  by (auto simp: view_defs set_defs fun_eq_iff)

lemma links_dom [simp]: "a \<in> dom s \<Longrightarrow> get_link s (Child_of a) = Some (kid s a)" "a \<in> dom s \<Longrightarrow> get_link s (Sibling_of a) = Some (sib s a)"
  "a \<in> dom s \<Longrightarrow> put_link s (Child_of a) v = Some (set_kid s a v)" "a \<in> dom s \<Longrightarrow> put_link s (Sibling_of a) v = Some (set_sib s a v)"
  "a \<in> dom s \<Longrightarrow> put_parent s a v = Some (set_par s a v)"
  by (auto simp: view_defs set_defs put_parent_def)

text \<open>A linked list over the sibling links.\<close>

fun chain :: "(nat \<Rightarrow> nat option) \<Rightarrow> nat option \<Rightarrow> nat list \<Rightarrow> bool" where
  "chain f p [] \<longleftrightarrow> p = None"
| "chain f p (x # xs) \<longleftrightarrow> p = Some x \<and> chain f (f x) xs"

definition hd_opt :: "'a list \<Rightarrow> 'a option" where
  "hd_opt xs = (case xs of [] \<Rightarrow> None | x # _ \<Rightarrow> Some x)"

lemma hd_opt_simps [simp]: "hd_opt [] = None" "hd_opt (x # xs) = Some x" "hd_opt xs = None \<longleftrightarrow> xs = []"
  by (simp_all add: hd_opt_def split: list.split)

lemma chain_hd: "chain f p xs \<Longrightarrow> p = hd_opt xs"
  by (cases xs) auto

lemma chain_cong: "(\<And>x. x \<in> set xs \<Longrightarrow> f x = g x) \<Longrightarrow> chain f p xs = chain g p xs"
  by (induction xs arbitrary: p) auto

lemma chain_upd [simp]: "a \<notin> set xs \<Longrightarrow> chain (f(a := v)) p xs = chain f p xs"
  by (rule chain_cong) auto

lemma chain_append: "chain f p (xs @ ys) \<longleftrightarrow> p = hd_opt (xs @ ys) \<and> chain f (hd_opt ys) ys \<and>
    (\<forall>us x vs. xs = us @ x # vs \<longrightarrow> f x = hd_opt (vs @ ys))"
proof (induction xs arbitrary: p)
  case Nil
  then show ?case using chain_hd by auto
next
  case (Cons x xs)
  show ?case
    by (auto simp: Cons.IH Cons_eq_append_conv dest: chain_hd)
qed

lemma chain_last: "chain f p (xs @ ys) \<Longrightarrow> xs \<noteq> [] \<Longrightarrow> f (last xs) = hd_opt ys"
  by (induction xs arbitrary: p) (auto dest: chain_hd)

lemma chain_replace: "chain f p (xs @ l # ys) \<Longrightarrow> l \<notin> set xs \<Longrightarrow> chain f (hd_opt zs) zs \<Longrightarrow> l \<notin> set zs \<Longrightarrow>
    chain (f(l := hd_opt zs)) p (xs @ l # zs)"
  by (induction xs arbitrary: p) auto

section \<open>Well-formed trees\<close>

text \<open>
  \<open>C\<close> gives the list of the children of every resource. The children are linked in ascending order, lie in the
  range of their parent and do not overlap. A resource without a parent is in no list.
\<close>

definition res_ok :: "res_store \<Rightarrow> (nat \<Rightarrow> nat list) \<Rightarrow> bool" where
  "res_ok s C \<longleftrightarrow>
     (\<forall>a \<in> dom s. chain (sib s) (kid s a) (C a) \<and> sorted_wrt (\<lambda>x y. end_of s x < start_of s y) (C a) \<and>
        (\<forall>x \<in> set (C a). x \<in> dom s \<and> par s x = Some a \<and> start_of s a \<le> start_of s x \<and> start_of s x \<le> end_of s x \<and> end_of s x \<le> end_of s a)) \<and>
     (\<forall>x \<in> dom s. \<forall>a. par s x = Some a \<longrightarrow> a \<in> dom s \<and> x \<in> set (C a)) \<and>
     (\<exists>rk :: nat \<Rightarrow> nat. \<forall>x \<in> dom s. \<forall>a. par s x = Some a \<longrightarrow> rk a < rk x) \<and> finite (dom s)"

definition unattached :: "res_store \<Rightarrow> nat \<Rightarrow> bool" where
  "unattached s a \<longleftrightarrow> a \<in> dom s \<and> par s a = None \<and> kid s a = None"

lemma res_okD:
  assumes "res_ok s C" "a \<in> dom s"
  shows "chain (sib s) (kid s a) (C a)" "sorted_wrt (\<lambda>x y. end_of s x < start_of s y) (C a)"
    "x \<in> set (C a) \<Longrightarrow> x \<in> dom s" "x \<in> set (C a) \<Longrightarrow> par s x = Some a" "x \<in> set (C a) \<Longrightarrow> start_of s a \<le> start_of s x"
    "x \<in> set (C a) \<Longrightarrow> start_of s x \<le> end_of s x" "x \<in> set (C a) \<Longrightarrow> end_of s x \<le> end_of s a"
  using assms unfolding res_ok_def by blast+

lemma res_ok_par: "res_ok s C \<Longrightarrow> x \<in> dom s \<Longrightarrow> par s x = Some a \<Longrightarrow> a \<in> dom s \<and> x \<in> set (C a)"
  unfolding res_ok_def by blast

lemma res_ok_rank: "res_ok s C \<Longrightarrow> \<exists>rk :: nat \<Rightarrow> nat. \<forall>x \<in> dom s. \<forall>a. par s x = Some a \<longrightarrow> rk a < rk x"
  and res_ok_finite: "res_ok s C \<Longrightarrow> finite (dom s)"
  unfolding res_ok_def by blast+

lemma res_okI:
  assumes "\<And>a. a \<in> dom s \<Longrightarrow> chain (sib s) (kid s a) (C a)" "\<And>a. a \<in> dom s \<Longrightarrow> sorted_wrt (\<lambda>x y. end_of s x < start_of s y) (C a)"
    "\<And>a x. a \<in> dom s \<Longrightarrow> x \<in> set (C a) \<Longrightarrow> x \<in> dom s \<and> par s x = Some a \<and> start_of s a \<le> start_of s x \<and> start_of s x \<le> end_of s x \<and> end_of s x \<le> end_of s a"
    "\<And>x a. x \<in> dom s \<Longrightarrow> par s x = Some a \<Longrightarrow> a \<in> dom s \<and> x \<in> set (C a)"
    "\<exists>rk :: nat \<Rightarrow> nat. \<forall>x \<in> dom s. \<forall>a. par s x = Some a \<longrightarrow> rk a < rk x" "finite (dom s)"
  shows "res_ok s C"
  unfolding res_ok_def using assms by blast

lemma res_ok_distinct:
  assumes ok: "res_ok s C" and a: "a \<in> dom s"
  shows "distinct (C a)"
proof -
  have "sorted_wrt (\<lambda>x y. end_of s x < start_of s y) xs \<Longrightarrow> \<forall>x \<in> set xs. start_of s x \<le> end_of s x \<Longrightarrow> distinct xs" for xs
    by (induction xs) (auto dest: leD)
  then show ?thesis using res_okD(2,6) [OF ok a] by blast
qed

lemma unattached_kids: "res_ok s C \<Longrightarrow> unattached s a \<Longrightarrow> C a = []"
  using res_okD(1) [of s C a] by (cases "C a") (simp_all add: unattached_def)

lemma unattached_no_kid: "res_ok s C \<Longrightarrow> unattached s n \<Longrightarrow> a \<in> dom s \<Longrightarrow> n \<notin> set (C a)"
  using res_okD(4) [of s C a n] by (auto simp: unattached_def)

text \<open>The link that follows the children \<open>xs\<close> of \<open>a\<close>, and the store through it.\<close>

definition link_at :: "nat \<Rightarrow> nat list \<Rightarrow> res_link" where
  "link_at a xs = (if xs = [] then Child_of a else Sibling_of (last xs))"

definition relink :: "res_store \<Rightarrow> nat \<Rightarrow> nat list \<Rightarrow> nat option \<Rightarrow> res_store" where
  "relink s a xs v = (if xs = [] then set_kid s a v else set_sib s (last xs) v)"

lemma relink_views [simp]: "par (relink s a xs v) = par s" "start_of (relink s a xs v) = start_of s" "end_of (relink s a xs v) = end_of s"
  "busy (relink s a xs v) = busy s"
  by (simp_all add: relink_def)

lemma link_at_ok:
  assumes ok: "res_ok s C" "a \<in> dom s" "C a = xs @ ys"
  shows "get_link s (link_at a xs) = Some (hd_opt ys)" "put_link s (link_at a xs) v = Some (relink s a xs v)"
    "dom (relink s a xs v) = dom s" "ys = y # zs \<Longrightarrow> link_at a (xs @ [y]) = Sibling_of y"
proof -
  have "last xs \<in> dom s" if "xs \<noteq> []" using that res_okD(3) [OF ok(1,2), of "last xs"] ok(3) by simp
  moreover have "sib s (last xs) = hd_opt ys" if "xs \<noteq> []" using chain_last [OF _ that] res_okD(1) [OF ok(1,2)] ok(3) by metis
  moreover have "kid s a = hd_opt ys" if "xs = []" using that res_okD(1) [OF ok(1,2)] ok(3) chain_hd by auto
  ultimately show "get_link s (link_at a xs) = Some (hd_opt ys)" "put_link s (link_at a xs) v = Some (relink s a xs v)"
    "dom (relink s a xs v) = dom s"
    using ok(2) by (simp_all add: link_at_def relink_def insert_absorb del: get_link.simps put_link.simps)
qed (simp add: link_at_def)

lemma relink_chain:
  assumes "chain (sib s) (kid s a) (xs @ ys)" "distinct xs" "chain (sib s) (hd_opt zs) zs" "xs \<noteq> [] \<Longrightarrow> last xs \<notin> set zs"
  shows "chain (sib (relink s a xs (hd_opt zs))) (kid (relink s a xs (hd_opt zs)) a) (xs @ zs)"
proof (cases xs rule: rev_cases)
  case (snoc us l)
  then show ?thesis using assms chain_replace [of "sib s" "kid s a" us l ys zs] by (simp add: relink_def)
qed (use assms in \<open>simp add: relink_def\<close>)

lemma relink_other:
  assumes "b \<noteq> a" "xs \<noteq> [] \<Longrightarrow> last xs \<notin> set ys"
  shows "chain (sib (relink s a xs v)) (kid (relink s a xs v) b) ys = chain (sib s) (kid s b) ys"
  using assms by (auto simp: relink_def)


section \<open>Request\<close>

definition in_range :: "res_store \<Rightarrow> nat \<Rightarrow> nat \<Rightarrow> bool" where
  "in_range s x a \<longleftrightarrow> start_of s x \<le> end_of s x \<and> start_of s a \<le> start_of s x \<and> end_of s x \<le> end_of s a"

text \<open>The store with \<open>new\<close> between the children \<open>xs\<close> and \<open>ys\<close> of \<open>root\<close>.\<close>

definition attached :: "res_store \<Rightarrow> nat \<Rightarrow> nat \<Rightarrow> nat list \<Rightarrow> nat list \<Rightarrow> res_store" where
  "attached s root new xs ys = set_par (relink (set_sib s new (hd_opt ys)) root xs (Some new)) new (Some root)"

lemma attached_views [simp]: "start_of (attached s root new xs ys) = start_of s" "end_of (attached s root new xs ys) = end_of s"
  "busy (attached s root new xs ys) = busy s" "par (attached s root new xs ys) = (par s)(new := Some root)"
  by (simp_all add: attached_def)

lemma rank_insert:
  assumes "\<exists>rk :: nat \<Rightarrow> nat. \<forall>x \<in> D. \<forall>a. p x = Some a \<longrightarrow> rk a < rk x"
    and "\<And>x a. x \<in> D \<Longrightarrow> p' x = Some a \<Longrightarrow> p x = Some a \<or> x = new \<and> a = q \<or> a = new \<and> p x = Some q"
    and "\<And>x. x \<in> D \<Longrightarrow> p x \<noteq> Some new" "p new = None" "q \<noteq> new"
  shows "\<exists>rk :: nat \<Rightarrow> nat. \<forall>x \<in> D. \<forall>a. p' x = Some a \<longrightarrow> rk a < rk x"
proof -
  obtain rk :: "nat \<Rightarrow> nat" where rk: "\<forall>x \<in> D. \<forall>a. p x = Some a \<longrightarrow> rk a < rk x" using assms(1) by blast
  let ?rk = "(\<lambda>x. 2 * rk x)(new := 2 * rk q + 1)"
  have "?rk a < ?rk x" if hp: "x \<in> D" "p' x = Some a" for x a
  proof -
    consider "p x = Some a" "x \<noteq> new" "a \<noteq> new" | "x = new" "a = q" | "a = new" "p x = Some q" "x \<noteq> new"
      using assms(2) [OF hp] assms(3) [OF hp(1)] assms(4) by (cases "x = new") auto
    then show ?thesis
    proof cases
      case 1
      then show ?thesis using rk hp(1) by auto
    next
      case 2
      then show ?thesis using assms(5) by simp
    next
      case 3
      then have "rk q < rk x" using rk hp(1) by blast
      then show ?thesis using 3 by simp
    qed
  qed
  then show ?thesis by blast
qed

lemma attached_ok:
  assumes ok: "res_ok s C" and root: "root \<in> dom s" "C root = xs @ ys" and new: "unattached s new" "new \<noteq> root" "in_range s new root"
    and gap: "\<forall>x \<in> set xs. end_of s x < start_of s new" "\<forall>y \<in> set ys. end_of s new < start_of s y"
  shows "res_ok (attached s root new xs ys) (C(root := xs @ new # ys))" "dom (attached s root new xs ys) = dom s"
proof -
  let ?s = "attached s root new xs ys" and ?C = "C(root := xs @ new # ys)" and ?t = "set_sib s new (hd_opt ys)"
  have nd: "new \<in> dom s" "par s new = None" "kid s new = None" using new(1) by (auto simp: unattached_def)
  note no = unattached_no_kid [OF ok new(1)] and dist = res_ok_distinct [OF ok] and D = res_okD [OF ok]
  have ldom: "last xs \<in> dom s" if "xs \<noteq> []" using that D(3) [OF root(1), of "last xs"] root(2) by simp
  show dom: "dom ?s = dom s" using nd(1) root(1) ldom by (auto simp: attached_def relink_def)
  have lnew: "last xs \<noteq> new" if "xs \<noteq> []" using that no [OF root(1)] root(2) by (metis UnCI last_in_set set_append)
  have ch: "chain (sib ?s) (kid ?s b) (?C b)" if b: "b \<in> dom s" for b
  proof (cases "b = root")
    case True
    have c0: "chain (sib s) (kid s root) (xs @ ys)" using D(1) [OF root(1)] root(2) by simp
    then have "chain (sib s) (hd_opt ys) ys" by (simp add: chain_append)
    moreover have "new \<notin> set ys" "new \<notin> set xs" using no [OF root(1)] root(2) by auto
    moreover have "distinct (xs @ ys)" using dist [OF root(1)] root(2) by simp
    ultimately have "chain (sib (relink ?t root xs (hd_opt (new # ys)))) (kid (relink ?t root xs (hd_opt (new # ys))) root) (xs @ new # ys)"
      using c0 lnew by (intro relink_chain [where ys = ys]) (auto dest: last_in_set)
    then show ?thesis using True by (simp add: attached_def)
  next
    case False
    have "last xs \<notin> set (C b)" if "xs \<noteq> []"
      using that D(4) [OF b, of "last xs"] D(4) [OF root(1), of "last xs"] root(2) False by auto
    then show ?thesis using False D(1) [OF b] no [OF b] by (simp add: attached_def relink_other)
  qed
  have srt: "sorted_wrt (\<lambda>x y. end_of s x < start_of s y) (?C b)" if "b \<in> dom s" for b
    using D(2) [OF that] root(2) gap new(3) by (fastforce simp: sorted_wrt_append in_range_def)
  have mem: "x \<in> dom s \<and> par ?s x = Some b \<and> start_of s b \<le> start_of s x \<and> start_of s x \<le> end_of s x \<and> end_of s x \<le> end_of s b"
    if "b \<in> dom s" "x \<in> set (?C b)" for b x
  proof (cases "x = new")
    case True
    then have "b = root" using that no [OF that(1)] by (auto split: if_splits)
    then show ?thesis using True nd(1) new(3) by (simp add: in_range_def)
  next
    case False
    then have "x \<in> set (C b)" using that root(2) by (auto split: if_splits)
    then show ?thesis using False D(3-7) [OF that(1), of x] by simp
  qed
  have par: "b \<in> dom s \<and> x \<in> set (?C b)" if "x \<in> dom s" "par ?s x = Some b" for x b
    using that res_ok_par [OF ok that(1), of b] root by (auto split: if_splits)
  have r1: "\<exists>rk :: nat \<Rightarrow> nat. \<forall>x \<in> dom s. \<forall>a. par s x = Some a \<longrightarrow> rk a < rk x" by (rule res_ok_rank [OF ok])
  have r2: "par s x \<noteq> Some new" if "x \<in> dom s" for x
    using res_ok_par [OF ok that, of new] unattached_kids [OF ok new(1)] by auto
  have "\<exists>rk :: nat \<Rightarrow> nat. \<forall>x \<in> dom s. \<forall>a. par ?s x = Some a \<longrightarrow> rk a < rk x"
    by (rule rank_insert [OF r1 _ r2 nd(2), of "par ?s" root]) (use new(2) in \<open>auto split: if_splits\<close>)
  then show "res_ok ?s ?C"
    by (intro res_okI; unfold dom attached_views(1,2)) (assumption | rule ch srt mem par res_ok_finite [OF ok]; assumption)+
qed


lemma request_attach:
  assumes ok: "res_ok s C" and root: "root \<in> dom s" and new: "unattached s new" "new \<noteq> root" and "C root = xs @ ys"
    and "\<forall>y \<in> set ys. hi < start_of s y"
  shows "request_loop root new lo hi s (link_at root xs) = Some (None, attached s root new xs ys)"
proof -
  have nd: "new \<in> dom s" using new(1) by (simp add: unattached_def)
  have g: "get_link s (link_at root xs) = Some (hd_opt ys)" by (rule link_at_ok(1) [OF ok root assms(5)])
  have c: "(case hd_opt ys of None \<Rightarrow> Some True | Some t \<Rightarrow> map_option (\<lambda>r. hi < res_start r) (s t)) = Some True"
  proof (cases ys)
    case (Cons t us)
    then have "t \<in> dom s" using res_okD(3) [OF ok root, of t] assms(5) by simp
    then show ?thesis using assms(6) Cons by (auto simp: start_of_def)
  qed simp
  have "last xs \<in> dom s" if "xs \<noteq> []" using that res_okD(3) [OF ok root, of "last xs"] assms(5) by simp
  then have p: "put_link (set_sib s new v) (link_at root xs) w = Some (relink (set_sib s new v) root xs w)"
    "new \<in> dom (relink (set_sib s new v) root xs w)" for v w
    using root nd by (auto simp: link_at_def relink_def simp del: put_link.simps)
  show ?thesis using nd
    by (subst request_loop.simps) (simp add: g c p attached_def del: get_link.simps put_link.simps)
qed

text \<open>What \<^verbatim>\<open>__request_resource\<close> does, in terms of the list of the children.\<close>

lemma request_loop_spec:
  assumes ok: "res_ok s C" and root: "root \<in> dom s" and new: "unattached s new" "new \<noteq> root"
    and "C root = xs @ ys" "lo \<le> hi" "\<forall>x \<in> set xs. end_of s x < lo"
  shows "(\<exists>us vs. C root = us @ vs \<and> (\<forall>x \<in> set us. end_of s x < lo) \<and> (\<forall>y \<in> set vs. hi < start_of s y) \<and>
           request_loop root new lo hi s (link_at root xs) = Some (None, attached s root new us vs)) \<or>
         (\<exists>us t vs. C root = us @ t # vs \<and> (\<forall>x \<in> set us. end_of s x < lo) \<and> start_of s t \<le> hi \<and> lo \<le> end_of s t \<and>
           request_loop root new lo hi s (link_at root xs) = Some (Some t, s))"
  using assms(5-)
proof (induction ys arbitrary: xs)
  case Nil
  then show ?case using request_attach [OF ok root new, where xs = xs and ys = "[]" and lo = lo and hi = hi]
    by (intro disjI1 exI [of _ xs] exI [of _ "[]"]) simp
next
  case (Cons t ys)
  have t: "t \<in> dom s" using res_okD(3) [OF ok root, of t] Cons.prems(1) by simp
  have g: "get_link s (link_at root xs) = Some (Some t)" using link_at_ok(1) [OF ok root Cons.prems(1)] by simp
  consider "hi < start_of s t" | "start_of s t \<le> hi" "end_of s t < lo" | "start_of s t \<le> hi" "lo \<le> end_of s t" by force
  then show ?case
  proof cases
    case 1
    have "\<forall>y \<in> set (t # ys). hi < start_of s y"
      using 1 res_okD(2) [OF ok root] res_okD(6) [OF ok root, of t] Cons.prems(1) by (fastforce simp: sorted_wrt_append)
    then show ?thesis using request_attach [OF ok root new Cons.prems(1), where lo = lo and hi = hi] Cons.prems
      by (intro disjI1 exI [of _ xs] exI [of _ "t # ys"]) simp
  next
    case 2
    have "request_loop root new lo hi s (link_at root xs) = request_loop root new lo hi s (link_at root (xs @ [t]))"
      using 2 g t link_at_ok(4) [OF ok root Cons.prems(1), of t ys]
      by (subst request_loop.simps) (auto simp: start_of_def end_of_def not_less [symmetric])
    then show ?thesis using Cons.IH [of "xs @ [t]"] Cons.prems 2 by simp
  next
    case 3
    have "request_loop root new lo hi s (link_at root xs) = Some (Some t, s)"
      using 3 g t by (subst request_loop.simps) (auto simp: start_of_def end_of_def not_less [symmetric])
    then show ?thesis using Cons.prems 3 by auto
  qed
qed


lemma request_nolock_spec:
  assumes ok: "res_ok s C" and root: "root \<in> dom s" and new: "unattached s new" "new \<noteq> root"
  shows "\<not> in_range s new root \<and> request_nolock s root new = Some (Some root, s) \<or>
     in_range s new root \<and>
       ((\<exists>us vs. C root = us @ vs \<and> (\<forall>x \<in> set us. end_of s x < start_of s new) \<and> (\<forall>y \<in> set vs. end_of s new < start_of s y) \<and>
           request_nolock s root new = Some (None, attached s root new us vs)) \<or>
         (\<exists>us t vs. C root = us @ t # vs \<and> (\<forall>x \<in> set us. end_of s x < start_of s new) \<and> start_of s t \<le> end_of s new \<and> start_of s new \<le> end_of s t \<and>
           request_nolock s root new = Some (Some t, s)))"
proof -
  have nd: "new \<in> dom s" using new(1) by (simp add: unattached_def)
  have r: "request_nolock s root new =
    (if in_range s new root then request_loop root new (start_of s new) (end_of s new) s (link_at root []) else Some (Some root, s))"
    using nd root by (auto simp: request_nolock_def in_range_def start_of_def end_of_def link_at_def)
  show ?thesis
  proof (cases "in_range s new root")
    case True
    then have "start_of s new \<le> end_of s new" by (simp add: in_range_def)
    then show ?thesis using request_loop_spec [OF ok root new, of "[]" "C root" "start_of s new" "end_of s new"] r True by auto
  qed (use r in simp)
qed

section \<open>Release\<close>

lemma chain_tail: "chain f p (xs @ ys) \<Longrightarrow> chain f (hd_opt ys) ys"
  by (simp add: chain_append)

lemma distinct_last: "distinct (xs @ ys) \<Longrightarrow> xs \<noteq> [] \<Longrightarrow> last xs \<notin> set ys"
  by (cases xs rule: rev_cases) auto

definition detached :: "res_store \<Rightarrow> nat \<Rightarrow> nat \<Rightarrow> nat list \<Rightarrow> nat list \<Rightarrow> res_store" where
  "detached s a old xs ys = set_par (relink s a xs (hd_opt ys)) old None"

lemma detached_views [simp]: "start_of (detached s a old xs ys) = start_of s" "end_of (detached s a old xs ys) = end_of s"
  "busy (detached s a old xs ys) = busy s" "par (detached s a old xs ys) = (par s)(old := None)"
  by (simp_all add: detached_def)

lemma relink_chains:
  assumes ok: "res_ok s C" and a: "a \<in> dom s" "C a = xs @ ys" and zs: "chain (sib s) (hd_opt zs) zs" "xs \<noteq> [] \<Longrightarrow> last xs \<notin> set zs"
    and b: "b \<in> dom s"
  shows "chain (sib (relink s a xs (hd_opt zs))) (kid (relink s a xs (hd_opt zs)) b) ((C(a := xs @ zs)) b)"
proof (cases "b = a")
  case True
  have "distinct xs" using res_ok_distinct [OF ok a(1)] a(2) by simp
  then show ?thesis using True relink_chain [OF _ _ zs, of a ys] res_okD(1) [OF ok a(1)] a(2) by simp
next
  case False
  have "last xs \<notin> set (C b)" if "xs \<noteq> []"
    using that res_okD(4) [OF ok b, of "last xs"] res_okD(4) [OF ok a(1), of "last xs"] a(2) False by auto
  then show ?thesis using False res_okD(1) [OF ok b] by (simp add: relink_other)
qed

lemma detached_ok:
  assumes ok: "res_ok s C" and a: "a \<in> dom s" "C a = xs @ old # ys"
  shows "res_ok (detached s a old xs ys) (C(a := xs @ ys))" "dom (detached s a old xs ys) = dom s"
proof -
  let ?s = "detached s a old xs ys" and ?C = "C(a := xs @ ys)"
  note D = res_okD [OF ok]
  have od: "old \<in> dom s" "par s old = Some a" using D(3,4) [OF a(1), of old] a(2) by auto
  have dist: "distinct (xs @ old # ys)" using res_ok_distinct [OF ok a(1)] a(2) by simp
  show dom: "dom ?s = dom s" using link_at_ok(3) [OF ok a] od(1) by (auto simp: detached_def)
  have lx: "last xs \<notin> set ys" if "xs \<noteq> []" using that dist distinct_last [of xs ys] by simp
  have "chain (sib s) (hd_opt ys) ys" using D(1) [OF a(1)] a(2) chain_tail [of "sib s" "kid s a" "xs @ [old]" ys] by simp
  then have ch: "chain (sib ?s) (kid ?s b) (?C b)" if "b \<in> dom s" for b
    using relink_chains [OF ok a _ lx that] by (simp add: detached_def)
  have srt: "sorted_wrt (\<lambda>x y. end_of s x < start_of s y) (?C b)" if "b \<in> dom s" for b
    using D(2) [OF that] a(2) by (auto simp: sorted_wrt_append)
  have mem: "x \<in> dom s \<and> par ?s x = Some b \<and> start_of s b \<le> start_of s x \<and> start_of s x \<le> end_of s x \<and> end_of s x \<le> end_of s b"
    if "b \<in> dom s" "x \<in> set (?C b)" for b x
  proof -
    have "x \<in> set (C b)" using that a(2) by (auto split: if_splits)
    moreover then have "x \<noteq> old" using that(2) dist D(4) [OF that(1), of x] od(2) by (auto split: if_splits)
    ultimately show ?thesis using D(3-7) [OF that(1), of x] by simp
  qed
  have par: "b \<in> dom s \<and> x \<in> set (?C b)" if "x \<in> dom s" "par ?s x = Some b" for x b
    using that res_ok_par [OF ok that(1), of b] a(2) by (auto split: if_splits)
  have "\<exists>rk :: nat \<Rightarrow> nat. \<forall>x \<in> dom s. \<forall>a. par ?s x = Some a \<longrightarrow> rk a < rk x"
    using res_ok_rank [OF ok] by auto
  then show "res_ok ?s ?C"
    by (intro res_okI; unfold dom detached_views(1,2)) (assumption | rule ch srt mem par res_ok_finite [OF ok]; assumption)+
qed

lemma release_loop_spec:
  assumes ok: "res_ok s C" and a: "a \<in> dom s" "C a = us @ vs @ old # ys" and "old \<notin> set vs"
  shows "release_loop old s (link_at a us) = Some (0, detached s a old (us @ vs) ys)"
  using assms(3,4)
proof (induction vs arbitrary: us)
  case Nil
  have od: "old \<in> dom s" using res_okD(3) [OF ok a(1), of old] a(2) by auto
  have "sib s old = hd_opt ys" using chain_last [of "sib s" "kid s a" "us @ [old]" ys] res_okD(1) [OF ok a(1)] Nil(1) by simp
  then show ?case using od link_at_ok [OF ok a(1), of us "old # ys"] Nil
    by (subst release_loop.simps) (auto simp: detached_def sib_def simp del: get_link.simps put_link.simps)
next
  case (Cons v vs)
  then have "release_loop old s (link_at a us) = release_loop old s (link_at a (us @ [v]))"
    using link_at_ok [OF ok a(1), of us "v # vs @ old # ys"]
    by (subst release_loop.simps) (auto simp del: get_link.simps put_link.simps)
  then show ?case using Cons.IH [of "us @ [v]"] Cons.prems by simp
qed

lemma release_spec:
  assumes ok: "res_ok s C" and a: "a \<in> dom s" "C a = xs @ old # ys"
  shows "release_resource s old = Some (0, detached s a old xs ys)"
proof -
  have "old \<in> dom s" "par s old = Some a" using res_okD(3,4) [OF ok a(1), of old] a(2) by auto
  moreover have "old \<notin> set xs" using res_ok_distinct [OF ok a(1)] a(2) by simp
  ultimately show ?thesis using release_loop_spec [OF ok a(1), of "[]" xs old ys] a(2)
    by (auto simp: release_resource_def release_nolock_def par_def link_at_def)
qed


section \<open>Insertion\<close>

definition adopt_all :: "nat \<Rightarrow> nat list \<Rightarrow> res_store \<Rightarrow> res_store" where
  "adopt_all new = fold (\<lambda>y s. set_par s y (Some new))"

lemma adopt_all_views: "sib (adopt_all new ys s) = sib s" "kid (adopt_all new ys s) = kid s"
  "par (adopt_all new ys s) = (\<lambda>x. if x \<in> set ys then Some new else par s x)" "start_of (adopt_all new ys s) = start_of s"
  "end_of (adopt_all new ys s) = end_of s" "busy (adopt_all new ys s) = busy s" "dom (adopt_all new ys s) = set ys \<union> dom s"
  by (induction ys arbitrary: s) (auto simp: adopt_all_def fun_eq_iff)

lemma adopt_loop_spec: "chain (sib s) p ys \<Longrightarrow> set ys \<subseteq> dom s \<Longrightarrow> adopt_loop new s p = Some (adopt_all new ys s)"
proof (induction ys arbitrary: s p)
  case Nil
  then show ?case by (subst adopt_loop.simps) (simp add: adopt_all_def)
next
  case (Cons y ys)
  have "adopt_loop new s p = adopt_loop new (set_par s y (Some new)) (sib s y)"
    using Cons.prems by (subst adopt_loop.simps) (auto simp: sib_def set_par_def)
  then show ?case using Cons.IH [of "set_par s y (Some new)" "sib s y"] Cons.prems by (auto simp: adopt_all_def)
qed

lemma before_loop_spec: "chain (sib s) (Some h) (xs @ f # ys) \<Longrightarrow> xs \<noteq> [] \<Longrightarrow> f \<notin> set xs \<Longrightarrow> set xs \<subseteq> dom s \<Longrightarrow>
    before_loop f s h = Some (last xs)"
proof (induction xs arbitrary: h)
  case (Cons x xs)
  then have h: "h = x" "chain (sib s) (sib s x) (xs @ f # ys)" "x \<in> dom s" by auto
  show ?case
  proof (cases xs)
    case Nil
    then show ?thesis using h by (subst before_loop.simps) (auto simp: sib_def)
  next
    case (Cons y us)
    then have "sib s x = Some y" using h(2) by simp
    moreover then have "before_loop f s y = Some (last xs)" using Cons.IH [of y] Cons h(2) Cons.prems by simp
    ultimately show ?thesis using h Cons Cons.prems by (subst before_loop.simps) (auto simp: sib_def)
  qed
qed simp

definition overlaps :: "res_store \<Rightarrow> nat \<Rightarrow> nat \<Rightarrow> bool" where
  "overlaps s x y \<longleftrightarrow> start_of s x \<le> end_of s y \<and> start_of s y \<le> end_of s x"

definition inside :: "res_store \<Rightarrow> nat \<Rightarrow> nat \<Rightarrow> bool" where
  "inside s x y \<longleftrightarrow> start_of s y \<le> start_of s x \<and> end_of s x \<le> end_of s y"

lemma overlap_loop_spec:
  assumes ok: "res_ok s C" and q: "q \<in> dom s" "C q = us @ t # vs" and n: "s new = Some n" and o: "overlaps s t new"
  shows "(\<exists>ys zs. t # vs = ys @ zs \<and> ys \<noteq> [] \<and> (\<forall>y \<in> set ys. inside s y new) \<and> (\<forall>z \<in> set zs. end_of s new < start_of s z) \<and>
            overlap_loop n s t = Some (Some (last ys))) \<or>
         (\<exists>y \<in> set (C q). overlaps s y new \<and> \<not> inside s y new) \<and> overlap_loop n s t = Some None"
  using q(2) o
proof (induction vs arbitrary: us t)
  case Nil
  have t: "t \<in> dom s" "sib s t = None"
    using res_okD(3) [OF ok q(1), of t] res_okD(1) [OF ok q(1)] chain_last [of "sib s" "kid s q" "us @ [t]" "[]"] Nil(1) by auto
  show ?case
  proof (cases "inside s t new")
    case True
    then have "overlap_loop n s t = Some (Some t)"
      using t n by (subst overlap_loop.simps) (auto simp: inside_def view_defs)
    then show ?thesis using True by (intro disjI1 exI [of _ "[t]"] exI [of _ "[]"]) simp
  next
    case False
    then have "overlap_loop n s t = Some None"
      using t n by (subst overlap_loop.simps) (auto simp: inside_def view_defs)
    then show ?thesis using False Nil by auto
  qed
next
  case (Cons v vs)
  have t: "t \<in> dom s" "sib s t = Some v" "v \<in> dom s"
    using res_okD(3) [OF ok q(1), of t] res_okD(3) [OF ok q(1), of v] res_okD(1) [OF ok q(1)]
      chain_last [of "sib s" "kid s q" "us @ [t]" "v # vs"] Cons.prems(1) by auto
  consider "\<not> inside s t new" | "inside s t new" "end_of s new < start_of s v" | "inside s t new" "start_of s v \<le> end_of s new" by force
  then show ?case
  proof cases
    case 1
    then have "overlap_loop n s t = Some None"
      using t n by (subst overlap_loop.simps) (auto simp: inside_def view_defs)
    then show ?thesis using 1 Cons.prems by auto
  next
    case 2
    have "overlap_loop n s t = Some (Some t)"
      using 2 t n by (subst overlap_loop.simps) (auto simp: inside_def view_defs)
    moreover have "\<forall>z \<in> set (v # vs). end_of s new < start_of s z"
      using 2 res_okD(2) [OF ok q(1)] res_okD(6) [OF ok q(1), of v] Cons.prems(1) by (fastforce simp: sorted_wrt_append)
    ultimately show ?thesis using 2 by (intro disjI1 exI [of _ "[t]"] exI [of _ "v # vs"]) simp
  next
    case 3
    have "end_of s t < start_of s v" "start_of s v \<le> end_of s v"
      using res_okD(2) [OF ok q(1)] res_okD(6) [OF ok q(1), of v] Cons.prems(1) by (auto simp: sorted_wrt_append)
    then have "overlaps s v new" using 3 Cons.prems(2) by (auto simp: overlaps_def)
    then consider ys zs where "v # vs = ys @ zs" "ys \<noteq> []" "\<forall>y \<in> set ys. inside s y new" "\<forall>z \<in> set zs. end_of s new < start_of s z"
        "overlap_loop n s v = Some (Some (last ys))"
      | "\<exists>y \<in> set (C q). overlaps s y new \<and> \<not> inside s y new" "overlap_loop n s v = Some None"
      using Cons.IH [of "us @ [t]" v] Cons.prems by auto
    moreover have "overlap_loop n s t = overlap_loop n s v"
      using 3 t n by (subst overlap_loop.simps) (auto simp: inside_def view_defs)
    ultimately show ?thesis
    proof cases
      case (1 ys zs)
      then show ?thesis using \<open>overlap_loop n s t = overlap_loop n s v\<close> 3(1) by (intro disjI1 exI [of _ "t # ys"] exI [of _ zs]) simp
    qed simp
  qed
qed


text \<open>The store with \<open>new\<close> in the place of the children \<open>ys\<close>, which become its children.\<close>

definition covered :: "res_store \<Rightarrow> nat \<Rightarrow> nat \<Rightarrow> nat list \<Rightarrow> nat list \<Rightarrow> nat list \<Rightarrow> res_store" where
  "covered s q new xs ys zs =
     relink (adopt_all new ys (set_sib (set_kid (set_sib (set_par s new (Some q)) new (hd_opt zs)) new (hd_opt ys)) (last ys) None)) q xs (Some new)"

lemma covered_views: "start_of (covered s q new xs ys zs) = start_of s" "end_of (covered s q new xs ys zs) = end_of s"
  "busy (covered s q new xs ys zs) = busy s"
  "par (covered s q new xs ys zs) = (\<lambda>x. if x \<in> set ys then Some new else if x = new then Some q else par s x)"
  by (auto simp: covered_def adopt_all_views fun_eq_iff)

lemma insert_above_spec:
  assumes ok: "res_ok s C" and q: "q \<in> dom s" "C q = xs @ ys @ zs" "ys \<noteq> []" and new: "unattached s new" "new \<noteq> q"
  shows "insert_above s q new (hd ys) (last ys) = Some (covered s q new xs ys zs)"
proof -
  note D = res_okD [OF ok q(1)]
  let ?a = "set_par s new (Some q)"
  let ?b = "set_kid (set_sib ?a new (hd_opt zs)) new (Some (hd ys))"
  let ?c = "set_sib ?b (last ys) None"
  let ?d = "adopt_all new ys ?c"
  have nd: "new \<in> dom s" using new(1) by (simp add: unattached_def)
  have no: "new \<notin> set xs" "new \<notin> set ys" "new \<notin> set zs" using unattached_no_kid [OF ok new(1) q(1)] q(2) by auto
  have dom: "set xs \<subseteq> dom s" "set ys \<subseteq> dom s" using D(3) q(2) by auto
  then have ld: "last ys \<in> dom s" using q(3) last_in_set by blast
  have dist: "distinct (xs @ ys @ zs)" using res_ok_distinct [OF ok q(1)] q(2) by simp
  have ch: "chain (sib s) (kid s q) (xs @ ys @ zs)" using D(1) q(2) by simp
  obtain us l where ys: "ys = us @ [l]" using q(3) by (cases ys rule: rev_cases) auto
  have sl: "sib s l = hd_opt zs" using chain_last [of "sib s" "kid s q" "xs @ ys" zs] ch ys by simp
  have hy: "hd_opt ys = Some (hd ys)" using q(3) by (cases ys) auto
  have cc: "chain (sib ?c) p ws = chain ((sib s)(l := None)) p ws" if "new \<notin> set ws" for p ws
    using that ys by (intro chain_cong) auto
  have cys: "chain (sib ?c) (Some (hd ys)) ys"
    using chain_replace [of "sib s" "Some (hd ys)" us l zs "[]"] dist no(2) ys hy
      chain_tail [of "sib s" "kid s q" xs "ys @ zs"] ch by (subst cc) (cases us; simp)+
  have cxs: "chain (sib ?c) (kid s q) (xs @ ys)"
    using chain_replace [of "sib s" "kid s q" "xs @ us" l zs "[]"] ch dist no ys by (subst cc) simp_all
  have ad: "adopt_loop new ?c (Some (hd ys)) = Some ?d" by (rule adopt_loop_spec [OF cys]) (use dom in auto)
  have kq: "kid ?c q = kid s q" using new(2) by simp
  have dd: "dom ?d = dom s" using nd ld dom by (auto simp: adopt_all_views)
  have "(if kid s q = Some (hd ys) then put_link ?d (Child_of q) (Some new)
      else do { h \<leftarrow> kid s q; prev \<leftarrow> before_loop (hd ys) ?d h; put_link ?d (Sibling_of prev) (Some new) }) = Some (relink ?d q xs (Some new))"
  proof (cases "xs = []")
    case True
    then have "kid s q = Some (hd ys)" using ch q(3) by (cases ys) auto
    then show ?thesis using True q(1) dd by (simp add: relink_def del: put_link.simps)
  next
    case False
    then obtain h hs where xs: "xs = h # hs" by (cases xs) auto
    then have k: "kid s q = Some h" "h \<noteq> hd ys" using ch dist q(3) by auto
    have "before_loop (hd ys) ?d h = Some (last xs)"
      using before_loop_spec [of ?d h xs "hd ys" "tl ys"] cxs k False dist q(3) dom(1) dd by (cases ys) (auto simp: adopt_all_views)
    moreover have "last xs \<in> dom s" using False dom(1) last_in_set by blast
    ultimately show ?thesis using k False dd by (simp add: relink_def del: put_link.simps)
  qed
  moreover have "sib ?a (last ys) = hd_opt zs" using sl ys by simp
  ultimately show ?thesis using nd ld ad q(1) kq dd hy
    by (simp add: insert_above_def covered_def adopt_all_views insert_absorb del: get_link.simps put_link.simps)
qed

lemma covered_links:
  "sib (covered s q new xs ys zs) x = (if xs \<noteq> [] \<and> x = last xs then Some new else if x = last ys then None else if x = new then hd_opt zs else sib s x)"
  "kid (covered s q new xs ys zs) x = (if xs = [] \<and> x = q then Some new else if x = new then hd_opt ys else kid s x)"
  by (auto simp: covered_def relink_def adopt_all_views)

lemma covered_chain:
  assumes ok: "res_ok s C" and q: "q \<in> dom s" "C q = xs @ ys @ zs" "ys \<noteq> []" and new: "unattached s new" "new \<noteq> q" and b: "b \<in> dom s"
  shows "chain (sib (covered s q new xs ys zs)) (kid (covered s q new xs ys zs) b) ((C(q := xs @ new # zs, new := ys)) b)"
proof -
  let ?s = "covered s q new xs ys zs"
  note D = res_okD [OF ok] and no = unattached_no_kid [OF ok new(1)] and sb = covered_links(1) [of s q new xs ys zs] and kd = covered_links(2) [of s q new xs ys zs]
  have nq: "new \<notin> set xs" "new \<notin> set ys" "new \<notin> set zs" using no [OF q(1)] q(2) by auto
  have dist: "distinct (xs @ ys @ zs)" using res_ok_distinct [OF ok q(1)] q(2) by simp
  have cq: "chain (sib s) (kid s q) (xs @ ys @ zs)" using D(1) [OF q(1)] q(2) by simp
  obtain us l where ys: "ys = us @ [l]" using q(3) by (cases ys rule: rev_cases) auto
  consider "b = new" | "b = q" | "b \<noteq> new" "b \<noteq> q" by blast
  then show ?thesis
  proof cases
    case 1
    have "hd_opt (ys @ zs) = hd_opt ys" using q(3) by (cases ys) auto
    then have "chain (sib s) (hd_opt ys) (us @ l # zs)" using chain_tail [OF cq] ys by simp
    then have "chain ((sib s)(l := hd_opt [])) (hd_opt ys) (us @ l # [])"
      by (rule chain_replace) (use ys dist in auto)
    then have "chain ((sib s)(l := None)) (hd_opt ys) ys" using ys by simp
    moreover have "last ys = l" using ys by simp
    then have "chain (sib ?s) (hd_opt ys) ys = chain ((sib s)(l := None)) (hd_opt ys) ys"
      using nq(2) dist distinct_last [of xs "ys @ zs"] by (intro chain_cong) (auto simp: sb)
    ultimately show ?thesis using 1 new(2) kd [of new] by simp
  next
    case 2
    let ?f = "(sib s)(new := hd_opt zs)"
    have cz: "chain ?f (hd_opt (new # zs)) (new # zs)" using chain_tail [of "sib s" "kid s q" "xs @ ys" zs] cq nq(3) by simp
    have zl: "last ys \<notin> set zs" "last ys \<notin> set xs" using dist ys by auto
    show ?thesis
    proof (cases xs rule: rev_cases)
      case Nil
      have "last ys \<noteq> new" using nq(2) q(3) by auto
      moreover have "sib ?s x = (if x = last ys then None else if x = new then hd_opt zs else sib s x)" for x
        using sb [of x] Nil by simp
      ultimately have "chain (sib ?s) (Some new) (new # zs) = chain ?f (Some new) (new # zs)"
        using zl by (intro chain_cong) auto
      then show ?thesis using cz 2 Nil kd [of q] new(2) by simp
    next
      case (snoc vs m)
      have "chain (?f(m := hd_opt (new # zs))) (kid s q) (vs @ m # (new # zs))"
        by (rule chain_replace [where ys = "ys @ zs"]) (use cq cz snoc nq dist in auto)
      moreover have "chain (sib ?s) (kid s q) (vs @ m # (new # zs)) = chain (?f(m := hd_opt (new # zs))) (kid s q) (vs @ m # (new # zs))"
      proof (rule chain_cong)
        fix x
        assume x: "x \<in> set (vs @ m # (new # zs))"
        have "sib ?s x = (if x = m then Some new else if x = last ys then None else if x = new then hd_opt zs else sib s x)"
          using sb [of x] snoc by simp
        moreover have "x \<noteq> last ys" using x zl snoc nq(2) q(3) by auto
        moreover have "m \<noteq> new" using nq(1) snoc by auto
        ultimately show "sib ?s x = (?f(m := hd_opt (new # zs))) x" by simp
      qed
      ultimately show ?thesis using 2 snoc kd [of q] new(2) by simp
    qed
  next
    case 3
    have "sib ?s x = sib s x" if "x \<in> set (C b)" for x
    proof -
      have "x \<notin> set (xs @ ys @ zs)" "x \<noteq> new"
        using that D(4) [OF b that] D(4) [OF q(1), of x] q(2) 3(2) no [OF b] by auto
      moreover then have "x \<noteq> last ys" "xs \<noteq> [] \<longrightarrow> x \<noteq> last xs" using q(3) by auto
      ultimately show ?thesis using sb [of x] by auto
    qed
    then show ?thesis using 3 D(1) [OF b] kd [of b] chain_cong [of "C b" "sib ?s" "sib s"] by simp
  qed
qed

lemma covered_member:
  assumes ok: "res_ok s C" and q: "q \<in> dom s" "C q = xs @ ys @ zs" "ys \<noteq> []" and new: "unattached s new" "new \<noteq> q" "in_range s new q"
    and ins: "\<forall>y \<in> set ys. inside s y new" and gap: "\<forall>x \<in> set xs. end_of s x < start_of s new" "\<forall>z \<in> set zs. end_of s new < start_of s z" and b: "b \<in> dom s" "x \<in> set ((C(q := xs @ new # zs, new := ys)) b)"
  shows "x \<in> dom s \<and> par (covered s q new xs ys zs) x = Some b \<and> start_of s b \<le> start_of s x \<and> start_of s x \<le> end_of s x \<and> end_of s x \<le> end_of s b"
proof -
  note D = res_okD [OF ok] and no = unattached_no_kid [OF ok new(1)]
  have nd: "new \<in> dom s" using new(1) by (auto simp: unattached_def)
  have nq: "new \<notin> set ys" using no [OF q(1)] q(2) by auto
  have dist: "distinct (xs @ ys @ zs)" using res_ok_distinct [OF ok q(1)] q(2) by simp
  have sub: "set ys \<subseteq> dom s" using D(3) [OF q(1)] q(2) by auto
  consider "b = new" "x \<in> set ys" | "b = q" "x = new" | "b \<noteq> new" "x \<noteq> new" "x \<in> set (C b)" "x \<notin> set ys"
  proof (cases "b = new \<or> b = q \<and> x = new")
    case False
    then have "x \<in> set (C b)" "x \<notin> set ys" "x \<noteq> new"
      using b(2) q(2) dist D(4) [OF b(1), of x] D(4) [OF q(1), of x] no [OF b(1)] by (auto split: if_splits)
    then show ?thesis using False that(3) by blast
  qed (use b(2) new(2) that in auto)
  then show ?thesis
  proof cases
    case 1
    then show ?thesis using ins sub D(6) [OF q(1), of x] q(2) by (auto simp: covered_views inside_def)
  next
    case 2
    then show ?thesis using nd new(3) nq by (auto simp: covered_views in_range_def)
  next
    case 3
    then show ?thesis using D(3-7) [OF b(1), of x] by (simp add: covered_views)
  qed
qed

lemma covered_ok:
  assumes ok: "res_ok s C" and q: "q \<in> dom s" "C q = xs @ ys @ zs" "ys \<noteq> []" and new: "unattached s new" "new \<noteq> q" "in_range s new q"
    and ins: "\<forall>y \<in> set ys. inside s y new" and gap: "\<forall>x \<in> set xs. end_of s x < start_of s new" "\<forall>z \<in> set zs. end_of s new < start_of s z"
  shows "res_ok (covered s q new xs ys zs) (C(q := xs @ new # zs, new := ys))" "dom (covered s q new xs ys zs) = dom s"
proof -
  let ?s = "covered s q new xs ys zs" and ?C = "C(q := xs @ new # zs, new := ys)"
  note D = res_okD [OF ok]
  have nd: "new \<in> dom s" "par s new = None" using new(1) by (auto simp: unattached_def)
  have sub: "set xs \<subseteq> dom s" "set ys \<subseteq> dom s" using D(3) [OF q(1)] q(2) by auto
  then have ld: "last ys \<in> dom s" "xs \<noteq> [] \<Longrightarrow> last xs \<in> dom s" using q(3) last_in_set by blast+
  show dom: "dom ?s = dom s" using nd(1) ld sub q(1) by (auto simp: covered_def relink_def adopt_all_views)
  have srt: "sorted_wrt (\<lambda>x y. end_of s x < start_of s y) (?C b)" if "b \<in> dom s" for b
    using D(2) [OF that] D(2) [OF q(1)] q(2) gap by (auto simp: sorted_wrt_append)
  have par: "b \<in> dom s \<and> x \<in> set (?C b)" if "x \<in> dom s" "par ?s x = Some b" for x b
    using that res_ok_par [OF ok that(1), of b] q nd new(2) unattached_kids [OF ok new(1)] by (auto simp: covered_views split: if_splits)
  have r2: "par s x \<noteq> Some new" if "x \<in> dom s" for x
    using res_ok_par [OF ok that, of new] unattached_kids [OF ok new(1)] by auto
  have "\<exists>rk :: nat \<Rightarrow> nat. \<forall>x \<in> dom s. \<forall>a. par ?s x = Some a \<longrightarrow> rk a < rk x"
    by (rule rank_insert [OF res_ok_rank [OF ok] _ r2 nd(2), of "par ?s" q])
      (use new(2) q D(4) [OF q(1)] in \<open>auto simp: covered_views split: if_splits\<close>)
  then show "res_ok ?s ?C"
    by (intro res_okI; unfold dom covered_views(1,2)) (assumption | rule covered_chain [OF ok q new(1,2)] srt covered_member [OF ok q new ins gap] par res_ok_finite [OF ok]; assumption)+
qed

text \<open>The resources below \<open>a\<close>, with \<open>a\<close> itself.\<close>

inductive below :: "(nat \<Rightarrow> nat list) \<Rightarrow> nat \<Rightarrow> nat \<Rightarrow> bool" for C a where
  below_refl: "below C a a"
| below_child: "below C a b \<Longrightarrow> x \<in> set (C b) \<Longrightarrow> below C a x"

lemma below_trans: "below C b x \<Longrightarrow> below C a b \<Longrightarrow> below C a x"
  by (induction rule: below.induct) (auto intro: below.intros)

lemma below_up: "x \<in> set (C a) \<Longrightarrow> below C x y \<Longrightarrow> below C a y"
  by (rule below_trans) (auto intro: below.intros)

lemma rank_bound: "res_ok s C \<Longrightarrow> \<exists>(rk :: nat \<Rightarrow> nat) B. (\<forall>x \<in> dom s. \<forall>a. par s x = Some a \<longrightarrow> rk a < rk x) \<and> (\<forall>x \<in> dom s. rk x \<le> B)"
proof -
  assume ok: "res_ok s C"
  obtain rk :: "nat \<Rightarrow> nat" where "\<forall>x \<in> dom s. \<forall>a. par s x = Some a \<longrightarrow> rk a < rk x" using res_ok_rank [OF ok] by blast
  moreover have "\<forall>x \<in> dom s. rk x \<le> Max (rk ` dom s)" using res_ok_finite [OF ok] by simp
  ultimately show ?thesis by blast
qed

text \<open>Induction from the leaves to the root.\<close>

lemma tree_induct [consumes 2, case_names node]:
  assumes ok: "res_ok s C" and a: "a \<in> dom s" and step: "\<And>a. a \<in> dom s \<Longrightarrow> (\<And>x. x \<in> set (C a) \<Longrightarrow> P x) \<Longrightarrow> P a"
  shows "P a"
proof -
  obtain rk :: "nat \<Rightarrow> nat" and B where rk: "\<forall>x \<in> dom s. \<forall>a. par s x = Some a \<longrightarrow> rk a < rk x" "\<forall>x \<in> dom s. rk x \<le> B"
    using rank_bound [OF ok] by blast
  show ?thesis using a
  proof (induction "B - rk a" arbitrary: a rule: less_induct)
    case less
    show ?case
    proof (rule step [OF less.prems])
      fix x
      assume x: "x \<in> set (C a)"
      then have "x \<in> dom s" "par s x = Some a" using res_okD(3,4) [OF ok less.prems, of x] by auto
      then have "rk a < rk x" "rk x \<le> B" using rk by auto
      then show "P x" using less.hyps [of x] \<open>x \<in> dom s\<close> by simp
    qed
  qed
qed

text \<open>\<open>new\<close> is now the child of \<open>q\<close> between \<open>xs\<close> and \<open>zs\<close>, and the parent of \<open>ys\<close>.\<close>

definition inserted :: "res_store \<Rightarrow> (nat \<Rightarrow> nat list) \<Rightarrow> nat \<Rightarrow> nat \<Rightarrow> nat list \<Rightarrow> nat list \<Rightarrow> nat list \<Rightarrow> res_store \<Rightarrow> bool" where
  "inserted s C new q xs ys zs s' \<longleftrightarrow>
     C q = xs @ ys @ zs \<and> in_range s new q \<and> (\<forall>x \<in> set xs. end_of s x < start_of s new) \<and>
     (\<forall>y \<in> set ys. inside s y new) \<and> (\<forall>z \<in> set zs. end_of s new < start_of s z) \<and>
     dom s' = dom s \<and> start_of s' = start_of s \<and> end_of s' = end_of s \<and> res_ok s' (C(q := xs @ new # zs, new := ys))"

definition insert_result :: "res_store \<Rightarrow> (nat \<Rightarrow> nat list) \<Rightarrow> nat \<Rightarrow> nat \<Rightarrow> int \<Rightarrow> res_store \<Rightarrow> bool" where
  "insert_result s C a new r s' \<longleftrightarrow>
     r = 0 \<and> (\<exists>q xs ys zs. below C a q \<and> inserted s C new q xs ys zs s') \<or>
     r = - EBUSY \<and> s' = s \<and>
       (\<not> in_range s new a \<or> (\<exists>q y. below C a q \<and> y \<in> set (C q) \<and> overlaps s y new \<and> \<not> inside s y new \<and> \<not> inside s new y))"

lemma insert_result_up:
  assumes "insert_result s C t new r s'" "t \<in> set (C a)" "in_range s new t"
  shows "insert_result s C a new r s'"
  using assms below_up [of t C a] unfolding insert_result_def by blast

lemma insert_loop_conflict:
  assumes ok: "res_ok s C" and a: "a \<in> dom s" "C a = us @ t # vs" and new: "unattached s new" "new \<noteq> a" "in_range s new a" "s new = Some n"
    and us: "\<forall>x \<in> set us. end_of s x < start_of s new" and o: "overlaps s t new" "\<not> inside s new t"
  shows "\<exists>r s'. do {
      covered \<leftarrow> overlap_loop n s t;
      case covered of
        None \<Rightarrow> Some (- EBUSY, s)
      | Some next \<Rightarrow> do { s \<leftarrow> insert_above s a new t next; Some (0, s) }
    } = Some (r, s') \<and> insert_result s C a new r s'"
  using overlap_loop_spec [OF ok a new(4) o(1)]
proof (elim disjE exE conjE bexE)
  fix ys zs
  assume h: "t # vs = ys @ zs" "ys \<noteq> []" "\<forall>y \<in> set ys. inside s y new" "\<forall>z \<in> set zs. end_of s new < start_of s z"
    "overlap_loop n s t = Some (Some (last ys))"
  have t: "t = hd ys" "C a = us @ ys @ zs" using h(1,2) a(2) by (cases ys; simp)+
  have "insert_above s a new t (last ys) = Some (covered s a new us ys zs)"
    using insert_above_spec [OF ok a(1) t(2) h(2) new(1,2)] t(1) by simp
  moreover have "inserted s C new a us ys zs (covered s a new us ys zs)"
    using covered_ok [OF ok a(1) t(2) h(2) new(1-3) h(3) us h(4)] t(2) h(3,4) new(3) us by (simp add: inserted_def covered_views)
  ultimately show ?thesis using h(5) below_refl [of C a] unfolding insert_result_def by auto
next
  fix y
  assume h: "overlap_loop n s t = Some None" "y \<in> set (C a)" "overlaps s y new" "\<not> inside s y new"
  have "\<not> inside s new y"
  proof
    assume i: "inside s new y"
    consider "y \<in> set us" | "y = t" | "y \<in> set vs" using h(2) a(2) by auto
    then show False
    proof cases
      case 1
      then have "end_of s y < start_of s new" using us by blast
      then show False using h(3) by (auto simp: overlaps_def dest: leD)
    next
      case 3
      then have "end_of s t < start_of s y" using res_okD(2) [OF ok a(1)] a(2) by (auto simp: sorted_wrt_append)
      then show False using i o(1) by (auto simp: inside_def overlaps_def)
    qed (use i o(2) in simp)
  qed
  then show ?thesis using h below_refl [of C a] unfolding insert_result_def by auto
qed

lemma insert_loop_spec:
  assumes ok: "res_ok s C" and a: "a \<in> dom s" and new: "unattached s new" "new \<noteq> a"
  shows "\<exists>r s'. insert_loop new s a = Some (r, s') \<and> insert_result s C a new r s'"
  using ok a new(2)
proof (induction rule: tree_induct)
  case (node a)
  have nd: "new \<in> dom s" "C new = []" using new(1) unattached_kids [OF ok new(1)] by (auto simp: unattached_def)
  consider (out) "\<not> in_range s new a" "request_nolock s a new = Some (Some a, s)"
    | (free) us vs where "in_range s new a" "C a = us @ vs" "\<forall>x \<in> set us. end_of s x < start_of s new"
        "\<forall>y \<in> set vs. end_of s new < start_of s y" "request_nolock s a new = Some (None, attached s a new us vs)"
    | (conflict) us t vs where "in_range s new a" "C a = us @ t # vs" "\<forall>x \<in> set us. end_of s x < start_of s new"
        "overlaps s t new" "request_nolock s a new = Some (Some t, s)"
    using request_nolock_spec [OF ok node.hyps new(1) node.prems] unfolding overlaps_def by blast
  then show ?case
  proof cases
    case out
    then have "insert_loop new s a = Some (- EBUSY, s)" by (subst insert_loop.simps) simp
    then show ?thesis using out(1) by (auto simp: insert_result_def)
  next
    case free
    have "insert_loop new s a = Some (0, attached s a new us vs)" using free by (subst insert_loop.simps) simp
    moreover have "C(a := us @ new # vs, new := []) = C(a := us @ new # vs)" using nd(2) node.prems by auto
    then have "inserted s C new a us [] vs (attached s a new us vs)"
      using attached_ok [OF ok node.hyps free(2) new(1) node.prems free(1,3,4)] free by (simp add: inserted_def)
    ultimately show ?thesis using below_refl [of C a] unfolding insert_result_def by blast
  next
    case conflict
    have t: "t \<in> set (C a)" "t \<in> dom s" "t \<noteq> new"
      using conflict(2) res_okD(3) [OF ok node.hyps, of t] unattached_no_kid [OF ok new(1) node.hyps] by auto
    have ta: "t \<noteq> a" using res_okD(4) [OF ok node.hyps t(1)] res_ok_rank [OF ok] t(2) by blast
    obtain n f where nf: "s new = Some n" "s t = Some f" using nd t by auto
    show ?thesis
    proof (cases "inside s new t")
      case True
      then have "insert_loop new s a = insert_loop new s t"
        using conflict(5) nf ta by (subst insert_loop.simps) (simp add: inside_def view_defs)
      moreover have "in_range s new t" using True conflict(1) by (simp add: inside_def in_range_def)
      ultimately show ?thesis using node.IH [OF t(1)] t(3) insert_result_up [of s C t new _ _ a] t(1) by metis
    next
      case False
      have "insert_loop new s a = do {
          covered \<leftarrow> overlap_loop n s t;
          case covered of
            None \<Rightarrow> Some (- EBUSY, s)
          | Some next \<Rightarrow> do { s \<leftarrow> insert_above s a new t next; Some (0, s) }
        }"
        using False conflict(5) nf ta by (subst insert_loop.simps) (auto simp: inside_def view_defs)
      then show ?thesis
        using insert_loop_conflict [OF ok node.hyps conflict(2) new(1) node.prems conflict(1) nf(1) conflict(3,4) False] by simp
    qed
  qed
qed

section \<open>Regions\<close>

lemma fresh_ok:
  assumes ok: "res_ok s C" and a: "a \<notin> dom s" and r: "res_parent r = None" "res_child r = None"
  shows "res_ok (s(a \<mapsto> r)) (C(a := []))" "unattached (s(a \<mapsto> r)) a"
proof -
  let ?s = "s(a \<mapsto> r)"
  have v: "sib ?s x = sib s x" "kid ?s x = kid s x" "par ?s x = par s x" "start_of ?s x = start_of s x" "end_of ?s x = end_of s x"
    if "x \<noteq> a" for x using that by (simp_all add: view_defs)
  have n: "par ?s a = None" "kid ?s a = None" using r by (simp_all add: view_defs)
  show "unattached ?s a" using n by (simp add: unattached_def)
  have na: "x \<noteq> a" if "x \<in> set (C b)" "b \<in> dom s" for x b using res_okD(3) [OF ok that(2,1)] a by auto
  note D = res_okD [OF ok]
  show "res_ok ?s (C(a := []))"
  proof (rule res_okI)
    fix b
    assume "b \<in> dom ?s"
    then have b: "b \<in> dom s" if "b \<noteq> a" using that by simp
    show "chain (sib ?s) (kid ?s b) ((C(a := [])) b)"
    proof (cases "b = a")
      case False
      have "chain (sib ?s) (kid s b) (C b) = chain (sib s) (kid s b) (C b)" using na [OF _ b [OF False]] v(1) by (intro chain_cong) auto
      then show ?thesis using False v(2) D(1) [OF b [OF False]] by simp
    qed (use n in simp)
    show "sorted_wrt (\<lambda>x y. end_of ?s x < start_of ?s y) ((C(a := [])) b)"
    proof (cases "b = a")
      case False
      have "sorted_wrt (\<lambda>x y. end_of ?s x < start_of ?s y) (C b)"
        by (rule sorted_wrt_mono_rel [OF _ D(2) [OF b [OF False]]]) (use na [OF _ b [OF False]] v(4,5) in auto)
      then show ?thesis using False by simp
    qed simp
  next
    fix b x
    assume "b \<in> dom ?s" "x \<in> set ((C(a := [])) b)"
    then have b: "b \<noteq> a" "b \<in> dom s" "x \<in> set (C b)" by (auto split: if_splits)
    then show "x \<in> dom ?s \<and> par ?s x = Some b \<and> start_of ?s b \<le> start_of ?s x \<and> start_of ?s x \<le> end_of ?s x \<and> end_of ?s x \<le> end_of ?s b"
      using na [OF b(3,2)] D(3-7) [OF b(2,3)] v by simp
  next
    fix x b
    assume x: "x \<in> dom ?s" "par ?s x = Some b"
    then have "x \<noteq> a" using n by auto
    then have "x \<in> dom s" "par s x = Some b" "x \<noteq> a" using x v(3) [of x] by auto
    then show "b \<in> dom ?s \<and> x \<in> set ((C(a := [])) b)" using res_ok_par [OF ok, of x b] a by auto
  next
    show "\<exists>rk :: nat \<Rightarrow> nat. \<forall>x \<in> dom ?s. \<forall>b. par ?s x = Some b \<longrightarrow> rk b < rk x"
    proof -
      obtain rk :: "nat \<Rightarrow> nat" where rk: "\<forall>x \<in> dom s. \<forall>a. par s x = Some a \<longrightarrow> rk a < rk x" using res_ok_rank [OF ok] by blast
      have "rk b < rk x" if "x \<in> dom ?s" "par ?s x = Some b" for x b using that n v(3) [of x] rk by (cases "x = a") auto
      then show ?thesis by blast
    qed
  qed (use res_ok_finite [OF ok] in simp)
qed

inductive region_path :: "res_store \<Rightarrow> (nat \<Rightarrow> nat list) \<Rightarrow> nat \<Rightarrow> nat \<Rightarrow> nat \<Rightarrow> bool" for s C new q where
  path_here: "in_range s new q \<Longrightarrow> region_path s C new q q"
| path_down: "in_range s new a \<Longrightarrow> C a = us @ t # vs \<Longrightarrow> \<forall>x \<in> set us. end_of s x < start_of s new \<Longrightarrow> \<not> busy s t \<Longrightarrow>
    region_path s C new q t \<Longrightarrow> region_path s C new q a"

lemma region_path_range: "region_path s C new q a \<Longrightarrow> in_range s new a \<and> in_range s new q"
  by (induction rule: region_path.induct) auto

lemma region_path_rank:
  assumes ok: "res_ok s C" and rk: "\<forall>x \<in> dom s. \<forall>a. par s x = Some a \<longrightarrow> rk a < (rk x :: nat)" and "region_path s C new q a" "a \<in> dom s"
  shows "rk a \<le> rk q \<and> q \<in> dom s"
  using assms(3,4)
proof (induction rule: region_path.induct)
  case (path_down a us t vs)
  have "t \<in> dom s" "par s t = Some a" using res_okD(3,4) [OF ok path_down.prems, of t] path_down.hyps(2) by auto
  then show ?case using path_down.IH rk by fastforce
qed simp

lemma region_loop_spec:
  assumes ok: "res_ok s C" and a: "a \<in> dom s" and new: "unattached s new" "new \<noteq> a"
  shows "region_loop new s a = Some (False, s(new := None)) \<or>
    (\<exists>q us vs. region_path s C new q a \<and> q \<in> dom s \<and> q \<noteq> new \<and> C q = us @ vs \<and> (\<forall>x \<in> set us. end_of s x < start_of s new) \<and>
       (\<forall>y \<in> set vs. end_of s new < start_of s y) \<and> region_loop new s a = Some (True, attached s q new us vs))"
  using ok a new(2)
proof (induction rule: tree_induct)
  case (node a)
  obtain ra where ra: "s a = Some ra" using node.hyps by auto
  consider (out) "request_nolock s a new = Some (Some a, s)"
    | (free) us vs where "in_range s new a" "C a = us @ vs" "\<forall>x \<in> set us. end_of s x < start_of s new"
        "\<forall>y \<in> set vs. end_of s new < start_of s y" "request_nolock s a new = Some (None, attached s a new us vs)"
    | (conflict) us t vs where "in_range s new a" "C a = us @ t # vs" "\<forall>x \<in> set us. end_of s x < start_of s new"
        "request_nolock s a new = Some (Some t, s)"
    using request_nolock_spec [OF ok node.hyps new(1) node.prems] by blast
  then show ?case
  proof cases
    case out
    then show ?thesis using ra by (subst region_loop.simps) simp
  next
    case free
    then have "region_loop new s a = Some (True, attached s a new us vs)" by (subst region_loop.simps) simp
    then show ?thesis using free node path_here [OF free(1), of C] by blast
  next
    case conflict
    have t: "t \<in> set (C a)" "t \<in> dom s" "t \<noteq> new"
      using conflict(2) res_okD(3) [OF ok node.hyps, of t] unattached_no_kid [OF ok new(1) node.hyps] by auto
    have ta: "t \<noteq> a" using res_okD(4) [OF ok node.hyps t(1)] res_ok_rank [OF ok] t(2) by blast
    obtain rt where rt: "s t = Some rt" using t by auto
    show ?thesis
    proof (cases "busy s t")
      case True
      then have "region_loop new s a = Some (False, s(new := None))"
        using conflict(4) rt by (subst region_loop.simps) (simp add: busy_def)
      then show ?thesis by blast
    next
      case False
      then have "region_loop new s a = region_loop new s t"
        using conflict(4) rt ta by (subst region_loop.simps) (simp add: busy_def)
      then show ?thesis using node.IH [OF t(1)] t(3) path_down [of s new a C us t vs] conflict(1-3) False by metis
    qed
  qed
qed

lemma attached_undo:
  assumes ok: "res_ok s C" and q: "q \<in> dom s" "C q = xs @ ys" and new: "unattached s new" "new \<noteq> q"
  shows "(relink (attached s q new xs ys) q xs (hd_opt ys))(new := None) = s(new := None)"
proof -
  have n: "new \<notin> set xs" using unattached_no_kid [OF ok new(1) q(1)] q(2) by auto
  have ch: "chain (sib s) (kid s q) (xs @ ys)" using res_okD(1) [OF ok q(1)] q(2) by simp
  show ?thesis
  proof (cases "xs = []")
    case True
    then have "kid s q = hd_opt ys" using ch chain_hd by auto
    then show ?thesis using True q(1) new(2) by (auto simp: attached_def relink_def set_defs kid_def fun_eq_iff)
  next
    case False
    then have "sib s (last xs) = hd_opt ys" "last xs \<in> dom s" "last xs \<noteq> new"
      using chain_last [OF ch] res_okD(3) [OF ok q(1), of "last xs"] q(2) n by auto
    then show ?thesis using False by (auto simp: attached_def relink_def set_defs sib_def fun_eq_iff)
  qed
qed


lemma release_region_skip:
  assumes ok: "res_ok s C" and a: "a \<in> dom s" "C a = us @ ws @ vs" and ws: "\<forall>x \<in> set ws. end_of s x < lo" and lo: "lo \<le> hi"
  shows "release_region_loop lo hi s (link_at a us) = release_region_loop lo hi s (link_at a (us @ ws))"
  using a(2) ws
proof (induction ws arbitrary: us)
  case (Cons w ws)
  obtain r where r: "s w = Some r" using res_okD(3) [OF ok a(1), of w] Cons.prems(1) by auto
  have "\<not> res_end r \<ge> hi" using Cons.prems(2) lo r by (auto simp: end_of_def)
  then have "release_region_loop lo hi s (link_at a us) = release_region_loop lo hi s (link_at a (us @ [w]))"
    using link_at_ok [OF ok a(1), of us "w # ws @ vs"] Cons.prems(1) r
    by (subst release_region_loop.simps) (simp del: get_link.simps)
  then show ?case using Cons.IH [of "us @ [w]"] Cons.prems by simp
qed simp

lemma release_region_path:
  assumes ok: "res_ok s C" and ok': "res_ok s' C'" and views: "start_of s' = start_of s" "end_of s' = end_of s" "busy s' = busy s"
    "dom s' = dom s" and q: "q \<in> dom s" "C' = C(q := xs @ new # ys)" and C: "C q = xs @ ys"
    and new: "busy s new" "\<forall>x \<in> set xs. end_of s x < start_of s new"
    and path: "region_path s C new q a" and a: "a \<in> dom s"
  shows "release_region_loop (start_of s new) (end_of s new) s' (link_at a []) = Some (True, (relink s' q xs (hd_opt ys))(new := None))"
  using path a
proof (induction rule: region_path.induct)
  case path_here
  have lh: "start_of s new \<le> end_of s new" using path_here by (simp add: in_range_def)
  have qd: "q \<in> dom s'" "C' q = xs @ new # ys" using q views(4) by auto
  obtain r where r: "s' new = Some r" using res_okD(3) [OF ok' qd(1), of new] qd(2) by auto
  then have rv: "res_start r = start_of s new" "res_end r = end_of s new" "res_flags r AND IORESOURCE_BUSY \<noteq> 0"
    using views(1-3) new(1) by (simp_all add: view_defs fun_eq_iff) (metis option.sel)+
  have "sib s' new = hd_opt ys" using chain_last [of "sib s'" "kid s' q" "xs @ [new]" ys] res_okD(1) [OF ok' qd(1)] qd(2) by simp
  then have "release_region_loop (start_of s new) (end_of s new) s' (link_at q xs) = Some (True, (relink s' q xs (hd_opt ys))(new := None))"
    using link_at_ok [OF ok' qd] r rv
    by (subst release_region_loop.simps) (simp add: sib_def del: get_link.simps put_link.simps)
  moreover have "release_region_loop (start_of s new) (end_of s new) s' (link_at q []) = release_region_loop (start_of s new) (end_of s new) s' (link_at q xs)"
    using release_region_skip [OF ok' qd(1), of "[]" xs "new # ys" "start_of s new" "end_of s new"] qd(2) new(2) views(2) lh by simp
  ultimately show ?case by (simp only:)
next
  case (path_down a us t vs)
  obtain rk :: "nat \<Rightarrow> nat" where rk: "\<forall>x \<in> dom s. \<forall>a. par s x = Some a \<longrightarrow> rk a < rk x" using res_ok_rank [OF ok] by blast
  have t: "t \<in> dom s" "par s t = Some a" using res_okD(3,4) [OF ok path_down.prems, of t] path_down.hyps(2) by auto
  then have "rk a < rk q" using rk region_path_rank [OF ok rk path_down.hyps(5) t(1)] by fastforce
  then have Ca: "C' a = us @ t # vs" "a \<in> dom s'" using q(2) path_down.hyps(2) path_down.prems views(4) by auto
  have lh: "start_of s new \<le> end_of s new" "in_range s new t" using path_down.hyps(1) region_path_range [OF path_down.hyps(5)] by (auto simp: in_range_def)
  have "release_region_loop (start_of s new) (end_of s new) s' (link_at a []) = release_region_loop (start_of s new) (end_of s new) s' (link_at a us)"
    using release_region_skip [OF ok' Ca(2), of "[]" us "t # vs" "start_of s new" "end_of s new"] Ca(1) path_down.hyps(3) views(2) lh(1) by simp
  also have "\<dots> = release_region_loop (start_of s new) (end_of s new) s' (link_at t [])"
  proof -
    obtain r where r: "s' t = Some r" using t(1) views(4) by (metis domD)
    then have "res_start r = start_of s t" "res_end r = end_of s t" "(res_flags r AND IORESOURCE_BUSY \<noteq> 0) = busy s t"
      using views(1-3) by (simp_all add: view_defs fun_eq_iff) (metis option.sel)+
    then show ?thesis using link_at_ok(1) [OF ok' Ca(2,1)] r path_down.hyps(4) lh(2)
      by (subst release_region_loop.simps) (simp add: in_range_def link_at_def del: get_link.simps)
  qed
  finally show ?case using path_down.IH t(1) by simp
qed


definition region :: "string \<Rightarrow> ulong \<Rightarrow> ulong \<Rightarrow> resource" where
  "region name start n = \<lparr>res_name = name, res_start = start, res_end = start + n - 1, res_flags = IORESOURCE_BUSY,
     res_parent = None, res_sibling = None, res_child = None\<rparr>"

lemma region_views: "start_of (s(a \<mapsto> region name start n)) a = start" "end_of (s(a \<mapsto> region name start n)) a = start + n - 1"
  "busy (s(a \<mapsto> region name start n)) a"
  by (simp_all add: view_defs region_def)

lemma request_region_spec:
  fixes name start n
  assumes ok: "res_ok s C" and a: "a \<in> dom s" and res: "res \<notin> dom s"
  defines "t \<equiv> s(res \<mapsto> region name start n)"
  shows "request_region s a start n name (Some res) = Some (None, s) \<or>
    (\<exists>q us vs. region_path t (C(res := [])) res q a \<and> q \<in> dom s \<and> C q = us @ vs \<and> (\<forall>x \<in> set us. end_of t x < start) \<and>
       res_ok (attached t q res us vs) (C(res := [], q := us @ res # vs)) \<and> dom (attached t q res us vs) = insert res (dom s) \<and>
       request_region s a start n name (Some res) = Some (Some res, attached t q res us vs))"
proof -
  have okt: "res_ok t (C(res := []))" "unattached t res" using fresh_ok [OF ok res, of "region name start n"] by (simp_all add: region_def t_def)
  have dt: "dom t = insert res (dom s)" by (simp add: t_def)
  have ra: "res \<noteq> a" "a \<in> dom t" using a res dt by auto
  have r: "request_region s a start n name (Some res) = do { (ok, s) \<leftarrow> region_loop res t a; Some (if ok then Some res else None, s) }"
    by (simp add: request_region_def t_def region_def)
  have gone: "t(res := None) = s" using res by (auto simp: t_def)
  note v = region_views [of s res name start n, folded t_def]
  consider "region_loop res t a = Some (False, t(res := None))"
    | q us vs where "region_path t (C(res := [])) res q a" "q \<in> dom t" "q \<noteq> res" "(C(res := [])) q = us @ vs" "\<forall>x \<in> set us. end_of t x < start_of t res"
       "\<forall>y \<in> set vs. end_of t res < start_of t y" "region_loop res t a = Some (True, attached t q res us vs)"
    using region_loop_spec [OF okt(1) ra(2) okt(2) ra(1)] by blast
  then show ?thesis
  proof cases
    case 1
    then show ?thesis using r gone by simp
  next
    case 2
    have "in_range t res q" using region_path_range [OF 2(1)] by simp
    then have "res_ok (attached t q res us vs) (C(res := [], q := us @ res # vs))" "dom (attached t q res us vs) = dom t"
      using attached_ok [OF okt(1) 2(2,4) okt(2) 2(3) [symmetric] _ 2(5,6)] by blast+
    moreover have "request_region s a start n name (Some res) = Some (Some res, attached t q res us vs)" using r 2(7) by simp
    ultimately show ?thesis using 2 dt v(1) by (intro disjI2 exI [of _ q] exI [of _ us] exI [of _ vs]) auto
  qed
qed

lemma request_region_undo:
  assumes ok: "res_ok s C" and a: "a \<in> dom s" and res: "res \<notin> dom s" and r: "request_region s a start n name (Some res) = Some (Some res, s')"
  shows "release_region s' a start n = Some (True, s)" "\<exists>s''. release_resource s' res = Some (0, s'') \<and> s''(res := None) = s"
proof -
  let ?t = "s(res \<mapsto> region name start n)"
  have okt: "res_ok ?t (C(res := []))" "unattached ?t res" using fresh_ok [OF ok res, of "region name start n"] by (simp_all add: region_def)
  have gone: "?t(res := None) = s" using res by auto
  obtain q us vs where q: "region_path ?t (C(res := [])) res q a" "q \<in> dom s" "C q = us @ vs" "\<forall>x \<in> set us. end_of ?t x < start"
      "res_ok (attached ?t q res us vs) (C(res := [], q := us @ res # vs))" "s' = attached ?t q res us vs"
      "dom s' = insert res (dom s)"
    using request_region_spec [OF ok a res, of start n name] r by auto
  have qr: "q \<noteq> res" using q(2) res by auto
  have qt: "q \<in> dom ?t" "a \<in> dom ?t" using q(2) a by auto
  have und: "(relink s' q us (hd_opt vs))(res := None) = s"
    using attached_undo [OF okt(1) qt(1) _ okt(2) qr [symmetric], of us vs] q(3,6) qr gone by simp
  have "release_region_loop (start_of ?t res) (end_of ?t res) s' (link_at a []) = Some (True, (relink s' q us (hd_opt vs))(res := None))"
    by (rule release_region_path [OF okt(1) q(5) [folded q(6)] _ _ _ _ qt(1) refl])
      (use q qr qt in \<open>simp_all add: region_views\<close>)
  then show "release_region s' a start n = Some (True, s)"
    using und by (simp add: release_region_def link_at_def region_views)
  have "release_resource s' res = Some (0, detached s' q res us vs)"
    by (rule release_spec [OF q(5) [folded q(6)]]) (use q(2,7) in auto)
  moreover have "(detached s' q res us vs)(res := None) = s" using und by (simp add: detached_def set_par_def)
  ultimately show "\<exists>s''. release_resource s' res = Some (0, s'') \<and> s''(res := None) = s" by blast
qed

section \<open>Changing a range\<close>

lemma set_range_ok:
  assumes ok: "res_ok s C" and a: "a \<in> dom s" and kids: "\<forall>c \<in> set (C a). lo \<le> start_of s c \<and> end_of s c \<le> hi"
    and pos: "\<And>p xs ys. p \<in> dom s \<Longrightarrow> C p = xs @ a # ys \<Longrightarrow> lo \<le> hi \<and> start_of s p \<le> lo \<and> hi \<le> end_of s p \<and>
      (\<forall>x \<in> set xs. end_of s x < lo) \<and> (\<forall>y \<in> set ys. hi < start_of s y)"
  shows "res_ok (set_range s a lo hi) C"
proof -
  let ?s = "set_range s a lo hi"
  have dom: "dom ?s = dom s" using a by auto
  note D = res_okD [OF ok]
  have noself: "a \<notin> set (C a)" using D(4) [OF a, of a] res_ok_rank [OF ok] a by blast
  have srt: "sorted_wrt (\<lambda>x y. end_of ?s x < start_of ?s y) (C b)" if b: "b \<in> dom s" for b
  proof (cases "a \<in> set (C b)")
    case True
    then obtain xs ys where C: "C b = xs @ a # ys" by (meson split_list)
    then have "a \<notin> set xs" "a \<notin> set ys" using res_ok_distinct [OF ok b] by auto
    moreover have "sorted_wrt (\<lambda>x y. end_of s x < start_of s y) (xs @ a # ys)" using D(2) [OF b] C by simp
    ultimately have "sorted_wrt (\<lambda>x y. end_of ?s x < start_of ?s y) xs" "sorted_wrt (\<lambda>x y. end_of ?s x < start_of ?s y) ys"
      by (auto simp: sorted_wrt_append intro: sorted_wrt_mono_rel [rotated])
    then show ?thesis using C D(2) [OF b] pos [OF b C] \<open>a \<notin> set xs\<close> \<open>a \<notin> set ys\<close> by (auto simp: sorted_wrt_append)
  next
    case False
    then show ?thesis using D(2) [OF b] by (intro sorted_wrt_mono_rel [OF _ D(2) [OF b]]) auto
  qed
  have mem: "x \<in> dom s \<and> par ?s x = Some b \<and> start_of ?s b \<le> start_of ?s x \<and> start_of ?s x \<le> end_of ?s x \<and> end_of ?s x \<le> end_of ?s b"
    if b: "b \<in> dom s" "x \<in> set (C b)" for b x
  proof (cases "x = a")
    case True
    then obtain xs ys where "C b = xs @ a # ys" using b(2) by (meson split_list)
    then show ?thesis using pos [OF b(1)] True a D(4) [OF b] noself b(2) by auto
  next
    case False
    then have "start_of ?s x = start_of s x" "end_of ?s x = end_of s x" by simp_all
    moreover have "lo \<le> start_of s x" "end_of s x \<le> hi" if "b = a" using kids b(2) that by blast+
    ultimately show ?thesis using D(3) [OF b] D(4) [OF b] D(5) [OF b] D(6) [OF b] D(7) [OF b] by (cases "b = a") (simp_all only: set_range_views fun_upd_apply if_True if_False simp_thms)
  qed
  have ch: "chain (sib ?s) (kid ?s b) (C b)" if "b \<in> dom s" for b using D(1) [OF that] by simp
  have par: "b \<in> dom s \<and> x \<in> set (C b)" if "x \<in> dom s" "par ?s x = Some b" for x b using res_ok_par [OF ok, of x b] that by simp
  have "\<exists>rk :: nat \<Rightarrow> nat. \<forall>x \<in> dom s. \<forall>b. par ?s x = Some b \<longrightarrow> rk b < rk x" using res_ok_rank [OF ok] by simp
  then show ?thesis
    by (intro res_okI; unfold dom) (assumption | rule ch srt mem par res_ok_finite [OF ok]; assumption)+
qed

lemma children_within_spec:
  "chain (sib s) p xs \<Longrightarrow> set xs \<subseteq> dom s \<Longrightarrow>
    children_within lo hi s p = Some (\<forall>c \<in> set xs. lo \<le> start_of s c \<and> end_of s c \<le> hi)"
proof (induction xs arbitrary: p)
  case Nil
  then show ?case by (subst children_within.simps) simp
next
  case (Cons x xs)
  then show ?case by (subst children_within.simps) (auto simp: view_defs not_le [symmetric])
qed

definition fits :: "res_store \<Rightarrow> (nat \<Rightarrow> nat list) \<Rightarrow> nat \<Rightarrow> nat \<Rightarrow> nat list \<Rightarrow> nat list \<Rightarrow> ulong \<Rightarrow> ulong \<Rightarrow> bool" where
  "fits s C p a xs ys lo hi \<longleftrightarrow> start_of s p \<le> lo \<and> hi \<le> end_of s p \<and> (\<forall>c \<in> set (C a). lo \<le> start_of s c \<and> end_of s c \<le> hi) \<and>
     (\<forall>x \<in> set xs. end_of s x < lo) \<and> (\<forall>y \<in> set ys. hi < start_of s y)"

lemma adjust_spec:
  assumes ok: "res_ok s C" and p: "p \<in> dom s" "C p = xs @ a # ys"
  shows "adjust_resource s a lo n = Some (if fits s C p a xs ys lo (lo + n - 1) then (0, set_range s a lo (lo + n - 1)) else (- EBUSY, s))"
    "lo \<le> lo + n - 1 \<Longrightarrow> fits s C p a xs ys lo (lo + n - 1) \<Longrightarrow> res_ok (set_range s a lo (lo + n - 1)) C"
proof -
  note D = res_okD [OF ok]
  let ?hi = "lo + n - 1"
  have ad: "a \<in> dom s" "par s a = Some p" using D(3,4) [OF p(1), of a] p(2) by auto
  have dist: "distinct (xs @ a # ys)" using res_ok_distinct [OF ok p(1)] p(2) by simp
  have ch: "chain (sib s) (kid s p) (xs @ a # ys)" using D(1) [OF p(1)] p(2) by simp
  have srt: "sorted_wrt (\<lambda>x y. end_of s x < start_of s y) (xs @ a # ys)" using D(2) [OF p(1)] p(2) by simp
  have sane: "start_of s x \<le> end_of s x" if "x \<in> set (xs @ a # ys)" for x using D(6) [OF p(1), of x] p(2) that by simp
  obtain r rp where r: "s a = Some r" "s p = Some rp" using ad p by auto
  have rv: "res_parent r = Some p" "res_child r = kid s a" "res_sibling r = sib s a" "res_start rp = start_of s p" "res_end rp = end_of s p" "res_child rp = kid s p"
    using r ad(2) by (simp_all add: view_defs)
  have kids: "children_within lo ?hi s (kid s a) = Some (\<forall>c \<in> set (C a). lo \<le> start_of s c \<and> end_of s c \<le> ?hi)"
    using D(1,3) [OF ad(1)] by (intro children_within_spec) auto
  have sa: "sib s a = hd_opt ys" using chain_last [of "sib s" "kid s p" "xs @ [a]" ys] ch by simp
  have nxt: "(case sib s a of None \<Rightarrow> Some False | Some t \<Rightarrow> map_option (\<lambda>rt. res_start rt \<le> ?hi) (s t)) = Some (\<not> (\<forall>y \<in> set ys. ?hi < start_of s y))"
  proof (cases ys)
    case (Cons y zs)
    then obtain ry where "s y = Some ry" using D(3) [OF p(1), of y] p(2) by auto
    moreover have "(\<forall>z \<in> set ys. ?hi < start_of s z) \<longleftrightarrow> ?hi < start_of s y"
      using srt sane [of y] Cons by (fastforce simp: sorted_wrt_append)
    ultimately show ?thesis using sa Cons by (auto simp: start_of_def not_le)
  qed (use sa in simp)
  have prev: "(if kid s p = Some a then Some False else do { h \<leftarrow> kid s p; prev \<leftarrow> before_loop a s h; map_option (\<lambda>rp. lo \<le> res_end rp) (s prev) })
      = Some (\<not> (\<forall>x \<in> set xs. end_of s x < lo))"
  proof (cases xs rule: rev_cases)
    case (snoc us l)
    obtain h hs where h: "xs = h # hs" using snoc list.exhaust [of xs] by auto
    then have k: "kid s p = Some h" "h \<noteq> a" using ch dist by auto
    have "set xs \<subseteq> dom s" using D(3) [OF p(1)] p(2) by auto
    then have "before_loop a s h = Some l" using before_loop_spec [of s h xs a ys] ch k(1) dist snoc by auto
    moreover obtain rl where "s l = Some rl" using D(3) [OF p(1), of l] p(2) snoc by auto
    moreover have "(\<forall>x \<in> set xs. end_of s x < lo) \<longleftrightarrow> end_of s l < lo"
      using srt sane [of l] snoc by (fastforce simp: sorted_wrt_append)
    ultimately show ?thesis using k by (auto simp: end_of_def not_less)
  qed (use ch in simp)
  have setr: "s(a \<mapsto> r\<lparr>res_start := lo, res_end := ?hi\<rparr>) = set_range s a lo ?hi" using r by (simp add: set_range_def)
  show "adjust_resource s a lo n = Some (if fits s C p a xs ys lo ?hi then (0, set_range s a lo ?hi) else (- EBUSY, s))"
  proof -
    define A B X where "A \<longleftrightarrow> (\<forall>c \<in> set (C a). lo \<le> start_of s c \<and> end_of s c \<le> ?hi)" and "B \<longleftrightarrow> (\<forall>y \<in> set ys. ?hi < start_of s y)"
      and "X \<longleftrightarrow> (\<forall>x \<in> set xs. end_of s x < lo)"
    have "fits s C p a xs ys lo ?hi \<longleftrightarrow> \<not> (lo < start_of s p \<or> end_of s p < ?hi) \<and> A \<and> B \<and> X"
      unfolding fits_def A_def B_def X_def not_less de_Morgan_disj by blast
    then show ?thesis
      unfolding adjust_resource_def r rv Let_def bind.bind_lunit kids [folded A_def] nxt [folded B_def] prev [folded X_def] setr by simp
  qed
  show "res_ok (set_range s a lo ?hi) C" if "lo \<le> ?hi" "fits s C p a xs ys lo ?hi"
  proof (rule set_range_ok [OF ok ad(1)])
    fix q us vs
    assume q: "q \<in> dom s" "C q = us @ a # vs"
    then have "q = p" using D(4) [OF q(1), of a] ad(2) by simp
    moreover have "a \<notin> set xs" "a \<notin> set ys" using dist by auto
    ultimately have "us = xs \<and> vs = ys" using append_Cons_eq_iff [of a xs ys us vs] q(2) p(2) by simp
    then show "lo \<le> ?hi \<and> start_of s q \<le> lo \<and> ?hi \<le> end_of s q \<and> (\<forall>x \<in> set us. end_of s x < lo) \<and> (\<forall>y \<in> set vs. ?hi < start_of s y)"
      using that \<open>q = p\<close> by (simp add: fits_def)
  qed (use that in \<open>simp add: fits_def\<close>)
qed

section \<open>Allocation\<close>

lemma and_not_align:
  assumes "k < 64"
  shows "unat ((x :: ulong) AND NOT (2 ^ k - 1)) = unat x div 2 ^ k * 2 ^ k"
proof -
  have "x AND NOT (2 ^ k - 1) = push_bit k (drop_bit k x)"
    by (rule bit_word_eqI) (auto simp: bit_simps simp flip: mask_eq_exp_minus_1)
  also have "\<dots> = of_nat (unat x div 2 ^ k * 2 ^ k)"
  proof -
    have "of_nat (unat (drop_bit k x)) = drop_bit k x" by simp
    then have "drop_bit k x = of_nat (unat x div 2 ^ k)" by (simp only: unat_drop_bit_eq drop_bit_eq_div [of _ "unat x"])
    then show ?thesis by (simp add: push_bit_eq_mult)
  qed
  finally have x: "x AND NOT (2 ^ k - 1) = of_nat (unat x div 2 ^ k * 2 ^ k)" .
  have "unat x div 2 ^ k * 2 ^ k < 2 ^ 64"
    using unat_bound [of x] by (intro le_less_trans [OF div_times_less_eq_dividend]) simp
  then show ?thesis unfolding x by (simp add: unat_of_nat take_bit_nat_eq_self del: of_nat_mult)
qed

definition round_up :: "nat \<Rightarrow> nat \<Rightarrow> nat" where
  "round_up k x = (x + 2 ^ k - 1) div 2 ^ k * 2 ^ k"

lemma round_up: "2 ^ k dvd round_up k x" "x \<le> round_up k x" "x \<le> y \<Longrightarrow> 2 ^ k dvd y \<Longrightarrow> round_up k x \<le> y"
proof -
  have p: "0 < (2 :: nat) ^ k" by simp
  show "2 ^ k dvd round_up k x" by (simp add: round_up_def)
  have "x + 2 ^ k - 1 < (x + 2 ^ k - 1) div 2 ^ k * 2 ^ k + 2 ^ k" 
    using dividend_less_div_times [OF p, of "x + 2 ^ k - 1"] by (simp add: add.commute)
  then show "x \<le> round_up k x" by (simp add: round_up_def)
  assume y: "x \<le> y" "2 ^ k dvd y"
  then obtain m where m: "y = m * 2 ^ k" by (metis dvdE mult.commute)
  have "x + 2 ^ k - 1 < y + 2 ^ k" using y(1) p by linarith
  then have "x + 2 ^ k - 1 < (m + 1) * 2 ^ k" using m by (simp add: algebra_simps)
  then have "(x + 2 ^ k - 1) div 2 ^ k < m + 1" using less_mult_imp_div_less by blast
  then show "round_up k x \<le> y" using m by (simp add: round_up_def)
qed

lemma align_word:
  assumes "k < 64" "unat x + 2 ^ k \<le> 2 ^ 64"
  shows "unat ((x + 2 ^ k - 1) AND NOT (2 ^ k - 1) :: ulong) = round_up k (unat x)"
proof -
  have e: "unat (2 ^ k :: ulong) = 2 ^ k" using assms(1) by (simp add: unat_exp)
  have p: "0 < (2 :: nat) ^ k" by simp
  have "unat (2 ^ k - 1 :: ulong) = 2 ^ k - 1" using e p by (simp add: unat_sub word_le_nat_alt)
  then have "unat (x + (2 ^ k - 1)) = unat x + (2 ^ k - 1)"
    using assms(2) p by (subst unat_add_lem [THEN iffD1]) auto
  then have "unat (x + 2 ^ k - 1) = unat x + 2 ^ k - 1" using p by (simp add: algebra_simps)
  then show ?thesis by (simp only: and_not_align [OF assms(1)] round_up_def)
qed

text \<open>A start address that would do for a new child of \<open>root\<close>.\<close>

definition feasible :: "res_store \<Rightarrow> (nat \<Rightarrow> nat list) \<Rightarrow> nat \<Rightarrow> ulong \<Rightarrow> ulong \<Rightarrow> ulong \<Rightarrow> nat \<Rightarrow> nat \<Rightarrow> bool" where
  "feasible s C root sz mn mx k st \<longleftrightarrow>
     2 ^ k dvd st \<and> unat mn \<le> st \<and> st + unat sz \<le> unat mx + 1 \<and> unat (start_of s root) \<le> st \<and> st + unat sz \<le> unat (end_of s root) + 1 \<and>
     (\<forall>c \<in> set (C root). st + unat sz \<le> unat (start_of s c) \<or> unat (end_of s c) < st)"

lemma feasible_set_range: "new \<noteq> root \<Longrightarrow> new \<notin> set (C root) \<Longrightarrow>
    feasible (set_range s new lo hi) C root sz mn mx k st = feasible s C root sz mn mx k st"
  unfolding feasible_def by (auto simp: fun_upd_apply)

lemma unattached_set_range [simp]: "unattached (set_range s a lo hi) a = (kid s a = None \<and> par s a = None)"
  by (auto simp: unattached_def)

lemma set_range_twice [simp]: "set_range (set_range s a lo hi) a lo' hi' = set_range s a lo' hi'"
  by (simp add: set_range_def)

lemma set_range_same: "a \<in> dom s \<Longrightarrow> set_range s a (start_of s a) (end_of s a) = s"
  by (auto simp: set_range_def view_defs)

lemma unattached_range_ok:
  assumes ok: "res_ok s C" and new: "unattached s new"
  shows "res_ok (set_range s new lo hi) C"
proof (rule set_range_ok [OF ok])
  fix p xs ys
  assume "p \<in> dom s" "C p = xs @ new # ys"
  then show "lo \<le> hi \<and> start_of s p \<le> lo \<and> hi \<le> end_of s p \<and> (\<forall>x \<in> set xs. end_of s x < lo) \<and> (\<forall>y \<in> set ys. hi < start_of s y)"
    using unattached_no_kid [OF ok new, of p] by simp
qed (use new unattached_kids [OF ok new] in \<open>simp_all add: unattached_def\<close>)

lemma gap_candidate_None:
  "gap_candidate sz mn mx al None hi n = n\<lparr>res_start := ((max (res_start n) mn) + al - 1) AND NOT (al - 1), res_end := min hi mx\<rparr>"
  by (simp add: gap_candidate_def Let_def max_def min_def not_less)

lemma find_step:
  fixes s new mn k mx g sz
  assumes new: "new \<in> dom s" "new \<noteq> root" "\<forall>t. this = Some t \<longrightarrow> t \<in> dom s \<and> t \<noteq> new" "root \<in> dom s"
  defines "g \<equiv> (case this of Some t \<Rightarrow> start_of s t - 1 | None \<Rightarrow> end_of s root)"
  defines "st \<equiv> (max (start_of s new) mn + 2 ^ k - 1) AND NOT (2 ^ k - 1)" and "e \<equiv> min g mx"
  shows "find_loop root new sz mn mx (2 ^ k) None s this =
    (if st < e \<and> sz \<le> e - st + 1 then Some (0, set_range s new st (st + sz - 1))
     else case this of None \<Rightarrow> Some (- EBUSY, set_range s new st e)
       | Some t \<Rightarrow> find_loop root new sz mn mx (2 ^ k) None (set_range s new (end_of s t + 1) e) (sib s t))"
proof -
  obtain n where n: "s new = Some n" using new(1) by auto
  have nv: "res_start n = start_of s new" using n by (simp add: view_defs)
  have g: "(case this of Some t \<Rightarrow> map_option (\<lambda>r. res_start r - 1) (s t) | None \<Rightarrow> map_option res_end (s root)) = Some g"
    using new(3,4) by (auto simp: g_def view_defs split: option.split)
  have c: "gap_candidate sz mn mx (2 ^ k) None g n = n\<lparr>res_start := st, res_end := e\<rparr>"
    by (simp add: gap_candidate_None nv st_def e_def)
  have r: "s(new \<mapsto> n\<lparr>res_start := a, res_end := b\<rparr>) = set_range s new a b" for a b using n by (simp add: set_range_def)
  have swp: "n\<lparr>res_end := b, res_start := a\<rparr> = n\<lparr>res_start := a, res_end := b\<rparr>" for a b by (cases n) simp
  have unf: "find_loop root new sz mn mx (2 ^ k) None s this =
    (if st < e \<and> sz \<le> e - st + 1 then Some (0, set_range s new st (st + sz - 1))
     else case this of None \<Rightarrow> Some (- EBUSY, set_range s new st e)
       | Some t \<Rightarrow> do { r \<leftarrow> (s(new \<mapsto> n\<lparr>res_start := st, res_end := e\<rparr>)) t;
           find_loop root new sz mn mx (2 ^ k) None (set_range s new (res_end r + 1) e) (res_sibling r) })"
    by (subst find_loop.simps, unfold g n bind.bind_lunit Let_def c) (simp add: swp flip: r cong: option.case_cong)
  show ?thesis
  proof (cases this)
    case (Some t)
    then obtain rt where "s t = Some rt" "t \<noteq> new" using new(3) by auto
    then show ?thesis unfolding unf using Some by (simp add: view_defs)
  qed (use unf in simp)
qed

lemma find_gap:
  fixes cur mn mx g sz :: ulong
  assumes k: "k < 64" "unat (max cur mn) + 2 ^ k \<le> 2 ^ 64" and sz: "1 \<le> unat sz" and g: "unat g < 2 ^ 64 - 1"
  defines "st \<equiv> (max cur mn + 2 ^ k - 1) AND NOT (2 ^ k - 1)" and "e \<equiv> min g mx"
  shows "st < e \<and> sz \<le> e - st + 1 \<Longrightarrow> unat st + unat sz \<le> unat e + 1 \<and> unat (st + sz - 1) = unat st + unat sz - 1"
    "unat st = round_up k (unat (max cur mn))"
    "2 \<le> unat sz \<Longrightarrow> unat st + unat sz \<le> unat e + 1 \<Longrightarrow> st < e \<and> sz \<le> e - st + 1"
proof -
  have e: "unat e < 2 ^ 64 - 1" using g by (simp add: e_def min_def word_le_nat_alt)
  show "unat st = round_up k (unat (max cur mn))" unfolding st_def by (rule align_word [OF k])
  have d: "unat (e - st + 1) = unat e - unat st + 1" if "st < e"
  proof -
    have "unat (e - st) = unat e - unat st" using that by (simp add: unat_sub)
    then show ?thesis using e by (simp add: unat_word_ariths)
  qed
  show "unat st + unat sz \<le> unat e + 1 \<and> unat (st + sz - 1) = unat st + unat sz - 1" if h: "st < e \<and> sz \<le> e - st + 1"
  proof
    show b: "unat st + unat sz \<le> unat e + 1" using h d by (auto simp: word_le_nat_alt word_less_nat_alt)
    then have "unat (st + sz) = unat st + unat sz" using e by (simp add: unat_word_ariths)
    moreover have "1 \<le> st + sz" using calculation sz by (simp add: word_le_nat_alt)
    ultimately show "unat (st + sz - 1) = unat st + unat sz - 1" by (simp add: unat_sub)
  qed
  show "st < e \<and> sz \<le> e - st + 1" if "2 \<le> unat sz" "unat st + unat sz \<le> unat e + 1"
  proof -
    have "st < e" using that by (simp add: word_less_nat_alt)
    then show ?thesis using d that by (simp add: word_le_nat_alt)
  qed
qed


text \<open>Where the search goes on after the children \<open>us\<close>.\<close>

definition next_free :: "res_store \<Rightarrow> nat \<Rightarrow> nat list \<Rightarrow> nat" where
  "next_free s root us = (if us = [] then unat (start_of s root) else unat (end_of s (last us)) + 1)"

lemma next_free_bounds:
  assumes ok: "res_ok s C" and root: "root \<in> dom s" "C root = us @ vs"
  shows "u \<in> set us \<Longrightarrow> unat (end_of s u) < next_free s root us" "unat (start_of s root) \<le> next_free s root us"
    "start_of s root \<le> end_of s root \<Longrightarrow> next_free s root us \<le> unat (end_of s root) + 1" "v \<in> set vs \<Longrightarrow> us \<noteq> [] \<Longrightarrow> next_free s root us \<le> unat (start_of s v)"
    "(\<And>u. u \<in> set us \<Longrightarrow> unat (end_of s u) < st) \<Longrightarrow> unat (start_of s root) \<le> st \<Longrightarrow> next_free s root us \<le> st"
proof -
  note D = res_okD [OF ok root(1)]
  have srt: "sorted_wrt (\<lambda>x y. end_of s x < start_of s y) (us @ vs)" using D(2) root(2) by simp
  have l: "last us \<in> set us" if "us \<noteq> []" using that by simp
  show "unat (end_of s u) < next_free s root us" if "u \<in> set us"
  proof (cases us rule: rev_cases)
    case (snoc ws w)
    then have "u = w \<or> end_of s u < start_of s w" using that srt by (auto simp: sorted_wrt_append)
    moreover have "start_of s w \<le> end_of s w" using D(6) [of w] root(2) snoc by simp
    ultimately have "end_of s u \<le> end_of s w" by auto
    then show ?thesis using snoc by (simp add: next_free_def word_le_nat_alt)
  qed (use that in simp)
  show "unat (start_of s root) \<le> next_free s root us"
  proof (cases "us = []")
    case False
    then have "start_of s root \<le> end_of s (last us)" using D(5,6) [of "last us"] root(2) l by force
    then show ?thesis using False by (simp add: next_free_def word_le_nat_alt)
  qed (simp add: next_free_def)
  show "next_free s root us \<le> unat (end_of s root) + 1" if "start_of s root \<le> end_of s root"
    using D(7) [of "last us"] root(2) l that by (auto simp: next_free_def word_le_nat_alt)
  show "next_free s root us \<le> unat (start_of s v)" if "v \<in> set vs" "us \<noteq> []"
    using srt that l by (auto simp: next_free_def sorted_wrt_append word_less_nat_alt Suc_le_eq)
  show "next_free s root us \<le> st" if "\<And>u. u \<in> set us \<Longrightarrow> unat (end_of s u) < st" "unat (start_of s root) \<le> st"
    using that l by (auto simp: next_free_def Suc_le_eq)
qed

lemma find_here:
  fixes mn mx sz k
  assumes ok: "res_ok s C" and root: "root \<in> dom s" "C root = us @ vs"
    and k: "k < 64" "unat (end_of s root) + 2 ^ k < 2 ^ 64" "unat mn + 2 ^ k \<le> 2 ^ 64" and sz: "1 \<le> unat sz"
    and range: "start_of s root \<le> end_of s root"
    and cur: "unat cur = next_free s root us" "us = [] \<and> vs \<noteq> [] \<longrightarrow> start_of s (hd vs) \<noteq> 0"
    and prior: "2 \<le> unat sz \<longrightarrow> (\<forall>st. feasible s C root sz mn mx k st \<longrightarrow> (\<forall>u \<in> set us. unat (end_of s u) < st))"
  defines "g \<equiv> (case hd_opt vs of Some t \<Rightarrow> start_of s t - 1 | None \<Rightarrow> end_of s root)"
  defines "st \<equiv> (max cur mn + 2 ^ k - 1) AND NOT (2 ^ k - 1)" and "e \<equiv> min g mx"
  shows "st < e \<and> sz \<le> e - st + 1 \<Longrightarrow> feasible s C root sz mn mx k (unat st) \<and> unat (st + sz - 1) = unat st + unat sz - 1 \<and>
       (2 \<le> unat sz \<longrightarrow> (\<forall>f. feasible s C root sz mn mx k f \<longrightarrow> unat st \<le> f))"
    "\<not> (st < e \<and> sz \<le> e - st + 1) \<Longrightarrow> 2 \<le> unat sz \<Longrightarrow> feasible s C root sz mn mx k f \<Longrightarrow> vs \<noteq> [] \<and> unat (end_of s (hd vs)) < f"
proof -
  note D = res_okD [OF ok root(1)] and nf = next_free_bounds [OF ok root]
  have g: "(\<forall>v \<in> set vs. unat g < unat (start_of s v)) \<and> unat g \<le> unat (end_of s root) \<and> (\<forall>t ts. vs = t # ts \<longrightarrow> unat g = unat (start_of s t) - 1)"
  proof (cases vs)
    case (Cons t ts)
    have "0 < unat (start_of s t)"
    proof (cases "us = []")
      case True
      then show ?thesis using cur(2) Cons by (simp add: unat_gt_0)
    next
      case False
      then show ?thesis using nf(4) [of t] Cons by (simp add: next_free_def)
    qed
    then have "1 \<le> start_of s t" by (simp add: word_le_nat_alt)
    then have u: "unat g = unat (start_of s t) - 1" using Cons by (simp add: g_def unat_sub)
    have "start_of s t \<le> start_of s v" if "v \<in> set vs" for v
      using that Cons D(2) root(2) D(6) [of t] by (fastforce simp: sorted_wrt_append)
    moreover have "start_of s t \<le> end_of s root" using D(6,7) [of t] root(2) Cons by force
    ultimately show ?thesis using u \<open>0 < unat (start_of s t)\<close> Cons by (fastforce simp: word_le_nat_alt)
  qed (simp add: g_def)
  have "max (unat cur) (unat mn) + 2 ^ k \<le> 2 ^ 64" using nf(3) [OF range] k(2,3) cur(1) by linarith
  then have mx: "unat (max cur mn) + 2 ^ k \<le> 2 ^ 64" "unat (max cur mn) = max (unat cur) (unat mn)" by (auto simp: max_def word_le_nat_alt)
  have "1 \<le> (2 :: nat) ^ k" "unat g \<le> unat (end_of s root)" using g by simp_all
  then have g64: "unat g < 2 ^ 64 - 1" using k(2) by linarith
  note gap = find_gap(1) [OF k(1) mx(1) sz g64, where mx = mx, folded st_def e_def] find_gap(2) [OF k(1) mx(1) sz g64, folded st_def]
    find_gap(3) [OF k(1) mx(1) sz g64, where mx = mx, folded st_def e_def]
  have st: "unat cur \<le> unat st" "unat mn \<le> unat st" "2 ^ k dvd unat st" using round_up(1) [of k "unat (max cur mn)"] round_up(2) [of "unat (max cur mn)" k] gap(2) mx(2) by auto
  have eu: "unat e = min (unat g) (unat mx)" by (simp add: e_def min_def word_le_nat_alt)
  have low: "unat st \<le> f" if "feasible s C root sz mn mx k f" "2 \<le> unat sz" for f
  proof -
    have "next_free s root us \<le> f" using that prior by (intro nf(5)) (auto simp: feasible_def)
    then have "max (unat cur) (unat mn) \<le> f" using that(1) cur(1) by (simp add: feasible_def)
    then show ?thesis using gap(2) mx(2) round_up(3) that(1) by (simp add: feasible_def)
  qed
  {
    assume h: "st < e \<and> sz \<le> e - st + 1"
    have "feasible s C root sz mn mx k (unat st)"
      unfolding feasible_def using gap(1) [OF h] eu g st nf(1,2) cur(1) root(2) by fastforce
    then show "feasible s C root sz mn mx k (unat st) \<and> unat (st + sz - 1) = unat st + unat sz - 1 \<and>
       (2 \<le> unat sz \<longrightarrow> (\<forall>f. feasible s C root sz mn mx k f \<longrightarrow> unat st \<le> f))" using gap(1) [OF h] low by blast
  next
    assume h: "\<not> (st < e \<and> sz \<le> e - st + 1)" "2 \<le> unat sz" "feasible s C root sz mn mx k f"
    then have nofit: "unat e + 1 < f + unat sz" using gap(3) [OF h(2)] low [OF h(3,2)] by fastforce
    have mxf: "f + unat sz \<le> unat mx + 1" "f + unat sz \<le> unat (end_of s root) + 1" using h(3) by (auto simp: feasible_def)
    then have gf: "unat g + 1 < f + unat sz" using nofit eu by (auto simp: min_def split: if_splits)
    show "vs \<noteq> [] \<and> unat (end_of s (hd vs)) < f"
    proof (cases vs)
      case Nil
      then show ?thesis using gf mxf(2) by (simp add: g_def)
    next
      case (Cons t ts)
      have "f + unat sz \<le> unat (start_of s t) \<or> unat (end_of s t) < f" using h(3) root(2) Cons by (auto simp: feasible_def)
      moreover have "unat g = unat (start_of s t) - 1" using g Cons by blast
      ultimately show ?thesis using gf Cons by auto
    qed
  }
qed


text \<open>
  The result \<open>r\<close> of the search with the range that it leaves in the new resource. The test \<^verbatim>\<open>new->start < new->end\<close> makes the search for one address a search for two.
\<close>

definition find_result :: "res_store \<Rightarrow> (nat \<Rightarrow> nat list) \<Rightarrow> nat \<Rightarrow> ulong \<Rightarrow> ulong \<Rightarrow> ulong \<Rightarrow> nat \<Rightarrow> int \<Rightarrow> ulong \<Rightarrow> ulong \<Rightarrow> bool" where
  "find_result s C root sz mn mx k r lo hi \<longleftrightarrow>
     r = 0 \<and> unat hi = unat lo + unat sz - 1 \<and> feasible s C root (max 2 sz) mn mx k (unat lo) \<and>
       (\<forall>st. feasible s C root (max 2 sz) mn mx k st \<longrightarrow> unat lo \<le> st) \<or>
     r = - EBUSY \<and> (\<forall>st. \<not> feasible s C root (max 2 sz) mn mx k st)"

lemma unat_max2: "unat (max 2 sz :: ulong) = max 2 (unat sz)"
  by (simp add: max_def word_le_nat_alt)

lemma feasible_max2: "feasible s C root (max 2 sz) mn mx k st \<Longrightarrow> feasible s C root sz mn mx k st"
  unfolding feasible_def unat_max2 by fastforce

lemma gap_max2:
  fixes st e sz :: ulong
  assumes "1 \<le> unat sz"
  shows "st < e \<and> sz \<le> e - st + 1 \<longleftrightarrow> st < e \<and> max 2 sz \<le> e - st + 1"
proof -
  have "2 \<le> e - st + 1" if "st < e" "sz \<le> e - st + 1"
  proof -
    have "e - st \<noteq> 0" "e - st + 1 \<noteq> 0" using that assms by (auto simp: word_le_nat_alt)
    then have "unat (e - st + 1) = unat (e - st) + 1" "1 \<le> unat (e - st)"
      using unatSuc [of "e - st"] by (simp_all add: add.commute Suc_le_eq unat_gt_0)
    then show ?thesis by (simp add: word_le_nat_alt)
  qed
  then show ?thesis by auto
qed

lemma find_unfold:
  assumes ok: "res_ok s C" and root: "root \<in> dom s" "C root = us @ vs" and new: "unattached s new" "new \<noteq> root"
    and k: "k < 64" "unat (end_of s root) + 2 ^ k < 2 ^ 64" "unat mn + 2 ^ k \<le> 2 ^ 64" and sz: "1 \<le> unat sz"
    and range: "start_of s root \<le> end_of s root"
    and cur: "unat cur = next_free s root us" "us = [] \<and> vs \<noteq> [] \<longrightarrow> start_of s (hd vs) \<noteq> 0"
    and prior: "\<forall>st. feasible s C root (max 2 sz) mn mx k st \<longrightarrow> (\<forall>u \<in> set us. unat (end_of s u) < st)"
  shows "(\<exists>lo hi. find_loop root new sz mn mx (2 ^ k) None (set_range s new cur x) (hd_opt vs) = Some (0, set_range s new lo hi) \<and>
        find_result s C root sz mn mx k 0 lo hi) \<or>
     (\<exists>lo hi. find_loop root new sz mn mx (2 ^ k) None (set_range s new cur x) (hd_opt vs) =
        (case hd_opt vs of None \<Rightarrow> Some (- EBUSY, set_range s new lo hi)
         | Some t \<Rightarrow> find_loop root new sz mn mx (2 ^ k) None (set_range s new (end_of s t + 1) hi) (sib s t))) \<and>
     (\<forall>f. feasible s C root (max 2 sz) mn mx k f \<longrightarrow> vs \<noteq> [] \<and> unat (end_of s (hd vs)) < f)"
proof -
  let ?s = "set_range s new cur x"
  define g where "g = (case hd_opt vs of Some t \<Rightarrow> start_of s t - 1 | None \<Rightarrow> end_of s root)"
  define st where "st = (max cur mn + 2 ^ k - 1) AND NOT (2 ^ k - 1)"
  define e where "e = min g mx"
  have nd: "new \<in> dom s" using new(1) by (simp add: unattached_def)
  have t: "t \<in> dom s \<and> t \<noteq> new" if "hd_opt vs = Some t" for t
  proof -
    have "t \<in> set (C root)" using that root(2) by (cases vs) auto
    then show ?thesis using res_okD(3) [OF ok root(1)] unattached_no_kid [OF ok new(1) root(1)] by auto
  qed
  then have vt: "start_of ?s t = start_of s t" "end_of ?s t = end_of s t" if "hd_opt vs = Some t" for t using that by auto
  have g': "(case hd_opt vs of Some t \<Rightarrow> start_of ?s t - 1 | None \<Rightarrow> end_of ?s root) = g"
    using vt new(2) by (auto simp: g_def split: option.split)
  have step: "find_loop root new sz mn mx (2 ^ k) None ?s (hd_opt vs) =
    (if st < e \<and> sz \<le> e - st + 1 then Some (0, set_range s new st (st + sz - 1))
     else case hd_opt vs of None \<Rightarrow> Some (- EBUSY, set_range s new st e)
       | Some t \<Rightarrow> find_loop root new sz mn mx (2 ^ k) None (set_range s new (end_of s t + 1) e) (sib s t))"
  proof -
    have pr: "new \<in> dom ?s" "\<forall>t. hd_opt vs = Some t \<longrightarrow> t \<in> dom ?s \<and> t \<noteq> new" "root \<in> dom ?s" using root(1) t by auto
    have sst: "(max (start_of ?s new) mn + 2 ^ k - 1) AND NOT (2 ^ k - 1) = st" by (simp add: st_def)
    have "find_loop root new sz mn mx (2 ^ k) None ?s (hd_opt vs) =
      (if st < e \<and> sz \<le> e - st + 1 then Some (0, set_range ?s new st (st + sz - 1))
       else case hd_opt vs of None \<Rightarrow> Some (- EBUSY, set_range ?s new st e)
         | Some t \<Rightarrow> find_loop root new sz mn mx (2 ^ k) None (set_range ?s new (end_of ?s t + 1) e) (sib ?s t))"
      by (rule find_step [OF pr(1) new(2) pr(2,3), where sz = sz and mn = mn and mx = mx and k = k, unfolded g' sst, folded e_def])
    then show ?thesis using vt by (cases "hd_opt vs") simp_all
  qed
  have m: "1 \<le> unat (max 2 sz)" "2 \<le> unat (max 2 sz)" unfolding unat_max2 by simp_all
  have "max 2 sz = sz" if "2 \<le> unat sz" using that by (simp add: max_def word_le_nat_alt)
  then have "2 \<le> unat sz \<longrightarrow> (\<forall>st. feasible s C root sz mn mx k st \<longrightarrow> (\<forall>u \<in> set us. unat (end_of s u) < st))" using prior by auto
  note exact = find_here(1) [OF ok root k sz range cur this, folded g_def st_def, folded e_def]
  have "2 \<le> unat (max 2 sz) \<longrightarrow> (\<forall>st. feasible s C root (max 2 sz) mn mx k st \<longrightarrow> (\<forall>u \<in> set us. unat (end_of s u) < st))" using prior by auto
  note here = find_here [OF ok root k m(1) range cur this, folded g_def st_def, folded e_def, unfolded gap_max2 [OF sz, symmetric]]
  show ?thesis
  proof (cases "st < e \<and> sz \<le> e - st + 1")
    case True
    then have "find_result s C root sz mn mx k 0 st (st + sz - 1)" using here(1) [OF True] exact [OF True] m(2) by (simp add: find_result_def)
    then show ?thesis using True step by auto
  next
    case False
    then show ?thesis using step here(2) [OF False m(2)] by auto
  qed
qed

lemma find_loop_spec:
  assumes ok: "res_ok s C" and root: "root \<in> dom s" and new: "unattached s new" "new \<noteq> root"
    and k: "k < 64" "unat (end_of s root) + 2 ^ k < 2 ^ 64" "unat mn + 2 ^ k \<le> 2 ^ 64" and sz: "1 \<le> unat sz"
    and range: "start_of s root \<le> end_of s root"
    and C: "C root = us @ vs" and cur: "unat cur = next_free s root us" "us = [] \<and> vs \<noteq> [] \<longrightarrow> start_of s (hd vs) \<noteq> 0"
    and prior: "\<forall>st. feasible s C root (max 2 sz) mn mx k st \<longrightarrow> (\<forall>u \<in> set us. unat (end_of s u) < st)"
  shows "\<exists>r lo hi. find_loop root new sz mn mx (2 ^ k) None (set_range s new cur x) (hd_opt vs) = Some (r, set_range s new lo hi) \<and>
     find_result s C root sz mn mx k r lo hi"
  using C cur prior
proof (induction vs arbitrary: us cur x)
  case (Nil us cur x)
  show ?case using find_unfold [OF ok root Nil.prems(1) new k sz range Nil.prems(2-4), of x] by (auto simp: find_result_def)
next
  case (Cons t vs us cur x)
  have t: "t \<in> set (C root)" using Cons.prems(1) by simp
  have "end_of s t \<le> end_of s root" using res_okD(7) [OF ok root t] .
  moreover have "unat (end_of s root) + 1 < 2 ^ 64" using k(2) one_le_power [of "2 :: nat" k] by linarith
  ultimately have nf: "unat (end_of s t + 1) = next_free s root (us @ [t])"
    by (simp add: next_free_def unat_word_ariths word_le_nat_alt)
  have sibt: "sib s t = hd_opt vs" using chain_last [of "sib s" "kid s root" "us @ [t]" vs] res_okD(1) [OF ok root] Cons.prems(1) by simp
  consider lo hi where "find_loop root new sz mn mx (2 ^ k) None (set_range s new cur x) (hd_opt (t # vs)) = Some (0, set_range s new lo hi)"
      "find_result s C root sz mn mx k 0 lo hi"
    | hi where "find_loop root new sz mn mx (2 ^ k) None (set_range s new cur x) (hd_opt (t # vs)) =
        find_loop root new sz mn mx (2 ^ k) None (set_range s new (end_of s t + 1) hi) (hd_opt vs)"
      "\<forall>f. feasible s C root (max 2 sz) mn mx k f \<longrightarrow> unat (end_of s t) < f"
    using find_unfold [OF ok root Cons.prems(1) new k sz range Cons.prems(2-4), of x] sibt by auto
  then show ?case
  proof cases
    case 1
    then show ?thesis by blast
  next
    case 2
    have "\<forall>st. feasible s C root (max 2 sz) mn mx k st \<longrightarrow> (\<forall>u \<in> set (us @ [t]). unat (end_of s u) < st)"
      using 2(2) Cons.prems(4) by auto
    then show ?thesis using Cons.IH [of "us @ [t]" "end_of s t + 1" hi] Cons.prems(1) nf 2(1) by simp
  qed
qed


lemma find_resource_spec:
  assumes ok: "res_ok s C" and root: "root \<in> dom s" and new: "unattached s new" "new \<noteq> root"
    and k: "k < 64" "unat (end_of s root) + 2 ^ k < 2 ^ 64" "unat mn + 2 ^ k \<le> 2 ^ 64" and sz: "1 \<le> unat sz"
    and range: "start_of s root \<le> end_of s root"
  shows "\<exists>r lo hi. find_resource s root new sz mn mx (2 ^ k) None = Some (r, set_range s new lo hi) \<and> find_result s C root sz mn mx k r lo hi"
proof -
  obtain n r where nr: "s new = Some n" "s root = Some r" using new(1) root by (auto simp: unattached_def)
  have v: "res_start r = start_of s root" "res_child r = hd_opt (C root)" using nr res_okD(1) [OF ok root] chain_hd by (auto simp: view_defs)
  have upd: "s(new \<mapsto> n\<lparr>res_start := a\<rparr>) = set_range s new a (res_end n)" for a using nr by (simp add: set_range_def)
  note loop = find_loop_spec [OF ok root new k sz range]
  show ?thesis
  proof (cases "C root")
    case Nil
    then show ?thesis using loop [of "[]" "[]" "start_of s root" mx "res_end n"] nr v upd
      by (simp add: find_resource_def next_free_def Let_def)
  next
    case (Cons t ts)
    then have t: "t \<in> dom s" "t \<noteq> new" using res_okD(3) [OF ok root, of t] unattached_no_kid [OF ok new(1) root] by auto
    then obtain rt where rt: "s t = Some rt" "res_start rt = start_of s t" "res_end rt = end_of s t" "res_sibling rt = hd_opt ts"
      using chain_last [of "sib s" "kid s root" "[t]" ts] res_okD(1) [OF ok root] Cons by (auto simp: view_defs)
    have other: "set_range s new a b t = s t" for a b using t(2) by (simp add: set_range_def)
    have twice: "(set_range s new a b)(new \<mapsto> n\<lparr>res_start := c\<rparr>) = set_range s new c (res_end n)" for a b c using nr by (simp add: set_range_def)
    show ?thesis
    proof (cases "start_of s t = 0")
      case True
      have "end_of s t \<le> end_of s root" using res_okD(7) [OF ok root, of t] Cons by simp
      moreover have "unat (end_of s root) + 1 < 2 ^ 64" using k(2) one_le_power [of "2 :: nat" k] by linarith
      ultimately have nf: "unat (end_of s t + 1) = next_free s root [t]"
        by (simp add: next_free_def unat_word_ariths word_le_nat_alt)
      have "unat (end_of s t) < st" if "feasible s C root (max 2 sz) mn mx k st" for st
        using feasible_max2 [OF that] True Cons sz by (simp add: feasible_def)
      then show ?thesis using loop [of "[t]" ts "end_of s t + 1" mx "res_end n"] nr v upd rt t Cons True nf other twice
        by (simp add: find_resource_def Let_def)
    next
      case False
      then show ?thesis using loop [of "[]" "t # ts" "start_of s root" mx "res_end n"] nr v upd rt t Cons other
        by (simp add: find_resource_def next_free_def Let_def)
    qed
  qed
qed

lemma allocate_spec:
  assumes ok: "res_ok s C" and root: "root \<in> dom s" and new: "unattached s new" "new \<noteq> root"
    and k: "k < 64" "unat (end_of s root) + 2 ^ k < 2 ^ 64" "unat mn + 2 ^ k \<le> 2 ^ 64" and sz: "1 \<le> unat sz"
    and range: "start_of s root \<le> end_of s root"
  shows "(\<exists>lo hi us vs. allocate_resource s root new sz mn mx (2 ^ k) None = Some (0, attached (set_range s new lo hi) root new us vs) \<and>
       find_result s C root sz mn mx k 0 lo hi \<and> C root = us @ vs \<and>
       res_ok (attached (set_range s new lo hi) root new us vs) (C(root := us @ new # vs))) \<or>
    (\<exists>lo hi. allocate_resource s root new sz mn mx (2 ^ k) None = Some (- EBUSY, set_range s new lo hi) \<and>
       find_result s C root sz mn mx k (- EBUSY) lo hi)"
proof -
  obtain r lo hi where f: "find_resource s root new sz mn mx (2 ^ k) None = Some (r, set_range s new lo hi)" "find_result s C root sz mn mx k r lo hi"
    using find_resource_spec [OF ok root new k sz range] by blast
  let ?s = "set_range s new lo hi"
  have nd: "new \<in> dom s" "kid s new = None" "par s new = None" using new(1) by (auto simp: unattached_def)
  have oks: "res_ok ?s C" by (rule unattached_range_ok [OF ok new(1)])
  have un: "unattached ?s new" "root \<in> dom ?s" using nd root by auto
  consider "r = - EBUSY" | "r = 0" using f(2) by (auto simp: find_result_def)
  then show ?thesis
  proof cases
    case 1
    then show ?thesis using f by (auto simp: allocate_resource_def)
  next
    case 2
    then have h: "unat hi = unat lo + unat sz - 1" "feasible s C root sz mn mx k (unat lo)" using f(2) feasible_max2 by (auto simp: find_result_def)
    have notin: "new \<notin> set (C root)" by (rule unattached_no_kid [OF ok new(1) root])
    have "in_range ?s new root" using h sz new(2) by (auto simp: in_range_def feasible_def word_le_nat_alt)
    moreover have "\<not> (start_of ?s t \<le> end_of ?s new \<and> start_of ?s new \<le> end_of ?s t)" if "t \<in> set (C root)" for t
    proof -
      have "unat lo + unat sz \<le> unat (start_of s t) \<or> unat (end_of s t) < unat lo" using h(2) that by (simp add: feasible_def)
      then show ?thesis using that notin h(1) sz by (auto simp: word_le_nat_alt)
    qed
    ultimately obtain us vs where q: "C root = us @ vs" "\<forall>x \<in> set us. end_of ?s x < start_of ?s new" "\<forall>y \<in> set vs. end_of ?s new < start_of ?s y"
        "request_nolock ?s root new = Some (None, attached ?s root new us vs)"
      using request_nolock_spec [OF oks un(2,1) new(2)] by fastforce
    have "res_ok (attached ?s root new us vs) (C(root := us @ new # vs))"
      using attached_ok(1) [OF oks un(2) q(1) un(1) new(2) \<open>in_range ?s new root\<close> q(2,3)] .
    moreover have "allocate_resource s root new sz mn mx (2 ^ k) None = Some (0, attached ?s root new us vs)"
      using f(1) 2 q(4) by (simp add: allocate_resource_def)
    ultimately show ?thesis using f(2) 2 q(1) by blast
  qed
qed

section \<open>Sequences of calls\<close>

text \<open>An alignment function of an architecture may move the range of the new resource, and does not touch its links.\<close>

definition ranges_only :: "res_alignf \<Rightarrow> bool" where
  "ranges_only f \<longleftrightarrow> (\<forall>r sz al. \<exists>lo hi. f r sz al = r\<lparr>res_start := lo, res_end := hi\<rparr>)"

lemma range_swap: "(n :: resource)\<lparr>res_end := b, res_start := a\<rparr> = n\<lparr>res_start := a, res_end := b\<rparr>"
  by (cases n) simp

lemma gap_candidate_range:
  assumes "\<forall>f. alignf = Some f \<longrightarrow> ranges_only f"
  shows "\<exists>lo h. gap_candidate sz mn mx al alignf hi n = n\<lparr>res_start := lo, res_end := h\<rparr>"
proof (cases alignf)
  case None
  then show ?thesis by (auto simp: gap_candidate_None)
next
  case (Some f)
  let ?m = "n\<lparr>res_start := ((max (res_start n) mn) + al - 1) AND NOT (al - 1), res_end := min hi mx\<rparr>"
  have "gap_candidate sz mn mx al alignf hi n = f ?m sz al"
    using Some gap_candidate_None [of sz mn mx al hi n] by (simp add: gap_candidate_def Let_def range_swap)
  moreover obtain lo h where "f ?m sz al = ?m\<lparr>res_start := lo, res_end := h\<rparr>" using assms Some unfolding ranges_only_def by blast
  ultimately show ?thesis by (auto simp: resource.surjective)
qed

lemma find_loop_any:
  assumes ok: "res_ok s C" and root: "root \<in> dom s" and new: "unattached s new" "new \<noteq> root" and f: "\<forall>f. alignf = Some f \<longrightarrow> ranges_only f"
    and "C root = us @ vs"
  shows "\<exists>r lo hi. find_loop root new sz mn mx al alignf (set_range s new cur x) (hd_opt vs) = Some (r, set_range s new lo hi) \<and> (r = 0 \<or> r = - EBUSY)"
  using assms(6)
proof (induction vs arbitrary: us cur x)
  case (Nil us cur x)
  obtain n r where nr: "s new = Some n" "s root = Some r" using new(1) root by (auto simp: unattached_def)
  let ?n = "n\<lparr>res_start := cur, res_end := x\<rparr>"
  obtain lo hi where "gap_candidate sz mn mx al alignf (res_end r) ?n = ?n\<lparr>res_start := lo, res_end := hi\<rparr>" using gap_candidate_range [OF f] by blast
  moreover have "set_range s new cur x new = Some ?n" "set_range s new cur x root = Some r" using nr new(2) by (simp_all add: set_range_def)
  ultimately show ?case using nr by (subst find_loop.simps) (auto simp: Let_def set_range_def)
next
  case (Cons t vs us cur x)
  have t: "t \<in> set (C root)" "t \<in> dom s" "t \<noteq> new"
    using Cons.prems res_okD(3) [OF ok root, of t] unattached_no_kid [OF ok new(1) root] by auto
  have sibt: "sib s t = hd_opt vs" using chain_last [of "sib s" "kid s root" "us @ [t]" vs] res_okD(1) [OF ok root] Cons.prems by simp
  obtain n rt where nr: "s new = Some n" "s t = Some rt" using new(1) t by (auto simp: unattached_def)
  let ?n = "n\<lparr>res_start := cur, res_end := x\<rparr>"
  obtain lo hi where g: "gap_candidate sz mn mx al alignf (res_start rt - 1) ?n = ?n\<lparr>res_start := lo, res_end := hi\<rparr>" using gap_candidate_range [OF f] by blast
  have nt: "set_range s new cur x new = Some ?n" "set_range s new cur x t = Some rt" using nr t(3) by (simp_all add: set_range_def)
  have "res_sibling rt = hd_opt vs" using sibt nr by (simp add: view_defs)
  then have "find_loop root new sz mn mx al alignf (set_range s new cur x) (hd_opt (t # vs)) =
    (if lo < hi \<and> hi - lo + 1 \<ge> sz then Some (0, set_range s new lo (lo + sz - 1))
     else find_loop root new sz mn mx al alignf (set_range s new (res_end rt + 1) hi) (hd_opt vs))"
    using nr g nt t(3) by (subst find_loop.simps) (auto simp: Let_def set_range_def range_swap)
  then show ?case using Cons.IH [of "us @ [t]" "res_end rt + 1" hi] Cons.prems by auto
qed

lemma allocate_any:
  assumes ok: "res_ok s C" and root: "root \<in> dom s" and new: "unattached s new" "new \<noteq> root" and f: "\<forall>f. alignf = Some f \<longrightarrow> ranges_only f"
  shows "\<exists>r s' C'. allocate_resource s root new sz mn mx al alignf = Some (r, s') \<and> res_ok s' C'"
proof -
  obtain n r where nr: "s new = Some n" "s root = Some r" using new(1) root by (auto simp: unattached_def)
  have v: "res_child r = hd_opt (C root)" using nr res_okD(1) [OF ok root] chain_hd by (auto simp: view_defs)
  have upd: "s(new \<mapsto> n\<lparr>res_start := a\<rparr>) = set_range s new a (res_end n)" for a using nr by (simp add: set_range_def)
  have "\<exists>r lo hi. find_resource s root new sz mn mx al alignf = Some (r, set_range s new lo hi) \<and> (r = 0 \<or> r = - EBUSY)"
  proof (cases "C root")
    case Nil
    then show ?thesis using find_loop_any [OF ok root new f, of "[]" "[]"] nr v upd by (simp add: find_resource_def Let_def)
  next
    case (Cons t ts)
    then have t: "t \<in> dom s" "t \<noteq> new" using res_okD(3) [OF ok root, of t] unattached_no_kid [OF ok new(1) root] by auto
    then obtain rt where rt: "s t = Some rt" "res_sibling rt = hd_opt ts"
      using chain_last [of "sib s" "kid s root" "[t]" ts] res_okD(1) [OF ok root] Cons by (auto simp: view_defs)
    have other: "set_range s new a b t = s t" for a b using t(2) by (simp add: set_range_def)
    have twice: "(set_range s new a b)(new \<mapsto> n\<lparr>res_start := c\<rparr>) = set_range s new c (res_end n)" for a b c using nr by (simp add: set_range_def)
    show ?thesis
      using find_loop_any [OF ok root new f, of "[t]" ts] find_loop_any [OF ok root new f, of "[]" "t # ts"] nr v upd rt t Cons other twice
      by (simp add: find_resource_def Let_def)
  qed
  then obtain r lo hi where r: "find_resource s root new sz mn mx al alignf = Some (r, set_range s new lo hi)" "r = 0 \<or> r = - EBUSY" by blast
  let ?s = "set_range s new lo hi"
  have oks: "res_ok ?s C" by (rule unattached_range_ok [OF ok new(1)])
  have un: "unattached ?s new" "root \<in> dom ?s" using new(1) root by (auto simp: unattached_def)
  consider c where "request_nolock ?s root new = Some (Some c, ?s)"
    | us vs where "request_nolock ?s root new = Some (None, attached ?s root new us vs)" "res_ok (attached ?s root new us vs) (C(root := us @ new # vs))"
    using request_nolock_spec [OF oks un(2,1) new(2)] attached_ok(1) [OF oks un(2) _ un(1) new(2)] by metis
  then show ?thesis
  proof cases
    case 1
    then show ?thesis using r oks by (auto simp: allocate_resource_def)
  next
    case 2
    then show ?thesis using r oks by (auto simp: allocate_resource_def)
  qed
qed


lemma drop_ok:
  assumes ok: "res_ok s C" and a: "unattached s a"
  shows "res_ok (s(a := None)) C"
proof -
  let ?s = "s(a := None)"
  have v: "sib ?s x = sib s x" "kid ?s x = kid s x" "par ?s x = par s x" "start_of ?s x = start_of s x" "end_of ?s x = end_of s x"
    if "x \<noteq> a" for x using that by (simp_all add: view_defs)
  have na: "x \<noteq> a" if "x \<in> set (C b)" "b \<in> dom s" for x b using unattached_no_kid [OF ok a that(2)] that(1) by auto
  note D = res_okD [OF ok]
  show ?thesis
  proof (rule res_okI)
    fix b
    assume "b \<in> dom ?s"
    then have b: "b \<in> dom s" "b \<noteq> a" by (auto split: if_splits)
    have "chain (sib ?s) (kid s b) (C b) = chain (sib s) (kid s b) (C b)" using na [OF _ b(1)] v(1) by (intro chain_cong) auto
    then show "chain (sib ?s) (kid ?s b) (C b)" using b v(2) D(1) by simp
    show "sorted_wrt (\<lambda>x y. end_of ?s x < start_of ?s y) (C b)"
      by (rule sorted_wrt_mono_rel [OF _ D(2) [OF b(1)]]) (use na [OF _ b(1)] v(4,5) in auto)
    fix x
    assume x: "x \<in> set (C b)"
    then show "x \<in> dom ?s \<and> par ?s x = Some b \<and> start_of ?s b \<le> start_of ?s x \<and> start_of ?s x \<le> end_of ?s x \<and> end_of ?s x \<le> end_of ?s b"
      using na [OF x b(1)] D(3-7) [OF b(1) x] v b(2) by simp
  next
    fix x b
    assume x: "x \<in> dom ?s" "par ?s x = Some b"
    then have "x \<noteq> a" "x \<in> dom s" by (auto split: if_splits)
    then have "b \<in> dom s" "x \<in> set (C b)" using res_ok_par [OF ok, of x b] x(2) v(3) by auto
    moreover have "b \<noteq> a" using calculation unattached_kids [OF ok a] by auto
    ultimately show "b \<in> dom ?s \<and> x \<in> set (C b)" by auto
  next
    show "\<exists>rk :: nat \<Rightarrow> nat. \<forall>x \<in> dom ?s. \<forall>b. par ?s x = Some b \<longrightarrow> rk b < rk x"
    proof -
      obtain rk :: "nat \<Rightarrow> nat" where rk: "\<forall>x \<in> dom s. \<forall>a. par s x = Some a \<longrightarrow> rk a < rk x" using res_ok_rank [OF ok] by blast
      have "rk b < rk x" if "x \<in> dom ?s" "par ?s x = Some b" for x b using that v(3) [of x] rk by (cases "x = a") auto
      then show ?thesis by blast
    qed
  qed (use res_ok_finite [OF ok] in simp)
qed

lemma release_region_any:
  assumes ok: "res_ok s C" and a: "a \<in> dom s" and C: "C a = us @ vs"
  shows "release_region_loop lo hi s (link_at a us) = Some (False, s) \<or>
    (\<exists>q xs x ys. q \<in> dom s \<and> C q = xs @ x # ys \<and> busy s x \<and> start_of s x = lo \<and> end_of s x = hi \<and>
       release_region_loop lo hi s (link_at a us) = Some (True, (relink s q xs (hd_opt ys))(x := None)))"
  using ok a C
proof (induction arbitrary: us vs rule: tree_induct)
  case (node a us vs)
  show ?case using node.prems
  proof (induction vs arbitrary: us)
    case Nil
    then show ?case using link_at_ok(1) [OF ok node.hyps Nil] by (subst release_region_loop.simps) (simp del: get_link.simps)
  next
    case (Cons x ys us)
    have x: "x \<in> set (C a)" "x \<in> dom s" using Cons.prems res_okD(3) [OF ok node.hyps, of x] by auto
    obtain r where r: "s x = Some r" using x(2) by auto
    have sx: "sib s x = hd_opt ys" using chain_last [of "sib s" "kid s a" "us @ [x]" ys] res_okD(1) [OF ok node.hyps] Cons.prems by simp
    note l = link_at_ok [OF ok node.hyps Cons.prems]
    consider (other) "\<not> (start_of s x \<le> lo \<and> end_of s x \<ge> hi)" | (down) "start_of s x \<le> lo \<and> end_of s x \<ge> hi" "\<not> busy s x"
      | (part) "start_of s x \<le> lo \<and> end_of s x \<ge> hi" "busy s x" "start_of s x \<noteq> lo \<or> end_of s x \<noteq> hi"
      | (hit) "busy s x" "start_of s x = lo" "end_of s x = hi" by blast
    then show ?case
    proof cases
      case other
      then have "release_region_loop lo hi s (link_at a us) = release_region_loop lo hi s (link_at a (us @ [x]))"
        using r l(1) l(4) [OF refl] by (subst release_region_loop.simps) (auto simp: view_defs simp del: get_link.simps)
      then show ?thesis using Cons.IH [of "us @ [x]"] Cons.prems by simp
    next
      case down
      then have "release_region_loop lo hi s (link_at a us) = release_region_loop lo hi s (link_at x [])"
        using r l(1) by (subst release_region_loop.simps) (auto simp: view_defs link_at_def simp del: get_link.simps)
      then show ?thesis using node.IH [OF x(1), of "[]" "C x"] by simp
    next
      case part
      then have "release_region_loop lo hi s (link_at a us) = Some (False, s)"
        using r l(1) by (subst release_region_loop.simps) (auto simp: view_defs simp del: get_link.simps)
      then show ?thesis by blast
    next
      case hit
      then have "release_region_loop lo hi s (link_at a us) = Some (True, (relink s a us (hd_opt ys))(x := None))"
        using r l(1,2) sx by (subst release_region_loop.simps) (auto simp: view_defs simp del: get_link.simps put_link.simps)
      then show ?thesis using hit Cons.prems node.hyps by blast
    qed
  qed
qed

text \<open>A call of the interface, what its caller has to provide, and the store afterwards.\<close>

datatype res_call =
    Request_resource nat nat
  | Release_resource nat
  | Allocate_resource nat nat ulong ulong ulong ulong "res_alignf option"
  | Insert_resource nat nat
  | Adjust_resource nat ulong ulong
  | Request_region nat ulong ulong string "nat option"
  | Check_region nat ulong ulong "nat option"
  | Release_region nat ulong ulong

fun res_pre :: "res_store \<Rightarrow> res_call \<Rightarrow> bool" where
  "res_pre s (Request_resource root new) \<longleftrightarrow> root \<in> dom s \<and> unattached s new \<and> new \<noteq> root"
| "res_pre s (Release_resource old) \<longleftrightarrow> old \<in> dom s \<and> par s old \<noteq> None"
| "res_pre s (Allocate_resource root new sz mn mx al alignf) \<longleftrightarrow>
     root \<in> dom s \<and> unattached s new \<and> new \<noteq> root \<and> (\<forall>f. alignf = Some f \<longrightarrow> ranges_only f)"
| "res_pre s (Insert_resource parent new) \<longleftrightarrow> parent \<in> dom s \<and> unattached s new \<and> new \<noteq> parent"
| "res_pre s (Adjust_resource res start n) \<longleftrightarrow> res \<in> dom s \<and> par s res \<noteq> None \<and> start \<le> start + n - 1"
| "res_pre s (Request_region parent start n name mem) \<longleftrightarrow> parent \<in> dom s \<and> (\<forall>res. mem = Some res \<longrightarrow> res \<notin> dom s)"
| "res_pre s (Check_region parent start n mem) \<longleftrightarrow> parent \<in> dom s \<and> (\<forall>res. mem = Some res \<longrightarrow> res \<notin> dom s)"
| "res_pre s (Release_region parent start n) \<longleftrightarrow>
     parent \<in> dom s \<and> (\<forall>a \<in> dom s. busy s a \<and> start_of s a = start \<and> end_of s a = start + n - 1 \<longrightarrow> kid s a = None)"

fun res_exec :: "res_store \<Rightarrow> res_call \<Rightarrow> res_store option" where
  "res_exec s (Request_resource root new) = map_option snd (request_resource s root new)"
| "res_exec s (Release_resource old) = map_option snd (release_resource s old)"
| "res_exec s (Allocate_resource root new sz mn mx al alignf) = map_option snd (allocate_resource s root new sz mn mx al alignf)"
| "res_exec s (Insert_resource parent new) = map_option snd (insert_resource s parent new)"
| "res_exec s (Adjust_resource res start n) = map_option snd (adjust_resource s res start n)"
| "res_exec s (Request_region parent start n name mem) = map_option snd (request_region s parent start n name mem)"
| "res_exec s (Check_region parent start n mem) = map_option snd (check_region s parent start n mem)"
| "res_exec s (Release_region parent start n) = map_option snd (release_region s parent start n)"

definition res_inv :: "res_store \<Rightarrow> bool" where
  "res_inv s \<longleftrightarrow> (\<exists>C. res_ok s C)"

inductive res_step :: "res_store \<Rightarrow> res_store \<Rightarrow> bool" where
  "res_pre s c \<Longrightarrow> res_exec s c = Some s' \<Longrightarrow> res_step s s'"


lemma attached_child: "res_ok s C \<Longrightarrow> old \<in> dom s \<Longrightarrow> par s old \<noteq> None \<Longrightarrow> \<exists>a xs ys. a \<in> dom s \<and> par s old = Some a \<and> C a = xs @ old # ys"
  using res_ok_par [of s C old] by (metis option.exhaust split_list)

lemma request_inv:
  assumes ok: "res_ok s C" and pre: "root \<in> dom s" "unattached s new" "new \<noteq> root"
  shows "\<exists>r s'. request_resource s root new = Some (r, s') \<and> res_inv s'"
proof -
  consider c where "request_nolock s root new = Some (Some c, s)"
    | us vs where "request_nolock s root new = Some (None, attached s root new us vs)" "res_ok (attached s root new us vs) (C(root := us @ new # vs))"
    using request_nolock_spec [OF ok pre] attached_ok(1) [OF ok pre(1) _ pre(2,3)] by metis
  then show ?thesis
  proof cases
    case 1
    then show ?thesis using ok by (auto simp: request_resource_def res_inv_def)
  next
    case 2
    then show ?thesis by (auto simp: request_resource_def res_inv_def)
  qed
qed

lemma insert_inv:
  assumes ok: "res_ok s C" and pre: "root \<in> dom s" "unattached s new" "new \<noteq> root"
  shows "\<exists>r s'. insert_resource s root new = Some (r, s') \<and> res_inv s'"
  using insert_loop_spec [OF ok pre] ok unfolding insert_resource_def insert_result_def inserted_def res_inv_def by metis

lemma region_inv:
  assumes ok: "res_ok s C" and pre: "a \<in> dom s" "\<forall>res. mem = Some res \<longrightarrow> res \<notin> dom s"
  shows "\<exists>r s'. request_region s a start n name mem = Some (r, s') \<and> res_inv s'"
    "\<exists>r. check_region s a start n mem = Some (r, s)"
proof -
  show "\<exists>r s'. request_region s a start n name mem = Some (r, s') \<and> res_inv s'"
  proof (cases mem)
    case (Some res)
    then show ?thesis using request_region_spec [OF ok pre(1), of res start n name] pre(2) ok unfolding res_inv_def by blast
  qed (use ok in \<open>auto simp: request_region_def res_inv_def\<close>)
  show "\<exists>r. check_region s a start n mem = Some (r, s)"
  proof (cases mem)
    case (Some res)
    consider "request_region s a start n ''check-region'' (Some res) = Some (None, s)"
      | s' where "request_region s a start n ''check-region'' (Some res) = Some (Some res, s')"
      using request_region_spec [OF ok pre(1), of res start n "''check-region''"] pre(2) Some by blast
    then show ?thesis
    proof cases
      case 2
      then obtain s'' where "release_resource s' res = Some (0, s'')" "s''(res := None) = s"
        using request_region_undo(2) [OF ok pre(1) _ 2] pre(2) Some by blast
      then show ?thesis using 2 Some by (simp add: check_region_def)
    qed (use Some in \<open>simp add: check_region_def\<close>)
  qed (simp add: check_region_def request_region_def)
qed

lemma release_region_inv:
  assumes ok: "res_ok s C" and a: "a \<in> dom s"
    and pre: "\<forall>b \<in> dom s. busy s b \<and> start_of s b = start \<and> end_of s b = start + n - 1 \<longrightarrow> kid s b = None"
  shows "\<exists>r s'. release_region s a start n = Some (r, s') \<and> res_inv s'"
proof -
  have rr: "release_region s a start n = release_region_loop start (start + n - 1) s (link_at a [])" by (simp add: release_region_def link_at_def)
  have nil: "C a = [] @ C a" by simp
  consider "release_region s a start n = Some (False, s)"
    | q xs x ys where "q \<in> dom s" "C q = xs @ x # ys" "busy s x" "start_of s x = start" "end_of s x = start + n - 1"
        "release_region s a start n = Some (True, (relink s q xs (hd_opt ys))(x := None))"
    using release_region_any [OF ok a nil, of start "start + n - 1"] unfolding rr by blast
  then show ?thesis
  proof cases
    case 1
    then show ?thesis using ok by (auto simp: res_inv_def)
  next
    case 2
    let ?s = "detached s q x xs ys"
    have x: "x \<in> dom s" "kid s x = None" "x \<noteq> q"
      using res_okD(3) [OF ok 2(1), of x] res_okD(4) [OF ok 2(1), of x] res_ok_rank [OF ok] 2 pre by auto
    have "kid ?s x = None" using x by (simp add: detached_def relink_def)
    then have "unattached ?s x" using x(1) detached_ok(2) [OF ok 2(1,2)] by (simp add: unattached_def)
    then have "res_ok (?s(x := None)) (C(q := xs @ ys))" by (rule drop_ok [OF detached_ok(1) [OF ok 2(1,2)]])
    moreover have "?s(x := None) = (relink s q xs (hd_opt ys))(x := None)" by (simp add: detached_def set_par_def)
    ultimately show ?thesis using 2(6) by (auto simp: res_inv_def)
  qed
qed

lemma res_exec_ok:
  assumes ok: "res_ok s C" and pre: "res_pre s c"
  shows "\<exists>s'. res_exec s c = Some s' \<and> res_inv s'"
proof (cases c)
  case (Request_resource root new)
  then show ?thesis using request_inv [OF ok, of root new] pre by fastforce
next
  case (Release_resource old)
  then obtain a xs ys where "a \<in> dom s" "C a = xs @ old # ys" using attached_child [OF ok, of old] pre by auto
  then show ?thesis using release_spec [OF ok] detached_ok(1) [OF ok] Release_resource by (fastforce simp: res_inv_def)
next
  case (Allocate_resource root new sz mn mx al alignf)
  then show ?thesis using allocate_any [OF ok, of root new alignf sz mn mx al] pre by (fastforce simp: res_inv_def)
next
  case (Insert_resource root new)
  then show ?thesis using insert_inv [OF ok, of root new] pre by fastforce
next
  case (Adjust_resource res start n)
  then obtain a xs ys where "a \<in> dom s" "C a = xs @ res # ys" using attached_child [OF ok, of res] pre by auto
  then show ?thesis using adjust_spec [OF ok, of a xs res ys start n] pre ok Adjust_resource by (auto simp: res_inv_def)
next
  case (Request_region a start n name mem)
  then show ?thesis using region_inv(1) [OF ok, of a mem start n name] pre by fastforce
next
  case (Check_region a start n mem)
  then show ?thesis using region_inv(2) [OF ok, of a mem start n] pre ok by (fastforce simp: res_inv_def)
next
  case (Release_region a start n)
  then show ?thesis using release_region_inv [OF ok, of a start n] pre by fastforce
qed

text \<open>A system starts with resources that are not in a tree yet, such as \<^verbatim>\<open>ioport_resource\<close> and \<^verbatim>\<open>iomem_resource\<close>.\<close>

definition res_initial :: "res_store \<Rightarrow> bool" where
  "res_initial s \<longleftrightarrow> finite (dom s) \<and> (\<forall>a \<in> dom s. unattached s a)"

lemma res_initial_inv: "res_initial s \<Longrightarrow> res_inv s"
  unfolding res_inv_def by (rule exI [of _ "\<lambda>_. []"], rule res_okI) (auto simp: res_initial_def unattached_def)

interpretation res_sys: invariant_system res_initial res_step res_inv
proof
  show "res_inv s" if "res_initial s" for s using that by (rule res_initial_inv)
  show "res_inv t" if "res_inv s" "res_step s t" for s t
    using that(2,1) by cases (use res_exec_ok in \<open>fastforce simp: res_inv_def\<close>)
qed

end
