(* ===== verification/ResourceProps.thy ===== *)
theory ResourceProps
  imports Resource
begin

text \<open>
  The properties of the resource tree of \<^verbatim>\<open>kernel/resource.c\<close>. \<open>res_ok s C\<close> says that the links of the store \<open>s\<close> form a
  well-formed tree in which \<open>C\<close> gives the list of the children of each resource.
\<close>

section \<open>Small trees\<close>

definition res_node :: "ulong \<Rightarrow> ulong \<Rightarrow> nat option \<Rightarrow> nat option \<Rightarrow> nat option \<Rightarrow> resource" where
  "res_node lo hi p sb ch = \<lparr>res_name = '''', res_start = lo, res_end = hi, res_flags = 0, res_parent = p, res_sibling = sb, res_child = ch\<rparr>"

text \<open>The ports 0 to 0xffff with two devices, and a resource that is not in the tree.\<close>

definition res_demo :: res_store where
  "res_demo = [0 \<mapsto> res_node 0 0xffff None None (Some 1), 1 \<mapsto> res_node 0x60 0x6f (Some 0) (Some 2) None,
     2 \<mapsto> res_node 0x80 0x8f (Some 0) None None, 3 \<mapsto> res_node 0x60 0x7f None None None]"

definition res_demo_kids :: "nat \<Rightarrow> nat list" where
  "res_demo_kids = (\<lambda>_. [])(0 := [1, 2])"

lemma res_demo_ok: "res_ok res_demo res_demo_kids"
proof (rule res_okI)
  show "\<exists>rk :: nat \<Rightarrow> nat. \<forall>x \<in> dom res_demo. \<forall>a. par res_demo x = Some a \<longrightarrow> rk a < rk x"
    by (rule exI [of _ id]) (auto simp: res_demo_def res_node_def view_defs split: if_splits)
qed (auto simp: res_demo_def res_demo_kids_def res_node_def view_defs split: if_splits)

lemma res_demo_new: "unattached res_demo 3" "0 \<in> dom res_demo"
  by (auto simp: unattached_def res_demo_def res_node_def view_defs)

text \<open>The memory addresses with one device at the top.\<close>

definition res_top :: res_store where
  "res_top = [0 \<mapsto> res_node 0 (- 1) None None (Some 1), 1 \<mapsto> res_node (- 0x1000) (- 1) (Some 0) None None, 2 \<mapsto> res_node 0 0 None None None]"

text \<open>Eight addresses of which one is free.\<close>

definition res_gap :: res_store where
  "res_gap = [0 \<mapsto> res_node 0 7 None None (Some 1), 1 \<mapsto> res_node 0 5 (Some 0) (Some 2) None,
     2 \<mapsto> res_node 7 7 (Some 0) None None, 3 \<mapsto> res_node 6 6 None None None]"

definition res_two :: res_store where
  "res_two = [0 \<mapsto> res_node 0 0xffff None None None, 1 \<mapsto> res_node 0x60 0x6f None None None]"

lemma res_two_initial: "res_initial res_two" "res_pre res_two (Request_resource 0 1)"
  by (auto simp: res_two_def res_initial_def unattached_def res_node_def view_defs)

section \<open>Properties\<close>

text \<open>
  C6: Starting from resources that are in no tree, after any sequence of calls of the interface whose callers keep its
  contract, no further such call crashes or loops forever, every resource lies in its parent, and two
  resources with the same parent do not overlap.
\<close>

theorem res_siblings_disjoint:
  assumes "res_initial s0" "res_step\<^sup>*\<^sup>* s0 s"
  shows "(\<forall>c. res_pre s c \<longrightarrow> res_exec s c \<noteq> None) \<and>
    (\<forall>x \<in> dom s. \<forall>a. par s x = Some a \<longrightarrow> in_range s x a \<and> (\<forall>y \<in> dom s. y \<noteq> x \<and> par s y = Some a \<longrightarrow> \<not> overlaps s x y))"
proof -
  obtain C where ok: "res_ok s C" using res_sys.reach_inv [OF assms] by (auto simp: res_inv_def)
  have "\<not> overlaps s x y" if xy: "x \<in> dom s" "y \<in> dom s" "par s x = Some a" "par s y = Some a" "y \<noteq> x" for x y a
  proof -
    have a: "a \<in> dom s" "x \<in> set (C a)" "y \<in> set (C a)" using res_ok_par [OF ok] xy by blast+
    have "end_of s x < start_of s y \<or> end_of s y < start_of s x"
    proof -
      obtain us vs where u: "C a = us @ x # vs" using a(2) by (meson split_list)
      then have "y \<in> set us \<or> y \<in> set vs" using a(3) xy(5) by auto
      then show ?thesis using res_okD(2) [OF ok a(1)] u by (auto simp: sorted_wrt_append)
    qed
    then show ?thesis by (auto simp: overlaps_def dest: leD)
  qed
  moreover have "in_range s x a" if "x \<in> dom s" "par s x = Some a" for x a
    using res_ok_par [OF ok that] res_okD(5-7) [OF ok, of a x] by (simp add: in_range_def)
  ultimately show ?thesis using res_exec_ok [OF ok] by blast
qed

theorem res_siblings_disjoint_witness:
  "\<exists>s. res_step res_two s \<and> 1 \<in> dom s \<and> in_range s 1 0"
proof -
  have "map_option (\<lambda>s. (map_option (\<lambda>r. res_parent r) (s 1), par s 1)) (res_exec res_two (Request_resource 0 1)) = Some (Some (Some 0), Some 0)" by code_simp
  then obtain s where s: "res_exec res_two (Request_resource 0 1) = Some s" "1 \<in> dom s" "par s 1 = Some 0" by auto
  then have "res_step res_two s" using res_two_initial(2) res_step.intros by blast
  moreover then have "res_step\<^sup>*\<^sup>* res_two s" by simp
  then have "in_range s 1 0" using res_siblings_disjoint [OF res_two_initial(1), of s] s by blast
  ultimately show ?thesis using s(2) by blast
qed

text \<open>
  C15: \<^verbatim>\<open>request_resource\<close> returns 0 exactly when the range of the new resource is not empty, lies in the root and overlaps
  none of its children; then the new resource is a child at its place in the order, and \<^verbatim>\<open>release_resource\<close> takes it out again. Otherwise it
  returns -EBUSY and changes nothing.
\<close>

theorem res_request:
  assumes "res_ok s C" "root \<in> dom s" "unattached s new" "new \<noteq> root"
  shows "\<exists>r s'. request_resource s root new = Some (r, s') \<and>
    (r = 0 \<longleftrightarrow> in_range s new root \<and> (\<forall>c \<in> set (C root). \<not> overlaps s c new)) \<and>
    (r \<noteq> 0 \<longrightarrow> r = - EBUSY \<and> s' = s) \<and>
    (r = 0 \<longrightarrow> (\<exists>us vs s''. C root = us @ vs \<and> res_ok s' (C(root := us @ new # vs)) \<and>
       release_resource s' new = Some (0, s'') \<and> res_ok s'' C))"
proof -
  note spec = request_nolock_spec [OF assms]
  consider (out) "\<not> in_range s new root" "request_nolock s root new = Some (Some root, s)"
    | (free) us vs where "in_range s new root" "C root = us @ vs" "\<forall>x \<in> set us. end_of s x < start_of s new"
        "\<forall>y \<in> set vs. end_of s new < start_of s y" "request_nolock s root new = Some (None, attached s root new us vs)"
    | (conflict) t where "t \<in> set (C root)" "overlaps s t new" "request_nolock s root new = Some (Some t, s)"
    using spec unfolding overlaps_def by fastforce
  then show ?thesis
  proof cases
    case free
    let ?s = "attached s root new us vs"
    have ok: "res_ok ?s (C(root := us @ new # vs))" "dom ?s = dom s" using attached_ok [OF assms(1,2) free(2) assms(3,4) free(1,3,4)] by auto
    have "\<not> overlaps s c new" if "c \<in> set (C root)" for c using that free(2-4) by (auto simp: overlaps_def dest: leD)
    moreover have "request_resource s root new = Some (0, ?s)" using free(5) by (simp add: request_resource_def)
    moreover have rd: "root \<in> dom ?s" "(C(root := us @ new # vs)) root = us @ new # vs" using ok(2) assms(2) by simp_all
    have c: "C(root := us @ new # vs, root := us @ vs) = C" using free(2) by auto
    have "res_ok (detached ?s root new us vs) C" by (rule detached_ok(1) [OF ok(1) rd, unfolded c])
    moreover have "release_resource ?s new = Some (0, detached ?s root new us vs)" by (rule release_spec [OF ok(1) rd])
    ultimately show ?thesis using free(1,2) ok(1) by auto
  qed (auto simp: request_resource_def)
qed

theorem res_request_witness:
  "map_option fst (request_resource res_demo 0 3) = Some (- EBUSY)"
proof -
  have "overlaps res_demo 1 3" by (simp add: overlaps_def res_demo_def res_node_def view_defs)
  then show ?thesis using res_request [OF res_demo_ok res_demo_new(2,1)] by (auto simp: res_demo_kids_def)
qed

text \<open>
  C31: \<^verbatim>\<open>insert_resource\<close> returns 0 when it has found a place below the parent: the new resource is then a child of a resource that contains it, the former children
  of this resource that it covers are now its own children, and the tree is well-formed. It returns -EBUSY without a change only if
  the range is empty or sticks out of the parent, or a resource below the parent overlaps it without either containing the other.
\<close>

theorem res_insert:
  assumes "res_ok s C" "parent \<in> dom s" "unattached s new" "new \<noteq> parent"
  shows "\<exists>r s'. insert_resource s parent new = Some (r, s') \<and>
    (r = 0 \<and> (\<exists>q xs ys zs. below C parent q \<and> C q = xs @ ys @ zs \<and> in_range s new q \<and>
        (\<forall>y \<in> set ys. inside s y new) \<and> (\<forall>x \<in> set xs \<union> set zs. \<not> overlaps s x new) \<and> res_ok s' (C(q := xs @ new # zs, new := ys))) \<or>
     r = - EBUSY \<and> s' = s \<and>
       (\<not> in_range s new parent \<or> (\<exists>q y. below C parent q \<and> y \<in> set (C q) \<and> overlaps s y new \<and> \<not> inside s y new \<and> \<not> inside s new y)))"
proof -
  obtain r s' where r: "insert_resource s parent new = Some (r, s')" "insert_result s C parent new r s'"
    using insert_loop_spec [OF assms] unfolding insert_resource_def by blast
  show ?thesis
  proof (cases "r = 0")
    case True
    then obtain q xs ys zs where q: "below C parent q" "inserted s C new q xs ys zs s'" using r(2) by (auto simp: insert_result_def)
    then have "\<not> overlaps s x new" if "x \<in> set xs \<union> set zs" for x
      using that by (auto simp: inserted_def overlaps_def dest: leD)
    then show ?thesis using True r(1) q by (simp add: inserted_def) blast
  next
    case False
    then show ?thesis using r by (simp add: insert_result_def)
  qed
qed

theorem res_insert_witness:
  "\<exists>s' q xs ys zs. insert_resource res_demo 0 3 = Some (0, s') \<and> below res_demo_kids 0 q \<and> res_demo_kids q = xs @ ys @ zs \<and>
     res_ok s' (res_demo_kids(q := xs @ 3 # zs, 3 := ys))"
proof -
  have "map_option fst (insert_resource res_demo 0 3) = Some 0" by code_simp
  then show ?thesis using res_insert [OF res_demo_ok res_demo_new(2,1)] by fastforce
qed

lemma allocate_lowest:
  assumes "res_ok s C" "root \<in> dom s" "unattached s new" "new \<noteq> root" "start_of s root \<le> end_of s root"
    and "k < 64" "unat (end_of s root) + 2 ^ k < 2 ^ 64" "unat mn + 2 ^ k \<le> 2 ^ 64" "1 \<le> unat sz"
  shows "\<exists>r s'. allocate_resource s root new sz mn mx (2 ^ k) None = Some (r, s') \<and>
    (r = 0 \<and> feasible s C root (max 2 sz) mn mx k (unat (start_of s' new)) \<and> unat (end_of s' new) = unat (start_of s' new) + unat sz - 1 \<and>
       (\<forall>st. feasible s C root (max 2 sz) mn mx k st \<longrightarrow> unat (start_of s' new) \<le> st) \<and>
       (\<exists>us vs. C root = us @ vs \<and> res_ok s' (C(root := us @ new # vs))) \<or>
     r = - EBUSY \<and> res_ok s' C \<and> (\<forall>st. \<not> feasible s C root (max 2 sz) mn mx k st))"
  using allocate_spec [OF assms(1-4,6-9,5), of mx]
proof (elim disjE exE conjE)
  fix lo hi us vs
  assume h: "allocate_resource s root new sz mn mx (2 ^ k) None = Some (0, attached (set_range s new lo hi) root new us vs)"
    "find_result s C root sz mn mx k 0 lo hi" "C root = us @ vs" "res_ok (attached (set_range s new lo hi) root new us vs) (C(root := us @ new # vs))"
  then show ?thesis by (intro exI [of _ 0] exI [of _ "attached (set_range s new lo hi) root new us vs"]) (auto simp: find_result_def)
next
  fix lo hi
  assume h: "allocate_resource s root new sz mn mx (2 ^ k) None = Some (- EBUSY, set_range s new lo hi)" "find_result s C root sz mn mx k (- EBUSY) lo hi"
  then show ?thesis using unattached_range_ok [OF assms(1,3)]
    by (intro exI [of _ "- EBUSY"] exI [of _ "set_range s new lo hi"]) (auto simp: find_result_def)
qed

lemma allocate_edges:
  "map_option (\<lambda>(r, s). (r, start_of s 2, end_of s 2)) (allocate_resource res_top 0 2 0x10 (- 1) (- 1) 0x1000 None) = Some (0, 0, 0xf) \<and>
   map_option fst (allocate_resource res_gap 0 3 1 0 7 1 None) = Some (- EBUSY) \<and> map_option fst (request_resource res_gap 0 3) = Some 0"
proof (intro conjI)
  show "map_option (\<lambda>(r, s). (r, start_of s 2, end_of s 2)) (allocate_resource res_top 0 2 0x10 (- 1) (- 1) 0x1000 None) = Some (0, 0, 0xf)"
    by code_simp
  show "map_option fst (allocate_resource res_gap 0 3 1 0 7 1 None) = Some (- EBUSY)" by code_simp
  show "map_option fst (request_resource res_gap 0 3) = Some 0" by code_simp
qed

text \<open>
  C32: \<^verbatim>\<open>allocate_resource\<close> without an alignment function, for a power of two as the alignment, a root with a range that is not empty, a new resource that is not in the tree,
  a size of at least one, and an alignment that added to the end of the root or to \<^verbatim>\<open>min\<close> does not wrap around: a result of 0
  gives the new resource a range of exactly the wanted size and adds it to the tree. It starts at the lowest aligned address where the wanted number of addresses, and never less than two, fits
  into the root, between \<^verbatim>\<open>min\<close> and \<^verbatim>\<open>max\<close> and beside all children. The result is -EBUSY only if there is no such address. So a gap
  of one address is never used, and in the tree \<open>res_gap\<close> a request for one address fails although the address between the two children is free. The condition on the alignment
  is needed as well: in the tree \<open>res_top\<close>, with \<^verbatim>\<open>min\<close> at the last address, rounding up to the alignment gives 0, and the call succeeds with a range that lies below \<^verbatim>\<open>min\<close>.
\<close>

theorem res_allocate:
  assumes "res_ok s C" "root \<in> dom s" "unattached s new" "new \<noteq> root" "start_of s root \<le> end_of s root"
    and "k < 64" "unat (end_of s root) + 2 ^ k < 2 ^ 64" "unat mn + 2 ^ k \<le> 2 ^ 64" "1 \<le> unat sz"
  shows "(\<exists>r s'. allocate_resource s root new sz mn mx (2 ^ k) None = Some (r, s') \<and>
    (r = 0 \<and> feasible s C root (max 2 sz) mn mx k (unat (start_of s' new)) \<and> unat (end_of s' new) = unat (start_of s' new) + unat sz - 1 \<and>
       (\<forall>st. feasible s C root (max 2 sz) mn mx k st \<longrightarrow> unat (start_of s' new) \<le> st) \<and>
       (\<exists>us vs. C root = us @ vs \<and> res_ok s' (C(root := us @ new # vs))) \<or>
     r = - EBUSY \<and> res_ok s' C \<and> (\<forall>st. \<not> feasible s C root (max 2 sz) mn mx k st))) \<and>
   map_option (\<lambda>(r, s). (r, start_of s 2, end_of s 2)) (allocate_resource res_top 0 2 0x10 (- 1) (- 1) 0x1000 None) = Some (0, 0, 0xf) \<and>
   map_option fst (allocate_resource res_gap 0 3 1 0 7 1 None) = Some (- EBUSY) \<and> map_option fst (request_resource res_gap 0 3) = Some 0"
  using allocate_lowest [OF assms] allocate_edges by (rule conjI)

theorem res_allocate_witness:
  "\<exists>s'. allocate_resource res_demo 0 3 0x20 0 0xffff (2 ^ 4) None = Some (0, s') \<and>
     feasible res_demo res_demo_kids 0 0x20 0 0xffff 4 (unat (start_of s' 3))"
proof -
  have "map_option fst (allocate_resource res_demo 0 3 0x20 0 0xffff (2 ^ 4) None) = Some 0" by code_simp
  moreover have "start_of res_demo 0 = 0" "end_of res_demo 0 = 0xffff" by (simp_all add: res_demo_def res_node_def view_defs)
  ultimately show ?thesis using res_allocate [OF res_demo_ok res_demo_new(2,1), of 4 0 "0x20" "0xffff"] by fastforce
qed

text \<open>
  C33: A region that \<^verbatim>\<open>__request_region\<close> has got is found again by \<^verbatim>\<open>__release_region\<close> with the same parent and range, however deep in the
  tree it is, and after that the store is what it was. A failed request and \<^verbatim>\<open>__check_region\<close> leave the store as it was as well.
\<close>

theorem res_region_roundtrip:
  assumes "res_ok s C" "parent \<in> dom s" "res \<notin> dom s"
  shows "\<exists>r s'. request_region s parent start n name (Some res) = Some (r, s') \<and>
    (r = None \<and> s' = s \<or> r = Some res \<and> release_region s' parent start n = Some (True, s)) \<and>
    (\<exists>c. check_region s parent start n (Some res) = Some (c, s))"
proof -
  have c: "\<exists>c. check_region s parent start n (Some res) = Some (c, s)" by (rule region_inv(2) [OF assms(1,2)]) (use assms(3) in simp)
  consider "request_region s parent start n name (Some res) = Some (None, s)" | s' where "request_region s parent start n name (Some res) = Some (Some res, s')"
    using request_region_spec [OF assms, of start n name] by blast
  then show ?thesis
  proof cases
    case 1
    then show ?thesis using c by simp
  next
    case 2
    then show ?thesis using c request_region_undo(1) [OF assms 2] by simp
  qed
qed

theorem res_region_roundtrip_witness:
  "\<exists>s'. request_region res_demo 0 0x90 8 ''dev'' (Some 9) = Some (Some 9, s') \<and> release_region s' 0 0x90 8 = Some (True, res_demo)"
proof -
  have "map_option fst (request_region res_demo 0 0x90 8 ''dev'' (Some 9)) = Some (Some 9)" by code_simp
  moreover have "9 \<notin> dom res_demo" by (simp add: res_demo_def)
  ultimately show ?thesis using res_region_roundtrip [OF res_demo_ok res_demo_new(2), of 9 "0x90" 8 "''dev''"] by fastforce
qed

lemma adjust_empty:
  "map_option (\<lambda>(r, s). (r, start_of s 1, end_of s 1)) (adjust_resource res_demo 1 0x60 0) = Some (0, 0x60, 0x5f) \<and>
   map_option fst (adjust_resource res_demo 1 0x60 0 \<bind> (\<lambda>(_, s). request_resource s 0 3)) = Some 0"
proof
  show "map_option (\<lambda>(r, s). (r, start_of s 1, end_of s 1)) (adjust_resource res_demo 1 0x60 0) = Some (0, 0x60, 0x5f)" by code_simp
  show "map_option fst (adjust_resource res_demo 1 0x60 0 \<bind> (\<lambda>(_, s). request_resource s 0 3)) = Some 0" by code_simp
qed

text \<open>
  C34: \<^verbatim>\<open>adjust_resource\<close> gives the resource the new range exactly when it lies in the parent, contains the children and stays clear of the neighbours, and
  then the tree is well-formed, provided that the range is not empty. Otherwise it returns -EBUSY and changes nothing. But an empty range is not refused: with a size of 0 the
  call returns 0 and leaves a resource whose end is below its start, and a request for addresses that the resource had before then succeeds beside it.
\<close>

theorem res_adjust:
  assumes "res_ok s C" "p \<in> dom s" "C p = xs @ a # ys"
  shows "(if fits s C p a xs ys lo (lo + n - 1)
    then adjust_resource s a lo n = Some (0, set_range s a lo (lo + n - 1)) \<and> (lo \<le> lo + n - 1 \<longrightarrow> res_ok (set_range s a lo (lo + n - 1)) C)
    else adjust_resource s a lo n = Some (- EBUSY, s)) \<and>
   map_option (\<lambda>(r, s). (r, start_of s 1, end_of s 1)) (adjust_resource res_demo 1 0x60 0) = Some (0, 0x60, 0x5f) \<and>
   map_option fst (adjust_resource res_demo 1 0x60 0 \<bind> (\<lambda>(_, s). request_resource s 0 3)) = Some 0"
  by (rule conjI [OF _ adjust_empty]) (use adjust_spec [OF assms, of lo n] in simp)

theorem res_adjust_witness:
  "\<exists>s'. adjust_resource res_demo 1 0x60 0x18 = Some (0, s') \<and> res_ok s' res_demo_kids"
proof -
  have "map_option fst (adjust_resource res_demo 1 0x60 0x18) = Some 0" by code_simp
  moreover have "res_demo_kids 0 = [] @ 1 # [2]" by (simp add: res_demo_kids_def)
  moreover have "fits res_demo res_demo_kids 0 1 [] [2] 0x60 (0x60 + 0x18 - 1)"
    by (simp add: fits_def res_demo_kids_def res_demo_def res_node_def view_defs)
  ultimately show ?thesis using res_adjust [OF res_demo_ok res_demo_new(2), of "[]" 1 "[2]" "0x60" "0x18"] by simp
qed

end
