(* ===== verification/Timer.thy ===== *)
theory Timer
  imports Prelude
begin

text \<open>
  The dynamic timers of \<^verbatim>\<open>kernel/timer.c\<close> and \<^verbatim>\<open>include/linux/timer.h\<close>: the five-level timer wheel of the processor, the
  calls that start, change and stop a timer, and \<^verbatim>\<open>__run_timers\<close> cut at the points where it drops the lock to call a
  timer's function. A list of timers is a list of their addresses; \<^verbatim>\<open>list_del\<close> on a timer that is on no list is a crash. The base pointer of a timer
  is a flag, since there is one processor, and the spin locks are no-ops.
\<close>

unbundle bit_operations_syntax

section \<open>Data\<close>

abbreviation (input) TVN_BITS :: nat where "TVN_BITS \<equiv> 6"
abbreviation (input) TVR_BITS :: nat where "TVR_BITS \<equiv> 8"
abbreviation (input) TVN_SIZE :: nat where "TVN_SIZE \<equiv> 64"
abbreviation (input) TVR_SIZE :: nat where "TVR_SIZE \<equiv> 256"
abbreviation (input) TVN_MASK :: ulong where "TVN_MASK \<equiv> 63"
abbreviation (input) TVR_MASK :: ulong where "TVR_MASK \<equiv> 255"
abbreviation (input) TIMER_MAGIC :: ulong where "TIMER_MAGIC \<equiv> 0x4b87ad6e"

record timer_list =
  expires :: ulong
  magic :: ulong
  callback :: "nat option"
  timer_data :: ulong
  pending :: bool

record tvec_base =
  timer_jiffies :: ulong
  tv1 :: "nat list list"
  tv2 :: "nat list list"
  tv3 :: "nat list list"
  tv4 :: "nat list list"
  tv5 :: "nat list list"

text \<open>
  The state of the timers: the structures at their addresses, the wheel, the local list \<^verbatim>\<open>work_list\<close> of
  \<^verbatim>\<open>__run_timers\<close>, and the clock.
\<close>

record timer_state =
  timers :: "nat \<Rightarrow> timer_list"
  base :: tvec_base
  work_list :: "nat list"
  jiffies :: ulong

definition time_after_eq :: "ulong \<Rightarrow> ulong \<Rightarrow> bool" where
  "time_after_eq a b \<longleftrightarrow> \<not> bit (a - b) 63"

datatype tvec = TV1 | TV2 | TV3 | TV4 | TV5

fun get_tv :: "tvec_base \<Rightarrow> tvec \<Rightarrow> nat list list" where
  "get_tv b TV1 = tv1 b"
| "get_tv b TV2 = tv2 b"
| "get_tv b TV3 = tv3 b"
| "get_tv b TV4 = tv4 b"
| "get_tv b TV5 = tv5 b"

fun set_tv :: "tvec_base \<Rightarrow> tvec \<Rightarrow> nat list list \<Rightarrow> tvec_base" where
  "set_tv b TV1 v = b\<lparr>tv1 := v\<rparr>"
| "set_tv b TV2 v = b\<lparr>tv2 := v\<rparr>"
| "set_tv b TV3 v = b\<lparr>tv3 := v\<rparr>"
| "set_tv b TV4 v = b\<lparr>tv4 := v\<rparr>"
| "set_tv b TV5 v = b\<lparr>tv5 := v\<rparr>"

section \<open>Starting and stopping a timer\<close>

definition init_timer :: "timer_list \<Rightarrow> timer_list" where
  "init_timer t = t\<lparr>pending := False, magic := TIMER_MAGIC\<rparr>"

definition timer_pending :: "timer_state \<Rightarrow> nat \<Rightarrow> bool" where
  "timer_pending s t \<longleftrightarrow> pending (timers s t)"

definition set_timer :: "timer_state \<Rightarrow> nat \<Rightarrow> timer_list \<Rightarrow> timer_state" where
  "set_timer s t v = s\<lparr>timers := (timers s)(t := v)\<rparr>"

definition check_timer_failed :: "timer_state \<Rightarrow> nat \<Rightarrow> timer_state" where
  "check_timer_failed s t = set_timer s t ((timers s t)\<lparr>magic := TIMER_MAGIC\<rparr>)"

definition check_timer :: "timer_state \<Rightarrow> nat \<Rightarrow> timer_state" where
  "check_timer s t = (if magic (timers s t) \<noteq> TIMER_MAGIC then check_timer_failed s t else s)"

text \<open>The list of the wheel that \<^verbatim>\<open>internal_add_timer\<close> chooses, and the addition at its tail.\<close>

definition timer_slot :: "ulong \<Rightarrow> ulong \<Rightarrow> tvec \<times> nat" where
  "timer_slot now expire = (
     let idx = expire - now in
     if idx < of_nat TVR_SIZE then (TV1, unat (expire AND TVR_MASK))
     else if idx < 2 ^ (TVR_BITS + TVN_BITS) then (TV2, unat (drop_bit TVR_BITS expire AND TVN_MASK))
     else if idx < 2 ^ (TVR_BITS + 2 * TVN_BITS) then (TV3, unat (drop_bit (TVR_BITS + TVN_BITS) expire AND TVN_MASK))
     else if idx < 2 ^ (TVR_BITS + 3 * TVN_BITS) then (TV4, unat (drop_bit (TVR_BITS + 2 * TVN_BITS) expire AND TVN_MASK))
     else if bit idx 63 then (TV1, unat (now AND TVR_MASK))
     else let expire = (if idx > 0xffffffff then 0xffffffff + now else expire)
          in (TV5, unat (drop_bit (TVR_BITS + 3 * TVN_BITS) expire AND TVN_MASK)))"

definition list_add_tail :: "nat \<Rightarrow> tvec \<times> nat \<Rightarrow> tvec_base \<Rightarrow> tvec_base" where
  "list_add_tail t vi b = set_tv b (fst vi) ((get_tv b (fst vi))[snd vi := get_tv b (fst vi) ! snd vi @ [t]])"

definition internal_add_timer :: "tvec_base \<Rightarrow> nat \<Rightarrow> ulong \<Rightarrow> tvec_base" where
  "internal_add_timer b t expire = list_add_tail t (timer_slot (timer_jiffies b) expire) b"

definition on_list :: "timer_state \<Rightarrow> nat \<Rightarrow> bool" where
  "on_list s t \<longleftrightarrow> t \<in> set (work_list s) \<or> (\<exists>v \<in> {TV1, TV2, TV3, TV4, TV5}. \<exists>l \<in> set (get_tv (base s) v). t \<in> set l)"

definition list_del :: "nat \<Rightarrow> timer_state \<Rightarrow> timer_state option" where
  "list_del t s = (
     if on_list s t
     then Some (s\<lparr>work_list := removeAll t (work_list s),
                  base := (base s)\<lparr>tv1 := map (removeAll t) (tv1 (base s)), tv2 := map (removeAll t) (tv2 (base s)), tv3 := map (removeAll t) (tv3 (base s)),
                                   tv4 := map (removeAll t) (tv4 (base s)), tv5 := map (removeAll t) (tv5 (base s))\<rparr>\<rparr>)
     else None)"

text \<open>\<^verbatim>\<open>__mod_timer\<close>: the old base is this processor's or NULL, so the loop that takes the locks ends in its first round.\<close>

definition mod_timer_nocheck :: "timer_state \<Rightarrow> nat \<Rightarrow> ulong \<Rightarrow> (int \<times> timer_state) option" where
  "mod_timer_nocheck s t expire = do {
     BUG_ON (Option.is_none (callback (timers s t)));
     let s = check_timer s t;
     let old_base = pending (timers s t);
     s \<leftarrow> (if old_base then list_del t s else Some s);
     let s = set_timer s t ((timers s t)\<lparr>expires := expire\<rparr>);
     let s = s\<lparr>base := internal_add_timer (base s) t expire\<rparr>;
     let s = set_timer s t ((timers s t)\<lparr>pending := True\<rparr>);
     Some (if old_base then 1 else 0, s)
   }"

definition add_timer :: "timer_state \<Rightarrow> nat \<Rightarrow> timer_state option" where
  "add_timer s t = map_option snd (mod_timer_nocheck s t (expires (timers s t)))"

definition add_timer_on :: "timer_state \<Rightarrow> nat \<Rightarrow> timer_state option" where
  "add_timer_on s t = do {
     BUG_ON (timer_pending s t \<or> Option.is_none (callback (timers s t)));
     let s = check_timer s t;
     let s = s\<lparr>base := internal_add_timer (base s) t (expires (timers s t))\<rparr>;
     Some (set_timer s t ((timers s t)\<lparr>pending := True\<rparr>))
   }"

definition mod_timer :: "timer_state \<Rightarrow> nat \<Rightarrow> ulong \<Rightarrow> (int \<times> timer_state) option" where
  "mod_timer s t expire = do {
     BUG_ON (Option.is_none (callback (timers s t)));
     let s = check_timer s t;
     if expires (timers s t) = expire \<and> timer_pending s t then Some (1, s)
     else mod_timer_nocheck s t expire
   }"

definition del_timer :: "timer_state \<Rightarrow> nat \<Rightarrow> (int \<times> timer_state) option" where
  "del_timer s t = (
     let s = check_timer s t in
     if \<not> pending (timers s t) then Some (0, s)
     else do {
       s \<leftarrow> list_del t s;
       Some (1, set_timer s t ((timers s t)\<lparr>pending := False\<rparr>))
     })"

section \<open>Running the timers\<close>

text \<open>
  The loop of \<^verbatim>\<open>cascade\<close> over the list at \<open>here\<close>. A timer that would go back to this list would be met by the
  loop again and again: there the model stops.
\<close>

fun cascade_loop :: "(nat \<Rightarrow> timer_list) \<Rightarrow> tvec \<times> nat \<Rightarrow> nat list \<Rightarrow> tvec_base \<Rightarrow> tvec_base option" where
  "cascade_loop ts here [] b = Some b"
| "cascade_loop ts here (tmp # rest) b = do {
     BUG_ON (\<not> pending (ts tmp));
     BUG_ON (timer_slot (timer_jiffies b) (expires (ts tmp)) = here);
     cascade_loop ts here rest (internal_add_timer b tmp (expires (ts tmp)))
   }"

definition cascade :: "(nat \<Rightarrow> timer_list) \<Rightarrow> tvec_base \<Rightarrow> tvec \<Rightarrow> nat \<Rightarrow> (nat \<times> tvec_base) option" where
  "cascade ts b tv index = do {
     b \<leftarrow> cascade_loop ts (tv, index) (get_tv b tv ! index) b;
     Some (index, set_tv b tv ((get_tv b tv)[index := []]))
   }"

definition INDEX :: "tvec_base \<Rightarrow> nat \<Rightarrow> nat" where
  "INDEX b n = unat (drop_bit (TVR_BITS + n * TVN_BITS) (timer_jiffies b) AND TVN_MASK)"

text \<open>The condition with the calls of \<^verbatim>\<open>cascade\<close>: a call is made as long as the ones before it returned 0.\<close>

definition cascade_all :: "(nat \<Rightarrow> timer_list) \<Rightarrow> tvec_base \<Rightarrow> tvec_base option" where
  "cascade_all ts b = do {
     (i, b) \<leftarrow> cascade ts b TV2 (INDEX b 0);
     if i \<noteq> 0 then Some b
     else do {
       (i, b) \<leftarrow> cascade ts b TV3 (INDEX b 1);
       if i \<noteq> 0 then Some b
       else do {
         (i, b) \<leftarrow> cascade ts b TV4 (INDEX b 2);
         if i \<noteq> 0 then Some b
         else do {
           (i, b) \<leftarrow> cascade ts b TV5 (INDEX b 3);
           Some b
         }
       }
     }
   }"

text \<open>One round of the outer loop of \<^verbatim>\<open>__run_timers\<close>, up to the splice of the expired list.\<close>

definition run_timers_round :: "timer_state \<Rightarrow> timer_state option" where
  "run_timers_round s = (
     let b = base s; index = unat (timer_jiffies b AND TVR_MASK) in do {
       b \<leftarrow> (if index = 0 then cascade_all (timers s) b else Some b);
       let b = b\<lparr>timer_jiffies := timer_jiffies b + 1\<rparr>;
       Some (s\<lparr>work_list := tv1 b ! index, base := b\<lparr>tv1 := (tv1 b)[index := []]\<rparr>\<rparr>)
     })"

text \<open>
  The inner loop takes one timer off \<^verbatim>\<open>work_list\<close> and calls its function, the first component of the result.
\<close>

definition run_timers_next :: "timer_state \<Rightarrow> ((nat \<times> nat option \<times> ulong) \<times> timer_state) option" where
  "run_timers_next s =
     (case work_list s of
        [] \<Rightarrow> None
      | t # _ \<Rightarrow> do {
          let fn = callback (timers s t);
          let arg = timer_data (timers s t);
          s \<leftarrow> list_del t s;
          Some ((t, fn, arg), set_timer s t ((timers s t)\<lparr>pending := False\<rparr>))
        })"

definition init_timers_cpu :: "ulong \<Rightarrow> tvec_base" where
  "init_timers_cpu now = \<lparr>timer_jiffies = now, tv1 = replicate TVR_SIZE [], tv2 = replicate TVN_SIZE [], tv3 = replicate TVN_SIZE [],
     tv4 = replicate TVN_SIZE [], tv5 = replicate TVN_SIZE []\<rparr>"

section \<open>Sleeping\<close>

text \<open>
  \<^verbatim>\<open>schedule_timeout\<close> before and after its call of \<^verbatim>\<open>schedule\<close>. The timer is on the stack of the task, at the address
  \<open>t\<close>; \<open>task\<close> and \<open>process_timeout\<close> are the addresses of the task and of the function. \<open>None\<close> inside is a task that does not start a timer.
\<close>

abbreviation (input) MAX_SCHEDULE_TIMEOUT :: ulong where "MAX_SCHEDULE_TIMEOUT \<equiv> 0x7fffffffffffffff"

datatype sleep = Sleep_forever | Return_at_once | Sleep_until ulong

definition schedule_timeout_start :: "timer_state \<Rightarrow> nat \<Rightarrow> ulong \<Rightarrow> nat \<Rightarrow> ulong \<Rightarrow> (sleep \<times> timer_state) option" where
  "schedule_timeout_start s t task process_timeout timeout =
     (if timeout = MAX_SCHEDULE_TIMEOUT then Some (Sleep_forever, s)
      else if bit timeout 63 then Some (Return_at_once, s)
      else do {
        let expire = timeout + jiffies s;
        let s = set_timer s t ((init_timer (timers s t))\<lparr>expires := expire, timer_data := task, callback := Some process_timeout\<rparr>);
        s \<leftarrow> add_timer s t;
        Some (Sleep_until expire, s)
      })"

definition schedule_timeout_finish :: "timer_state \<Rightarrow> nat \<Rightarrow> ulong \<Rightarrow> sleep \<Rightarrow> (ulong \<times> timer_state) option" where
  "schedule_timeout_finish s t timeout how =
     (case how of
        Sleep_until expire \<Rightarrow> do {
          (_, s) \<leftarrow> del_timer s t;
          let timeout = expire - jiffies s;
          Some (if bit timeout 63 then 0 else timeout, s)
        }
      | _ \<Rightarrow> Some (if bit timeout 63 then 0 else timeout, s))"

end
