(* ===== verification/TimerWheel.thy ===== *)
theory TimerWheel
  imports Timer
begin

text \<open>
  The arithmetic of the timer wheel of \<^verbatim>\<open>kernel/timer.c\<close>: how far a tick is from the current one, which list of the wheel is right
  for a timer that is due at a given tick, and how this changes when a vector is cascaded and when the tick advances.
\<close>

unbundle bit_operations_syntax

section \<open>Distances on the wheel\<close>

text \<open>The ticks from \<open>now\<close> to a later tick, to the next multiple of \<open>2 ^ s\<close>, and to the next one after \<open>now\<close>.\<close>

definition dist :: "ulong \<Rightarrow> ulong \<Rightarrow> nat" where
  "dist now d = unat (d - now)"

definition to_next :: "ulong \<Rightarrow> nat \<Rightarrow> nat" where
  "to_next now s = (2 ^ s - unat now mod 2 ^ s) mod 2 ^ s"

definition to_after :: "ulong \<Rightarrow> nat \<Rightarrow> nat" where
  "to_after now s = 2 ^ s - unat now mod 2 ^ s"

lemma unat_dist: "unat d = (unat now + dist now d) mod 2 ^ 64"
proof -
  have "now + (d - now) = d" by simp
  then show ?thesis using unat_word_ariths(1) [of now "d - now"] by (simp add: dist_def)
qed

lemma dist_eq_0 [simp]: "dist now d = 0 \<longleftrightarrow> d = now"
  by (simp add: dist_def unat_eq_0)

lemma dist_self [simp]: "dist now now = 0"
  by (simp add: dist_def)

lemma dist_next: "d \<noteq> now \<Longrightarrow> dist (now + 1) d = dist now d - 1"
proof -
  assume "d \<noteq> now"
  then have "1 \<le> d - now" by (simp add: word_le_nat_alt unat_gt_0 Suc_le_eq)
  then have "unat (d - now - 1) = unat (d - now) - 1" by (simp add: unat_sub)
  then show ?thesis by (simp add: dist_def algebra_simps)
qed

lemma pow_mod_64: "s \<le> 64 \<Longrightarrow> n mod 2 ^ 64 mod 2 ^ s = n mod (2 ^ s :: nat)"
  by (intro mod_mod_cancel le_imp_power_dvd)

lemma block_index:
  assumes "s + 6 \<le> 64"
  shows "unat d div 2 ^ s mod 64 = (unat now + dist now d) div 2 ^ s mod 64"
proof -
  have "unat d mod 2 ^ (s + 6) = (unat now + dist now d) mod 2 ^ (s + 6)" using unat_dist [of d now] pow_mod_64 [OF assms] by simp
  moreover have "n mod 2 ^ (s + 6) div 2 ^ s = n div 2 ^ s mod (64 :: nat)" for n
    using div_mult2_eq [of n] mod_mult2_eq [of n "2 ^ s" 64] by (simp add: power_add)
  ultimately show ?thesis by metis
qed

lemma to_next_bounds: "to_next now s < 2 ^ s" "to_next now s \<le> to_after now s" "to_after now s \<le> 2 ^ s" "0 < to_after now s"
  "to_after now s \<le> to_next now s + 2 ^ s"
  by (simp_all add: to_next_def to_after_def)

lemma to_next_suc: "s \<le> 64 \<Longrightarrow> to_next (now + 1) s = to_after now s - 1"
proof -
  assume s: "s \<le> 64"
  have "unat (now + 1) mod 2 ^ s = (unat now + 1) mod 2 ^ s" using pow_mod_64 [OF s, of "unat now + 1"] by (simp add: unat_word_ariths)
  also have "\<dots> = (unat now mod 2 ^ s + 1) mod 2 ^ s" by presburger
  finally have m: "unat (now + 1) mod 2 ^ s = (unat now mod 2 ^ s + 1) mod 2 ^ s" .
  have "unat now mod 2 ^ s < 2 ^ s" by simp
  then consider "unat now mod 2 ^ s + 1 < 2 ^ s" | "unat now mod 2 ^ s + 1 = 2 ^ s" by linarith
  then show ?thesis
  proof cases
    case 1
    then show ?thesis using m by (simp add: to_next_def to_after_def)
  next
    case 2
    then show ?thesis using m by (simp add: to_next_def to_after_def)
  qed
qed

lemma not_aligned: "\<not> 2 ^ s dvd unat now \<Longrightarrow> to_after now s = to_next now s"
  by (simp add: to_next_def to_after_def dvd_eq_mod_eq_0)

lemma aligned: "2 ^ s dvd unat now \<Longrightarrow> to_next now s = 0 \<and> to_after now s = 2 ^ s"
  by (simp add: to_next_def to_after_def)

text \<open>On an aligned tick the timers of the next block are those of the list that has the index of the tick.\<close>

lemma same_block:
  assumes s: "s + 6 \<le> 64" and al: "2 ^ s dvd unat now" and x: "dist now e < 2 ^ (s + 6)"
  shows "unat e div 2 ^ s mod 64 = unat now div 2 ^ s mod 64 \<longleftrightarrow> dist now e < 2 ^ s"
proof -
  obtain q where q: "unat now = q * 2 ^ s" using al by (metis dvdE mult.commute)
  have b: "unat e div 2 ^ s mod 64 = (q + dist now e div 2 ^ s) mod 64" using block_index [OF s, of e now] q by simp
  have lt: "dist now e div 2 ^ s < 64" using x by (simp add: less_mult_imp_div_less power_add mult.commute)
  have "(q + r) mod 64 = q mod 64 \<longleftrightarrow> r = 0" if "r < 64" for r :: nat
    using that mod_eq_dvd_iff_nat [of q "q + r" 64] by (auto dest: dvd_imp_le)
  then have "(q + dist now e div 2 ^ s) mod 64 = q mod 64 \<longleftrightarrow> dist now e div 2 ^ s = 0" using lt by blast
  then show ?thesis using b q by (simp add: div_eq_0_iff)
qed


section \<open>Where a timer is\<close>

fun tv_shift :: "tvec \<Rightarrow> nat" where
  "tv_shift TV1 = 0" | "tv_shift TV2 = 8" | "tv_shift TV3 = 14" | "tv_shift TV4 = 20" | "tv_shift TV5 = 26"

text \<open>
  The list \<open>vi\<close> is right for a timer that is due at \<open>d\<close>. In the upper vectors the key \<open>e\<close> is the due tick, or an earlier one for a
  timer so far away that it had to be put into the last reachable list; \<open>A\<close> are the vectors whose list for this tick is already
  cascaded.
\<close>

definition first_dist :: "tvec set \<Rightarrow> ulong \<Rightarrow> tvec \<Rightarrow> nat" where
  "first_dist A now v = (if v \<in> A then to_after now (tv_shift v) else to_next now (tv_shift v))"

definition placed :: "tvec set \<Rightarrow> ulong \<Rightarrow> ulong \<Rightarrow> tvec \<times> nat \<Rightarrow> bool" where
  "placed A now d = (\<lambda>(v, i).
     if v = TV1 then dist now d < 256 \<and> i = unat d mod 256
     else \<exists>e. (v \<noteq> TV5 \<longrightarrow> e = d) \<and> dist now e \<le> dist now d \<and>
       first_dist A now v \<le> dist now e \<and> dist now e < to_next now (tv_shift v) + 2 ^ (tv_shift v + 6) \<and>
       i = unat e div 2 ^ tv_shift v mod 64)"

lemma placed_TV1: "placed A now d (TV1, i) \<longleftrightarrow> dist now d < 256 \<and> i = unat d mod 256"
  by (simp add: placed_def)

lemma placedI:
  assumes "v \<noteq> TV1" "v \<noteq> TV5 \<longrightarrow> e = d" "dist now e \<le> dist now d" "first_dist A now v \<le> dist now e"
    "dist now e < to_next now (tv_shift v) + 2 ^ (tv_shift v + 6)" "i = unat e div 2 ^ tv_shift v mod 64"
  shows "placed A now d (v, i)"
  unfolding placed_def split_conv using assms(1) by (simp only: if_False) (rule exI [of _ e], use assms in blast)

lemma placedE:
  assumes "placed A now d (v, i)" "v \<noteq> TV1"
  obtains e where "v \<noteq> TV5 \<longrightarrow> e = d" "dist now e \<le> dist now d" "first_dist A now v \<le> dist now e"
    "dist now e < to_next now (tv_shift v) + 2 ^ (tv_shift v + 6)" "i = unat e div 2 ^ tv_shift v mod 64"
  using assms(1) unfolding placed_def split_conv if_not_P [OF assms(2)] by (elim exE conjE) (rule that)

lemma first_dist_bounds: "to_next now (tv_shift v) \<le> first_dist A now v" "first_dist A now v \<le> to_after now (tv_shift v)"
  using to_next_bounds(2) by (simp_all add: first_dist_def)

lemma tv_shift_le: "tv_shift v + 6 \<le> 64"
  by (cases v) simp_all

lemma and_mask: "unat ((x :: ulong) AND 63) = unat x mod 64" "unat ((x :: ulong) AND 255) = unat x mod 256"
  using mask_is_mod [of "64 :: ulong" 6 x] mask_is_mod [of "256 :: ulong" 8 x] by simp_all

lemma drop_mask: "unat (drop_bit s (x :: ulong) AND 63) = unat x div 2 ^ s mod 64"
  by (simp only: and_mask unat_drop_bit_eq drop_bit_eq_div [of s "unat x"])

lemma bit_63: "bit (w :: ulong) 63 \<longleftrightarrow> 2 ^ 63 \<le> unat w"
proof -
  have "bit (unat w) 63 \<longleftrightarrow> bit w 63" by (simp add: bit_unsigned_iff)
  then have "bit w 63 \<longleftrightarrow> odd (unat w div 2 ^ 63)" by (simp only: bit_iff_odd [of "unat w"])
  moreover have "unat w div 2 ^ 63 < 2" using unat_bound [of w] by (simp add: less_mult_imp_div_less)
  then have "unat w div 2 ^ 63 = 0 \<or> unat w div 2 ^ 63 = 1" by linarith
  moreover have "unat w div 2 ^ 63 = 0 \<longleftrightarrow> unat w < 2 ^ 63" by (simp add: div_eq_0_iff)
  ultimately show ?thesis by (metis even_zero leD leI odd_one)
qed

text \<open>The tick at which a timer will run: an expiry in the past counts as the next one.\<close>

definition due :: "ulong \<Rightarrow> ulong \<Rightarrow> ulong" where
  "due now e = (if bit (e - now) 63 then now else e)"

lemma due_dist: "dist now (due now e) < 2 ^ 63"
  by (simp add: due_def dist_def bit_63)

lemma placed_level:
  assumes "v \<noteq> TV1" "2 ^ tv_shift v \<le> dist now d" "dist now d < 2 ^ (tv_shift v + 6)"
  shows "placed A now d (v, unat (drop_bit (tv_shift v) d AND 63))"
  using assms to_next_bounds(3) [of now "tv_shift v"] first_dist_bounds(2) [of A now v]
  by (intro placedI [of v d]) (simp_all add: drop_mask)

lemma placed_far: "placed A now f (TV5, i) \<Longrightarrow> dist now f \<le> dist now d \<Longrightarrow> placed A now d (TV5, i)"
  by (erule placedE, simp) (rule placedI, simp_all)

lemma slot_placed: "placed A now (due now e) (timer_slot now e)"
proof -
  define x where "x = dist now e"
  have w: "e - now < c \<longleftrightarrow> x < unat c" for c by (simp add: x_def dist_def word_less_nat_alt)
  have u: "unat (2 ^ n :: ulong) = 2 ^ n" if "n < 64" for n using that by (simp add: unat_exp)
  consider (past) "2 ^ 63 \<le> x" | (l1) "x < 2 ^ 8" | (l2) "2 ^ 8 \<le> x" "x < 2 ^ 14" | (l3) "2 ^ 14 \<le> x" "x < 2 ^ 20" | (l4) "2 ^ 20 \<le> x" "x < 2 ^ 26"
    | (l5) "2 ^ 26 \<le> x" "x < 2 ^ 32" | (far) "2 ^ 32 \<le> x" "x < 2 ^ 63" by linarith
  then show ?thesis
  proof cases
    case past
    then have "timer_slot now e = (TV1, unat now mod 256)" "due now e = now"
      using w [of 256] w [of "2 ^ 14"] w [of "2 ^ 20"] w [of "2 ^ 26"] u by (simp_all add: timer_slot_def Let_def due_def and_mask bit_63 x_def dist_def)
    then show ?thesis by (simp add: placed_TV1)
  next
    case l1
    then have "timer_slot now e = (TV1, unat e mod 256)" "due now e = e"
      using w [of 256] by (simp_all add: timer_slot_def Let_def due_def and_mask bit_63 x_def dist_def)
    then show ?thesis using l1 by (simp add: placed_TV1 x_def)
  next
    case l2
    then have "timer_slot now e = (TV2, unat (drop_bit 8 e AND 63))" "due now e = e"
      using w [of 256] w [of "2 ^ 14"] u by (simp_all add: timer_slot_def Let_def due_def bit_63 x_def dist_def)
    then show ?thesis using l2 placed_level [of TV2 now e] by (simp add: x_def)
  next
    case l3
    then have "timer_slot now e = (TV3, unat (drop_bit 14 e AND 63))" "due now e = e"
      using w [of 256] w [of "2 ^ 14"] w [of "2 ^ 20"] u by (simp_all add: timer_slot_def Let_def due_def bit_63 x_def dist_def)
    then show ?thesis using l3 placed_level [of TV3 now e] by (simp add: x_def)
  next
    case l4
    then have "timer_slot now e = (TV4, unat (drop_bit 20 e AND 63))" "due now e = e"
      using w [of 256] w [of "2 ^ 14"] w [of "2 ^ 20"] w [of "2 ^ 26"] u by (simp_all add: timer_slot_def Let_def due_def bit_63 x_def dist_def)
    then show ?thesis using l4 placed_level [of TV4 now e] by (simp add: x_def)
  next
    case l5
    then have "timer_slot now e = (TV5, unat (drop_bit 26 e AND 63))" "due now e = e"
      using w [of 256] w [of "2 ^ 14"] w [of "2 ^ 20"] w [of "2 ^ 26"] u
      by (simp_all add: timer_slot_def Let_def due_def bit_63 x_def dist_def word_less_nat_alt)
    then show ?thesis using l5 placed_level [of TV5 now e] by (simp add: x_def)
  next
    case far
    let ?f = "0xffffffff + now"
    have "timer_slot now e = (TV5, unat (drop_bit 26 ?f AND 63))" "due now e = e"
      using far w [of 256] w [of "2 ^ 14"] w [of "2 ^ 20"] w [of "2 ^ 26"] u
      by (simp_all add: timer_slot_def Let_def due_def bit_63 x_def dist_def word_less_nat_alt)
    moreover have "dist now ?f = 2 ^ 32 - 1" by (simp add: dist_def)
    moreover then have "placed A now ?f (TV5, unat (drop_bit 26 ?f AND 63))" using placed_level [of TV5 now ?f] by simp
    ultimately show ?thesis using far placed_far [of A now ?f _ e] by (simp add: x_def)
  qed
qed


text \<open>Every vector is cascaded for this tick unless the tick is a multiple of its block.\<close>

lemma placed_more:
  assumes p: "placed A now d (v, i)" and v: "v \<in> B \<longrightarrow> v = TV1 \<or> v \<in> A \<or> \<not> 2 ^ tv_shift v dvd unat now"
  shows "placed B now d (v, i)"
proof (cases "v = TV1")
  case False
  have "first_dist B now v \<le> first_dist A now v"
    using v not_aligned [of "tv_shift v" now] to_next_bounds(2) [of now "tv_shift v"] False by (auto simp: first_dist_def)
  then show ?thesis using p False by (elim placedE) (auto intro: placedI)
qed (use p in \<open>simp add: placed_TV1\<close>)

lemma placed_cascaded:
  assumes p: "placed A now d (v, i)" and v: "v \<noteq> TV1" "2 ^ tv_shift v dvd unat now" and i: "i \<noteq> unat now div 2 ^ tv_shift v mod 64"
  shows "placed (insert v A) now d (v, i)"
  using p v(1)
proof (rule placedE)
  fix e
  assume e: "v \<noteq> TV5 \<longrightarrow> e = d" "dist now e \<le> dist now d" "dist now e < to_next now (tv_shift v) + 2 ^ (tv_shift v + 6)"
    "i = unat e div 2 ^ tv_shift v mod 64"
  have "2 ^ tv_shift v \<le> dist now e" using same_block [OF tv_shift_le v(2), of e] e(3,4) i aligned [OF v(2)] by (metis add_0 not_le)
  then show ?thesis using e v aligned [OF v(2)] by (intro placedI [of v e]) (simp_all add: first_dist_def)
qed

lemma placed_again:
  assumes v: "v \<noteq> TV1" "2 ^ tv_shift v dvd unat now" and i: "i = unat now div 2 ^ tv_shift v mod 64"
    and d: "dist now d < 2 ^ 63"
  shows "timer_slot now d \<noteq> (v, i)"
proof
  assume sl: "timer_slot now d = (v, i)"
  have "due now d = d" using d by (simp add: due_def bit_63 dist_def)
  then have "placed {v} now d (v, i)" using slot_placed [of "{v}" now d] sl by simp
  then show False using v(1)
  proof (rule placedE)
    fix e
    assume "first_dist {v} now v \<le> dist now e" "dist now e < to_next now (tv_shift v) + 2 ^ (tv_shift v + 6)" "i = unat e div 2 ^ tv_shift v mod 64"
    then show False using same_block [OF tv_shift_le v(2), of e] i aligned [OF v(2)] by (simp add: first_dist_def)
  qed
qed

lemma placed_tick:
  assumes p: "placed UNIV now d (v, i)" and d: "d \<noteq> now"
  shows "placed {} (now + 1) d (v, i)"
proof (cases "v = TV1")
  case True
  then show ?thesis using p dist_next [OF d] by (auto simp: placed_TV1)
next
  case False
  let ?s = "tv_shift v"
  have nx: "to_next (now + 1) ?s = to_after now ?s - 1" using tv_shift_le [of v] by (intro to_next_suc) simp
  from p False show ?thesis
  proof (rule placedE)
    fix e
    assume e: "v \<noteq> TV5 \<longrightarrow> e = d" "dist now e \<le> dist now d" "first_dist UNIV now v \<le> dist now e"
      "dist now e < to_next now ?s + 2 ^ (?s + 6)" "i = unat e div 2 ^ ?s mod 64"
    have lo: "to_after now ?s \<le> dist now e" using e(3) by (simp add: first_dist_def)
    then have "e \<noteq> now" using to_next_bounds(4) [of now ?s] by auto
    then have "dist (now + 1) e = dist now e - 1" "dist (now + 1) d = dist now d - 1" using dist_next d by auto
    then show ?thesis using e lo nx to_next_bounds(2,4) [of now ?s] False by (intro placedI [of v e]) (auto simp: first_dist_def)
  qed
qed

lemma placed_due: "placed UNIV now now (v, i) \<Longrightarrow> v = TV1 \<and> i = unat now mod 256"
proof (cases "v = TV1")
  case False
  moreover assume "placed UNIV now now (v, i)"
  ultimately show ?thesis using to_next_bounds(4) [of now "tv_shift v"] by (elim placedE) (simp_all add: first_dist_def)
qed (simp add: placed_TV1)

lemma placed_now:
  assumes "placed A now d (TV1, unat now mod 256)"
  shows "d = now"
proof -
  have x: "dist now d < 256" "unat now mod 256 = unat d mod 256" using assms by (simp_all add: placed_TV1)
  have "unat d mod 256 = (unat now + dist now d) mod 256" using unat_dist [of d now] pow_mod_64 [of 8 "unat now + dist now d"] by simp
  then have "(unat now + dist now d) mod 256 = unat now mod 256" using x(2) by simp
  then have "256 dvd dist now d" using mod_eq_dvd_iff_nat [of "unat now" "unat now + dist now d" 256] by simp
  then have "dist now d = 0" using x(1) by (auto dest: dvd_imp_le)
  then show ?thesis by simp
qed

end
