(* ===== verification/TimerInv.thy ===== *)
theory TimerInv
  imports TimerWheel "HOL-Library.Multiset"
begin

text \<open>
  The invariant of the timer wheel of \<^verbatim>\<open>kernel/timer.c\<close>. \<open>wheel_ok\<close> says that the wheel holds exactly the timers of an
  abstract map from timers to the ticks at which they are due; adding a timer, cascading a vector and running a tick keep it, and the operations of
  the state act on the map.
\<close>

unbundle bit_operations_syntax

section \<open>The wheel and its abstraction\<close>

definition tv_size :: "tvec \<Rightarrow> nat" where
  "tv_size v = (if v = TV1 then 256 else 64)"

definition all_timers :: "tvec_base \<Rightarrow> nat list" where
  "all_timers b = concat (tv1 b @ tv2 b @ tv3 b @ tv4 b @ tv5 b)"

definition put_list :: "tvec \<times> nat \<Rightarrow> nat list \<Rightarrow> tvec_base \<Rightarrow> tvec_base" where
  "put_list vi l b = set_tv b (fst vi) ((get_tv b (fst vi))[snd vi := l])"

definition sized :: "tvec_base \<Rightarrow> bool" where
  "sized b \<longleftrightarrow> (\<forall>v. length (get_tv b v) = tv_size v)"

text \<open>
  The wheel holds exactly the timers of \<open>D\<close>, each once and in the right list; \<open>D\<close> maps a timer to the tick at which it is due.
  A timer of an upper vector is due at the tick that the structure has.
\<close>

definition wheel_ok :: "tvec set \<Rightarrow> (nat \<Rightarrow> timer_list) \<Rightarrow> tvec_base \<Rightarrow> (nat \<rightharpoonup> ulong) \<Rightarrow> bool" where
  "wheel_ok A ts b D \<longleftrightarrow> sized b \<and> finite (dom D) \<and> mset (all_timers b) = mset_set (dom D) \<and>
     (\<forall>v i t. i < tv_size v \<longrightarrow> t \<in> set (get_tv b v ! i) \<longrightarrow>
        (\<exists>d. D t = Some d \<and> dist (timer_jiffies b) d < 2 ^ 63 \<and> placed A (timer_jiffies b) d (v, i) \<and> (v \<noteq> TV1 \<longrightarrow> expires (ts t) = d)))"

lemma get_set_tv [simp]: "get_tv (set_tv b v l) w = (if v = w then l else get_tv b w)"
  by (cases v; cases w) simp_all

lemma timer_jiffies_set_tv [simp]: "timer_jiffies (set_tv b v l) = timer_jiffies b"
  by (cases v) simp_all

lemma put_list_get [simp]:
  "get_tv (put_list vi l b) w = (if fst vi = w then (get_tv b w)[snd vi := l] else get_tv b w)" "timer_jiffies (put_list vi l b) = timer_jiffies b"
  by (simp_all add: put_list_def)

lemma sized_put [simp]: "sized (put_list vi l b) \<longleftrightarrow> sized b"
  by (auto simp: sized_def)

lemma mset_set_tv: "mset (all_timers (set_tv b v ls)) + mset (concat (get_tv b v)) = mset (all_timers b) + mset (concat ls)"
  by (cases v) (simp_all add: all_timers_def)

lemma mset_concat_update: "i < length ls \<Longrightarrow> mset (concat (ls[i := x])) + mset (ls ! i) = mset (concat ls) + mset x"
proof (induction ls arbitrary: i)
  case (Cons l ls)
  then show ?case by (cases i) (auto simp: add.assoc)
qed simp

lemma mset_put:
  assumes "sized b" "snd vi < tv_size (fst vi)"
  shows "mset (all_timers (put_list vi l b)) + mset (get_tv b (fst vi) ! snd vi) = mset (all_timers b) + mset l"
proof -
  let ?ls = "get_tv b (fst vi)"
  have "mset (all_timers (put_list vi l b)) + mset (concat ?ls) + mset (?ls ! snd vi) = mset (all_timers b) + (mset (concat (?ls[snd vi := l])) + mset (?ls ! snd vi))"
    unfolding put_list_def mset_set_tv by simp
  also have "\<dots> = mset (all_timers b) + (mset (concat ?ls) + mset l)" using assms by (subst mset_concat_update) (auto simp: sized_def)
  finally show ?thesis by (simp add: add.assoc add.commute add.left_commute)
qed

lemma timer_slot_size: "snd (timer_slot now e) < tv_size (fst (timer_slot now e))"
proof -
  have "placed {} now (due now e) (fst (timer_slot now e), snd (timer_slot now e))" using slot_placed by simp
  then show ?thesis
  proof (cases "fst (timer_slot now e) = TV1")
    case False
    then show ?thesis using \<open>placed _ _ _ _\<close> by (elim placedE) (simp_all add: tv_size_def)
  qed (simp add: placed_TV1 tv_size_def)
qed

lemma internal_add_timer_put:
  "internal_add_timer b t e = (let vi = timer_slot (timer_jiffies b) e in put_list vi (get_tv b (fst vi) ! snd vi @ [t]) b)"
  by (simp add: internal_add_timer_def list_add_tail_def put_list_def Let_def)

lemma wheel_okD:
  assumes "wheel_ok A ts b D" "i < tv_size v" "t \<in> set (get_tv b v ! i)"
  obtains d where "D t = Some d" "dist (timer_jiffies b) d < 2 ^ 63" "placed A (timer_jiffies b) d (v, i)" "v \<noteq> TV1 \<longrightarrow> expires (ts t) = d"
  using assms unfolding wheel_ok_def by blast

lemma wheel_add:
  assumes ok: "wheel_ok A ts b D" and t: "D t = None" and e: "expires (ts t) = e"
  shows "wheel_ok A ts (internal_add_timer b t e) (D(t \<mapsto> due (timer_jiffies b) e))"
proof -
  define vi where "vi = timer_slot (timer_jiffies b) e"
  let ?now = "timer_jiffies b" let ?b = "put_list vi (get_tv b (fst vi) ! snd vi @ [t]) b"
  have b: "internal_add_timer b t e = ?b" by (simp add: internal_add_timer_put vi_def Let_def)
  have sz: "sized b" "snd vi < tv_size (fst vi)" using ok timer_slot_size by (simp_all add: wheel_ok_def vi_def)
  have "mset (all_timers ?b) = add_mset t (mset (all_timers b))" using mset_put [OF sz, of "get_tv b (fst vi) ! snd vi @ [t]"] by simp
  then have ms: "mset (all_timers ?b) = mset_set (dom (D(t \<mapsto> due ?now e)))" using ok t by (simp add: wheel_ok_def domIff)
  have up: "fst vi \<noteq> TV1 \<Longrightarrow> due ?now e = e"
    by (auto simp: vi_def timer_slot_def due_def Let_def bit_63 word_less_nat_alt split: if_splits)
  have new: "\<exists>d. (D(t \<mapsto> due ?now e)) u = Some d \<and> dist ?now d < 2 ^ 63 \<and> placed A ?now d (v, i) \<and> (v \<noteq> TV1 \<longrightarrow> expires (ts u) = d)"
    if i: "i < tv_size v" and u: "u \<in> set (get_tv ?b v ! i)" for v i u
  proof (cases "u \<in> set (get_tv b v ! i)")
    case True
    then obtain d where "D u = Some d" "dist ?now d < 2 ^ 63" "placed A ?now d (v, i)" "v \<noteq> TV1 \<longrightarrow> expires (ts u) = d" using wheel_okD [OF ok i] by metis
    then show ?thesis using t by auto
  next
    case False
    then have "u = t \<and> (v, i) = vi" using u sz i by (cases "fst vi = v"; cases "snd vi = i") (auto simp: sized_def)
    then show ?thesis using slot_placed [of A ?now e] due_dist [of ?now e] up e by (auto simp: vi_def [symmetric])
  qed
  show ?thesis unfolding b wheel_ok_def using ms sz ok new by (simp add: wheel_ok_def)
qed


section \<open>Cascading\<close>

lemma wheel_more:
  assumes "wheel_ok A ts b D" "\<And>v. v \<in> B \<Longrightarrow> v = TV1 \<or> v \<in> A \<or> \<not> 2 ^ tv_shift v dvd unat (timer_jiffies b)"
  shows "wheel_ok B ts b D"
  using assms unfolding wheel_ok_def by (blast intro: placed_more)

lemma jiffies_add [simp]: "timer_jiffies (internal_add_timer b t e) = timer_jiffies b"
  by (simp add: internal_add_timer_put Let_def)

lemma set_tv_commute: "v \<noteq> w \<Longrightarrow> set_tv (set_tv b v x) w y = set_tv (set_tv b w y) v x"
  by (cases v; cases w) simp_all

lemma set_tv_twice [simp]: "set_tv (set_tv b v x) v y = set_tv b v y"
  by (cases v) simp_all

lemma put_add_commute:
  assumes "timer_slot (timer_jiffies b) e \<noteq> here"
  shows "put_list here [] (internal_add_timer b t e) = internal_add_timer (put_list here [] b) t e"
proof (cases "fst here = fst (timer_slot (timer_jiffies b) e)")
  case True
  then have "snd here \<noteq> snd (timer_slot (timer_jiffies b) e)" using assms by (auto simp: prod_eq_iff)
  then show ?thesis using True by (simp add: internal_add_timer_put put_list_def Let_def list_update_swap)
next
  case False
  then show ?thesis by (simp add: internal_add_timer_put put_list_def Let_def set_tv_commute)
qed

lemma cascade_loop_put: "map_option (put_list here []) (cascade_loop ts here l b) = cascade_loop ts here l (put_list here [] b)"
proof (induction l arbitrary: b)
  case (Cons t l)
  show ?case
  proof (cases "\<not> pending (ts t) \<or> timer_slot (timer_jiffies b) (expires (ts t)) = here")
    case True
    then show ?thesis by (auto simp: BUG_ON_def)
  next
    case False
    then show ?thesis using Cons.IH by (simp add: BUG_ON_def put_add_commute)
  qed
qed simp

lemma cascade_put: "cascade ts b tv index = map_option (Pair index) (cascade_loop ts (tv, index) (get_tv b tv ! index) (put_list (tv, index) [] b))"
  unfolding cascade_def cascade_loop_put [symmetric]
  by (cases "cascade_loop ts (tv, index) (get_tv b tv ! index) b") (simp_all add: put_list_def)

lemma wheel_cascade_loop:
  assumes "wheel_ok A ts b D" "distinct l" "set l \<inter> dom D = {}"
    "\<And>t. t \<in> set l \<Longrightarrow> pending (ts t) \<and> dist (timer_jiffies b) (expires (ts t)) < 2 ^ 63 \<and> timer_slot (timer_jiffies b) (expires (ts t)) \<noteq> here"
  shows "\<exists>b'. cascade_loop ts here l b = Some b' \<and> timer_jiffies b' = timer_jiffies b \<and>
    wheel_ok A ts b' (\<lambda>t. if t \<in> set l then Some (expires (ts t)) else D t)"
  using assms
proof (induction l arbitrary: b D)
  case (Cons t l)
  let ?e = "expires (ts t)"
  have due: "due (timer_jiffies b) ?e = ?e" using Cons.prems(4) [of t] by (simp add: due_def bit_63 dist_def)
  have "D t = None" using Cons.prems(3) by auto
  then have ok: "wheel_ok A ts (internal_add_timer b t ?e) (D(t \<mapsto> ?e))" using wheel_add [OF Cons.prems(1), of t] due by simp
  have "set l \<inter> dom (D(t \<mapsto> ?e)) = {}" using Cons.prems(2,3) by auto
  from Cons.IH [OF ok _ this] Cons.prems(2,4) obtain b' where
    b': "cascade_loop ts here l (internal_add_timer b t ?e) = Some b'" "timer_jiffies b' = timer_jiffies b"
    "wheel_ok A ts b' (\<lambda>u. if u \<in> set l then Some (expires (ts u)) else (D(t \<mapsto> ?e)) u)" by auto
  moreover have "(\<lambda>u. if u \<in> set l then Some (expires (ts u)) else (D(t \<mapsto> ?e)) u) = (\<lambda>u. if u \<in> set (t # l) then Some (expires (ts u)) else D u)"
    by (auto simp: fun_eq_iff)
  ultimately show ?case using Cons.prems(4) [of t] by (auto simp: BUG_ON_def)
qed simp

lemma distinct_sub_mset_set:
  assumes "mset l \<subseteq># mset_set X"
  shows "distinct l"
proof -
  have "count (mset_set X) a \<le> 1" for a by (cases "finite X \<and> a \<in> X") auto
  then have "count (mset l) a \<le> 1" for a using mset_subset_eq_count [OF assms, of a] by (rule order_trans [rotated])
  moreover have "a \<in> set l \<Longrightarrow> 0 < count (mset l) a" "a \<notin> set l \<Longrightarrow> count (mset l) a = 0" for a
    by (simp_all add: count_eq_zero_iff zero_less_iff_neq_zero)
  ultimately have "count (mset l) a = (if a \<in> set l then 1 else 0)" for a
    by (metis One_nat_def Suc_leI le_antisym)
  then show ?thesis by (simp add: distinct_count_atmost_1)
qed

lemma wheel_clear:
  assumes ok: "wheel_ok A ts b D" and i: "i < tv_size v"
  shows "distinct (get_tv b v ! i)" "set (get_tv b v ! i) \<subseteq> dom D"
    "sized (put_list (v, i) [] b)" "mset (all_timers (put_list (v, i) [] b)) = mset_set (dom D - set (get_tv b v ! i))"
proof -
  have sz: "sized b" and fin: "finite (dom D)" and ms: "mset (all_timers b) = mset_set (dom D)" using ok by (simp_all add: wheel_ok_def)
  then show "sized (put_list (v, i) [] b)" by simp
  have m: "mset (all_timers (put_list (v, i) [] b)) + mset (get_tv b v ! i) = mset_set (dom D)" using mset_put [OF sz, of "(v, i)" "[]"] i ms by simp
  then have sub: "mset (get_tv b v ! i) \<subseteq># mset_set (dom D)" by (metis mset_subset_eq_add_right)
  show d: "distinct (get_tv b v ! i)" by (rule distinct_sub_mset_set [OF sub])
  show s: "set (get_tv b v ! i) \<subseteq> dom D" using set_mset_mono [OF sub] fin by simp
  have "mset (all_timers (put_list (v, i) [] b)) = mset_set (dom D) - mset_set (set (get_tv b v ! i))"
    using m d by (metis add_diff_cancel_right' mset_set_set)
  then show "mset (all_timers (put_list (v, i) [] b)) = mset_set (dom D - set (get_tv b v ! i))" using s fin by (simp add: mset_set_Diff)
qed

lemma wheel_cleared:
  assumes ok: "wheel_ok A ts b D" and i: "i < tv_size v"
    and pl: "\<And>w j d. (w, j) \<noteq> (v, i) \<Longrightarrow> placed A (timer_jiffies b) d (w, j) \<Longrightarrow> placed B (timer_jiffies b) d (w, j)"
  shows "wheel_ok B ts (put_list (v, i) [] b) (D |` (- set (get_tv b v ! i)))"
proof -
  let ?l = "get_tv b v ! i" let ?b = "put_list (v, i) [] b"
  have dm: "dom (D |` (- set ?l)) = dom D - set ?l" by auto
  have notl: "u \<notin> set ?l" if "j < tv_size w" "u \<in> set (get_tv ?b w ! j)" for w j u
  proof -
    have "sized ?b" using ok by (simp add: wheel_ok_def)
    then have "get_tv ?b w ! j \<in> set (get_tv ?b w)" using that(1) by (intro nth_mem) (simp add: sized_def del: put_list_get)
    then have "u \<in> set (all_timers ?b)" using that(2) unfolding all_timers_def by (cases w) auto
    then show ?thesis using wheel_clear(4) [OF ok i] ok by (metis DiffE finite_Diff finite_set_mset_mset_set set_mset_mset wheel_ok_def)
  qed
  have "\<exists>d. (D |` (- set ?l)) u = Some d \<and> dist (timer_jiffies b) d < 2 ^ 63 \<and> placed B (timer_jiffies b) d (w, j) \<and> (w \<noteq> TV1 \<longrightarrow> expires (ts u) = d)"
    if j: "j < tv_size w" and u: "u \<in> set (get_tv ?b w ! j)" for w j u
  proof -
    have ne: "(w, j) \<noteq> (v, i)" using u j ok by (auto simp: wheel_ok_def sized_def)
    then have "u \<in> set (get_tv b w ! j)" using u by (auto split: if_splits)
    then obtain d where "D u = Some d" "dist (timer_jiffies b) d < 2 ^ 63" "placed A (timer_jiffies b) d (w, j)" "w \<noteq> TV1 \<longrightarrow> expires (ts u) = d"
      using wheel_okD [OF ok j] by metis
    then show ?thesis using notl [OF j u] pl [OF ne] by simp
  qed
  then show ?thesis using wheel_clear(3,4) [OF ok i] ok dm unfolding wheel_ok_def by simp
qed


lemma wheel_cascade:
  assumes ok: "wheel_ok A ts b D" and v: "v \<noteq> TV1" "2 ^ tv_shift v dvd unat (timer_jiffies b)"
    and i: "i = unat (timer_jiffies b) div 2 ^ tv_shift v mod 64" and p: "\<And>t. t \<in> dom D \<Longrightarrow> pending (ts t)"
  shows "\<exists>b'. cascade ts b v i = Some (i, b') \<and> timer_jiffies b' = timer_jiffies b \<and> wheel_ok (insert v A) ts b' D"
proof -
  let ?l = "get_tv b v ! i" let ?now = "timer_jiffies b"
  have sz: "i < tv_size v" using v i by (simp add: tv_size_def)
  have l: "D t = Some (expires (ts t)) \<and> pending (ts t) \<and> dist ?now (expires (ts t)) < 2 ^ 63 \<and> timer_slot ?now (expires (ts t)) \<noteq> (v, i)"
    if t: "t \<in> set ?l" for t
    using wheel_okD [OF ok sz t] p [of t] placed_again [OF v i] v(1) by (metis domI)
  have "wheel_ok (insert v A) ts (put_list (v, i) [] b) (D |` (- set ?l))"
  proof (rule wheel_cleared [OF ok sz])
    fix w j d
    assume ne: "(w, j) \<noteq> (v, i)" and pl: "placed A ?now d (w, j)"
    show "placed (insert v A) ?now d (w, j)"
    proof (cases "w = v")
      case True
      then show ?thesis using ne pl i by (auto intro!: placed_cascaded v)
    next
      case False
      then show ?thesis by (intro placed_more [OF pl]) auto
    qed
  qed
  from wheel_cascade_loop [OF this wheel_clear(1) [OF ok sz], of "(v, i)"] l obtain b' where
    b': "cascade_loop ts (v, i) ?l (put_list (v, i) [] b) = Some b'" "timer_jiffies b' = ?now"
    "wheel_ok (insert v A) ts b' (\<lambda>t. if t \<in> set ?l then Some (expires (ts t)) else (D |` (- set ?l)) t)" by auto
  moreover have "(\<lambda>t. if t \<in> set ?l then Some (expires (ts t)) else (D |` (- set ?l)) t) = D" using l by (auto simp: fun_eq_iff restrict_map_def)
  ultimately show ?thesis by (auto simp: cascade_put)
qed

lemma INDEX_eq: "INDEX b n = unat (timer_jiffies b) div 2 ^ (8 + n * 6) mod 64"
  by (simp only: INDEX_def drop_mask)

lemma aligned_up: "2 ^ s dvd n \<Longrightarrow> 2 ^ (s + 6) dvd n \<longleftrightarrow> n div 2 ^ s mod 64 = (0 :: nat)"
proof -
  assume "2 ^ s dvd n"
  then obtain q where "n = 2 ^ s * q" by blast
  then show ?thesis by (simp add: power_add dvd_eq_mod_eq_0)
qed

lemma not_aligned_up: "\<not> 2 ^ s dvd n \<Longrightarrow> s \<le> s' \<Longrightarrow> \<not> 2 ^ s' dvd (n :: nat)"
  by (meson dvd_trans le_imp_power_dvd)

lemma wheel_cascade_all:
  assumes ok: "wheel_ok {} ts b D" and al: "2 ^ 8 dvd unat (timer_jiffies b)" and p: "\<And>t. t \<in> dom D \<Longrightarrow> pending (ts t)"
  shows "\<exists>b'. cascade_all ts b = Some b' \<and> timer_jiffies b' = timer_jiffies b \<and> wheel_ok UNIV ts b' D"
proof -
  let ?n = "unat (timer_jiffies b)" let ?i = "\<lambda>s. ?n div 2 ^ s mod 64"
  have up: "2 ^ s dvd ?n \<Longrightarrow> 2 ^ (s + 6) dvd ?n \<longleftrightarrow> ?i s = 0" for s by (rule aligned_up)
  have stop: "wheel_ok UNIV ts b' D" if "wheel_ok A ts b' D" "timer_jiffies b' = timer_jiffies b" "\<not> 2 ^ s dvd ?n"
    "\<And>v. v = TV1 \<or> v \<in> A \<or> s \<le> tv_shift v" for A b' s
    using that(2,4) not_aligned_up [OF that(3)] by (intro wheel_more [OF that(1)]) auto
  obtain b2 where b2: "cascade ts b TV2 (?i 8) = Some (?i 8, b2)" "timer_jiffies b2 = timer_jiffies b" "wheel_ok {TV2} ts b2 D"
    using wheel_cascade [OF ok, of TV2] al p by auto
  show ?thesis
  proof (cases "?i 8 = 0")
    case False
    then have "wheel_ok UNIV ts b2 D" using up [of 8] al by (intro stop [OF b2(3,2), of 14]) (simp, case_tac v, simp_all)
    then show ?thesis using b2 False by (simp add: cascade_all_def INDEX_eq)
  next
    case True
    then have al3: "2 ^ 14 dvd ?n" using up [of 8] al by simp
    obtain b3 where b3: "cascade ts b2 TV3 (?i 14) = Some (?i 14, b3)" "timer_jiffies b3 = timer_jiffies b" "wheel_ok {TV3, TV2} ts b3 D"
      using wheel_cascade [OF b2(3), of TV3] al3 p b2(2) by auto
    show ?thesis
    proof (cases "?i 14 = 0")
      case False
      then have "wheel_ok UNIV ts b3 D" using up [of 14] al3 by (intro stop [OF b3(3,2), of 20]) (simp, case_tac v, simp_all)
      then show ?thesis using b2 b3 False True by (simp add: cascade_all_def INDEX_eq)
    next
      case i3: True
      then have al4: "2 ^ 20 dvd ?n" using up [of 14] al3 by simp
      obtain b4 where b4: "cascade ts b3 TV4 (?i 20) = Some (?i 20, b4)" "timer_jiffies b4 = timer_jiffies b" "wheel_ok {TV4, TV3, TV2} ts b4 D"
        using wheel_cascade [OF b3(3), of TV4] al4 p b3(2) by auto
      show ?thesis
      proof (cases "?i 20 = 0")
        case False
        then have "wheel_ok UNIV ts b4 D" using up [of 20] al4 by (intro stop [OF b4(3,2), of 26]) (simp, case_tac v, simp_all)
        then show ?thesis using b2 b3 b4 False True i3 by (simp add: cascade_all_def INDEX_eq)
      next
        case i4: True
        then have al5: "2 ^ 26 dvd ?n" using up [of 20] al4 by simp
        obtain b5 where b5: "cascade ts b4 TV5 (?i 26) = Some (?i 26, b5)" "timer_jiffies b5 = timer_jiffies b" "wheel_ok {TV5, TV4, TV3, TV2} ts b5 D"
          using wheel_cascade [OF b4(3), of TV5] al5 p b4(2) by auto
        have "wheel_ok UNIV ts b5 D" by (rule wheel_more [OF b5(3)]) (case_tac v, simp_all)
        then show ?thesis using b2 b3 b4 b5 True i3 i4 by (simp add: cascade_all_def INDEX_eq)
      qed
    qed
  qed
qed

section \<open>The operations of the state\<close>

text \<open>
  \<open>D\<close> maps the timers of the wheel to their due ticks; the timers of \<^verbatim>\<open>work_list\<close> are the ones of the last tick that have not run
  yet.
\<close>

definition timer_ok :: "timer_state \<Rightarrow> (nat \<rightharpoonup> ulong) \<Rightarrow> bool" where
  "timer_ok s D \<longleftrightarrow> wheel_ok {} (timers s) (base s) D \<and> distinct (work_list s) \<and> set (work_list s) \<inter> dom D = {} \<and>
     (\<forall>t. pending (timers s t) \<longleftrightarrow> t \<in> dom D \<or> t \<in> set (work_list s))"

lemma wheel_frame: "wheel_ok A ts b D \<Longrightarrow> (\<And>t. t \<in> dom D \<Longrightarrow> expires (ts' t) = expires (ts t)) \<Longrightarrow> wheel_ok A ts' b D"
  unfolding wheel_ok_def by (metis domI)

lemma ex_tvec: "(\<exists>v. P v) \<longleftrightarrow> P TV1 \<or> P TV2 \<or> P TV3 \<or> P TV4 \<or> P TV5"
  by (metis tvec.exhaust)

lemma in_all_timers:
  assumes "sized b"
  shows "t \<in> set (all_timers b) \<longleftrightarrow> (\<exists>v i. i < tv_size v \<and> t \<in> set (get_tv b v ! i))"
proof -
  have "t \<in> set (all_timers b) \<longleftrightarrow> (\<exists>v. t \<in> set (concat (get_tv b v)))"
    unfolding all_timers_def ex_tvec by auto
  also have "\<dots> \<longleftrightarrow> (\<exists>v i. i < tv_size v \<and> t \<in> set (get_tv b v ! i))"
    using assms by (auto simp: sized_def in_set_conv_nth) (metis nth_mem)+
  finally show ?thesis .
qed

lemma wheel_dom: "wheel_ok A ts b D \<Longrightarrow> dom D = set (all_timers b)"
  unfolding wheel_ok_def by (metis finite_set_mset_mset_set set_mset_mset)

lemma on_list_iff:
  assumes "timer_ok s D"
  shows "on_list s t \<longleftrightarrow> pending (timers s t)"
proof -
  have "t \<in> set (all_timers (base s)) \<longleftrightarrow> (\<exists>v \<in> {TV1, TV2, TV3, TV4, TV5}. \<exists>l \<in> set (get_tv (base s) v). t \<in> set l)"
    by (auto simp: all_timers_def)
  then show ?thesis using assms wheel_dom [of "{}" "timers s" "base s" D] by (auto simp: on_list_def timer_ok_def)
qed

definition unlink :: "nat \<Rightarrow> tvec_base \<Rightarrow> tvec_base" where
  "unlink t b = b\<lparr>tv1 := map (removeAll t) (tv1 b), tv2 := map (removeAll t) (tv2 b), tv3 := map (removeAll t) (tv3 b),
     tv4 := map (removeAll t) (tv4 b), tv5 := map (removeAll t) (tv5 b)\<rparr>"

lemma get_unlink [simp]: "get_tv (unlink t b) v = map (removeAll t) (get_tv b v)" "timer_jiffies (unlink t b) = timer_jiffies b"
  by (cases v) (simp_all add: unlink_def)

lemma list_del_eq: "on_list s t \<Longrightarrow> list_del t s = Some (s\<lparr>work_list := removeAll t (work_list s), base := unlink t (base s)\<rparr>)"
  by (simp add: list_del_def unlink_def)

lemma concat_removeAll: "concat (map (removeAll t) ls) = removeAll t (concat ls)"
  by (induction ls) simp_all

lemma all_timers_unlink: "all_timers (unlink t b) = removeAll t (all_timers b)"
  by (simp add: all_timers_def unlink_def concat_removeAll)

lemma wheel_unlink:
  assumes ok: "wheel_ok A ts b D"
  shows "wheel_ok A ts (unlink t b) (D(t := None))"
proof -
  have sz: "sized b" using ok by (simp add: wheel_ok_def)
  have "{u \<in> dom D. t \<noteq> u} = dom D - {t}" by auto
  then have "mset (all_timers (unlink t b)) = mset_set (dom D - {t})" using ok
    by (simp add: wheel_ok_def all_timers_unlink removeAll_filter_not_eq mset_filter filter_mset_mset_set)
  moreover have "\<exists>d. (D(t := None)) u = Some d \<and> dist (timer_jiffies b) d < 2 ^ 63 \<and> placed A (timer_jiffies b) d (v, i) \<and> (v \<noteq> TV1 \<longrightarrow> expires (ts u) = d)"
    if i: "i < tv_size v" and u: "u \<in> set (get_tv (unlink t b) v ! i)" for v i u
  proof -
    have "u \<in> set (get_tv b v ! i)" "u \<noteq> t" using u i sz by (simp_all add: sized_def)
    then show ?thesis using wheel_okD [OF ok i] by (metis fun_upd_other)
  qed
  ultimately show ?thesis using ok sz unfolding wheel_ok_def by (simp add: sized_def)
qed

lemma timers_set_timer [simp]: "timers (set_timer s t v) = (timers s)(t := v)" "base (set_timer s t v) = base s"
  "work_list (set_timer s t v) = work_list s" "jiffies (set_timer s t v) = jiffies s"
  by (simp_all add: set_timer_def)

lemma check_timer_frame [simp]:
  "base (check_timer s t) = base s" "work_list (check_timer s t) = work_list s" "jiffies (check_timer s t) = jiffies s"
  "expires (timers (check_timer s t) u) = expires (timers s u)" "pending (timers (check_timer s t) u) = pending (timers s u)"
  "callback (timers (check_timer s t) u) = callback (timers s u)"
  by (simp_all add: check_timer_def check_timer_failed_def)

lemma timer_ok_frame:
  assumes "timer_ok s D" "base s' = base s" "work_list s' = work_list s" "\<And>t. pending (timers s' t) = pending (timers s t)"
    "\<And>t. t \<in> dom D \<Longrightarrow> expires (timers s' t) = expires (timers s t)"
  shows "timer_ok s' D"
  using assms wheel_frame [of "{}" "timers s" "base s" D "timers s'"] by (auto simp: timer_ok_def)

lemma timer_ok_del:
  assumes ok: "timer_ok s D" and p: "pending (timers s t)"
  shows "\<exists>s'. list_del t s = Some s' \<and> timer_ok (set_timer s' t ((timers s' t)\<lparr>pending := False\<rparr>)) (D(t := None)) \<and>
    timers s' = timers s \<and> jiffies s' = jiffies s \<and> work_list s' = removeAll t (work_list s) \<and> timer_jiffies (base s') = timer_jiffies (base s)"
proof -
  let ?s = "s\<lparr>work_list := removeAll t (work_list s), base := unlink t (base s)\<rparr>"
  have d: "list_del t s = Some ?s" using p on_list_iff [OF ok] by (simp add: list_del_eq)
  have "wheel_ok {} (timers s) (unlink t (base s)) (D(t := None))" using ok by (simp add: timer_ok_def wheel_unlink)
  then have "wheel_ok {} ((timers s)(t := (timers s t)\<lparr>pending := False\<rparr>)) (unlink t (base s)) (D(t := None))" by (rule wheel_frame) auto
  then have "timer_ok (set_timer ?s t ((timers ?s t)\<lparr>pending := False\<rparr>)) (D(t := None))" using ok by (auto simp: timer_ok_def distinct_removeAll)
  then show ?thesis using d by simp
qed

lemma timer_ok_insert:
  assumes ok: "timer_ok s D" and p: "\<not> pending (timers s t)" and ex: "expires (timers s t) = e"
  shows "timer_ok (set_timer (s\<lparr>base := internal_add_timer (base s) t e\<rparr>) t ((timers s t)\<lparr>pending := True\<rparr>)) (D(t \<mapsto> due (timer_jiffies (base s)) e))"
proof -
  have "D t = None" "t \<notin> set (work_list s)" using ok p by (auto simp: timer_ok_def)
  have "wheel_ok {} (timers s) (internal_add_timer (base s) t e) (D(t \<mapsto> due (timer_jiffies (base s)) e))"
    using ok \<open>D t = None\<close> ex by (intro wheel_add) (simp_all add: timer_ok_def)
  then have "wheel_ok {} ((timers s)(t := (timers s t)\<lparr>pending := True\<rparr>)) (internal_add_timer (base s) t e) (D(t \<mapsto> due (timer_jiffies (base s)) e))"
    by (rule wheel_frame) auto
  then show ?thesis using ok \<open>D t = None\<close> \<open>t \<notin> set (work_list s)\<close> by (auto simp: timer_ok_def)
qed


lemma mod_timer_nocheck_ok:
  assumes ok: "timer_ok s D" and c: "callback (timers s t) \<noteq> None"
  shows "\<exists>s'. mod_timer_nocheck s t e = Some (if pending (timers s t) then 1 else 0, s') \<and> timer_ok s' (D(t \<mapsto> due (timer_jiffies (base s)) e)) \<and>
    work_list s' = removeAll t (work_list s) \<and> timer_jiffies (base s') = timer_jiffies (base s) \<and> jiffies s' = jiffies s \<and> expires (timers s' t) = e"
proof -
  define s1 where "s1 = check_timer s t"
  have ok1: "timer_ok s1 D" unfolding s1_def by (rule timer_ok_frame [OF ok]) simp_all
  have fr: "pending (timers s1 t) = pending (timers s t)" "callback (timers s1 t) = callback (timers s t)" "work_list s1 = work_list s"
    "timer_jiffies (base s1) = timer_jiffies (base s)" "jiffies s1 = jiffies s" by (simp_all add: s1_def)
  obtain s2 where s2: "(if pending (timers s1 t) then list_del t s1 else Some s1) = Some s2" "timer_jiffies (base s2) = timer_jiffies (base s)"
    "timer_ok (set_timer s2 t ((timers s2 t)\<lparr>expires := e, pending := False\<rparr>)) (D(t := None))" "work_list s2 = removeAll t (work_list s)" "jiffies s2 = jiffies s"
  proof (cases "pending (timers s1 t)")
    case True
    from timer_ok_del [OF ok1 this] obtain s2 where s2: "list_del t s1 = Some s2" "timer_ok (set_timer s2 t ((timers s2 t)\<lparr>pending := False\<rparr>)) (D(t := None))"
      "jiffies s2 = jiffies s1" "work_list s2 = removeAll t (work_list s1)" "timer_jiffies (base s2) = timer_jiffies (base s1)" by blast
    have "timer_ok (set_timer s2 t ((timers s2 t)\<lparr>expires := e, pending := False\<rparr>)) (D(t := None))" by (rule timer_ok_frame [OF s2(2)]) auto
    then show ?thesis using that s2 True fr by simp
  next
    case False
    then have n: "D t = None" "t \<notin> set (work_list s1)" using ok1 by (auto simp: timer_ok_def)
    have "timer_ok (set_timer s1 t ((timers s1 t)\<lparr>expires := e, pending := False\<rparr>)) D" using n False by (intro timer_ok_frame [OF ok1]) auto
    then show ?thesis using that [of s1] False fr n by (simp add: fun_upd_idem)
  qed
  define s3 where "s3 = set_timer s2 t ((timers s2 t)\<lparr>expires := e, pending := False\<rparr>)"
  have "timer_ok (set_timer (s3\<lparr>base := internal_add_timer (base s3) t e\<rparr>) t ((timers s3 t)\<lparr>pending := True\<rparr>))
    (D(t \<mapsto> due (timer_jiffies (base s)) e))" (is "timer_ok ?s4 _")
    using timer_ok_insert [OF s2(3) [folded s3_def], of t e] s2(2) by (simp add: s3_def)
  moreover have "mod_timer_nocheck s t e = Some (if pending (timers s t) then 1 else 0, ?s4)"
    using s2(1) c fr by (cases "pending (timers s t)") (auto simp: mod_timer_nocheck_def s1_def [symmetric] BUG_ON_def s3_def set_timer_def Let_def)
  ultimately show ?thesis using s2 by (simp add: s3_def)
qed

lemma add_timer_on_ok:
  assumes ok: "timer_ok s D" and c: "callback (timers s t) \<noteq> None" and p: "\<not> pending (timers s t)"
  shows "\<exists>s'. add_timer_on s t = Some s' \<and> timer_ok s' (D(t \<mapsto> due (timer_jiffies (base s)) (expires (timers s t)))) \<and>
    work_list s' = removeAll t (work_list s) \<and> timer_jiffies (base s') = timer_jiffies (base s)"
proof -
  have ok1: "timer_ok (check_timer s t) D" by (rule timer_ok_frame [OF ok]) simp_all
  have "t \<notin> set (work_list s)" using ok p by (auto simp: timer_ok_def)
  then show ?thesis using timer_ok_insert [OF ok1, of t "expires (timers s t)"] p c
    by (auto simp: add_timer_on_def BUG_ON_def timer_pending_def Let_def set_timer_def)
qed

lemma del_timer_ok:
  assumes ok: "timer_ok s D"
  shows "\<exists>s'. del_timer s t = Some (if pending (timers s t) then 1 else 0, s') \<and> timer_ok s' (D(t := None)) \<and> \<not> pending (timers s' t) \<and>
    work_list s' = removeAll t (work_list s) \<and> timer_jiffies (base s') = timer_jiffies (base s) \<and> jiffies s' = jiffies s"
proof -
  have ok1: "timer_ok (check_timer s t) D" by (rule timer_ok_frame [OF ok]) simp_all
  show ?thesis
  proof (cases "pending (timers s t)")
    case True
    then show ?thesis using timer_ok_del [OF ok1, of t] by (auto simp: del_timer_def)
  next
    case False
    then have "D t = None" "t \<notin> set (work_list s)" using ok by (auto simp: timer_ok_def)
    then show ?thesis using False ok1 by (simp add: del_timer_def Let_def fun_upd_idem)
  qed
qed

lemma run_timers_next_ok:
  assumes ok: "timer_ok s D" and w: "work_list s = t # ts"
  shows "\<exists>s'. run_timers_next s = Some ((t, callback (timers s t), timer_data (timers s t)), s') \<and> timer_ok s' D \<and> \<not> pending (timers s' t) \<and>
    work_list s' = ts \<and> timer_jiffies (base s') = timer_jiffies (base s) \<and> jiffies s' = jiffies s"
proof -
  have t: "D t = None" "pending (timers s t)" "t \<notin> set ts" using ok w by (auto simp: timer_ok_def)
  then have "D(t := None) = D" by (simp add: fun_upd_idem)
  then show ?thesis using timer_ok_del [OF ok t(2)] t w by (auto simp: run_timers_next_def)
qed

lemma wheel_tick:
  assumes ok: "wheel_ok UNIV ts b D" and n: "\<And>t. D t \<noteq> Some (timer_jiffies b)"
  shows "wheel_ok {} ts (b\<lparr>timer_jiffies := timer_jiffies b + 1\<rparr>) D"
proof -
  let ?b = "b\<lparr>timer_jiffies := timer_jiffies b + 1\<rparr>"
  have g: "get_tv ?b v = get_tv b v" for v by (cases v) simp_all
  have "\<exists>d. D t = Some d \<and> dist (timer_jiffies ?b) d < 2 ^ 63 \<and> placed {} (timer_jiffies ?b) d (v, i) \<and> (v \<noteq> TV1 \<longrightarrow> expires (ts t) = d)"
    if i: "i < tv_size v" and t: "t \<in> set (get_tv b v ! i)" for v i t
  proof -
    obtain d where "D t = Some d" "dist (timer_jiffies b) d < 2 ^ 63" "placed UNIV (timer_jiffies b) d (v, i)" "v \<noteq> TV1 \<longrightarrow> expires (ts t) = d"
      using wheel_okD [OF ok i t] by metis
    then show ?thesis using n [of t] dist_next [of d "timer_jiffies b"] placed_tick by auto
  qed
  moreover have "sized ?b" "finite (dom D)" "mset (all_timers ?b) = mset_set (dom D)"
    using ok by (simp_all add: wheel_ok_def sized_def g all_timers_def)
  ultimately show ?thesis unfolding wheel_ok_def g by blast
qed

lemma due_list:
  assumes ok: "wheel_ok UNIV ts b D"
  shows "set (tv1 b ! (unat (timer_jiffies b) mod 256)) = {t. D t = Some (timer_jiffies b)}"
proof (intro set_eqI iffI)
  have i: "unat (timer_jiffies b) mod 256 < tv_size TV1" by (simp add: tv_size_def)
  fix t
  {
    assume "t \<in> set (tv1 b ! (unat (timer_jiffies b) mod 256))"
    then show "t \<in> {t. D t = Some (timer_jiffies b)}" using wheel_okD [OF ok i, of t] placed_now by (metis get_tv.simps(1) mem_Collect_eq)
  next
    assume t: "t \<in> {t. D t = Some (timer_jiffies b)}"
    then have "t \<in> set (all_timers b)" using wheel_dom [OF ok] by auto
    then obtain v i where vi: "i < tv_size v" "t \<in> set (get_tv b v ! i)" using in_all_timers ok by (auto simp: wheel_ok_def)
    then have "placed UNIV (timer_jiffies b) (timer_jiffies b) (v, i)" using t by (elim wheel_okD [OF ok]) auto
    then show "t \<in> set (tv1 b ! (unat (timer_jiffies b) mod 256))" using placed_due vi by force
  }
qed

lemma run_timers_round_ok:
  assumes ok: "timer_ok s D" and w: "work_list s = []"
  shows "\<exists>s'. run_timers_round s = Some s' \<and> timer_ok s' (D |` {t. D t \<noteq> Some (timer_jiffies (base s))}) \<and>
    set (work_list s') = {t. D t = Some (timer_jiffies (base s))} \<and> timer_jiffies (base s') = timer_jiffies (base s) + 1 \<and> jiffies s' = jiffies s"
proof -
  let ?now = "timer_jiffies (base s)" let ?i = "unat ?now mod 256"
  have p: "pending (timers s t)" if "t \<in> dom D" for t using ok that by (simp add: timer_ok_def)
  have ok0: "wheel_ok {} (timers s) (base s) D" using ok by (simp add: timer_ok_def)
  obtain b where b: "(if ?i = 0 then cascade_all (timers s) (base s) else Some (base s)) = Some b" "timer_jiffies b = ?now" "wheel_ok UNIV (timers s) b D"
  proof (cases "?i = 0")
    case True
    then show ?thesis using that wheel_cascade_all [OF ok0 _ p] by (auto simp: dvd_eq_mod_eq_0)
  next
    case False
    then have "v = TV1 \<or> \<not> 2 ^ tv_shift v dvd unat ?now" for v using not_aligned_up [of 8 "unat ?now" "tv_shift v"] by (cases v) (auto simp: dvd_eq_mod_eq_0)
    then show ?thesis using that False wheel_more [OF ok0, of UNIV] by auto
  qed
  let ?l = "tv1 b ! ?i" let ?D = "D |` {t. D t \<noteq> Some ?now}" let ?b = "put_list (TV1, ?i) [] b"
  have i: "?i < tv_size TV1" by (simp add: tv_size_def)
  have l: "set ?l = {t. D t = Some ?now}" using due_list [OF b(3)] b(2) by simp
  then have "- set ?l = {t. D t \<noteq> Some ?now}" by auto
  then have "wheel_ok UNIV (timers s) ?b ?D" using wheel_cleared [OF b(3) i, of UNIV] by simp
  then have okb: "wheel_ok {} (timers s) (?b\<lparr>timer_jiffies := ?now + 1\<rparr>) ?D" using wheel_tick [of "timers s" ?b ?D] b(2) by (simp add: restrict_map_def)
  let ?s = "s\<lparr>work_list := ?l, base := ?b\<lparr>timer_jiffies := ?now + 1\<rparr>\<rparr>"
  have "run_timers_round s = Some ?s" using b(1,2) by (auto simp: run_timers_round_def Let_def and_mask put_list_def)
  moreover have "timer_ok ?s ?D" using okb l wheel_clear(1) [OF b(3) i] ok w by (auto simp: timer_ok_def restrict_map_def split: if_splits)
  ultimately show ?thesis using l by auto
qed

end
