(* ===== verification/TimerProps.thy ===== *)
theory TimerProps
  imports TimerInv
begin

text \<open>
  The timers of \<^verbatim>\<open>kernel/timer.c\<close> under every interleaving of their callers with \<^verbatim>\<open>__run_timers\<close>: the step relation, the contract
  of a queue of timers with what follows from it, the interpretation on the wheel, and the properties.
\<close>

unbundle bit_operations_syntax

section \<open>Interleavings\<close>

text \<open>
  What can happen to the timers between two points where the lock is held: a caller prepares an idle timer, starts it, changes it to the same time
  again, stops it; \<^verbatim>\<open>__run_timers\<close> starts a round or calls the next function; the clock advances.
\<close>

datatype timer_event = Setup nat | Start nat ulong | Keep nat | Stop nat | Tick | Run nat | Clock

inductive timer_step :: "timer_state \<Rightarrow> timer_event \<Rightarrow> timer_state \<Rightarrow> bool" where
  prepare: "\<not> timer_pending s t \<Longrightarrow> timer_step s (Setup t) (set_timer s t (v\<lparr>pending := False\<rparr>))"
| mod_same: "mod_timer s t e = Some (r, s') \<Longrightarrow> expires (timers s t) = e \<Longrightarrow> timer_pending s t \<Longrightarrow> timer_step s (Keep t) s'"
| mod: "mod_timer s t e = Some (r, s') \<Longrightarrow> expires (timers s t) \<noteq> e \<or> \<not> timer_pending s t \<Longrightarrow> timer_step s (Start t e) s'"
| add: "add_timer s t = Some s' \<Longrightarrow> timer_step s (Start t (expires (timers s t))) s'"
| add_on: "add_timer_on s t = Some s' \<Longrightarrow> timer_step s (Start t (expires (timers s t))) s'"
| del: "del_timer s t = Some (r, s') \<Longrightarrow> timer_step s (Stop t) s'"
| tick: "time_after_eq (jiffies s) (timer_jiffies (base s)) \<Longrightarrow> work_list s = [] \<Longrightarrow> run_timers_round s = Some s' \<Longrightarrow> timer_step s Tick s'"
| run: "run_timers_next s = Some ((t, f, x), s') \<Longrightarrow> timer_step s (Run t) s'"
| clock: "time_after_eq (jiffies s + 1) (timer_jiffies (base s)) \<Longrightarrow> timer_step s Clock (s\<lparr>jiffies := jiffies s + 1\<rparr>)"

inductive_cases timer_stepE: "timer_step s ev s'"

inductive trace :: "('s \<Rightarrow> 'e \<Rightarrow> 's \<Rightarrow> bool) \<Rightarrow> 's \<Rightarrow> 'e list \<Rightarrow> 's \<Rightarrow> bool" for step where
  trace_nil: "trace step s [] s"
| trace_cons: "step s e s' \<Longrightarrow> trace step s' es s'' \<Longrightarrow> trace step s (e # es) s''"

definition touches :: "nat \<Rightarrow> timer_event \<Rightarrow> bool" where
  "touches t ev \<longleftrightarrow> (case ev of Start u _ \<Rightarrow> u = t | Stop u \<Rightarrow> u = t | _ \<Rightarrow> False)"

text \<open>
  The contract of a queue of timers that is run tick by tick: \<open>ok s D\<close> relates a state to the due ticks of its timers, \<open>now\<close> is the next tick that
  will be run, \<open>work\<close> are the timers of the tick that is being run, and \<open>lag\<close> is how many ticks of the clock have not been run.
\<close>

locale tick_queue =
  fixes ok :: "'s \<Rightarrow> (nat \<rightharpoonup> ulong) \<Rightarrow> bool" and now :: "'s \<Rightarrow> ulong" and work :: "'s \<Rightarrow> nat list" and lag :: "'s \<Rightarrow> nat"
    and step :: "'s \<Rightarrow> timer_event \<Rightarrow> 's \<Rightarrow> bool"
  assumes work_ok: "ok s D \<Longrightarrow> distinct (work s) \<and> set (work s) \<inter> dom D = {}"
    and start: "ok s D \<Longrightarrow> step s (Start t e) s' \<Longrightarrow> ok s' (D(t \<mapsto> due (now s) e)) \<and> work s' = removeAll t (work s) \<and> now s' = now s \<and> lag s' = lag s"
    and stop: "ok s D \<Longrightarrow> step s (Stop t) s' \<Longrightarrow> ok s' (D(t := None)) \<and> work s' = removeAll t (work s) \<and> now s' = now s \<and> lag s' = lag s"
    and prepare: "ok s D \<Longrightarrow> step s (Setup t) s' \<Longrightarrow> ok s' D \<and> work s' = work s \<and> now s' = now s \<and> lag s' = lag s"
    and keep: "ok s D \<Longrightarrow> step s (Keep t) s' \<Longrightarrow> ok s' D \<and> work s' = work s \<and> now s' = now s \<and> lag s' = lag s"
    and clock: "ok s D \<Longrightarrow> step s Clock s' \<Longrightarrow> ok s' D \<and> work s' = work s \<and> now s' = now s \<and> lag s' = lag s + 1"
    and tick: "ok s D \<Longrightarrow> step s Tick s' \<Longrightarrow> work s = [] \<and> ok s' (D |` {t. D t \<noteq> Some (now s)}) \<and> set (work s') = {t. D t = Some (now s)} \<and>
      now s' = now s + 1 \<and> lag s = lag s' + 1"
    and run: "ok s D \<Longrightarrow> step s (Run t) s' \<Longrightarrow> work s = t # work s' \<and> ok s' D \<and> now s' = now s \<and> lag s' = lag s"
begin

text \<open>A step that neither touches the timer nor runs it nor is a round leaves it where it is.\<close>

lemma quiet:
  assumes ok: "ok s D" and st: "step s ev s'" and nt: "\<not> touches t ev" "ev \<noteq> Tick" "ev \<noteq> Run t"
  obtains D' where "ok s' D'" "D' t = D t" "t \<in> set (work s') \<longleftrightarrow> t \<in> set (work s)" "now s' = now s"
proof (cases ev)
  case (Setup u)
  then show ?thesis using prepare [OF ok, of u s'] st that [of D] by simp
next
  case (Start u e)
  then show ?thesis using start [OF ok, of u e s'] st nt that [of "D(u \<mapsto> due (now s) e)"] by (auto simp: touches_def)
next
  case (Keep u)
  then show ?thesis using keep [OF ok, of u s'] st that [of D] by simp
next
  case (Stop u)
  then show ?thesis using stop [OF ok, of u s'] st nt that [of "D(u := None)"] by (auto simp: touches_def)
next
  case (Run u)
  then show ?thesis using run [OF ok, of u s'] st nt that [of D] by auto
next
  case Clock
  then show ?thesis using clock [OF ok, of s'] st that [of D] by simp
qed (use nt in simp)

lemma trace_done:
  assumes "trace step s es s'" "ok s D" "D t = None" "t \<notin> set (work s)" "\<forall>ev \<in> set es. \<not> touches t ev"
  shows "count_list es (Run t) = 0 \<and> t \<notin> set (work s')"
  using assms
proof (induction arbitrary: D)
  case (trace_cons s ev s1 es s2)
  have nt: "\<not> touches t ev" "\<forall>ev \<in> set es. \<not> touches t ev" using trace_cons.prems(4) by auto
  note IH = trace_cons.IH [OF _ _ _ nt(2)] and ok = trace_cons.prems(1) and st = trace_cons.hyps(1)
  have ne: "ev \<noteq> Run t" using run [OF ok, of t s1] st trace_cons.prems(3) by auto
  show ?case
  proof (cases "ev = Tick")
    case True
    then show ?thesis using IH [of "D |` {t. D t \<noteq> Some (now s)}"] tick [OF ok, of s1] st trace_cons.prems(2) by (auto simp: restrict_map_def)
  next
    case False
    then obtain D' where "ok s1 D'" "D' t = D t" "t \<in> set (work s1) \<longleftrightarrow> t \<in> set (work s)" using quiet [OF ok st nt(1) _ ne] by metis
    then show ?thesis using IH [of D'] trace_cons.prems(2,3) ne by simp
  qed
qed simp

lemma trace_due:
  assumes "trace step s es s'" "ok s D" "t \<in> set (work s)" "\<forall>ev \<in> set es. \<not> touches t ev"
  shows "count_list es (Run t) = (if t \<in> set (work s') then 0 else 1) \<and> (t \<in> set (work s') \<longrightarrow> count_list es Tick = 0)"
  using assms
proof (induction arbitrary: D)
  case (trace_cons s ev s1 es s2)
  have nt: "\<not> touches t ev" "\<forall>ev \<in> set es. \<not> touches t ev" using trace_cons.prems(3) by auto
  note IH = trace_cons.IH [OF _ _ nt(2)] and ok = trace_cons.prems(1) and st = trace_cons.hyps(1)
  have ne: "ev \<noteq> Tick" using tick [OF ok, of s1] st trace_cons.prems(2) by auto
  show ?case
  proof (cases "ev = Run t")
    case True
    then have w: "work s = t # work s1" "ok s1 D" using run [OF ok, of t s1] st by auto
    then have "D t = None" "t \<notin> set (work s1)" using work_ok [OF ok] by auto
    then show ?thesis using trace_done [OF trace_cons.hyps(2) w(2), of t] nt(2) True by simp
  next
    case False
    then obtain D' where "ok s1 D'" "t \<in> set (work s1) \<longleftrightarrow> t \<in> set (work s)" using quiet [OF ok st nt(1) ne] by metis
    then show ?thesis using IH [of D'] trace_cons.prems(2) ne False by simp
  qed
qed simp

text \<open>A timer that nobody touches runs once, in the round of its due tick.\<close>

lemma on_time:
  assumes "trace step s es s'" "ok s D" "D t = Some d" "\<forall>ev \<in> set es. \<not> touches t ev"
  shows "count_list es (Run t) = (if count_list es Tick \<le> dist (now s) d \<or> t \<in> set (work s') then 0 else 1) \<and>
    (t \<in> set (work s') \<longrightarrow> count_list es Tick = dist (now s) d + 1)"
  using assms
proof (induction arbitrary: D)
  case (trace_nil s)
  then show ?case using work_ok by fastforce
next
  case (trace_cons s ev s1 es s2)
  have nt: "\<not> touches t ev" "\<forall>ev \<in> set es. \<not> touches t ev" using trace_cons.prems(3) by auto
  note IH = trace_cons.IH [OF _ _ nt(2)] and ok = trace_cons.prems(1) and st = trace_cons.hyps(1)
  have ne: "ev \<noteq> Run t" using run [OF ok, of t s1] st work_ok [OF ok] trace_cons.prems(2) by auto
  consider "ev \<noteq> Tick" | "ev = Tick" "d = now s" | "ev = Tick" "d \<noteq> now s" by blast
  then show ?case
  proof cases
    case 1
    then obtain D' where "ok s1 D'" "D' t = D t" "now s1 = now s" using quiet [OF ok st nt(1) _ ne] by metis
    then show ?thesis using IH [of D'] trace_cons.prems(2) 1 ne by simp
  next
    case 2
    then show ?thesis using trace_due [OF trace_cons.hyps(2), of _ t] tick [OF ok, of s1] st trace_cons.prems(2) nt(2) by auto
  next
    case 3
    then have "0 < dist (now s) d" by (metis dist_eq_0 neq0_conv)
    then show ?thesis using 3 IH [of "D |` {t. D t \<noteq> Some (now s)}"] tick [OF ok, of s1] st trace_cons.prems(2) dist_next [OF 3(2)]
      by (auto simp: restrict_map_def)
  qed
qed

lemma step_lag:
  assumes ok: "ok s D" and st: "step s ev s'"
  shows "(\<exists>D'. ok s' D') \<and> (if ev = Tick then 1 else 0) + lag s' = lag s + (if ev = Clock then 1 else 0)"
proof (cases ev)
  case (Setup u)
  then show ?thesis using prepare [OF ok, of u s'] st by auto
next
  case (Start u e)
  then show ?thesis using start [OF ok, of u e s'] st by auto
next
  case (Keep u)
  then show ?thesis using keep [OF ok, of u s'] st by auto
next
  case (Stop u)
  then show ?thesis using stop [OF ok, of u s'] st by auto
next
  case Tick
  then show ?thesis using tick [OF ok, of s'] st by auto
next
  case (Run u)
  then show ?thesis using run [OF ok, of u s'] st by auto
next
  case Clock
  then show ?thesis using clock [OF ok, of s'] st by auto
qed

lemma trace_lag:
  assumes "trace step s es s'" "ok s D"
  shows "count_list es Tick + lag s' = lag s + count_list es Clock"
  using assms
proof (induction arbitrary: D)
  case (trace_cons s ev s1 es s2)
  then obtain D' where "ok s1 D'" "(if ev = Tick then 1 else 0) + lag s1 = lag s + (if ev = Clock then 1 else 0)" using step_lag by blast
  then show ?case using trace_cons.IH [of D'] by (auto split: if_splits)
qed simp

text \<open>A timer does not run before the clock has reached its due tick.\<close>

lemma not_early:
  assumes "trace step s es s'" "ok s D" "D t = Some d" "\<forall>ev \<in> set es. \<not> touches t ev" "Run t \<in> set es"
  shows "dist (now s) d < lag s + count_list es Clock"
proof -
  have "count_list es (Run t) \<noteq> 0" using assms(5) by (simp add: count_list_0_iff)
  then have "dist (now s) d < count_list es Tick" using on_time [OF assms(1-4)] by (auto split: if_splits)
  then show ?thesis using trace_lag [OF assms(1,2)] by linarith
qed

end


section \<open>The timer wheel keeps the contract\<close>

definition timer_lag :: "timer_state \<Rightarrow> nat" where
  "timer_lag s = unat (jiffies s + 1 - timer_jiffies (base s))"

lemma mod_timer_ok:
  assumes ok: "timer_ok s D" and c: "callback (timers s t) \<noteq> None"
  shows "\<exists>s'. mod_timer s t e = Some (if pending (timers s t) then 1 else 0, s') \<and>
    (if expires (timers s t) = e \<and> pending (timers s t) then timer_ok s' D \<and> work_list s' = work_list s
     else timer_ok s' (D(t \<mapsto> due (timer_jiffies (base s)) e)) \<and> work_list s' = removeAll t (work_list s)) \<and>
    timer_jiffies (base s') = timer_jiffies (base s) \<and> jiffies s' = jiffies s"
proof -
  have ok1: "timer_ok (check_timer s t) D" by (rule timer_ok_frame [OF ok]) simp_all
  have "mod_timer_nocheck (check_timer s t) t e = mod_timer_nocheck s t e"
    by (simp add: mod_timer_nocheck_def check_timer_def check_timer_failed_def set_timer_def)
  then show ?thesis using mod_timer_nocheck_ok [OF ok c, of e] ok1 c by (auto simp: mod_timer_def BUG_ON_def timer_pending_def Let_def)
qed

lemma no_callback: "callback (timers s t) = None \<Longrightarrow> mod_timer s t e = None \<and> add_timer s t = None \<and> add_timer_on s t = None"
  by (simp add: mod_timer_def add_timer_def add_timer_on_def mod_timer_nocheck_def BUG_ON_def)

lemma timer_lag_eq: "jiffies s' = jiffies s \<Longrightarrow> timer_jiffies (base s') = timer_jiffies (base s) \<Longrightarrow> timer_lag s' = timer_lag s"
  by (simp add: timer_lag_def)

lemma add_timer_on_jiffies: "add_timer_on s t = Some s' \<Longrightarrow> jiffies s' = jiffies s"
  by (auto simp: add_timer_on_def BUG_ON_def Let_def split: if_splits)

lemma start_step:
  assumes ok: "timer_ok s D" and st: "timer_step s (Start t e) s'"
  shows "timer_ok s' (D(t \<mapsto> due (timer_jiffies (base s)) e)) \<and> work_list s' = removeAll t (work_list s) \<and>
    timer_jiffies (base s') = timer_jiffies (base s) \<and> timer_lag s' = timer_lag s"
  using st
proof (cases rule: timer_step.cases)
  case (mod r)
  then have "callback (timers s t) \<noteq> None" using no_callback by fastforce
  from mod_timer_ok [OF ok this, of e] mod show ?thesis by (auto simp: timer_pending_def intro: timer_lag_eq)
next
  case add
  then have "callback (timers s t) \<noteq> None" using no_callback by fastforce
  from mod_timer_nocheck_ok [OF ok this, of e] add show ?thesis by (auto simp: add_timer_def intro: timer_lag_eq)
next
  case add_on
  then have c: "callback (timers s t) \<noteq> None" using no_callback by fastforce
  moreover have "\<not> pending (timers s t)" using add_on by (auto simp: add_timer_on_def BUG_ON_def timer_pending_def split: if_splits)
  ultimately show ?thesis using add_timer_on_ok [OF ok, of t] add_on add_timer_on_jiffies [of s t s'] by (auto intro: timer_lag_eq)
qed

lemma keep_step:
  assumes ok: "timer_ok s D" and st: "timer_step s (Keep t) s'"
  shows "timer_ok s' D \<and> work_list s' = work_list s \<and> timer_jiffies (base s') = timer_jiffies (base s) \<and> timer_lag s' = timer_lag s"
  using st
proof (cases rule: timer_step.cases)
  case (mod_same e r)
  then have "callback (timers s t) \<noteq> None" using no_callback by fastforce
  from mod_timer_ok [OF ok this, of e] mod_same show ?thesis by (auto simp: timer_pending_def intro: timer_lag_eq)
qed

lemma stop_step:
  assumes ok: "timer_ok s D" and st: "timer_step s (Stop t) s'"
  shows "timer_ok s' (D(t := None)) \<and> work_list s' = removeAll t (work_list s) \<and>
    timer_jiffies (base s') = timer_jiffies (base s) \<and> timer_lag s' = timer_lag s"
  using st del_timer_ok [OF ok, of t] by (cases rule: timer_step.cases) (auto intro: timer_lag_eq)

lemma setup_step:
  assumes ok: "timer_ok s D" and st: "timer_step s (Setup t) s'"
  shows "timer_ok s' D \<and> work_list s' = work_list s \<and> timer_jiffies (base s') = timer_jiffies (base s) \<and> timer_lag s' = timer_lag s"
  using st
proof (cases rule: timer_step.cases)
  case (prepare v)
  then have "t \<notin> dom D" using ok by (auto simp: timer_ok_def timer_pending_def)
  then have "timer_ok s' D" using prepare by (intro timer_ok_frame [OF ok]) (auto simp: timer_pending_def)
  then show ?thesis using prepare by (auto intro: timer_lag_eq)
qed

lemma unat_suc: "unat x < 2 ^ 63 \<Longrightarrow> unat (x + 1 :: ulong) = unat x + 1"
  by (simp add: unat_word_ariths)

lemma clock_step:
  assumes ok: "timer_ok s D" and st: "timer_step s Clock s'"
  shows "timer_ok s' D \<and> work_list s' = work_list s \<and> timer_jiffies (base s') = timer_jiffies (base s) \<and> timer_lag s' = timer_lag s + 1"
  using st
proof (cases rule: timer_step.cases)
  case clock
  let ?x = "jiffies s + 1 - timer_jiffies (base s)"
  have "unat ?x < 2 ^ 63" using clock(2) bit_63 [of ?x] by (simp add: time_after_eq_def)
  then have "unat (?x + 1) = unat ?x + 1" by (rule unat_suc)
  then have "timer_lag s' = timer_lag s + 1" using clock(1) by (simp add: timer_lag_def algebra_simps)
  moreover have "timer_ok s' D" using clock(1) by (intro timer_ok_frame [OF ok]) auto
  ultimately show ?thesis using clock(1) by simp
qed

lemma tick_step:
  assumes ok: "timer_ok s D" and st: "timer_step s Tick s'"
  shows "work_list s = [] \<and> timer_ok s' (D |` {t. D t \<noteq> Some (timer_jiffies (base s))}) \<and>
    set (work_list s') = {t. D t = Some (timer_jiffies (base s))} \<and> timer_jiffies (base s') = timer_jiffies (base s) + 1 \<and> timer_lag s = timer_lag s' + 1"
  using st
proof (cases rule: timer_step.cases)
  case tick
  let ?x = "jiffies s - timer_jiffies (base s)"
  have "unat ?x < 2 ^ 63" using tick(1) bit_63 [of ?x] by (simp add: time_after_eq_def)
  then have "unat (?x + 1) = unat ?x + 1" by (rule unat_suc)
  then have "timer_lag s = timer_lag s' + 1" if "timer_jiffies (base s') = timer_jiffies (base s) + 1" "jiffies s' = jiffies s"
    using that by (simp add: timer_lag_def algebra_simps)
  then show ?thesis using run_timers_round_ok [OF ok tick(2)] tick by auto
qed

lemma run_step:
  assumes ok: "timer_ok s D" and st: "timer_step s (Run t) s'"
  shows "work_list s = t # work_list s' \<and> timer_ok s' D \<and> timer_jiffies (base s') = timer_jiffies (base s) \<and> timer_lag s' = timer_lag s"
  using st
proof (cases rule: timer_step.cases)
  case (run f x)
  then obtain u us where w: "work_list s = u # us" by (cases "work_list s") (auto simp: run_timers_next_def)
  show ?thesis using run_timers_next_ok [OF ok w] run w by (auto intro: timer_lag_eq)
qed

interpretation wheel: tick_queue timer_ok "\<lambda>s. timer_jiffies (base s)" work_list timer_lag timer_step
proof unfold_locales
  show "distinct (work_list s) \<and> set (work_list s) \<inter> dom D = {}" if "timer_ok s D" for s D using that by (simp add: timer_ok_def)
qed (erule (1) start_step stop_step setup_step keep_step clock_step tick_step run_step)+


section \<open>Properties\<close>


lemma timer_ok_init:
  assumes "\<And>t. \<not> pending (ts t)"
  shows "timer_ok \<lparr>timers = ts, base = init_timers_cpu j, work_list = [], jiffies = j\<rparr> Map.empty"
proof -
  have g: "get_tv (init_timers_cpu j) v = replicate (tv_size v) []" for v by (cases v) (simp_all add: init_timers_cpu_def tv_size_def)
  have "all_timers (init_timers_cpu j) = []" by (simp add: all_timers_def init_timers_cpu_def concat_replicate_trivial)
  then show ?thesis using assms by (simp add: timer_ok_def wheel_ok_def sized_def g)
qed

text \<open>A state for the witnesses: an empty wheel at tick 1000 and idle timers that are set for tick 1300.\<close>

definition wheel_1000 :: timer_state where
  "wheel_1000 = \<lparr>timers = (\<lambda>t. \<lparr>expires = 1300, magic = TIMER_MAGIC, callback = Some 7, timer_data = of_nat t, pending = False\<rparr>),
     base = init_timers_cpu 1000, work_list = [], jiffies = 1000\<rparr>"

lemma wheel_1000_ok: "timer_ok wheel_1000 Map.empty"
  unfolding wheel_1000_def by (rule timer_ok_init) simp

lemma wheel_1000_simps: "pending (timers wheel_1000 t) = False" "callback (timers wheel_1000 t) = Some 7" "expires (timers wheel_1000 t) = 1300"
  "timer_jiffies (base wheel_1000) = 1000" "jiffies wheel_1000 = 1000" "work_list wheel_1000 = []"
  by (simp_all add: wheel_1000_def init_timers_cpu_def)

lemma due_future: "unat (e - now) < 2 ^ 63 \<Longrightarrow> due now e = e"
  by (simp add: due_def bit_63)

text \<open>
  C35: starting and stopping timers acts on the wheel as on a map from timers to due ticks. \<^verbatim>\<open>mod_timer\<close> of a timer with a function
  returns 1 if the timer was pending and 0 if not, and makes it due at the new tick, or at the next tick to be run if the new one is in the past; the same
  expiry again changes nothing. \<^verbatim>\<open>add_timer\<close> makes the timer due at its own expiry, and \<^verbatim>\<open>del_timer\<close> removes it, wherever it is. None of them crashes.
\<close>

theorem timer_start_stop:
  assumes "timer_ok s D" "callback (timers s t) \<noteq> None"
  shows "(\<exists>s'. mod_timer s t e = Some (if timer_pending s t then 1 else 0, s') \<and>
      timer_ok s' (if expires (timers s t) = e \<and> timer_pending s t then D else D(t \<mapsto> due (timer_jiffies (base s)) e))) \<and>
    (\<exists>s'. add_timer s t = Some s' \<and> timer_ok s' (D(t \<mapsto> due (timer_jiffies (base s)) (expires (timers s t)))) \<and> timer_pending s' t) \<and>
    (\<exists>s'. del_timer s t = Some (if timer_pending s t then 1 else 0, s') \<and> timer_ok s' (D(t := None)) \<and> \<not> timer_pending s' t)"
proof (intro conjI)
  show "\<exists>s'. mod_timer s t e = Some (if timer_pending s t then 1 else 0, s') \<and>
      timer_ok s' (if expires (timers s t) = e \<and> timer_pending s t then D else D(t \<mapsto> due (timer_jiffies (base s)) e))"
    using mod_timer_ok [OF assms, of e] by (auto simp: timer_pending_def split: if_splits)
  show "\<exists>s'. add_timer s t = Some s' \<and> timer_ok s' (D(t \<mapsto> due (timer_jiffies (base s)) (expires (timers s t)))) \<and> timer_pending s' t"
    using mod_timer_nocheck_ok [OF assms, of "expires (timers s t)"] by (auto simp: add_timer_def timer_ok_def timer_pending_def)
  show "\<exists>s'. del_timer s t = Some (if timer_pending s t then 1 else 0, s') \<and> timer_ok s' (D(t := None)) \<and> \<not> timer_pending s' t"
    using del_timer_ok [OF assms(1), of t] by (auto simp: timer_pending_def)
qed

theorem timer_start_stop_witness:
  "\<exists>s'. mod_timer wheel_1000 4 2000 = Some (0, s') \<and> timer_ok s' [4 \<mapsto> 2000]"
  using timer_start_stop [OF wheel_1000_ok, of 4 2000] by (auto simp: wheel_1000_simps timer_pending_def due_future)

text \<open>
  C13: a round of \<^verbatim>\<open>__run_timers\<close> does not crash and its cascades end. It moves exactly the timers that are due at the current tick to the work
  list, each once, whatever vector they were in; all others stay pending with their due ticks, and the tick advances by one. Every following turn of the inner
  loop takes the first timer of the work list, marks it idle, and calls its function with its argument.
\<close>

theorem timer_round:
  assumes "timer_ok s D" "work_list s = []"
  shows "\<exists>s'. run_timers_round s = Some s' \<and> distinct (work_list s') \<and> set (work_list s') = {t. D t = Some (timer_jiffies (base s))} \<and>
    timer_ok s' (D |` {t. D t \<noteq> Some (timer_jiffies (base s))}) \<and> timer_jiffies (base s') = timer_jiffies (base s) + 1 \<and>
    (\<forall>t ts. work_list s' = t # ts \<longrightarrow>
       (\<exists>s''. run_timers_next s' = Some ((t, callback (timers s' t), timer_data (timers s' t)), s'') \<and> work_list s'' = ts \<and> \<not> timer_pending s'' t))"
proof -
  obtain s' where s': "run_timers_round s = Some s'" "timer_ok s' (D |` {t. D t \<noteq> Some (timer_jiffies (base s))})"
    "set (work_list s') = {t. D t = Some (timer_jiffies (base s))}" "timer_jiffies (base s') = timer_jiffies (base s) + 1"
    using run_timers_round_ok [OF assms] by blast
  then show ?thesis using run_timers_next_ok [OF s'(2)] by (fastforce simp: timer_ok_def timer_pending_def)
qed

theorem timer_round_witness:
  "\<exists>s'. run_timers_round wheel_1000 = Some s' \<and> work_list s' = [] \<and> timer_jiffies (base s') = 1001"
  using timer_round [OF wheel_1000_ok] by (auto simp: wheel_1000_simps)

text \<open>
  C3: a timer fires on time. Let a timer be due at \<open>d\<close>, and let callers start and stop other timers, the clock tick and \<^verbatim>\<open>__run_timers\<close>
  run in any order. Then the function of the timer has been called exactly once after the round of tick \<open>d\<close> (or the timer is still on the work list of that round), and never
  before; in particular it is not called before the clock has reached \<open>d\<close>.
\<close>

theorem timer_on_time:
  assumes "timer_ok s D" "D t = Some d" "trace timer_step s es s'" "\<forall>ev \<in> set es. \<not> touches t ev"
  shows "count_list es (Run t) = (if count_list es Tick \<le> dist (timer_jiffies (base s)) d \<or> t \<in> set (work_list s') then 0 else 1) \<and>
    (t \<in> set (work_list s') \<longrightarrow> count_list es Tick = dist (timer_jiffies (base s)) d + 1) \<and>
    (Run t \<in> set es \<longrightarrow> dist (timer_jiffies (base s)) d < timer_lag s + count_list es Clock)"
  using wheel.on_time [OF assms(3,1,2,4)] wheel.not_early [OF assms(3,1,2,4)] by blast

theorem timer_on_time_witness:
  "\<exists>s s'. timer_ok s [4 \<mapsto> 1000] \<and> trace timer_step s [Tick, Run 4, Clock, Tick] s' \<and> count_list [Tick, Run 4, Clock, Tick] (Run 4) = 1 \<and> 4 \<notin> set (work_list s')"
proof -
  obtain s where s: "timer_ok s [4 \<mapsto> 1000]" "work_list s = []" "timer_jiffies (base s) = 1000" "jiffies s = 1000"
    using mod_timer_ok [OF wheel_1000_ok, of 4 1000] by (auto simp: wheel_1000_simps due_future)
  have D0: "[4 \<mapsto> 1000] |` {t. [4 \<mapsto> 1000] t \<noteq> Some (1000 :: ulong)} = Map.empty" "{t. [4 \<mapsto> 1000] t = Some (1000 :: ulong)} = {4}"
    by (auto simp: restrict_map_def fun_eq_iff split: if_splits)
  obtain s1 where s1: "timer_step s Tick s1" "timer_ok s1 Map.empty" "set (work_list s1) = {4}" "timer_jiffies (base s1) = 1001" "jiffies s1 = 1000"
    using run_timers_round_ok [OF s(1,2)] tick [of s] s D0 by (auto simp: time_after_eq_def split: if_splits)
  then have w: "work_list s1 = [4]" using s1 by (cases "work_list s1") (auto simp: timer_ok_def subset_singleton_iff)
  obtain s2 where s2: "timer_step s1 (Run 4) s2" "timer_ok s2 Map.empty" "work_list s2 = []" "timer_jiffies (base s2) = 1001" "jiffies s2 = 1000"
    using run_timers_next_ok [OF s1(2) w] run [of s1 4] s1 by auto
  let ?s3 = "s2\<lparr>jiffies := jiffies s2 + 1\<rparr>"
  have s3: "timer_step s2 Clock ?s3" "timer_ok ?s3 Map.empty" using clock [of s2] s2 by (auto simp: time_after_eq_def intro: timer_ok_frame)
  obtain s4 where s4: "timer_step ?s3 Tick s4" using run_timers_round_ok [OF s3(2)] s2 tick [of ?s3] by (auto simp: time_after_eq_def)
  have tr: "trace timer_step s [Tick, Run 4, Clock, Tick] s4"
    by (rule trace_cons, rule s1(1), rule trace_cons, rule s2(1), rule trace_cons, rule s3(1), rule trace_cons, rule s4, rule trace_nil)
  have nt: "\<forall>ev \<in> set [Tick, Run 4, Clock, Tick]. \<not> touches 4 ev" by (simp add: touches_def)
  have "[4 \<mapsto> 1000] 4 = Some (1000 :: ulong)" by simp
  note on = timer_on_time [OF s(1) this tr nt, unfolded s(3) dist_self]
  have "count_list [Tick, Run 4, Clock, Tick] Tick = 2" by simp
  then have "4 \<notin> set (work_list s4)" using on by linarith
  moreover have "count_list [Tick, Run 4, Clock, Tick] (Run 4) = 1" by simp
  ultimately show ?thesis using s(1) tr by blast
qed






end
