(* ===== verification/Vsprintf.thy ===== *)
theory Vsprintf
  imports Prelude
begin

text \<open>
  Formatted printing and scanning, \<^verbatim>\<open>lib/vsprintf.c\<close>, with the character classes of \<^verbatim>\<open>lib/ctype.c\<close>. A format is the list of its
  characters without the final NUL; reading beyond the list is reading the NUL. Variable arguments are the list of their 64-bit slots, of which an
  \<^verbatim>\<open>int\<close> uses the low half; \<open>None\<close> is a crash, and also the use of an argument that is not there. Strings are read from \<open>mem\<close>, the
  memory the caller left; the buffer overlaps none of them.
\<close>

unbundle bit_operations_syntax

section \<open>Character classes\<close>

abbreviation (input) NUL :: char where "NUL \<equiv> CHR 0x00"

abbreviation (input) CT_U :: u8 where "CT_U \<equiv> 0x01"
abbreviation (input) CT_L :: u8 where "CT_L \<equiv> 0x02"
abbreviation (input) CT_D :: u8 where "CT_D \<equiv> 0x04"
abbreviation (input) CT_C :: u8 where "CT_C \<equiv> 0x08"
abbreviation (input) CT_P :: u8 where "CT_P \<equiv> 0x10"
abbreviation (input) CT_S :: u8 where "CT_S \<equiv> 0x20"
abbreviation (input) CT_X :: u8 where "CT_X \<equiv> 0x40"
abbreviation (input) CT_SP :: u8 where "CT_SP \<equiv> 0x80"

definition ctype :: "u8 list" where
  "ctype =
     replicate 9 CT_C @ replicate 5 (CT_C OR CT_S) @ replicate 18 CT_C @
     (CT_S OR CT_SP) # replicate 15 CT_P @ replicate 10 CT_D @ replicate 7 CT_P @
     replicate 6 (CT_U OR CT_X) @ replicate 20 CT_U @ replicate 6 CT_P @
     replicate 6 (CT_L OR CT_X) @ replicate 20 CT_L @ replicate 4 CT_P @ [CT_C] @
     replicate 32 0 @
     (CT_S OR CT_SP) # replicate 31 CT_P @
     replicate 23 CT_U @ [CT_P] @ replicate 7 CT_U @ [CT_L] @
     replicate 23 CT_L @ [CT_P] @ replicate 8 CT_L"

definition ismask :: "char \<Rightarrow> u8" where
  "ismask c = ctype ! of_char c"

definition isdigit :: "char \<Rightarrow> bool" where
  "isdigit c \<longleftrightarrow> ismask c AND CT_D \<noteq> 0"

definition islower :: "char \<Rightarrow> bool" where
  "islower c \<longleftrightarrow> ismask c AND CT_L \<noteq> 0"

definition isspace :: "char \<Rightarrow> bool" where
  "isspace c \<longleftrightarrow> ismask c AND CT_S \<noteq> 0"

definition isxdigit :: "char \<Rightarrow> bool" where
  "isxdigit c \<longleftrightarrow> ismask c AND (CT_D OR CT_X) \<noteq> 0"

definition toupper :: "char \<Rightarrow> char" where
  "toupper c = (if islower c then char_of (of_char c - 32 :: nat) else c)"

definition peek :: "string \<Rightarrow> char" where
  "peek s = (case s of [] \<Rightarrow> NUL | c # _ \<Rightarrow> c)"

section \<open>Numbers from strings\<close>

text \<open>The functions return the value and the rest of the string, the \<^verbatim>\<open>endp\<close> of the source.\<close>

definition strtoul_digit :: "char \<Rightarrow> ulong" where
  "strtoul_digit c = (if isdigit c then of_nat (of_char c - 48) else of_nat (of_char (toupper c) - 65 + 10))"

fun strtoul_loop :: "u32 \<Rightarrow> string \<Rightarrow> ulong \<Rightarrow> ulong \<times> string" where
  "strtoul_loop bas [] r = (r, [])"
| "strtoul_loop bas (c # cp) r =
     (if isxdigit c \<and> strtoul_digit c < ucast bas then strtoul_loop bas cp (r * ucast bas + strtoul_digit c) else (r, c # cp))"

definition strtoul_prefix :: "string \<Rightarrow> u32 \<Rightarrow> u32 \<times> string" where
  "strtoul_prefix cp bas = (
     if bas = 0 then
       if peek cp = CHR ''0'' then
         let cp = tl cp in
         if toupper (peek cp) = CHR ''X'' \<and> isxdigit (peek (tl cp)) then (16, tl cp) else (8, cp)
       else (10, cp)
     else if bas = 16 \<and> peek cp = CHR ''0'' \<and> toupper (peek (tl cp)) = CHR ''X'' then (bas, tl (tl cp))
     else (bas, cp))"

definition simple_strtoul :: "string \<Rightarrow> u32 \<Rightarrow> ulong \<times> string" where
  "simple_strtoul cp bas = (let (bas, cp) = strtoul_prefix cp bas in strtoul_loop bas cp 0)"

definition simple_strtol :: "string \<Rightarrow> u32 \<Rightarrow> ulong \<times> string" where
  "simple_strtol cp bas = (
     if peek cp = CHR ''-'' then let (v, endp) = simple_strtoul (tl cp) bas in (- v, endp)
     else simple_strtoul cp bas)"

definition strtoull_digit :: "char \<Rightarrow> ulong" where
  "strtoull_digit c = (if isdigit c then of_nat (of_char c - 48) else of_nat (of_char (if islower c then toupper c else c) - 65 + 10))"

fun strtoull_loop :: "u32 \<Rightarrow> string \<Rightarrow> ulong \<Rightarrow> ulong \<times> string" where
  "strtoull_loop bas [] r = (r, [])"
| "strtoull_loop bas (c # cp) r =
     (if isxdigit c \<and> strtoull_digit c < ucast bas then strtoull_loop bas cp (r * ucast bas + strtoull_digit c) else (r, c # cp))"

definition simple_strtoull :: "string \<Rightarrow> u32 \<Rightarrow> ulong \<times> string" where
  "simple_strtoull cp bas = (let (bas, cp) = strtoul_prefix cp bas in strtoull_loop bas cp 0)"

definition simple_strtoll :: "string \<Rightarrow> u32 \<Rightarrow> ulong \<times> string" where
  "simple_strtoll cp bas = (
     if peek cp = CHR ''-'' then let (v, endp) = simple_strtoull (tl cp) bas in (- v, endp)
     else simple_strtoull cp bas)"

fun skip_atoi_loop :: "u32 \<Rightarrow> string \<Rightarrow> u32 \<times> string" where
  "skip_atoi_loop i [] = (i, [])"
| "skip_atoi_loop i (c # s) = (if isdigit c then skip_atoi_loop (i * 10 + of_nat (of_char c) - 48) s else (i, c # s))"

definition skip_atoi :: "string \<Rightarrow> u32 \<times> string" where
  "skip_atoi s = skip_atoi_loop 0 s"

section \<open>Printing a number\<close>

abbreviation (input) ZEROPAD :: u32 where "ZEROPAD \<equiv> 1"
abbreviation (input) SIGN :: u32 where "SIGN \<equiv> 2"
abbreviation (input) PLUS :: u32 where "PLUS \<equiv> 4"
abbreviation (input) SPACE :: u32 where "SPACE \<equiv> 8"
abbreviation (input) LEFT :: u32 where "LEFT \<equiv> 16"
abbreviation (input) SPECIAL :: u32 where "SPECIAL \<equiv> 32"
abbreviation (input) LARGE :: u32 where "LARGE \<equiv> 64"

text \<open>The output: the position \<^verbatim>\<open>str\<close> and the bytes written so far.\<close>

record outbuf =
  str :: ulong
  written :: "ulong \<rightharpoonup> char"

definition put :: "ulong \<Rightarrow> char \<Rightarrow> outbuf \<Rightarrow> outbuf" where
  "put en c ob = ob\<lparr>str := str ob + 1, written := (if str ob \<le> en then (written ob)(str ob \<mapsto> c) else written ob)\<rparr>"

fun pad :: "ulong \<Rightarrow> char \<Rightarrow> nat \<Rightarrow> outbuf \<Rightarrow> outbuf" where
  "pad en c 0 ob = ob"
| "pad en c (Suc n) ob = pad en c n (put en c ob)"

fun puts :: "ulong \<Rightarrow> string \<Rightarrow> outbuf \<Rightarrow> outbuf" where
  "puts en [] ob = ob"
| "puts en (c # cs) ob = puts en cs (put en c ob)"

text \<open>The rounds of a loop \<^verbatim>\<open>while (n-- > 0)\<close> and what it leaves in \<^verbatim>\<open>n\<close>.\<close>

definition rounds :: "u32 \<Rightarrow> nat" where
  "rounds n = nat (sint n)"

definition after_rounds :: "u32 \<Rightarrow> u32" where
  "after_rounds n = (if 0 < sint n then - 1 else n - 1)"

definition small_digits :: string where
  "small_digits = ''0123456789abcdefghijklmnopqrstuvwxyz''"

definition large_digits :: string where
  "large_digits = ''0123456789ABCDEFGHIJKLMNOPQRSTUVWXYZ''"

lemma unat_ucast_32: "unat (ucast (x :: u32) :: ulong) = unat x"
  by (rule unat_ucast_small) (use unat_bound [of x] in simp)

text \<open>The digits in the order of the array \<^verbatim>\<open>tmp\<close>, least significant first; the caller has checked the base.\<close>

function digit_loop :: "string \<Rightarrow> u32 \<Rightarrow> ulong \<Rightarrow> string" where
  "digit_loop digits bas num =
     (if num = 0 \<or> bas < 2 then [] else digits ! unat (num mod ucast bas) # digit_loop digits bas (num div ucast bas))"
  by pat_completeness auto
termination
proof (relation "measure (\<lambda>(digits, bas, num). unat num)", goal_cases)
  case (2 digits bas num)
  then have "0 < unat num" "1 < unat (ucast bas :: ulong)" by (simp_all add: unat_gt_0 word_less_nat_alt unat_ucast_32)
  then show ?case by (simp add: unat_div div_less_dividend)
qed simp

declare digit_loop.simps [simp del]

definition number_sign :: "u32 \<Rightarrow> ulong \<Rightarrow> u32 \<Rightarrow> char \<times> ulong \<times> u32" where
  "number_sign ty num width = (
     if ty AND SIGN \<noteq> 0 then
       if bit num 63 then (CHR ''-'', - num, width - 1)
       else if ty AND PLUS \<noteq> 0 then (CHR ''+'', num, width - 1)
       else if ty AND SPACE \<noteq> 0 then (CHR '' '', num, width - 1)
       else (NUL, num, width)
     else (NUL, num, width))"

definition number :: "ulong \<Rightarrow> ulong \<Rightarrow> u32 \<Rightarrow> u32 \<Rightarrow> u32 \<Rightarrow> u32 \<Rightarrow> outbuf \<Rightarrow> outbuf" where
  "number en num bas width precision ty ob = (
     let digits = (if ty AND LARGE \<noteq> 0 then large_digits else small_digits);
         ty = (if ty AND LEFT \<noteq> 0 then ty AND NOT ZEROPAD else ty) in
     if sint bas < 2 \<or> 36 < sint bas then ob\<lparr>str := 0\<rparr>
     else
       let c = (if ty AND ZEROPAD \<noteq> 0 then CHR ''0'' else CHR '' '');
           (sign, num, width) = number_sign ty num width;
           width = (if ty AND SPECIAL \<noteq> 0 then if bas = 16 then width - 2 else if bas = 8 then width - 1 else width else width);
           tmp = (if num = 0 then ''0'' else digit_loop digits bas num);
           i = of_nat (length tmp);
           precision = (if sint precision < sint i then i else precision);
           width = width - precision;
           (width, ob) = (if ty AND (ZEROPAD + LEFT) = 0 then (after_rounds width, pad en (CHR '' '') (rounds width) ob) else (width, ob));
           ob = (if sign \<noteq> NUL then put en sign ob else ob);
           ob = (if ty AND SPECIAL \<noteq> 0 then
                   if bas = 8 then put en (CHR ''0'') ob
                   else if bas = 16 then put en (digits ! 33) (put en (CHR ''0'') ob)
                   else ob
                 else ob);
           (width, ob) = (if ty AND LEFT = 0 then (after_rounds width, pad en c (rounds width) ob) else (width, ob));
           ob = pad en (CHR ''0'') (nat (sint precision - sint i)) ob;
           ob = puts en (rev tmp) ob
       in pad en (CHR '' '') (rounds width) ob)"

section \<open>Formatted printing\<close>

definition va_arg :: "ulong list \<Rightarrow> (ulong \<times> ulong list) option" where
  "va_arg args = (case args of [] \<Rightarrow> None | a # rest \<Rightarrow> Some (a, rest))"

fun get_flags :: "u32 \<Rightarrow> string \<Rightarrow> u32 \<times> string" where
  "get_flags flags [] = (flags, [])"
| "get_flags flags (c # fmt) = (
     if c = CHR ''-'' then get_flags (flags OR LEFT) fmt
     else if c = CHR ''+'' then get_flags (flags OR PLUS) fmt
     else if c = CHR '' '' then get_flags (flags OR SPACE) fmt
     else if c = CHR ''#'' then get_flags (flags OR SPECIAL) fmt
     else if c = CHR ''0'' then get_flags (flags OR ZEROPAD) fmt
     else (flags, c # fmt))"

definition get_width :: "u32 \<Rightarrow> string \<Rightarrow> ulong list \<Rightarrow> (u32 \<times> u32 \<times> string \<times> ulong list) option" where
  "get_width flags fmt args = (
     if isdigit (peek fmt) then let (w, fmt) = skip_atoi fmt in Some (flags, w, fmt, args)
     else if peek fmt = CHR ''*'' then do {
       (a, args) \<leftarrow> va_arg args;
       let field_width = (ucast a :: u32);
       if sint field_width < 0 then Some (flags OR LEFT, - field_width, tl fmt, args)
       else Some (flags, field_width, tl fmt, args)
     }
     else Some (flags, - 1, fmt, args))"

definition get_precision :: "string \<Rightarrow> ulong list \<Rightarrow> (u32 \<times> string \<times> ulong list) option" where
  "get_precision fmt args = (
     if peek fmt = CHR ''.'' then do {
       let fmt = tl fmt;
       (precision, fmt, args) \<leftarrow>
         (if isdigit (peek fmt) then let (p, fmt) = skip_atoi fmt in Some (p, fmt, args)
          else if peek fmt = CHR ''*'' then do {
            (a, args) \<leftarrow> va_arg args;
            Some (ucast a, tl fmt, args)
          }
          else Some (- 1, fmt, args));
       Some (if sint precision < 0 then 0 else precision, fmt, args)
     }
     else Some (- 1, fmt, args))"

text \<open>The qualifier is a character, and NUL for the -1 of the source.\<close>

definition get_qualifier :: "string \<Rightarrow> char \<times> string" where
  "get_qualifier fmt = (
     if peek fmt \<in> {CHR ''h'', CHR ''l'', CHR ''L'', CHR ''Z'', CHR ''z''} then
       if peek fmt = CHR ''l'' \<and> peek (tl fmt) = CHR ''l'' then (CHR ''L'', tl (tl fmt))
       else (peek fmt, tl fmt)
     else (NUL, fmt))"

text \<open>
  \<^verbatim>\<open>strnlen\<close> of \<^verbatim>\<open>lib/string.c\<close>; \<open>s\<close> gives the characters from the address on. The string of \<open>%s\<close> is the one at the
  address, or \<open><NULL>\<close> for an address in the first page.
\<close>

function strnlen :: "(nat \<Rightarrow> char option) \<Rightarrow> nat \<Rightarrow> ulong \<Rightarrow> nat option" where
  "strnlen s sc count = (
     if count = 0 then Some sc
     else do {
       c \<leftarrow> s sc;
       if c = NUL then Some sc else strnlen s (sc + 1) (count - 1)
     })"
  by pat_completeness auto
termination
  by (relation "measure (\<lambda>(s, sc, count). unat count)") (simp_all add: unat_minus_one unat_gt_0)

declare strnlen.simps [simp del]

definition str_at :: "(ulong \<Rightarrow> char option) \<Rightarrow> ulong \<Rightarrow> nat \<Rightarrow> char option" where
  "str_at mem s i = (
     if s < 4096 then let null = ''<NULL>'' in if i < length null then Some (null ! i) else if i = length null then Some NUL else None
     else mem (s + of_nat i))"

fun copy_str :: "ulong \<Rightarrow> (nat \<Rightarrow> char option) \<Rightarrow> nat \<Rightarrow> nat \<Rightarrow> outbuf \<Rightarrow> outbuf option" where
  "copy_str en s i 0 ob = Some ob"
| "copy_str en s i (Suc n) ob = do {
     c \<leftarrow> s i;
     copy_str en s (i + 1) n (put en c ob)
   }"

definition get_num :: "u32 \<Rightarrow> char \<Rightarrow> ulong \<Rightarrow> ulong" where
  "get_num flags qualifier a = (
     if qualifier = CHR ''L'' then a
     else if qualifier = CHR ''l'' then a
     else if qualifier = CHR ''Z'' \<or> qualifier = CHR ''z'' then a
     else if qualifier = CHR ''h'' then
       if flags AND SIGN \<noteq> 0 then scast (ucast a :: u16) else ucast (ucast a :: u16)
     else if flags AND SIGN \<noteq> 0 then scast (ucast a :: u32) else ucast (ucast a :: u32))"

text \<open>A store through a pointer argument: address, width in bytes and value.\<close>

type_synonym store = "ulong \<times> nat \<times> ulong"

definition convert_c :: "ulong \<Rightarrow> u32 \<Rightarrow> u32 \<Rightarrow> ulong list \<Rightarrow> outbuf \<Rightarrow> (ulong list \<times> outbuf) option" where
  "convert_c en flags field_width args ob = do {
     let (field_width, ob) =
       (if flags AND LEFT = 0
        then (if 0 < sint (field_width - 1) then 0 else field_width - 1, pad en (CHR '' '') (rounds (field_width - 1)) ob)
        else (field_width, ob));
     (a, args) \<leftarrow> va_arg args;
     let ob = put en (char_of (unat a)) ob;
     Some (args, pad en (CHR '' '') (rounds (field_width - 1)) ob)
   }"

definition convert_s :: "(ulong \<Rightarrow> char option) \<Rightarrow> ulong \<Rightarrow> u32 \<Rightarrow> u32 \<Rightarrow> u32 \<Rightarrow> ulong list \<Rightarrow> outbuf \<Rightarrow> (ulong list \<times> outbuf) option" where
  "convert_s mem en flags field_width precision args ob = do {
     (s, args) \<leftarrow> va_arg args;
     n \<leftarrow> strnlen (str_at mem s) 0 (scast precision);
     let len = (of_nat n :: u32);
     let (field_width, ob) =
       (if flags AND LEFT = 0
        then (if sint len < sint field_width then len - 1 else field_width - 1, pad en (CHR '' '') (nat (sint field_width - sint len)) ob)
        else (field_width, ob));
     ob \<leftarrow> copy_str en (str_at mem s) 0 (rounds len) ob;
     Some (args, pad en (CHR '' '') (nat (sint field_width - sint len)) ob)
   }"

definition convert_p :: "ulong \<Rightarrow> u32 \<Rightarrow> u32 \<Rightarrow> u32 \<Rightarrow> ulong list \<Rightarrow> outbuf \<Rightarrow> (ulong list \<times> outbuf) option" where
  "convert_p en flags field_width precision args ob = do {
     let (field_width, flags) = (if field_width = - 1 then (16, flags OR ZEROPAD) else (field_width, flags));
     (a, args) \<leftarrow> va_arg args;
     Some (args, number en a 16 field_width precision flags ob)
   }"

definition convert_n :: "char \<Rightarrow> ulong list \<Rightarrow> ulong \<Rightarrow> (ulong list \<times> store) option" where
  "convert_n qualifier args written_len = do {
     (ip, args) \<leftarrow> va_arg args;
     Some (args, if qualifier \<in> {CHR ''l'', CHR ''Z'', CHR ''z''} then (ip, 8, written_len) else (ip, 4, ucast (ucast written_len :: u32)))
   }"

definition convert_num :: "ulong \<Rightarrow> u32 \<Rightarrow> u32 \<Rightarrow> u32 \<Rightarrow> u32 \<Rightarrow> char \<Rightarrow> ulong list \<Rightarrow> outbuf \<Rightarrow> (ulong list \<times> outbuf) option" where
  "convert_num en bas flags field_width precision qualifier args ob = do {
     (a, args) \<leftarrow> va_arg args;
     Some (args, number en (get_num flags qualifier a) bas field_width precision flags ob)
   }"

definition convert_default :: "ulong \<Rightarrow> string \<Rightarrow> outbuf \<Rightarrow> outbuf" where
  "convert_default en fmt ob = (
     let ob = put en (CHR ''%'') ob
     in if peek fmt \<noteq> NUL then put en (peek fmt) ob else ob)"

text \<open>The switch over the conversion character.\<close>

definition convert ::
  "(ulong \<Rightarrow> char option) \<Rightarrow> ulong \<Rightarrow> ulong \<Rightarrow> u32 \<Rightarrow> u32 \<Rightarrow> u32 \<Rightarrow> char \<Rightarrow> string \<Rightarrow> ulong list \<Rightarrow> outbuf \<Rightarrow> store list \<Rightarrow>
   (ulong list \<times> outbuf \<times> store list) option" where
  "convert mem buf en flags field_width precision qualifier fmt args ob st = (
     let f = peek fmt in
     if f = CHR ''c'' then map_option (\<lambda>(args, ob). (args, ob, st)) (convert_c en flags field_width args ob)
     else if f = CHR ''s'' then map_option (\<lambda>(args, ob). (args, ob, st)) (convert_s mem en flags field_width precision args ob)
     else if f = CHR ''p'' then map_option (\<lambda>(args, ob). (args, ob, st)) (convert_p en flags field_width precision args ob)
     else if f = CHR ''n'' then map_option (\<lambda>(args, s). (args, ob, st @ [s])) (convert_n qualifier args (str ob - buf))
     else if f = CHR ''%'' then Some (args, put en (CHR ''%'') ob, st)
     else if f = CHR ''o'' then map_option (\<lambda>(args, ob). (args, ob, st)) (convert_num en 8 flags field_width precision qualifier args ob)
     else if f = CHR ''X'' then map_option (\<lambda>(args, ob). (args, ob, st)) (convert_num en 16 (flags OR LARGE) field_width precision qualifier args ob)
     else if f = CHR ''x'' then map_option (\<lambda>(args, ob). (args, ob, st)) (convert_num en 16 flags field_width precision qualifier args ob)
     else if f = CHR ''d'' \<or> f = CHR ''i'' then
       map_option (\<lambda>(args, ob). (args, ob, st)) (convert_num en 10 (flags OR SIGN) field_width precision qualifier args ob)
     else if f = CHR ''u'' then map_option (\<lambda>(args, ob). (args, ob, st)) (convert_num en 10 flags field_width precision qualifier args ob)
     else Some (args, convert_default en fmt ob, st))"

text \<open>The parts of a conversion before its character: flags, field width, precision and qualifier, with the rest of the format.\<close>

definition parse_spec :: "string \<Rightarrow> ulong list \<Rightarrow> (u32 \<times> u32 \<times> u32 \<times> char \<times> string \<times> ulong list) option" where
  "parse_spec fmt args = do {
     let (flags, fmt) = get_flags 0 fmt;
     (flags, field_width, fmt, args) \<leftarrow> get_width flags fmt args;
     (precision, fmt, args) \<leftarrow> get_precision fmt args;
     let (qualifier, fmt) = get_qualifier fmt;
     Some (flags, field_width, precision, qualifier, fmt, args)
   }"

lemma length_get_flags: "get_flags flags fmt = (flags', fmt') \<Longrightarrow> length fmt' \<le> length fmt"
  by (induction flags fmt rule: get_flags.induct) (auto split: if_splits dest: le_SucI)

lemma length_skip_atoi: "skip_atoi_loop i s = (i', s') \<Longrightarrow> length s' \<le> length s"
  by (induction i s rule: skip_atoi_loop.induct) (auto split: if_splits dest: le_SucI)

lemma length_tl_le: "length (tl s) \<le> length s"
  by simp

lemma length_get_width: "get_width flags fmt args = Some (flags', w, fmt', args') \<Longrightarrow> length fmt' \<le> length fmt"
  by (auto simp: get_width_def skip_atoi_def bind_Some_iff Let_def split: if_splits prod.splits dest: length_skip_atoi)

lemma length_get_precision:
  assumes "get_precision fmt args = Some (p, fmt', args')"
  shows "length fmt' \<le> length fmt"
proof (cases "peek fmt = CHR ''.''")
  case True
  have "skip_atoi (tl fmt) = (i, s) \<Longrightarrow> length s \<le> length (tl fmt)" for i s unfolding skip_atoi_def by (rule length_skip_atoi)
  then have "length fmt' \<le> length (tl fmt)" using assms True
    by (auto simp: get_precision_def bind_Some_iff Let_def split: if_splits prod.splits)
  then show ?thesis by simp
qed (use assms in \<open>simp add: get_precision_def\<close>)

lemma length_get_qualifier: "get_qualifier fmt = (q, fmt') \<Longrightarrow> length fmt' \<le> length fmt"
  by (auto simp: get_qualifier_def split: if_splits)

lemma length_parse_spec:
  assumes "parse_spec fmt args = Some (flags, w, p, q, fmt', args')"
  shows "length fmt' \<le> length fmt"
proof -
  obtain flags1 fmt1 where 1: "get_flags 0 fmt = (flags1, fmt1)" by fastforce
  obtain flags2 w2 fmt2 args2 where 2: "get_width flags1 fmt1 args = Some (flags2, w2, fmt2, args2)"
    using assms 1 by (auto simp: parse_spec_def bind_Some_iff)
  obtain p3 fmt3 args3 where 3: "get_precision fmt2 args2 = Some (p3, fmt3, args3)" using assms 1 2 by (auto simp: parse_spec_def bind_Some_iff)
  obtain q4 fmt4 where 4: "get_qualifier fmt3 = (q4, fmt4)" by fastforce
  have "fmt' = fmt4" using assms by (simp add: parse_spec_def 1 2 3 4)
  then show ?thesis using length_get_flags [OF 1] length_get_width [OF 2] length_get_precision [OF 3] length_get_qualifier [OF 4] by simp
qed

function format_loop ::
  "(ulong \<Rightarrow> char option) \<Rightarrow> ulong \<Rightarrow> ulong \<Rightarrow> string \<Rightarrow> ulong list \<Rightarrow> outbuf \<Rightarrow> store list \<Rightarrow> (outbuf \<times> store list) option" where
  "format_loop mem buf en [] args ob st = Some (ob, st)"
| "format_loop mem buf en (c # fmt) args ob st = (
     if c \<noteq> CHR ''%'' then format_loop mem buf en fmt args (put en c ob) st
     else do {
       (flags, field_width, precision, qualifier, fmt, args) \<leftarrow> parse_spec fmt args;
       (args, ob, st) \<leftarrow> convert mem buf en flags field_width precision qualifier fmt args ob st;
       format_loop mem buf en (tl fmt) args ob st
     })"
  by pat_completeness auto
termination
  by (relation "measure (\<lambda>(mem, buf, en, fmt, args, ob, st). length fmt)") (auto dest!: length_parse_spec)

text \<open>
  The result of \<^verbatim>\<open>vsnprintf\<close>, the bytes it has written and the stores of \<open>%n\<close>. A size that is negative as an \<^verbatim>\<open>int\<close> is refused with a
  warning.
\<close>

definition vsnprintf ::
  "(ulong \<Rightarrow> char option) \<Rightarrow> ulong \<Rightarrow> ulong \<Rightarrow> string \<Rightarrow> ulong list \<Rightarrow> (u32 \<times> (ulong \<rightharpoonup> char) \<times> store list) option" where
  "vsnprintf mem buf siz fmt args = (
     if bit siz 31 then Some (0, Map.empty, [])
     else do {
       let en = buf + siz - 1;
       let (en, siz) = (if en < buf - 1 then (- 1, - 1 - buf + 1) else (en, siz));
       (ob, st) \<leftarrow> format_loop mem buf en fmt args \<lparr>str = buf, written = Map.empty\<rparr> [];
       let w = (if str ob \<le> en then (written ob)(str ob \<mapsto> NUL)
                else if 0 < siz then (written ob)(en \<mapsto> NUL)
                else written ob);
       Some (ucast (str ob - buf), w, st)
     })"

definition vscnprintf ::
  "(ulong \<Rightarrow> char option) \<Rightarrow> ulong \<Rightarrow> ulong \<Rightarrow> string \<Rightarrow> ulong list \<Rightarrow> (u32 \<times> (ulong \<rightharpoonup> char) \<times> store list) option" where
  "vscnprintf mem buf siz fmt args = do {
     (i, w, st) \<leftarrow> vsnprintf mem buf siz fmt args;
     Some (if siz \<le> scast i then ucast (siz - 1) else i, w, st)
   }"

definition snprintf ::
  "(ulong \<Rightarrow> char option) \<Rightarrow> ulong \<Rightarrow> ulong \<Rightarrow> string \<Rightarrow> ulong list \<Rightarrow> (u32 \<times> (ulong \<rightharpoonup> char) \<times> store list) option" where
  "snprintf mem buf siz fmt args = vsnprintf mem buf siz fmt args"

definition scnprintf ::
  "(ulong \<Rightarrow> char option) \<Rightarrow> ulong \<Rightarrow> ulong \<Rightarrow> string \<Rightarrow> ulong list \<Rightarrow> (u32 \<times> (ulong \<rightharpoonup> char) \<times> store list) option" where
  "scnprintf mem buf siz fmt args = do {
     (i, w, st) \<leftarrow> vsnprintf mem buf siz fmt args;
     Some (if siz \<le> scast i then ucast (siz - 1) else i, w, st)
   }"

definition vsprintf :: "(ulong \<Rightarrow> char option) \<Rightarrow> ulong \<Rightarrow> string \<Rightarrow> ulong list \<Rightarrow> (u32 \<times> (ulong \<rightharpoonup> char) \<times> store list) option" where
  "vsprintf mem buf fmt args = vsnprintf mem buf 0x7fffffff fmt args"

definition sprintf :: "(ulong \<Rightarrow> char option) \<Rightarrow> ulong \<Rightarrow> string \<Rightarrow> ulong list \<Rightarrow> (u32 \<times> (ulong \<rightharpoonup> char) \<times> store list) option" where
  "sprintf mem buf fmt args = vsprintf mem buf fmt args"

section \<open>Formatted scanning\<close>

text \<open>The qualifier of a scanning conversion, with the doubled ones.\<close>

definition scan_qualifier :: "string \<Rightarrow> char \<times> string" where
  "scan_qualifier fmt = (
     if peek fmt \<in> {CHR ''h'', CHR ''l'', CHR ''L'', CHR ''Z'', CHR ''z''} then
       let q = peek fmt; fmt = tl fmt in
       if q = peek fmt then
         if q = CHR ''h'' then (CHR ''H'', tl fmt)
         else if q = CHR ''l'' then (CHR ''L'', tl fmt)
         else (q, fmt)
       else (q, fmt)
     else (NUL, fmt))"

text \<open>The loops of \<open>%c\<close> and \<open>%s\<close>: the stores, the rest of the input and the address after the last store.\<close>

fun scan_chars :: "string \<Rightarrow> u32 \<Rightarrow> ulong \<Rightarrow> store list \<times> string" where
  "scan_chars [] width s = ([], [])"
| "scan_chars (c # inp) width s = (
     let st = (s, 1, of_nat (of_char c)) in
     if 0 < sint (width - 1) \<and> inp \<noteq> [] then let (sts, inp) = scan_chars inp (width - 1) (s + 1) in (st # sts, inp)
     else ([st], inp))"

fun scan_word :: "string \<Rightarrow> u32 \<Rightarrow> ulong \<Rightarrow> store list \<times> string \<times> ulong" where
  "scan_word [] width s = ([], [], s)"
| "scan_word (c # inp) width s = (
     if \<not> isspace c \<and> width \<noteq> 0
     then let (sts, inp, s') = scan_word inp (width - 1) (s + 1) in ((s, 1, of_nat (of_char c)) # sts, inp, s')
     else ([], c # inp, s))"

definition bad_digit :: "bool \<Rightarrow> u32 \<Rightarrow> string \<Rightarrow> bool" where
  "bad_digit is_sign bas inp = (
     let digit = peek inp;
         digit = (if is_sign \<and> digit = CHR ''-'' then peek (tl inp) else digit) in
     digit = NUL \<or> (bas = 16 \<and> \<not> isxdigit digit) \<or> (bas = 10 \<and> \<not> isdigit digit) \<or>
     (bas = 8 \<and> (\<not> isdigit digit \<or> of_char (CHR ''7'') < (of_char digit :: nat))) \<or> (bas = 0 \<and> \<not> isdigit digit))"

text \<open>The integer conversions: the store of the value, cut to the width of the pointed-to type, and the rest of the input.\<close>

definition scan_num :: "char \<Rightarrow> bool \<Rightarrow> u32 \<Rightarrow> string \<Rightarrow> ulong list \<Rightarrow> (store \<times> string \<times> ulong list) option" where
  "scan_num qualifier is_sign bas inp args = do {
     (p, args) \<leftarrow> va_arg args;
     let (v, endp) =
       (if qualifier = CHR ''L'' then if is_sign then simple_strtoll inp bas else simple_strtoull inp bas
        else if qualifier = CHR ''Z'' \<or> qualifier = CHR ''z'' then simple_strtoul inp bas
        else if is_sign then simple_strtol inp bas else simple_strtoul inp bas);
     let st =
       (if qualifier = CHR ''H'' then (p, 1, ucast (ucast v :: u8))
        else if qualifier = CHR ''h'' then (p, 2, ucast (ucast v :: u16))
        else if qualifier \<in> {CHR ''l'', CHR ''L'', CHR ''Z'', CHR ''z''} then (p, 8, v)
        else (p, 4, ucast (ucast v :: u32)));
     Some (st, endp, args)
   }"

text \<open>
  One conversion from the character after the percent sign: \<open>None\<close> inside is a \<^verbatim>\<open>break\<close> or a \<^verbatim>\<open>return\<close>, otherwise the rests of format and input, the
  arguments, the stores and the conversions counted.
\<close>

definition scan_int ::
  "char \<Rightarrow> bool \<Rightarrow> u32 \<Rightarrow> string \<Rightarrow> string \<Rightarrow> ulong list \<Rightarrow> (string \<times> string \<times> ulong list \<times> store list \<times> nat) option option" where
  "scan_int qualifier is_sign bas fmt inp args = (
     let inp = dropWhile isspace inp in
     if bad_digit is_sign bas inp then Some None
     else do {
       (st, inp, args) \<leftarrow> scan_num qualifier is_sign bas inp args;
       Some (Some (fmt, inp, args, [st], 1))
     })"

definition scan_directive ::
  "string \<Rightarrow> string \<Rightarrow> string \<Rightarrow> ulong list \<Rightarrow> (string \<times> string \<times> ulong list \<times> store list \<times> nat) option option" where
  "scan_directive buf fmt inp args = (
     if peek fmt = CHR ''*'' then
       Some (Some (dropWhile (\<lambda>c. \<not> isspace c) fmt, dropWhile (\<lambda>c. \<not> isspace c) inp, args, [], 0))
     else
       let (width, fmt) = (if isdigit (peek fmt) then skip_atoi fmt else (- 1, fmt));
           (qualifier, fmt) = scan_qualifier fmt in
       if fmt = [] \<or> inp = [] then Some None
       else
         let f = peek fmt; fmt = tl fmt in
         if f = CHR ''c'' then do {
           (s, args) \<leftarrow> va_arg args;
           let (sts, inp) = scan_chars inp (if width = - 1 then 1 else width) s;
           Some (Some (fmt, inp, args, sts, 1))
         }
         else if f = CHR ''s'' then do {
           (s, args) \<leftarrow> va_arg args;
           let (sts, inp, s) = scan_word (dropWhile isspace inp) (if width = - 1 then 0x7fffffff else width) s;
           Some (Some (fmt, inp, args, sts @ [(s, 1, 0)], 1))
         }
         else if f = CHR ''n'' then do {
           (p, args) \<leftarrow> va_arg args;
           Some (Some (fmt, inp, args, [(p, 4, ucast (of_nat (length buf - length inp) :: u32))], 0))
         }
         else if f = CHR ''o'' then scan_int qualifier False 8 fmt inp args
         else if f = CHR ''x'' \<or> f = CHR ''X'' then scan_int qualifier False 16 fmt inp args
         else if f = CHR ''i'' then scan_int qualifier True 0 fmt inp args
         else if f = CHR ''d'' then scan_int qualifier True 10 fmt inp args
         else if f = CHR ''u'' then scan_int qualifier False 10 fmt inp args
         else if f = CHR ''%'' then Some (if peek inp \<noteq> CHR ''%'' then None else Some (fmt, tl inp, args, [], 0))
         else Some None)"

lemma length_scan_qualifier: "scan_qualifier fmt = (q, fmt') \<Longrightarrow> length fmt' \<le> length fmt"
  by (auto simp: scan_qualifier_def Let_def split: if_splits)

lemma length_scan_int: "scan_int q sg b fmt inp args = Some (Some (fmt', r)) \<Longrightarrow> fmt' = fmt"
  by (auto simp: scan_int_def bind_Some_iff Let_def split: if_splits)

lemma length_scan_directive:
  assumes "scan_directive buf fmt inp args = Some (Some (fmt', r))"
  shows "length fmt' \<le> length fmt"
proof (cases "peek fmt = CHR ''*''")
  case True
  then show ?thesis using assms by (auto simp: scan_directive_def length_dropWhile_le)
next
  case False
  obtain w fmt1 where 1: "(if isdigit (peek fmt) then skip_atoi fmt else (- 1, fmt)) = (w, fmt1)" by fastforce
  obtain q fmt2 where 2: "scan_qualifier fmt1 = (q, fmt2)" by fastforce
  have "fmt' = tl fmt2" using assms False
    by (auto simp: scan_directive_def 1 2 Let_def bind_Some_iff case_prod_beta split: if_splits dest: length_scan_int)
  moreover have "length fmt1 \<le> length fmt" using 1 by (auto simp: skip_atoi_def split: if_splits dest: length_skip_atoi)
  ultimately show ?thesis using length_scan_qualifier [OF 2] length_tl_le [of fmt2] by simp
qed

function scan_loop :: "string \<Rightarrow> string \<Rightarrow> string \<Rightarrow> ulong list \<Rightarrow> store list \<Rightarrow> nat \<Rightarrow> (nat \<times> store list) option" where
  "scan_loop buf fmt inp args sts num = (
     if fmt = [] \<or> inp = [] then Some (num, sts)
     else
       let (fmt, inp) = (if isspace (peek fmt) then (dropWhile isspace fmt, dropWhile isspace inp) else (fmt, inp)) in
       (case fmt of
          [] \<Rightarrow> Some (num, sts)
        | c # fmt \<Rightarrow>
            if c \<noteq> CHR ''%'' then
              if peek inp \<noteq> c then Some (num, sts) else scan_loop buf fmt (tl inp) args sts num
            else do {
              r \<leftarrow> scan_directive buf fmt inp args;
              (case r of
                 None \<Rightarrow> Some (num, sts)
               | Some (fmt, inp, args, new, k) \<Rightarrow> scan_loop buf fmt inp args (sts @ new) (num + k))
            }))"
  by pat_completeness auto
termination
proof (relation "measure (\<lambda>(buf, fmt, inp, args, sts, num). length fmt)", goal_cases)
  case (2 buf fmt inp args sts num x xa y c fmt2)
  then show ?case by (auto split: if_splits) (metis length_dropWhile_le length_Cons less_eq_Suc_le)+
next
  case (3 buf fmt inp args sts num x xa y c fmt2 r a fmt3 b inp3 d args3 e new k)
  then show ?case by (auto split: if_splits dest!: length_scan_directive) (metis length_dropWhile_le length_Cons less_eq_Suc_le le_less_trans)+
qed simp

definition vsscanf :: "string \<Rightarrow> string \<Rightarrow> ulong list \<Rightarrow> (u32 \<times> store list) option" where
  "vsscanf buf fmt args = do {
     (num, sts) \<leftarrow> scan_loop buf fmt buf args [] 0;
     Some (of_nat num, sts)
   }"

definition sscanf :: "string \<Rightarrow> string \<Rightarrow> ulong list \<Rightarrow> (u32 \<times> store list) option" where
  "sscanf buf fmt args = vsscanf buf fmt args"

end
