(* ===== verification/VsprintfProps.thy ===== *)
theory VsprintfProps
  imports Vsprintf
begin

text \<open>
  Correctness of formatted printing and scanning: every printing function appends a text that does not depend on the buffer, \<open>format_text\<close> is that text
  as a reference definition, \<^verbatim>\<open>vsnprintf\<close> writes as much of it as fits, and printed integers are read back.
\<close>

unbundle bit_operations_syntax

section \<open>Output is text\<close>

lemma puts_append: "puts en (a @ b) ob = puts en b (puts en a ob)"
  by (induction a arbitrary: ob) simp_all

lemma put_puts: "put en c ob = puts en [c] ob"
  by simp

lemma pad_puts: "pad en c n ob = puts en (replicate n c) ob"
  by (induction n arbitrary: ob) simp_all

lemma str_put [simp]: "str (put en c ob) = str ob + 1"
  by (simp add: put_def)

lemma str_puts: "str (puts en tx ob) = str ob + of_nat (length tx)"
  by (induction tx arbitrary: ob) (simp_all add: algebra_simps)

text \<open>The text that \<^verbatim>\<open>number\<close> prints.\<close>

definition number_out :: "ulong \<Rightarrow> u32 \<Rightarrow> u32 \<Rightarrow> u32 \<Rightarrow> u32 \<Rightarrow> string" where
  "number_out num bas width precision ty = (
     let digits = (if ty AND LARGE \<noteq> 0 then large_digits else small_digits);
         ty = (if ty AND LEFT \<noteq> 0 then ty AND NOT ZEROPAD else ty);
         (sign, num, width) = number_sign ty num width;
         special = (if ty AND SPECIAL = 0 then [] else if bas = 8 then ''0'' else if bas = 16 then [CHR ''0'', digits ! 33] else []);
         tmp = (if num = 0 then ''0'' else digit_loop digits bas num);
         i = of_nat (length tmp);
         precision = (if sint precision < sint i then i else precision);
         width = width - of_nat (length special) - precision;
         width1 = (if ty AND (ZEROPAD + LEFT) = 0 then after_rounds width else width);
         width2 = (if ty AND LEFT = 0 then after_rounds width1 else width1) in
     (if ty AND (ZEROPAD + LEFT) = 0 then replicate (rounds width) (CHR '' '') else []) @
     (if sign \<noteq> NUL then [sign] else []) @ special @
     (if ty AND LEFT = 0 then replicate (rounds width1) (if ty AND ZEROPAD \<noteq> 0 then CHR ''0'' else CHR '' '') else []) @
     replicate (nat (sint precision - sint i)) (CHR ''0'') @ rev tmp @ replicate (rounds width2) (CHR '' ''))"

lemma if_pair: "(if c then (a, b) else (a', b')) = (if c then a else a', if c then b else b')"
  by simp

lemma if_puts: "(if c then puts en a ob else ob) = puts en (if c then a else []) ob"
  by simp

lemma number_puts:
  assumes "\<not> sint bas < 2" "\<not> 36 < sint bas"
  shows "number en num bas width precision ty ob = puts en (number_out num bas width precision ty) ob"
proof -
  define digits where "digits = (if ty AND LARGE \<noteq> 0 then large_digits else small_digits)"
  define ty' where "ty' = (if ty AND LEFT \<noteq> 0 then ty AND NOT ZEROPAD else ty)"
  obtain sign num' width' where sn: "number_sign ty' num width = (sign, num', width')" by (metis prod_cases3)
  define tmp where "tmp = (if num' = 0 then ''0'' else digit_loop digits bas num')"
  define special where "special = (if ty' AND SPECIAL = 0 then [] else if bas = 8 then ''0'' else if bas = 16 then [CHR ''0'', digits ! 33] else [])"
  have sp: "(if ty' AND SPECIAL \<noteq> 0 then if bas = 8 then put en (CHR ''0'') o1
                   else if bas = 16 then put en (digits ! 33) (put en (CHR ''0'') o1) else o1 else o1) = puts en special o1" for o1
    by (simp add: special_def)
  have wd: "(if ty' AND SPECIAL \<noteq> 0 then if bas = 16 then width' - 2 else if bas = 8 then width' - 1 else width' else width') = width' - of_nat (length special)"
    by (simp add: special_def)
  show ?thesis
    unfolding number_def number_out_def digits_def [symmetric] ty'_def [symmetric] Let_def sn split_conv tmp_def [symmetric] special_def [symmetric] sp wd
    using assms by (simp only: if_False de_Morgan_disj if_pair split_conv simp_thms) (simp only: pad_puts put_puts if_puts puts_append append_assoc)
qed


section \<open>The text of a format\<close>

text \<open>The reference: what a format prints when there is no buffer, as a function of the format and the arguments alone.\<close>

fun read_str :: "(nat \<Rightarrow> char option) \<Rightarrow> nat \<Rightarrow> nat \<Rightarrow> string option" where
  "read_str s i 0 = Some []"
| "read_str s i (Suc n) = do {
     c \<leftarrow> s i;
     cs \<leftarrow> read_str s (i + 1) n;
     Some (c # cs)
   }"

definition char_out :: "u32 \<Rightarrow> u32 \<Rightarrow> char \<Rightarrow> string" where
  "char_out flags width c = (
     let width' = (if flags AND LEFT = 0 then if 0 < sint (width - 1) then 0 else width - 1 else width) in
     (if flags AND LEFT = 0 then replicate (rounds (width - 1)) (CHR '' '') else []) @ [c] @ replicate (rounds (width' - 1)) (CHR '' ''))"

definition string_out :: "(ulong \<Rightarrow> char option) \<Rightarrow> u32 \<Rightarrow> u32 \<Rightarrow> u32 \<Rightarrow> ulong \<Rightarrow> string option" where
  "string_out mem flags width precision s = do {
     n \<leftarrow> strnlen (str_at mem s) 0 (scast precision);
     let len = (of_nat n :: u32);
     let width' = (if flags AND LEFT = 0 then if sint len < sint width then len - 1 else width - 1 else width);
     cs \<leftarrow> read_str (str_at mem s) 0 (rounds len);
     Some ((if flags AND LEFT = 0 then replicate (nat (sint width - sint len)) (CHR '' '') else []) @ cs @
           replicate (nat (sint width' - sint len)) (CHR '' ''))
   }"

definition num_conv :: "char \<Rightarrow> u32 \<Rightarrow> u32 \<times> u32" where
  "num_conv f flags = (
     if f = CHR ''o'' then (8, flags)
     else if f = CHR ''X'' then (16, flags OR LARGE)
     else if f = CHR ''x'' then (16, flags)
     else if f = CHR ''u'' then (10, flags)
     else (10, flags OR SIGN))"

definition convert_text ::
  "(ulong \<Rightarrow> char option) \<Rightarrow> ulong \<Rightarrow> u32 \<Rightarrow> u32 \<Rightarrow> u32 \<Rightarrow> char \<Rightarrow> string \<Rightarrow> ulong list \<Rightarrow> (ulong list \<times> string \<times> store list) option" where
  "convert_text mem off flags width precision qualifier fmt args = (
     let f = peek fmt in
     if f = CHR ''c'' then map_option (\<lambda>(a, args). (args, char_out flags width (char_of (unat a)), [])) (va_arg args)
     else if f = CHR ''s'' then do {
       (s, args) \<leftarrow> va_arg args;
       tx \<leftarrow> string_out mem flags width precision s;
       Some (args, tx, [])
     }
     else if f = CHR ''p'' then
       map_option (\<lambda>(a, args).
         (args, if width = - 1 then number_out a 16 16 precision (flags OR ZEROPAD) else number_out a 16 width precision flags, [])) (va_arg args)
     else if f = CHR ''n'' then map_option (\<lambda>(args, s). (args, [], [s])) (convert_n qualifier args off)
     else if f = CHR ''%'' then Some (args, ''%'', [])
     else if f \<in> {CHR ''o'', CHR ''X'', CHR ''x'', CHR ''d'', CHR ''i'', CHR ''u''} then
       map_option (\<lambda>(a, args).
         (args, number_out (get_num (snd (num_conv f flags)) qualifier a) (fst (num_conv f flags)) width precision (snd (num_conv f flags)), [])) (va_arg args)
     else Some (args, CHR ''%'' # (if f \<noteq> NUL then [f] else []), []))"

function format_text :: "(ulong \<Rightarrow> char option) \<Rightarrow> ulong \<Rightarrow> string \<Rightarrow> ulong list \<Rightarrow> (string \<times> store list) option" where
  "format_text mem off [] args = Some ([], [])"
| "format_text mem off (c # fmt) args = (
     if c \<noteq> CHR ''%'' then map_option (\<lambda>(tx, st). (c # tx, st)) (format_text mem (off + 1) fmt args)
     else do {
       (flags, width, precision, qualifier, fmt, args) \<leftarrow> parse_spec fmt args;
       (args, tx, st) \<leftarrow> convert_text mem off flags width precision qualifier fmt args;
       (tx', st') \<leftarrow> format_text mem (off + of_nat (length tx)) (tl fmt) args;
       Some (tx @ tx', st @ st')
     })"
  by pat_completeness auto
termination
  by (relation "measure (\<lambda>(mem, off, fmt, args). length fmt)") (auto dest!: length_parse_spec)

lemma copy_str_puts: "copy_str en s i n ob = map_option (\<lambda>tx. puts en tx ob) (read_str s i n)"
proof (induction n arbitrary: i ob)
  case (Suc n)
  show ?case
  proof (cases "s i")
    case (Some c)
    then show ?thesis using Suc by (cases "read_str s (Suc i) n") simp_all
  qed simp
qed simp

lemma convert_c_puts: "convert_c en flags width args ob = map_option (\<lambda>(a, args). (args, puts en (char_out flags width (char_of (unat a))) ob)) (va_arg args)"
  by (cases "va_arg args") (simp_all add: convert_c_def char_out_def puts_append pad_puts Let_def split_def)

lemma convert_s_puts:
  "convert_s mem en flags width precision args ob = do {
     (s, args) \<leftarrow> va_arg args;
     tx \<leftarrow> string_out mem flags width precision s;
     Some (args, puts en tx ob)
   }"
proof (cases "va_arg args")
  case (Some a)
  show ?thesis
  proof (cases "strnlen (str_at mem (fst a)) 0 (scast precision)")
    case n: (Some n)
    then show ?thesis using Some by (cases "read_str (str_at mem (fst a)) 0 (rounds (of_nat n))")
      (simp_all add: convert_s_def string_out_def copy_str_puts puts_append pad_puts Let_def split_def)
  qed (use Some in \<open>simp add: convert_s_def string_out_def split_def\<close>)
qed (simp add: convert_s_def)

lemma convert_p_puts:
  "convert_p en flags width precision args ob = map_option (\<lambda>(a, args).
     (args, puts en (if width = - 1 then number_out a 16 16 precision (flags OR ZEROPAD) else number_out a 16 width precision flags) ob)) (va_arg args)"
  by (cases "va_arg args") (simp_all add: convert_p_def number_puts split_def)

lemma convert_num_puts:
  "\<not> sint bas < 2 \<Longrightarrow> \<not> 36 < sint bas \<Longrightarrow> convert_num en bas flags width precision qualifier args ob =
     map_option (\<lambda>(a, args). (args, puts en (number_out (get_num flags qualifier a) bas width precision flags) ob)) (va_arg args)"
  by (cases "va_arg args") (simp_all add: convert_num_def number_puts split_def)

lemma convert_default_puts: "convert_default en fmt ob = puts en (CHR ''%'' # (if peek fmt \<noteq> NUL then [peek fmt] else [])) ob"
  by (simp add: convert_default_def Let_def)

lemma convert_puts:
  assumes "str ob = buf + off"
  shows "convert mem buf en flags width precision qualifier fmt args ob st =
    map_option (\<lambda>(args, tx, st'). (args, puts en tx ob, st @ st')) (convert_text mem off flags width precision qualifier fmt args)"
proof -
  note defs = convert_def convert_text_def Let_def option.map_comp comp_def split_def num_conv_def
  have f: "str ob - buf = off" using assms by simp
  consider "peek fmt = CHR ''c''" | "peek fmt = CHR ''s''" | "peek fmt = CHR ''p''" | "peek fmt = CHR ''n''" | "peek fmt = CHR ''%''"
    | "peek fmt = CHR ''o''" | "peek fmt = CHR ''X''" | "peek fmt = CHR ''x''" | "peek fmt = CHR ''d''" | "peek fmt = CHR ''i''" | "peek fmt = CHR ''u''"
    | "peek fmt \<notin> {CHR ''c'', CHR ''s'', CHR ''p'', CHR ''n'', CHR ''%'', CHR ''o'', CHR ''X'', CHR ''x'', CHR ''d'', CHR ''i'', CHR ''u''}" by blast
  then show ?thesis
  proof cases
    case 1
    then show ?thesis by (simp add: defs convert_c_puts)
  next
    case 2
    show ?thesis
    proof (cases "va_arg args")
      case (Some a)
      then show ?thesis using 2 by (cases "string_out mem flags width precision (fst a)") (simp_all add: defs convert_s_puts)
    qed (simp add: defs convert_s_puts 2)
  next
    case 3
    then show ?thesis by (simp add: defs convert_p_puts)
  next
    case 4
    then show ?thesis by (simp add: defs f)
  next
    case 12
    then show ?thesis by (simp add: defs convert_default_puts)
  qed (simp_all add: defs convert_num_puts)
qed

lemma format_loop_text:
  "str ob = buf + off \<Longrightarrow> format_loop mem buf en fmt args ob st = map_option (\<lambda>(tx, st'). (puts en tx ob, st @ st')) (format_text mem off fmt args)"
proof (induction mem off fmt args arbitrary: ob st rule: format_text.induct)
  case (2 mem off c fmt args)
  show ?case
  proof (cases "c = CHR ''%''")
    case False
    then show ?thesis using 2(1) [OF False, of "put en c ob" st] 2(3) by (simp add: add.assoc option.map_comp comp_def split_def)
  next
    case True
    show ?thesis
    proof (cases "parse_spec fmt args")
      case (Some x)
      obtain flags w p q fmt1 args1 where x: "x = (flags, w, p, q, fmt1, args1)" by (metis prod_cases6)
      show ?thesis
      proof (cases "convert_text mem off flags w p q fmt1 args1")
        case None
        then show ?thesis using True Some x convert_puts [OF 2(3)] by simp
      next
        case y: (Some y)
        obtain args2 tx st2 where y': "y = (args2, tx, st2)" by (metis prod_cases3)
        have "str (puts en tx ob) = buf + (off + of_nat (length tx))" using 2(3) by (simp add: str_puts)
        then have "format_loop mem buf en (tl fmt1) args2 (puts en tx ob) (st @ st2) =
          map_option (\<lambda>(tx', st'). (puts en tx' (puts en tx ob), (st @ st2) @ st')) (format_text mem (off + of_nat (length tx)) (tl fmt1) args2)"
          using 2(2) True Some x y y' by simp
        then show ?thesis using True Some x y y' convert_puts [OF 2(3)]
          by (cases "format_text mem (off + of_nat (length tx)) (tl fmt1) args2") (auto simp: puts_append split_def)
      qed
    qed (simp add: True)
  qed
qed simp

section \<open>What is in the buffer\<close>

lemma unat_minus_1_ulong: "unat (- 1 :: ulong) = 2 ^ 64 - 1"
  by (simp add: unsigned_minus_1_eq_mask mask_eq_exp_minus_1)

lemma written_puts:
  "length tx < 2 ^ 64 \<Longrightarrow> written (puts en tx ob) a = (if unat (a - str ob) < length tx \<and> a \<le> en then Some (tx ! unat (a - str ob)) else written ob a)"
proof (induction tx arbitrary: ob)
  case (Cons c tx)
  show ?case
  proof (cases "a = str ob")
    case True
    have "unat (a - (str ob + 1)) = 2 ^ 64 - 1" using True unat_minus_1_ulong by simp
    then show ?thesis using Cons True by (simp add: put_def)
  next
    case False
    then have "unat (a - str ob) = Suc (unat (a - (str ob + 1)))" using unat_minus_one [of "a - str ob"] unat_gt_0 [of "a - str ob"] by (simp add: algebra_simps)
    then show ?thesis using Cons False by (auto simp: put_def)
  qed
qed simp

text \<open>The bytes of a text in a buffer with \<open>room\<close> bytes: as much of it as fits, with a NUL behind.\<close>

definition text_bytes :: "ulong \<Rightarrow> nat \<Rightarrow> string \<Rightarrow> ulong \<rightharpoonup> char" where
  "text_bytes buf room text a = (
     let k = unat (a - buf); n = min (length text) (room - 1) in
     if room = 0 \<or> n < k then None else if k = n then Some NUL else Some (text ! k))"

lemma unat_ulong: "unat (x :: ulong) < 2 ^ 64"
  using unat_bound [of x] by simp

lemma ucast_of_nat_32: "ucast (of_nat n :: ulong) = (of_nat n :: u32)"
  by (simp add: unsigned_of_nat word_of_nat_eq_iff take_bit_take_bit)

lemma ucast_minus_1: "ucast (- 1 :: ulong) = (- 1 :: u32)"
  by (rule bit_word_eqI) (simp add: bit_unsigned_iff)

lemma buffer_end:
  fixes buf siz :: ulong
  assumes "buf \<noteq> 0"
  shows "buf + siz - 1 < buf - 1 \<longleftrightarrow> 2 ^ 64 < unat buf + unat siz" "unat buf + unat siz \<le> 2 ^ 64 \<Longrightarrow> unat (buf + siz - 1) = unat buf + unat siz - 1"
proof -
  have b: "unat (buf - 1) = unat buf - 1" "0 < unat buf" using assms unat_minus_one unat_gt_0 by auto
  have e: "unat (buf + siz - 1) = (unat buf - 1 + unat siz) mod 2 ^ 64" 
  proof -
    have q: "buf + siz - 1 = buf - 1 + siz" by simp
    show ?thesis unfolding q using unat_word_ariths(1) [of "buf - 1" siz] b(1) by simp
  qed
  show 2: "unat (buf + siz - 1) = unat buf + unat siz - 1" if "unat buf + unat siz \<le> 2 ^ 64"
  proof -
    have "unat buf - 1 + unat siz < 2 ^ 64" using that b(2) by linarith
    then show ?thesis using e b(2) mod_less by (metis Nat.add_diff_assoc2 One_nat_def Suc_leI)
  qed
  have 3: "unat (buf + siz - 1) = unat buf - 1 + unat siz - 2 ^ 64" if "2 ^ 64 < unat buf + unat siz"
  proof -
    have "unat buf - 1 + unat siz - 2 ^ 64 < 2 ^ 64" using unat_ulong [of buf] unat_ulong [of siz] by linarith
    moreover have "2 ^ 64 \<le> unat buf - 1 + unat siz" using that b(2) by linarith
    ultimately show ?thesis unfolding e by (metis le_mod_geq mod_less)
  qed
  show "buf + siz - 1 < buf - 1 \<longleftrightarrow> 2 ^ 64 < unat buf + unat siz"
  proof (cases "2 ^ 64 < unat buf + unat siz")
    case True
    have "unat (buf + siz - 1) < unat (buf - 1)" unfolding 3 [OF True] b(1) using True b(2) unat_ulong [of siz] by linarith
    then show ?thesis using True by (simp add: word_less_nat_alt)
  next
    case False
    then have "\<not> unat (buf + siz - 1) < unat (buf - 1)" unfolding b(1) using 2 b(2) by linarith
    then show ?thesis using False by (simp add: word_less_nat_alt)
  qed
qed

lemma finish_bytes:
  assumes buf: "unat buf + length tx < 2 ^ 64" and en: "unat en + 1 = unat buf + room" "unat buf \<noteq> 0"
    and ob: "ob = puts en tx \<lparr>str = buf, written = Map.empty\<rparr>"
  shows "(if str ob \<le> en then (written ob)(str ob \<mapsto> NUL) else if 0 < room then (written ob)(en \<mapsto> NUL) else written ob) = text_bytes buf room tx"
proof
  fix a
  let ?k = "unat (a - buf)"
  have s: "str ob = buf + of_nat (length tx)" by (simp add: ob str_puts)
  have us: "unat (str ob) = unat buf + length tx" unfolding s using buf by (simp add: unat_word_ariths unat_of_nat)
  have w: "written ob a = (if ?k < length tx \<and> a \<le> en then Some (tx ! ?k) else None)" using written_puts [of tx en _ a] buf by (simp add: ob)
  have ka: "a = buf + of_nat ?k" by simp
  have kd: "unat a = unat buf + ?k" if "unat buf + ?k < 2 ^ 64" using that unat_word_ariths(1) [of buf "a - buf"] by simp
  have le: "str ob \<le> en \<longleftrightarrow> length tx < room" unfolding word_le_nat_alt us using en by linarith
  have sk: "a = str ob \<longleftrightarrow> ?k = length tx"
  proof
    assume "?k = length tx"
    then show "a = str ob" using ka s by simp
  next
    assume "a = str ob"
    then show "?k = length tx" using s buf by (simp add: unat_of_nat)
  qed
  have ae: "a \<le> en \<longleftrightarrow> ?k < room" if "unat buf + ?k < 2 ^ 64" using kd [OF that] en by (auto simp: word_le_nat_alt)
  have ek: "a = en \<longleftrightarrow> ?k + 1 = room" if "unat buf + ?k < 2 ^ 64" "0 < room" using kd [OF that(1)] en by (auto simp: word_unat_eq_iff)
  have big: "unat buf + ?k < 2 ^ 64" if "a = en" "0 < room" using that en unat_ulong [of en] by (simp add: unat_sub_if')
  show "(if str ob \<le> en then (written ob)(str ob \<mapsto> NUL) else if 0 < room then (written ob)(en \<mapsto> NUL) else written ob) a = text_bytes buf room tx a"
  proof (cases "unat buf + ?k < 2 ^ 64")
    case True
    then show ?thesis using le sk ae [OF True] ek [OF True] w by (auto simp: text_bytes_def Let_def)
  next
    case False
    then have "length tx < ?k" "a \<noteq> str ob" using buf sk by auto
    then show ?thesis using False w big by (auto simp: text_bytes_def Let_def)
  qed
qed


lemma buffer_room:
  fixes buf siz :: ulong
  assumes b: "buf \<noteq> 0"
  shows "unat (if buf + siz - 1 < buf - 1 then - 1 else buf + siz - 1) + 1 = unat buf + min (unat siz) (2 ^ 64 - unat buf)"
    "0 < (if buf + siz - 1 < buf - 1 then - 1 - buf + 1 else siz) \<longleftrightarrow> 0 < min (unat siz) (2 ^ 64 - unat buf)"
proof -
  have bpos: "unat buf \<noteq> 0" using b by (simp add: unat_eq_0)
  show "unat (if buf + siz - 1 < buf - 1 then - 1 else buf + siz - 1) + 1 = unat buf + min (unat siz) (2 ^ 64 - unat buf)"
  proof (cases "buf + siz - 1 < buf - 1")
    case True
    then have "2 ^ 64 < unat buf + unat siz" using buffer_end(1) [OF b] by blast
    then show ?thesis using True unat_minus_1_ulong unat_ulong [of buf] by simp
  next
    case False
    then have "unat buf + unat siz \<le> 2 ^ 64" using buffer_end(1) [OF b] by (metis not_le)
    then show ?thesis using False buffer_end(2) [OF b, of siz] bpos by simp
  qed
  show "0 < (if buf + siz - 1 < buf - 1 then - 1 - buf + 1 else siz) \<longleftrightarrow> 0 < min (unat siz) (2 ^ 64 - unat buf)"
    using b unat_ulong [of buf] by (auto simp: word_neq_0_conv [symmetric] unat_gt_0 buffer_end(1) [OF b])
qed

lemma vsnprintf_text:
  assumes b: "buf \<noteq> 0" and s: "\<not> bit siz 31" and fits: "\<And>tx st. format_text mem 0 fmt args = Some (tx, st) \<Longrightarrow> unat buf + length tx < 2 ^ 64"
  shows "vsnprintf mem buf siz fmt args =
    map_option (\<lambda>(tx, st). (of_nat (length tx), text_bytes buf (min (unat siz) (2 ^ 64 - unat buf)) tx, st)) (format_text mem 0 fmt args)"
proof -
  let ?room = "min (unat siz) (2 ^ 64 - unat buf)" let ?o = "\<lparr>str = buf, written = Map.empty\<rparr>"
  define en where "en = (if buf + siz - 1 < buf - 1 then - 1 else buf + siz - 1)"
  define siz' where "siz' = (if buf + siz - 1 < buf - 1 then - 1 - buf + 1 else siz)"
  have v: "vsnprintf mem buf siz fmt args = (case format_loop mem buf en fmt args ?o [] of None \<Rightarrow> None | Some (ob, st) \<Rightarrow>
    Some (ucast (str ob - buf), if str ob \<le> en then (written ob)(str ob \<mapsto> NUL) else if 0 < siz' then (written ob)(en \<mapsto> NUL) else written ob, st))"
    using s by (simp add: vsnprintf_def Let_def en_def siz'_def split: option.split)
  have bpos: "unat buf \<noteq> 0" using b by (simp add: unat_eq_0)
  note e = buffer_room [OF b, of siz, folded en_def siz'_def]
  show ?thesis
  proof (cases "format_text mem 0 fmt args")
    case None
    then show ?thesis using v format_loop_text [of ?o buf 0 mem en fmt args "[]"] by simp
  next
    case (Some y)
    obtain tx st where y: "y = (tx, st)" by fastforce
    have "ucast (str (puts en tx ?o) - buf) = (of_nat (length tx) :: u32)" by (simp add: str_puts ucast_of_nat_32)
    moreover have "unat buf + length tx < 2 ^ 64" using fits Some y by blast
    note finish_bytes [OF this e(1) bpos refl, folded e(2)]
    ultimately show ?thesis using v format_loop_text [of ?o buf 0 mem en fmt args "[]"] Some y by (simp del: fun_upd_apply)
  qed
qed

section \<open>Numbers there and back\<close>

lemma digit_chars:
  "\<forall>k < 16. isxdigit (small_digits ! k) \<and> strtoul_digit (small_digits ! k) = of_nat k \<and> toupper (small_digits ! k) \<noteq> CHR ''X'' \<and> small_digits ! k \<notin> {NUL, CHR ''-''}"
  "\<forall>k < 16. isxdigit (large_digits ! k) \<and> strtoul_digit (large_digits ! k) = of_nat k \<and> toupper (large_digits ! k) \<noteq> CHR ''X'' \<and> large_digits ! k \<notin> {NUL, CHR ''-''}"
  by code_simp+

lemma decimal_chars:
  "\<forall>k < 10. isdigit (small_digits ! k) \<and> isdigit (large_digits ! k)"
  "\<forall>k < 8. of_char (small_digits ! k) \<le> (of_char (CHR ''7'') :: nat) \<and> of_char (large_digits ! k) \<le> (of_char (CHR ''7'') :: nat)"
  "\<forall>k < 16. \<not> isspace (small_digits ! k) \<and> \<not> isspace (large_digits ! k)"
  by code_simp+


definition digits_of :: "string \<Rightarrow> u32 \<Rightarrow> ulong \<Rightarrow> string" where
  "digits_of digits bas num = rev (if num = 0 then ''0'' else digit_loop digits bas num)"

lemma small_base: "bas \<in> {8, 10, 16} \<Longrightarrow> unat bas \<le> 16 \<and> 2 \<le> unat bas \<and> \<not> bas < 2 \<and> sint bas = int (unat bas)" for bas :: u32
  by auto

lemma digit_index: "bas \<in> {8, 10, 16} \<Longrightarrow> unat (num mod ucast bas :: ulong) < unat (bas :: u32)"
  using small_base [of bas] by (simp add: unat_mod unat_ucast_32)

lemma digit_char:
  assumes "digits \<in> {small_digits, large_digits}" "k < 16"
  shows "isxdigit (digits ! k)" "strtoul_digit (digits ! k) = of_nat k" "toupper (digits ! k) \<noteq> CHR ''X''" "digits ! k \<noteq> NUL" "digits ! k \<noteq> CHR ''-''"
  using assms digit_chars by auto

lemma strtoul_digits:
  assumes "digits \<in> {small_digits, large_digits}" "bas \<in> {8, 10, 16}"
  shows "strtoul_loop bas (rev (digit_loop digits bas num) @ rest) 0 = strtoul_loop bas rest num"
  using assms
proof (induction digits bas num arbitrary: rest rule: digit_loop.induct)
  case (1 digits bas num)
  show ?case
  proof (cases "num = 0")
    case True
    then show ?thesis by (simp add: digit_loop.simps)
  next
    case False
    let ?B = "ucast bas :: ulong" let ?k = "unat (num mod ?B)" let ?d = "digits ! ?k"
    have k: "?k < unat bas" "?k < 16" using digit_index [OF 1(3)] small_base [OF 1(3)] by (auto intro: less_le_trans)
    have d: "isxdigit ?d" "strtoul_digit ?d = num mod ?B" using digit_char [OF 1(2) k(2)] by simp_all
    have lt: "num mod ?B < ?B" using k(1) by (simp add: word_less_nat_alt unat_ucast_32)
    have "strtoul_loop bas (rev (digit_loop digits bas num) @ rest) 0 = strtoul_loop bas (rev (digit_loop digits bas (num div ?B)) @ ?d # rest) 0"
      using False small_base [OF 1(3)] by (subst digit_loop.simps) simp
    also have "\<dots> = strtoul_loop bas (?d # rest) (num div ?B)" using 1 False small_base [OF 1(3)] by blast
    also have "\<dots> = strtoul_loop bas rest num" using d lt by (simp add: div_mult_mod_eq)
    finally show ?thesis .
  qed
qed

lemma digit_loop_chars:
  assumes "digits \<in> {small_digits, large_digits}" "bas \<in> {8, 10, 16}" "c \<in> set (digit_loop digits bas num)"
  shows "\<exists>k < unat bas. c = digits ! k"
  using assms
proof (induction digits bas num rule: digit_loop.induct)
  case (1 digits bas num)
  have "\<not> (num = 0 \<or> bas < 2) \<and> (c = digits ! unat (num mod ucast bas) \<or> c \<in> set (digit_loop digits bas (num div ucast bas)))"
    using 1(4) by (subst (asm) digit_loop.simps) (auto split: if_splits)
  then show ?case using 1(1-3) digit_index [of bas num] by blast
qed

lemma digits_of_chars:
  assumes "digits \<in> {small_digits, large_digits}" "bas \<in> {8, 10, 16}" "c \<in> set (digits_of digits bas num)"
  shows "\<exists>k < unat bas. c = digits ! k"
proof (cases "num = 0")
  case True
  then have "c = digits ! 0" using assms(1,3) by (auto simp: digits_of_def small_digits_def large_digits_def)
  then show ?thesis using small_base [OF assms(2)] by (intro exI [of _ 0]) auto
next
  case False
  then show ?thesis using assms digit_loop_chars by (simp add: digits_of_def)
qed

lemma digits_of_nonempty: "bas \<in> {8, 10, 16} \<Longrightarrow> digits_of digits bas num \<noteq> []"
  using small_base [of bas] by (auto simp: digits_of_def digit_loop.simps)

lemma length_digit_loop: "bas \<in> {8, 10, 16} \<Longrightarrow> unat num < 2 ^ n \<Longrightarrow> length (digit_loop digits bas num) \<le> n"
proof (induction n arbitrary: num)
  case 0
  then show ?case by (simp add: unat_eq_0 digit_loop.simps)
next
  case (Suc n)
  have b: "2 \<le> unat bas" using small_base [OF Suc(2)] by simp
  have "unat (num div ucast bas) \<le> unat num div 2" using b by (simp add: unat_div unat_ucast_32 div_le_mono2)
  also have "\<dots> < 2 ^ n" using Suc(3) by simp
  finally have "length (digit_loop digits bas (num div ucast bas)) \<le> n" by (rule Suc.IH [OF Suc(2)])
  then show ?case by (subst digit_loop.simps) simp
qed

lemma length_digits_of: "bas \<in> {8, 10, 16} \<Longrightarrow> length (digits_of digits bas num) \<le> 64"
  using length_digit_loop [of bas num 64 digits] unat_ulong [of num] by (simp add: digits_of_def)

lemma strtoul_digits_of:
  assumes d: "digits \<in> {small_digits, large_digits}" and b: "bas \<in> {8, 10, 16}"
  shows "strtoul_loop bas (digits_of digits bas num) 0 = (num, [])"
proof (cases "num = 0")
  case True
  have "strtoul_digit (CHR ''0'') = 0" "isxdigit (CHR ''0'')" by code_simp+
  then show ?thesis using True b by (auto simp: digits_of_def word_less_nat_alt)
next
  case False
  then show ?thesis using strtoul_digits [OF assms, of num "[]"] by (simp add: digits_of_def)
qed

lemma simple_strtoul_digits_of:
  assumes d: "digits \<in> {small_digits, large_digits}" and b: "bas \<in> {8, 10, 16}"
  shows "simple_strtoul (digits_of digits bas num) bas = (num, [])"
proof -
  have "toupper (peek (tl (digits_of digits bas num))) \<noteq> CHR ''X''"
  proof (cases "tl (digits_of digits bas num)")
    case Nil
    moreover have "toupper NUL \<noteq> CHR ''X''" by code_simp
    ultimately show ?thesis by (simp add: peek_def)
  next
    case (Cons c cs)
    then have "c \<in> set (digits_of digits bas num)" by (metis list.set_intros(1) list.set_sel(2) tl_Nil list.distinct(1))
    then obtain k where "k < unat bas" "c = digits ! k" using digits_of_chars [OF assms] by blast
    then show ?thesis using Cons digit_char(3) [OF d, of k] small_base [OF b] by (simp add: peek_def)
  qed
  then have "strtoul_prefix (digits_of digits bas num) bas = (bas, digits_of digits bas num)" using b by (auto simp: strtoul_prefix_def)
  then show ?thesis using strtoul_digits_of [OF assms] by (simp add: simple_strtoul_def)
qed


lemma sint_small: "m < 2 ^ 31 \<Longrightarrow> sint (of_nat m :: u32) = int m" "m < 2 ^ 31 \<Longrightarrow> sint (- of_nat m :: u32) = - int m"
proof -
  assume m: "m < 2 ^ 31"
  have "sint (of_nat m :: u32) = signed_take_bit 31 (int m)" by (simp add: signed_of_nat)
  also have "\<dots> = int m" using m by (intro signed_take_bit_int_eq_self) simp_all
  finally show "sint (of_nat m :: u32) = int m" .
  have "(- of_nat m :: u32) = of_int (- int m)" by simp
  then have "sint (- of_nat m :: u32) = signed_take_bit 31 (- int m)" by (simp only: signed_of_int) simp
  also have "\<dots> = - int m" using m by (intro signed_take_bit_int_eq_self) simp_all
  finally show "sint (- of_nat m :: u32) = - int m" .
qed

lemma rounds_neg: "m < 2 ^ 31 \<Longrightarrow> rounds (- of_nat m) = 0" "m < 2 ^ 31 \<Longrightarrow> after_rounds (- of_nat m) = - of_nat (m + 1)"
  by (simp_all add: rounds_def after_rounds_def sint_small)

lemma number_out_plain:
  assumes ty: "ty \<in> {0, SIGN, LARGE}" and b: "bas \<in> {8, 10, 16}"
  defines "digits \<equiv> if ty = LARGE then large_digits else small_digits"
  shows "number_out num bas (- 1) (- 1) ty = (if ty = SIGN \<and> bit num 63 then CHR ''-'' # digits_of digits bas (- num) else digits_of digits bas num)"
proof -
  have fl: "(if ty AND LARGE \<noteq> 0 then large_digits else small_digits) = digits" "ty AND LEFT = 0" "ty AND SPECIAL = 0" "ty AND (ZEROPAD + LEFT) = 0"
    "ty AND SIGN \<noteq> 0 \<longleftrightarrow> ty = SIGN" "ty AND PLUS = 0" "ty AND SPACE = 0"
    using ty by (auto simp: digits_def)
  define neg where "neg = (ty = SIGN \<and> bit num 63)"
  have sn: "number_sign ty num (- 1) = (if neg then CHR ''-'' else NUL, if neg then - num else num, - of_nat (if neg then 2 else 1))"
    unfolding number_sign_def fl(5) neg_def using fl(6,7) by simp
  define mag where "mag = (if neg then - num else num)"
  define tmp where "tmp = (if mag = 0 then ''0'' else digit_loop digits bas mag)"
  have len: "length tmp \<le> 64" using length_digits_of [OF b, of digits mag] by (simp add: digits_of_def tmp_def)
  have pr: "(if sint (- 1 :: u32) < sint (of_nat (length tmp) :: u32) then of_nat (length tmp) else - 1) = (of_nat (length tmp) :: u32)"
    using len sint_small(1) [of "length tmp"] by simp
  have w: "- of_nat (if neg then 2 else 1) - of_nat (length ([] :: string)) - of_nat (length tmp) = (- of_nat (length tmp + (if neg then 2 else 1)) :: u32)"
    by simp
  note r = rounds_neg [of "length tmp + (if neg then 2 else 1)"] rounds_neg [of "length tmp + (if neg then 2 else 1) + 1"]
    rounds_neg [of "length tmp + (if neg then 2 else 1) + 1 + 1"]
  have "number_out num bas (- 1) (- 1) ty = (if neg then ''-'' else []) @ rev tmp"
    unfolding number_out_def fl(1) Let_def
    by (simp only: fl(2-4) if_True if_False simp_thms sn split_conv mag_def [symmetric] tmp_def [symmetric] pr w) (use len r in simp)
  then show ?thesis by (simp add: neg_def digits_of_def mag_def tmp_def)
qed


text \<open>The conversions and qualifiers of the round trip: base, flags of the printing and signedness of the scanning, and the character of the qualifier.\<close>

definition conv_of :: "char \<Rightarrow> u32 \<times> u32 \<times> bool" where
  "conv_of f = (
     if f = CHR ''d'' then (10, SIGN, True)
     else if f = CHR ''u'' then (10, 0, False)
     else if f = CHR ''o'' then (8, 0, False)
     else if f = CHR ''x'' then (16, 0, False)
     else (16, LARGE, False))"

abbreviation (input) conversions :: "char set" where
  "conversions \<equiv> {CHR ''d'', CHR ''u'', CHR ''o'', CHR ''x'', CHR ''X''}"

abbreviation (input) qualifiers :: "string set" where
  "qualifiers \<equiv> {[], ''h'', ''l'', ''L''}"

lemma class_simps [simp]:
  "isdigit (CHR ''d'') = False" "isdigit (CHR ''u'') = False" "isdigit (CHR ''o'') = False" "isdigit (CHR ''x'') = False" "isdigit (CHR ''X'') = False"
  "isdigit (CHR ''h'') = False" "isdigit (CHR ''l'') = False" "isdigit (CHR ''L'') = False" "isspace (CHR ''%'') = False" "isspace (CHR ''-'') = False"
  by code_simp+

lemma peek_simps [simp]: "peek [] = NUL" "peek (c # cs) = c"
  by (simp_all add: peek_def)

lemma parse_plain:
  assumes "q \<in> qualifiers" "f \<in> conversions"
  shows "parse_spec (q @ [f]) args = Some (0, - 1, - 1, peek q, [f], args)" "scan_qualifier (q @ [f]) = (peek q, [f])"
    "peek (q @ [f]) \<noteq> CHR ''*''" "\<not> isdigit (peek (q @ [f]))"
  using assms by (auto simp: parse_spec_def get_width_def get_precision_def get_qualifier_def scan_qualifier_def)

lemma num_conv_plain: "f \<in> conversions \<Longrightarrow> num_conv f 0 = (fst (conv_of f), fst (snd (conv_of f)))"
  by (auto simp: num_conv_def conv_of_def)

lemma format_plain:
  assumes "q \<in> qualifiers" "f \<in> conversions" "conv_of f = (bas, ty, sg)"
  shows "format_text mem off (''%'' @ q @ [f]) [a] = Some (number_out (get_num ty (peek q) a) bas (- 1) (- 1) ty, [])"
  using assms num_conv_plain [of f] by (auto simp: parse_plain [OF assms(1,2)] convert_text_def va_arg_def)

lemma scan_plain:
  assumes q: "q \<in> qualifiers" "f \<in> conversions" "conv_of f = (bas, ty, sg)"
    and inp: "inp \<noteq> []" "\<not> isspace (peek inp)" "\<not> bad_digit sg bas inp" and num: "scan_num (peek q) sg bas inp [p] = Some (st, [], [])"
  shows "sscanf inp (''%'' @ q @ [f]) [p] = Some (1, [st])"
proof -
  note parse = parse_plain [OF q(1,2)]
  have "dropWhile isspace inp = inp" using inp(1,2) by (cases inp) simp_all
  then have i: "scan_int (peek q) sg bas [] inp [p] = Some (Some ([], [], [], [st], 1))" using inp(3) num by (simp add: scan_int_def)
  have "scan_directive inp (q @ [f]) inp [p] = Some (Some ([], [], [], [st], 1))"
    unfolding scan_directive_def if_not_P [OF parse(3)] if_not_P [OF parse(4)] split_conv parse(2) Let_def
    using q(2,3) inp(1) i by (elim insertE emptyE) (simp_all add: conv_of_def)
  then show ?thesis using inp(1) by (simp add: sscanf_def vsscanf_def scan_loop.simps [of _ "CHR ''%'' # _"] scan_loop.simps [of _ "[]"])
qed

lemma strtoull_eq: "simple_strtoull = simple_strtoul" "simple_strtoll = simple_strtol"
proof -
  have "strtoull_digit c = strtoul_digit c" for c by (simp add: strtoull_digit_def strtoul_digit_def toupper_def)
  then have "strtoull_loop bas cp r = strtoul_loop bas cp r" for bas cp r by (induction bas cp r rule: strtoul_loop.induct) simp_all
  then show "simple_strtoull = simple_strtoul" by (intro ext) (simp add: simple_strtoull_def simple_strtoul_def)
  then show "simple_strtoll = simple_strtol" by (intro ext) (simp add: simple_strtoll_def simple_strtol_def)
qed

lemma cut_get_num:
  "ucast (ucast (get_num ty (CHR ''h'') a) :: u16) = (ucast (ucast a :: u16) :: ulong)"
  "ucast (ucast (get_num ty NUL a) :: u32) = (ucast (ucast a :: u32) :: ulong)"
  by (auto simp: get_num_def intro!: bit_word_eqI simp: bit_simps)


lemma digits_of_head:
  assumes d: "digits \<in> {small_digits, large_digits}" and b: "bas \<in> {8, 10, 16}"
  shows "peek (digits_of digits bas num) \<notin> {NUL, CHR ''-''} \<and> \<not> isspace (peek (digits_of digits bas num)) \<and> \<not> bad_digit False bas (digits_of digits bas num)"
proof -
  obtain c cs where c: "digits_of digits bas num = c # cs" using digits_of_nonempty [OF b] by (meson neq_Nil_conv)
  then obtain k where k: "k < unat bas" "c = digits ! k" using digits_of_chars [OF d b, of c num] by auto
  then have k16: "k < 16" using small_base [OF b] by simp
  have "\<not> bad_digit False bas (digits_of digits bas num)" "\<not> isspace c"
    using b d k k16 c decimal_chars digit_char [OF d k16] by (auto simp: bad_digit_def)
  then show ?thesis using c k digit_char(4,5) [OF d k16] by simp
qed

lemma plain_text:
  fixes num :: ulong and bas ty :: u32
  assumes f: "f \<in> conversions" "conv_of f = (bas, ty, sg)"
  defines "tx \<equiv> number_out num bas (- 1) (- 1) ty"
  shows "tx \<noteq> []" "\<not> isspace (peek tx)" "\<not> bad_digit sg bas tx" "(if sg then simple_strtol tx bas else simple_strtoul tx bas) = (num, [])" "length tx \<le> 65"
proof -
  define digits where "digits = (if ty = LARGE then large_digits else small_digits)"
  have c: "ty \<in> {0, SIGN, LARGE}" "bas \<in> {8, 10, 16}" "sg \<longleftrightarrow> ty = SIGN" "digits \<in> {small_digits, large_digits}"
    using f by (auto simp: conv_of_def digits_def)
  have tx: "tx = (if sg \<and> bit num 63 then CHR ''-'' # digits_of digits bas (- num) else digits_of digits bas num)"
    unfolding tx_def number_out_plain [OF c(1,2)] digits_def [symmetric] using c(3) by simp
  note h = digits_of_head [OF c(4,2)] and s = simple_strtoul_digits_of [OF c(4,2)]
  show "tx \<noteq> []" "\<not> isspace (peek tx)" using tx h digits_of_nonempty [OF c(2)] by auto
  show "\<not> bad_digit sg bas tx" using tx h [of num] h [of "- num"] by (auto simp: bad_digit_def Let_def)
  show "(if sg then simple_strtol tx bas else simple_strtoul tx bas) = (num, [])" using tx h [of num] s [of num] s [of "- num"]
    by (auto simp: simple_strtol_def)
  show "length tx \<le> 65" using tx length_digits_of [OF c(2), of digits num] length_digits_of [OF c(2), of digits "- num"] by simp
qed

section \<open>Properties\<close>





text \<open>
  C16: a printed integer is read back. For the conversions \<open>d\<close>, \<open>u\<close>, \<open>o\<close>, \<open>x\<close> and \<open>X\<close>, with the qualifiers for \<^verbatim>\<open>short\<close>, \<^verbatim>\<open>long\<close> and \<^verbatim>\<open>long long\<close> or
  without one, printing any value into a buffer of 100 bytes does not cut it off, and \<^verbatim>\<open>sscanf\<close> of the result with the same format returns 1 and stores exactly the bits of the argument that the qualifier
  names.
\<close>

theorem print_scan_roundtrip:
  assumes q: "q \<in> {[], ''h'', ''l'', ''L''}" and f: "f \<in> {CHR ''d'', CHR ''u'', CHR ''o'', CHR ''x'', CHR ''X''}" and buf: "buf \<noteq> 0" "unat buf + 100 \<le> 2 ^ 64"
  shows "\<exists>tx. snprintf mem buf 100 (''%'' @ q @ [f]) [a] = Some (of_nat (length tx), text_bytes buf 100 tx, []) \<and> length tx < 100 \<and>
    sscanf tx (''%'' @ q @ [f]) [p] =
      Some (1, [if q = ''h'' then (p, 2, ucast (ucast a :: u16)) else if q = [] then (p, 4, ucast (ucast a :: u32)) else (p, 8, a)])"
proof -
  obtain bas ty sg where c: "conv_of f = (bas, ty, sg)" by (metis prod_cases3)
  let ?num = "get_num ty (peek q) a" let ?tx = "number_out ?num bas (- 1) (- 1) ty"
  note tx = plain_text [OF f c, of ?num] and ft = format_plain [OF q f c, of mem 0 a]
  have "min (unat (100 :: ulong)) (2 ^ 64 - unat buf) = 100" using buf(2) by simp
  then have "vsnprintf mem buf 100 (''%'' @ q @ [f]) [a] = Some (of_nat (length ?tx), text_bytes buf 100 ?tx, [])"
    using vsnprintf_text [OF buf(1), of 100 mem "''%'' @ q @ [f]" "[a]"] ft tx(5) buf(2) by (simp del: format_text.simps)
  moreover have "scan_num (peek q) sg bas ?tx [p] =
    Some (if q = ''h'' then (p, 2, ucast (ucast a :: u16)) else if q = [] then (p, 4, ucast (ucast a :: u32)) else (p, 8, a), [], [])"
    using q tx(4) cut_get_num [of ty a] by (auto simp: scan_num_def va_arg_def strtoull_eq get_num_def [of _ "CHR ''l''"] get_num_def [of _ "CHR ''L''"])
  note scan_plain [OF q f c tx(1-3) this]
  ultimately show ?thesis using tx(5) by (intro exI [of _ ?tx]) (simp add: snprintf_def)
qed

theorem print_scan_roundtrip_witness:
  "\<exists>tx. snprintf (\<lambda>a. None) 4096 100 ''%ld'' [- 5] = Some (of_nat (length tx), text_bytes 4096 100 tx, []) \<and> sscanf tx ''%ld'' [8] = Some (1, [(8, 8, - 5)])"
  using print_scan_roundtrip [of "''l''" "CHR ''d''" 4096 "\<lambda>a. None" "- 5" 8] by auto

text \<open>
  C37: two uses of size 0 fail. \<^verbatim>\<open>vscnprintf\<close> with size 0 returns -1, not the 0 its comment promises, whenever \<^verbatim>\<open>vsnprintf\<close> returns. And \<^verbatim>\<open>vsnprintf\<close> with size 0 and
  a null buffer, the C99 way to ask for the length only, writes the text to address 0, since the end of the buffer wraps around.
\<close>

theorem printf_size_zero:
  "map_option fst (vscnprintf mem buf 0 fmt args) = map_option (\<lambda>r. - 1) (vsnprintf mem buf 0 fmt args) \<and>
   vsnprintf mem 0 0 ''a'' [] = Some (1, [0 \<mapsto> CHR ''a'', 1 \<mapsto> NUL], [])"
proof
  show "map_option fst (vscnprintf mem buf 0 fmt args) = map_option (\<lambda>r. - 1) (vsnprintf mem buf 0 fmt args)"
    by (cases "vsnprintf mem buf 0 fmt args") (simp_all add: vscnprintf_def split_def ucast_minus_1)
  show "vsnprintf mem 0 0 ''a'' [] = Some (1, [0 \<mapsto> CHR ''a'', 1 \<mapsto> NUL], [])"
    by (simp add: vsnprintf_def put_def)
qed

end
