(* ===== verification/Cmdline.thy ===== *)
theory Cmdline
  imports Vsprintf
begin

text \<open>
  The parsers of the kernel command line, \<^verbatim>\<open>lib/cmdline.c\<close>, on top of the string-to-number functions of \<^verbatim>\<open>lib/vsprintf.c\<close>, and
  that they only move forward in the string.
\<close>

text \<open>
  \<^verbatim>\<open>get_option\<close> with the old value of \<^verbatim>\<open>*pint\<close>; the result, the new value and the rest of the string. Two pointers into the string
  are equal when the rests are.
\<close>

definition get_option :: "string \<Rightarrow> u32 \<Rightarrow> nat \<times> u32 \<times> string" where
  "get_option cur pint = (
     if cur = [] then (0, pint, cur)
     else
       let (v, rest) = simple_strtol cur 0; pint = ucast v in
       if cur = rest then (0, pint, rest)
       else if peek rest = CHR '','' then (2, pint, tl rest)
       else (1, pint, rest))"

text \<open>The loop of \<^verbatim>\<open>get_options\<close> over the array \<^verbatim>\<open>ints\<close>; a store outside the array is a crash.\<close>

function get_options_loop :: "string \<Rightarrow> nat \<Rightarrow> nat \<Rightarrow> u32 list \<Rightarrow> (string \<times> nat \<times> u32 list) option" where
  "get_options_loop cur nints i ints = (
     if i < nints then do {
       BUG_ON (length ints \<le> i);
       let (res, v, cur) = get_option cur (ints ! i);
       let ints = ints[i := v];
       if res = 0 then Some (cur, i, ints)
       else if res = 1 then Some (cur, i + 1, ints)
       else get_options_loop cur nints (i + 1) ints
     }
     else Some (cur, i, ints))"
  by pat_completeness auto
termination
  by (relation "measure (\<lambda>(cur, nints, i, ints). nints - i)") auto

declare get_options_loop.simps [simp del]

definition get_options :: "string \<Rightarrow> nat \<Rightarrow> u32 list \<Rightarrow> (string \<times> u32 list) option" where
  "get_options cur nints ints = do {
     (cur, i, ints) \<leftarrow> get_options_loop cur nints 1 ints;
     BUG_ON (ints = []);
     Some (cur, ints[0 := of_nat (i - 1)])
   }"

definition memparse :: "string \<Rightarrow> ulong \<times> string" where
  "memparse ptr = (
     let (ret, rest) = simple_strtoull ptr 0 in
     if peek rest = CHR ''G'' \<or> peek rest = CHR ''g'' then (push_bit 30 ret, tl rest)
     else if peek rest = CHR ''M'' \<or> peek rest = CHR ''m'' then (push_bit 20 ret, tl rest)
     else if peek rest = CHR ''K'' \<or> peek rest = CHR ''k'' then (push_bit 10 ret, tl rest)
     else (ret, rest))"

lemma strtoul_loop_rest: "strtoul_loop bas cp r = (v, rest) \<Longrightarrow> length rest \<le> length cp \<and> (length rest = length cp \<longrightarrow> rest = cp)"
  by (induction bas cp r rule: strtoul_loop.induct) (auto split: if_splits)

lemma strtoul_prefix_rest: "strtoul_prefix cp bas = (b, rest) \<Longrightarrow> length rest \<le> length cp \<and> (length rest = length cp \<longrightarrow> rest = cp)"
  by (cases cp; cases "tl cp") (auto simp: strtoul_prefix_def peek_def Let_def split: if_splits)

lemma simple_strtoul_rest: "simple_strtoul cp bas = (v, rest) \<Longrightarrow> length rest \<le> length cp \<and> (length rest = length cp \<longrightarrow> rest = cp)"
  by (auto simp: simple_strtoul_def split: prod.splits dest!: strtoul_loop_rest strtoul_prefix_rest)

lemma simple_strtol_rest: "simple_strtol cp bas = (v, rest) \<Longrightarrow> length rest \<le> length cp \<and> (length rest = length cp \<longrightarrow> rest = cp)"
  by (cases cp) (auto simp: simple_strtol_def peek_def split: prod.splits if_splits dest!: simple_strtoul_rest)

lemma get_option_rest: "get_option cur p = (r, v, rest) \<Longrightarrow> length rest \<le> length cur \<and> (r \<noteq> 0 \<longrightarrow> length rest < length cur)"
  by (auto simp: get_option_def Let_def split: prod.splits if_splits dest!: simple_strtol_rest)

lemma get_options_some: "nints \<le> length ints \<Longrightarrow> \<exists>cur' i ints'. get_options_loop cur nints k ints = Some (cur', i, ints') \<and> length ints' = length ints"
proof (induction cur nints k ints rule: get_options_loop.induct)
  case (1 cur nints i ints)
  show ?case
  proof (cases "i < nints")
    case True
    obtain res v cur' where g: "get_option cur (ints ! i) = (res, v, cur')" by (metis prod_cases3)
    show ?thesis using True 1 g by (subst get_options_loop.simps) (auto simp: Let_def)
  qed (simp add: get_options_loop.simps)
qed

end
