(* ===== verification/Reserve.thy ===== *)
theory Reserve
  imports Cmdline VsprintfProps Resource
begin

text \<open>
  The boot option \<^verbatim>\<open>reserve=\<close> of \<^verbatim>\<open>kernel/resource.c\<close>, where the parser of the command line and the resource tree meet,
  with the lemmas on its loop and on decimal numbers in the option.
\<close>

unbundle bit_operations_syntax

abbreviation (input) MAXRESERVE :: nat where "MAXRESERVE \<equiv> 4"

text \<open>
  The two numbers that a round of \<^verbatim>\<open>reserve_setup\<close> parses, or \<open>None\<close> when the loop ends. The local variables start with any value, here 0; they are used
  only after \<^verbatim>\<open>get_option\<close> has written them.
\<close>

definition reserve_args :: "string \<Rightarrow> (u32 \<times> u32 \<times> string) option" where
  "reserve_args cur = (
     let (r, io_start, cur) = get_option cur 0 in
     if r \<noteq> 2 then None
     else
       let (r, io_num, cur) = get_option cur 0 in
       if r = 0 then None else Some (io_start, io_num, cur))"

lemma reserve_args_rest:
  assumes "reserve_args cur = Some (io_start, io_num, rest)"
  shows "length rest < length cur"
proof -
  obtain r v c1 where 1: "get_option cur 0 = (r, v, c1)" by (metis prod_cases3)
  obtain r2 v2 c2 where 2: "get_option c1 0 = (r2, v2, c2)" by (metis prod_cases3)
  show ?thesis using assms 1 2 get_option_rest [OF 1] get_option_rest [OF 2] by (auto simp: reserve_args_def split: if_splits)
qed

text \<open>
  The loop of \<^verbatim>\<open>reserve_setup\<close>: \<open>x\<close> is the static counter \<^verbatim>\<open>reserved\<close>, and \<open>reserve\<close> gives the addresses of the static array.
\<close>

function reserve_loop :: "(nat \<Rightarrow> nat) \<Rightarrow> nat \<Rightarrow> nat \<Rightarrow> string \<Rightarrow> nat \<Rightarrow> res_store \<Rightarrow> (nat \<times> res_store) option" where
  "reserve_loop reserve iomem ioport cur x s = (
     case reserve_args cur of
       None \<Rightarrow> Some (x, s)
     | Some (io_start, io_num, cur) \<Rightarrow>
         if x < MAXRESERVE then do {
           res \<leftarrow> s (reserve x);
           let res = res\<lparr>res_name := ''reserved'', res_start := scast io_start, res_end := scast (io_start + io_num - 1),
                         res_flags := IORESOURCE_BUSY, res_child := None\<rparr>;
           let s = s(reserve x \<mapsto> res);
           (err, s) \<leftarrow> request_resource s (if 0x10000 \<le> res_start res then iomem else ioport) (reserve x);
           reserve_loop reserve iomem ioport cur (if err = 0 then x + 1 else x) s
         }
         else reserve_loop reserve iomem ioport cur x s)"
  by pat_completeness auto
termination
  by (relation "measure (\<lambda>(reserve, iomem, ioport, cur, x, s). length cur)") (auto dest: reserve_args_rest)

declare reserve_loop.simps [simp del]

definition reserve_setup :: "(nat \<Rightarrow> nat) \<Rightarrow> nat \<Rightarrow> nat \<Rightarrow> string \<Rightarrow> nat \<Rightarrow> res_store \<Rightarrow> (int \<times> nat \<times> res_store) option" where
  "reserve_setup reserve iomem ioport cur reserved s = map_option (\<lambda>(x, s). (1, x, s)) (reserve_loop reserve iomem ioport cur reserved s)"

section \<open>The loop keeps the tree\<close>

lemma relink_kid: "y \<noteq> root \<Longrightarrow> kid (relink s root xs v) y = kid s y"
  by (simp add: relink_def)

lemma attached_unattached:
  assumes "unattached s y" "y \<noteq> root" "y \<noteq> new" "dom (attached s root new us vs) = dom s"
  shows "unattached (attached s root new us vs) y"
  using assms by (simp add: unattached_def attached_def relink_kid)

lemma refill_ok:
  assumes ok: "res_ok s C" and a: "unattached s a" and r: "res_parent r = None" "res_child r = None"
  shows "res_ok (s(a \<mapsto> r)) (C(a := []))" "unattached (s(a \<mapsto> r)) a"
  using fresh_ok [OF drop_ok [OF ok a], of a r] r by simp_all

lemma request_frame:
  assumes ok: "res_ok s C" and root: "root \<in> dom s" and new: "unattached s new" "new \<noteq> root"
  shows "\<exists>err s'. request_resource s root new = Some (err, s') \<and> res_inv s' \<and> dom s' = dom s \<and>
    (\<forall>y. unattached s y \<longrightarrow> y \<noteq> root \<longrightarrow> y \<noteq> new \<longrightarrow> unattached s' y) \<and> (\<forall>y. y \<noteq> new \<longrightarrow> par s' y = par s y) \<and>
    (err \<noteq> 0 \<longrightarrow> s' = s) \<and> (err = 0 \<longrightarrow> par s' new = Some root)"
proof -
  consider c where "request_nolock s root new = Some (Some c, s)"
    | us vs where "request_nolock s root new = Some (None, attached s root new us vs)" "res_ok (attached s root new us vs) (C(root := us @ new # vs))"
      "dom (attached s root new us vs) = dom s"
    using request_nolock_spec [OF ok root new] attached_ok [OF ok root _ new] by metis
  then show ?thesis
  proof cases
    case 1
    then show ?thesis using ok by (auto simp: request_resource_def res_inv_def)
  next
    case 2
    then show ?thesis using attached_unattached by (auto simp: request_resource_def res_inv_def)
  qed
qed

text \<open>The static structures from \<open>x\<close> on are free, and the ones that were taken since \<open>x0\<close> hang below one of the two roots.\<close>

definition reserve_ok :: "(nat \<Rightarrow> nat) \<Rightarrow> nat \<Rightarrow> nat \<Rightarrow> nat \<Rightarrow> nat \<Rightarrow> res_store \<Rightarrow> bool" where
  "reserve_ok reserve iomem ioport x0 x s \<longleftrightarrow> res_inv s \<and> {iomem, ioport} \<subseteq> dom s \<and> x0 \<le> x \<and> x \<le> MAXRESERVE \<and>
     (\<forall>i. x \<le> i \<longrightarrow> i < MAXRESERVE \<longrightarrow> unattached s (reserve i)) \<and>
     (\<forall>i. x0 \<le> i \<longrightarrow> i < x \<longrightarrow> par s (reserve i) \<in> {Some iomem, Some ioport})"

lemma reserve_step:
  assumes ok: "reserve_ok reserve iomem ioport x0 x s" and x: "x < MAXRESERVE" "s (reserve x) = Some res"
    and st: "inj_on reserve {..<MAXRESERVE}" "reserve ` {..<MAXRESERVE} \<inter> {iomem, ioport} = {}"
    and r: "r = res\<lparr>res_name := nm, res_start := lo, res_end := hi, res_flags := fl, res_child := None\<rparr>" and root: "root \<in> {iomem, ioport}"
  shows "\<exists>err s'. request_resource (s(reserve x \<mapsto> r)) root (reserve x) = Some (err, s') \<and> reserve_ok reserve iomem ioport x0 (if err = 0 then x + 1 else x) s'"
proof -
  let ?a = "reserve x" let ?s = "s(?a \<mapsto> r)"
  obtain C where C: "res_ok s C" using ok by (auto simp: reserve_ok_def res_inv_def)
  have un: "unattached s ?a" using ok x by (simp add: reserve_ok_def)
  have ne: "?a \<noteq> root" "?a \<noteq> iomem" "?a \<noteq> ioport" using st(2) root x(1) by auto
  have inj: "reserve i \<noteq> ?a" if "i < MAXRESERVE" "i \<noteq> x" for i using st(1) that x(1) by (auto simp: inj_on_def)
  have rp: "res_parent r = None" "res_child r = None" using un x(2) r by (auto simp: unattached_def par_def)
  have dom: "dom ?s = dom s" using x(2) by auto
  have un': "unattached ?s y" if "unattached s y" "y \<noteq> ?a" for y using that by (simp add: unattached_def view_defs)
  have root': "root \<in> dom ?s" using dom root ok by (auto simp: reserve_ok_def)
  obtain err s' where q: "request_resource ?s root ?a = Some (err, s')" "res_inv s'" "dom s' = dom ?s"
    "\<And>y. unattached ?s y \<Longrightarrow> y \<noteq> root \<Longrightarrow> y \<noteq> ?a \<Longrightarrow> unattached s' y" "\<And>y. y \<noteq> ?a \<Longrightarrow> par s' y = par ?s y" "err \<noteq> 0 \<Longrightarrow> s' = ?s" "err = 0 \<Longrightarrow> par s' ?a = Some root"
    using request_frame [OF refill_ok(1) [OF C un rp] root' refill_ok(2) [OF C un rp] ne(1)] by blast
  have free: "unattached s' (reserve i)" if "(if err = 0 then x + 1 else x) \<le> i" "i < MAXRESERVE" for i
  proof (cases "i = x")
    case True
    then show ?thesis using that q(6) refill_ok(2) [OF C un rp] by (auto split: if_splits)
  next
    case False
    then have "unattached s (reserve i)" "reserve i \<noteq> root" using ok that st(2) root inj by (auto simp: reserve_ok_def split: if_splits)
    then show ?thesis using q(4) un' inj [OF that(2) False] by blast
  qed
  have taken: "par s' (reserve i) \<in> {Some iomem, Some ioport}" if "x0 \<le> i" "i < (if err = 0 then x + 1 else x)" for i
  proof (cases "i = x")
    case True
    then show ?thesis using that q(7) root by (auto split: if_splits)
  next
    case False
    then have "i < x" "reserve i \<noteq> ?a" using that x(1) inj [of i] by (auto split: if_splits)
    then show ?thesis using q(5) ok that(1) by (auto simp: reserve_ok_def par_def)
  qed
  show ?thesis using q(1,2,3) dom ok x(1) free taken by (auto simp: reserve_ok_def)
qed

lemma reserve_loop_ok:
  assumes "reserve_ok reserve iomem ioport x0 x s" "inj_on reserve {..<MAXRESERVE}" "reserve ` {..<MAXRESERVE} \<inter> {iomem, ioport} = {}"
  shows "\<exists>x' s'. reserve_loop reserve iomem ioport cur x s = Some (x', s') \<and> reserve_ok reserve iomem ioport x0 x' s'"
  using assms
proof (induction "length cur" arbitrary: cur x s rule: less_induct)
  case less
  show ?case
  proof (cases "reserve_args cur")
    case None
    then show ?thesis using less.prems by (simp add: reserve_loop.simps)
  next
    case (Some p)
    obtain a b rest where p: "p = (a, b, rest)" by (metis prod_cases3)
    note IH = less.hyps [OF reserve_args_rest [OF Some [unfolded p]]]
    show ?thesis
    proof (cases "x < MAXRESERVE")
      case False
      then show ?thesis using IH [OF less.prems] Some p by (subst reserve_loop.simps) simp
    next
      case True
      then have "unattached s (reserve x)" using less.prems(1) by (simp add: reserve_ok_def)
      then obtain res where res: "s (reserve x) = Some res" by (auto simp: unattached_def)
      let ?r = "res\<lparr>res_name := ''reserved'', res_start := scast a, res_end := scast (a + b - 1), res_flags := IORESOURCE_BUSY, res_child := None\<rparr>"
      let ?root = "if 0x10000 \<le> (scast a :: ulong) then iomem else ioport"
      have "?root \<in> {iomem, ioport}" by simp
      from reserve_step [OF less.prems(1) True res less.prems(2,3) refl this]
      obtain err s' where "request_resource (s(reserve x \<mapsto> ?r)) ?root (reserve x) = Some (err, s')" "reserve_ok reserve iomem ioport x0 (if err = 0 then x + 1 else x) s'"
        by blast
      then show ?thesis using IH [OF _ less.prems(2,3)] Some p True res by (subst reserve_loop.simps) auto
    qed
  qed
qed


text \<open>Decimal numbers on the command line.\<close>

abbreviation (input) decimal :: "ulong \<Rightarrow> string" where
  "decimal n \<equiv> digits_of small_digits 10 n"

lemma digit_not_zero: "0 < k \<Longrightarrow> k < 10 \<Longrightarrow> small_digits ! k \<noteq> CHR ''0''"
proof -
  have "\<forall>k < 10. 0 < k \<longrightarrow> small_digits ! k \<noteq> CHR ''0''" by code_simp
  then show "0 < k \<Longrightarrow> k < 10 \<Longrightarrow> small_digits ! k \<noteq> CHR ''0''" by blast
qed

lemma last_digit_loop: "num \<noteq> 0 \<Longrightarrow> digit_loop small_digits 10 num \<noteq> [] \<and> last (digit_loop small_digits 10 num) \<noteq> CHR ''0''"
proof (induction "small_digits" "10 :: u32" num rule: digit_loop.induct)
  case (1 num)
  have e: "digit_loop small_digits 10 num = small_digits ! unat (num mod 10) # digit_loop small_digits 10 (num div 10)"
    using 1(2) by (subst digit_loop.simps) simp
  show ?case
  proof (cases "num div 10 = 0")
    case True
    then have "num mod 10 = num" using div_mult_mod_eq [of num 10] by simp
    moreover then have "0 < unat (num mod 10)" using 1(2) by (simp add: unat_gt_0)
    moreover have "unat (num mod 10) < 10" using digit_index [of 10 num] by simp
    ultimately show ?thesis using e True digit_not_zero [of "unat (num mod 10)"] by (simp add: digit_loop.simps [of _ _ 0])
  next
    case False
    then show ?thesis using e 1 by simp
  qed
qed

lemma peek_rev: "l \<noteq> [] \<Longrightarrow> peek (rev l) = last l"
  by (cases l rule: rev_cases) simp_all

lemma strtol_decimal:
  assumes "rest = [] \<or> peek rest = CHR '',''"
  shows "simple_strtol (decimal n @ rest) 0 = (n, rest)"
proof -
  have c: "\<not> isxdigit (CHR '','')" "toupper (CHR '','') \<noteq> CHR ''X''" "toupper NUL \<noteq> CHR ''X''" by code_simp+
  have stop: "strtoul_loop bas rest v = (v, rest)" "toupper (peek rest) \<noteq> CHR ''X''" for bas v using assms c by (cases rest; simp)+
  have hd: "peek (decimal n @ rest) = peek (decimal n)" using digits_of_nonempty [of 10] by (cases "decimal n") auto
  then have neg: "peek (decimal n @ rest) \<noteq> CHR ''-''" using digits_of_head [of small_digits 10 n] by simp
  show ?thesis
  proof (cases "n = 0")
    case True
    then show ?thesis using stop by (simp add: simple_strtol_def simple_strtoul_def strtoul_prefix_def digits_of_def)
  next
    case False
    have "peek (decimal n) \<noteq> CHR ''0''" using last_digit_loop [OF False] False by (simp add: digits_of_def peek_rev)
    then have "strtoul_prefix (decimal n @ rest) 0 = (10, decimal n @ rest)" using hd by (simp add: strtoul_prefix_def)
    then show ?thesis using neg strtoul_digits [of small_digits 10 n rest] stop(1) False by (simp add: simple_strtol_def simple_strtoul_def digits_of_def)
  qed
qed

lemma reserve_args_decimal: "reserve_args (decimal start @ '','' @ decimal n) = Some (ucast start, ucast n, [])"
proof -
  have ne: "decimal k \<noteq> []" for k using digits_of_nonempty [of 10] by simp
  have "get_option (decimal start @ '','' @ decimal n) 0 = (2, ucast start, decimal n)"
    using strtol_decimal [of "'','' @ decimal n" start] ne by (simp add: get_option_def)
  moreover have "get_option (decimal n) 0 = (1, ucast n, [])" using strtol_decimal [of "[]" n] ne by (simp add: get_option_def)
  ultimately show ?thesis by (simp add: reserve_args_def)
qed

lemma scast_ucast_small: "unat (w :: ulong) < 2 ^ 31 \<Longrightarrow> scast (ucast w :: u32) = w"
proof -
  assume w: "unat w < 2 ^ 31"
  have "ucast w = (of_nat (unat w) :: u32)" using ucast_of_nat_32 [of "unat w"] by simp
  then have "sint (ucast w :: u32) = int (unat w)" using sint_small(1) [OF w] by simp
  then show ?thesis by (simp add: scast_eq)
qed

lemma scast_ucast_high: "2 ^ 31 \<le> unat (w :: ulong) \<Longrightarrow> unat w < 2 ^ 32 \<Longrightarrow> scast (ucast w :: u32) = w + 0xffffffff00000000"
proof -
  assume w: "2 ^ 31 \<le> unat w" "unat w < 2 ^ 32"
  have "ucast w = (of_nat (unat w) :: u32)" using ucast_of_nat_32 [of "unat w"] by simp
  also have "\<dots> = of_int (int (unat w) - 2 ^ 32)" by simp
  finally have "sint (ucast w :: u32) = signed_take_bit 31 (int (unat w) - 2 ^ 32)" by (simp only: signed_of_int) simp
  also have "signed_take_bit 31 (int k - 2 ^ 32) = int k - 2 ^ 32" if "2 ^ 31 \<le> k" "k < 2 ^ 32" for k
    using that by (intro signed_take_bit_int_eq_self) simp_all
  note this [OF w]
  finally show ?thesis by (simp add: scast_eq)
qed

lemma ucast_sum: "ucast (a :: ulong) + ucast b - 1 = (ucast (a + b - 1) :: u32)"
proof -
  have "ucast x = (of_nat (unat x) :: u32)" for x :: ulong using ucast_of_nat_32 [of "unat x"] by simp
  have "ucast (x + y) = (ucast x + ucast y :: u32)" for x y :: ulong
    using ucast_of_nat_32 [of "unat x + unat y"] ucast_of_nat_32 [of "unat x"] ucast_of_nat_32 [of "unat y"] by simp
  moreover have "ucast (x - 1) + 1 = (ucast x :: u32)" for x :: ulong using calculation [of "x - 1" 1] by simp
  ultimately show ?thesis by (metis add_diff_cancel_right')
qed

lemma reserve_args_Nil: "reserve_args [] = None"
  by (simp add: reserve_args_def get_option_def)

end
