(* ===== verification/Crc.thy ===== *)
theory Crc
  imports Prelude
begin

text \<open>
  The cyclic redundancy checks of \<^verbatim>\<open>lib/crc32.c\<close> with its table generator \<^verbatim>\<open>lib/gen_crc32table.c\<close>, of
  \<^verbatim>\<open>lib/libcrc32c.c\<close> and of \<^verbatim>\<open>lib/crc-ccitt.c\<close>. The numbers of bits at a time, \<^verbatim>\<open>CRC_LE_BITS\<close> and
  \<^verbatim>\<open>CRC_BE_BITS\<close>, select the code at compile time; they are arguments of the model. \<open>CrcProps\<close> shows: all
  variants agree with the bit-at-a-time code of the same file where the two numbers fit together, and where they do not,
  they do not; the big-endian check mirrors the little-endian one; the written-out tables are right.
\<close>

unbundle bit_operations_syntax

section \<open>Bits, bytes and memory\<close>

text \<open>The machine is little-endian: a 32-bit load puts the byte at the lowest address into the low bits.\<close>

type_synonym memory = "ulong \<Rightarrow> u8"

definition load32 :: "memory \<Rightarrow> ulong \<Rightarrow> u32" where
  "load32 mem b = ucast (mem b) OR push_bit 8 (ucast (mem (b + 1))) OR push_bit 16 (ucast (mem (b + 2))) OR push_bit 24 (ucast (mem (b + 3)))"

definition swab32 :: "u32 \<Rightarrow> u32" where
  "swab32 x = push_bit 24 (x AND 0x000000ff) OR push_bit 8 (x AND 0x0000ff00) OR drop_bit 8 (x AND 0x00ff0000) OR drop_bit 24 (x AND 0xff000000)"

abbreviation (input) CRCPOLY_LE :: u32 where "CRCPOLY_LE \<equiv> 0xedb88320"
abbreviation (input) CRCPOLY_BE :: u32 where "CRCPOLY_BE \<equiv> 0x04c11db7"

text \<open>One step of the division, for both directions.\<close>

definition crc_le_bit :: "'a::len word \<Rightarrow> 'a word \<Rightarrow> 'a word" where
  "crc_le_bit poly crc = drop_bit 1 crc XOR (if crc AND 1 \<noteq> 0 then poly else 0)"

definition crc_be_bit :: "u32 \<Rightarrow> u32 \<Rightarrow> u32" where
  "crc_be_bit poly crc = push_bit 1 crc XOR (if crc AND 0x80000000 \<noteq> 0 then poly else 0)"

section \<open>The table generator\<close>

text \<open>The inner loops run with \<^verbatim>\<open>i > 0\<close> only.\<close>

function le_inner :: "nat \<Rightarrow> nat \<Rightarrow> u32 \<Rightarrow> nat \<Rightarrow> u32 list \<Rightarrow> u32 list" where
  "le_inner sz i crc j tab = (if 0 < i \<and> j < sz then le_inner sz i crc (j + 2 * i) (tab[i + j := crc XOR tab ! j]) else tab)"
  by pat_completeness auto
termination by (relation "measure (\<lambda>(sz, i, crc, j, tab). sz - j)") auto

declare le_inner.simps [simp del]

function le_outer :: "nat \<Rightarrow> nat \<Rightarrow> u32 \<Rightarrow> u32 list \<Rightarrow> u32 list" where
  "le_outer sz i crc tab =
     (if i = 0 then tab
      else let crc = crc_le_bit CRCPOLY_LE crc in le_outer sz (i div 2) crc (le_inner sz i crc 0 tab))"
  by pat_completeness auto
termination by (relation "measure (\<lambda>(sz, i, crc, tab). i)") auto

declare le_outer.simps [simp del]

definition crc32init_le :: "nat \<Rightarrow> u32 list" where
  "crc32init_le bits = le_outer (2 ^ bits) (2 ^ (bits - 1)) 1 ((replicate (2 ^ bits) 0)[0 := 0])"

function be_inner :: "nat \<Rightarrow> u32 \<Rightarrow> nat \<Rightarrow> u32 list \<Rightarrow> u32 list" where
  "be_inner i crc j tab = (if j < i then be_inner i crc (j + 1) (tab[i + j := crc XOR tab ! j]) else tab)"
  by pat_completeness auto
termination by (relation "measure (\<lambda>(i, crc, j, tab). i - j)") auto

declare be_inner.simps [simp del]

function be_outer :: "nat \<Rightarrow> nat \<Rightarrow> u32 \<Rightarrow> u32 list \<Rightarrow> u32 list" where
  "be_outer sz i crc tab =
     (if 0 < i \<and> i < sz
      then let crc = crc_be_bit CRCPOLY_BE crc in be_outer sz (2 * i) crc (be_inner i crc 0 tab)
      else tab)"
  by pat_completeness auto
termination by (relation "measure (\<lambda>(sz, i, crc, tab). sz - i)") auto

declare be_outer.simps [simp del]

definition crc32init_be :: "nat \<Rightarrow> u32 list" where
  "crc32init_be bits = be_outer (2 ^ bits) 1 0x80000000 ((replicate (2 ^ bits) 0)[0 := 0])"

text \<open>
  The tables of the generated header: each entry is printed inside \<^verbatim>\<open>tole()\<close> or \<^verbatim>\<open>tobe()\<close>, which
  convert the byte order when \<^verbatim>\<open>CRC_LE_BITS\<close> is 8 (both of them) and do nothing otherwise. \<^verbatim>\<open>tole()\<close> has nothing
  to convert on this machine.
\<close>

definition tobe :: "nat \<Rightarrow> u32 \<Rightarrow> u32" where
  "tobe le_bits x = (if le_bits = 8 then swab32 x else x)"

definition crc32table_le :: "nat \<Rightarrow> u32 list" where
  "crc32table_le le_bits = crc32init_le le_bits"

definition crc32table_be :: "nat \<Rightarrow> nat \<Rightarrow> u32 list" where
  "crc32table_be le_bits be_bits = map (tobe le_bits) (crc32init_be be_bits)"

section \<open>The check of a buffer\<close>

lemma count_down: "len \<noteq> 0 \<Longrightarrow> unat (len - 1) < unat len" "len \<noteq> 1 \<Longrightarrow> unat (len - 2) < unat (len - 1)" for len :: "'a::len word"
proof -
  show less: "unat (len - 1) < unat len" if "len \<noteq> 0" for len :: "'a word"
    using that by (simp add: unat_minus_one unat_gt_0)
  show "unat (len - 2) < unat (len - 1)" if "len \<noteq> 1" using less [of "len - 1"] that by simp
qed

text \<open>\<^verbatim>\<open>DO_CRC(x)\<close> for a little-endian machine.\<close>

definition DO_CRC :: "u32 list \<Rightarrow> u32 \<Rightarrow> u32 \<Rightarrow> u32" where
  "DO_CRC tab crc x = tab ! unat ((crc XOR x) AND 255) XOR drop_bit 8 crc"

function crc_align :: "u32 list \<Rightarrow> memory \<Rightarrow> u32 \<Rightarrow> ulong \<Rightarrow> ulong \<Rightarrow> u32 \<times> ulong \<times> ulong" where
  "crc_align tab mem crc b len =
     (let crc = DO_CRC tab crc (ucast (mem b)); b = b + 1; len = len - 1
      in if len \<noteq> 0 \<and> b AND 3 \<noteq> 0 then crc_align tab mem crc b len else (crc, b, len))"
  by pat_completeness auto
termination by (relation "measure (\<lambda>(tab, mem, crc, b, len). unat (len - 1))") (auto simp: count_down)

declare crc_align.simps [simp del]

function crc_words :: "u32 list \<Rightarrow> memory \<Rightarrow> u32 \<Rightarrow> ulong \<Rightarrow> ulong \<Rightarrow> u32 \<times> ulong" where
  "crc_words tab mem crc b len =
     (let b = b + 4; crc = crc XOR load32 mem b;
          crc = DO_CRC tab crc 0; crc = DO_CRC tab crc 0; crc = DO_CRC tab crc 0; crc = DO_CRC tab crc 0;
          len = len - 1
      in if len \<noteq> 0 then crc_words tab mem crc b len else (crc, b))"
  by pat_completeness auto
termination by (relation "measure (\<lambda>(tab, mem, crc, b, len). unat (len - 1))") (auto simp: count_down)

declare crc_words.simps [simp del]

function crc_rest :: "u32 list \<Rightarrow> memory \<Rightarrow> u32 \<Rightarrow> ulong \<Rightarrow> ulong \<Rightarrow> u32" where
  "crc_rest tab mem crc b len =
     (let crc = DO_CRC tab crc (ucast (mem b)); b = b + 1; len = len - 1
      in if len \<noteq> 0 then crc_rest tab mem crc b len else crc)"
  by pat_completeness auto
termination by (relation "measure (\<lambda>(tab, mem, crc, b, len). unat (len - 1))") (auto simp: count_down)

declare crc_rest.simps [simp del]

text \<open>The code that \<^verbatim>\<open>crc32_le\<close> and \<^verbatim>\<open>crc32_be\<close> have in common for eight bits at a time.\<close>

definition crc32_body :: "u32 list \<Rightarrow> memory \<Rightarrow> u32 \<Rightarrow> ulong \<Rightarrow> ulong \<Rightarrow> u32" where
  "crc32_body tab mem crc b len =
     (let (crc, b, len) = (if b AND 3 \<noteq> 0 \<and> len \<noteq> 0 then crc_align tab mem crc b len else (crc, b, len));
          (crc, b, len) =
            (if len \<ge> 4
             then let save_len = len AND 3; (crc, b) = crc_words tab mem crc (b - 4) (drop_bit 2 len) in (crc, b + 4, save_len)
             else (crc, b, len))
      in if len \<noteq> 0 then crc_rest tab mem crc b len else crc)"

text \<open>The variants for one, two and four bits.\<close>

function le_bitwise :: "'a::len word \<Rightarrow> memory \<Rightarrow> 'a word \<Rightarrow> ulong \<Rightarrow> ulong \<Rightarrow> 'a word" where
  "le_bitwise poly mem crc p len =
     (if len = 0 then crc else le_bitwise poly mem ((crc_le_bit poly ^^ 8) (crc XOR ucast (mem p))) (p + 1) (len - 1))"
  by pat_completeness auto
termination by (relation "measure (\<lambda>(poly, mem, crc, p, len). unat len)") (auto simp: count_down)

declare le_bitwise.simps [simp del]

function be_bitwise :: "u32 \<Rightarrow> memory \<Rightarrow> u32 \<Rightarrow> ulong \<Rightarrow> ulong \<Rightarrow> u32" where
  "be_bitwise poly mem crc p len =
     (if len = 0 then crc else be_bitwise poly mem ((crc_be_bit poly ^^ 8) (crc XOR push_bit 24 (ucast (mem p)))) (p + 1) (len - 1))"
  by pat_completeness auto
termination by (relation "measure (\<lambda>(poly, mem, crc, p, len). unat len)") (auto simp: count_down)

declare be_bitwise.simps [simp del]

definition le_lookup :: "nat \<Rightarrow> u32 list \<Rightarrow> u32 \<Rightarrow> u32" where
  "le_lookup bits tab crc = drop_bit bits crc XOR tab ! unat (crc AND mask bits)"

definition be_lookup :: "nat \<Rightarrow> u32 list \<Rightarrow> u32 \<Rightarrow> u32" where
  "be_lookup bits tab crc = push_bit bits crc XOR tab ! unat (drop_bit (32 - bits) crc)"

function le_tablewise :: "nat \<Rightarrow> u32 list \<Rightarrow> memory \<Rightarrow> u32 \<Rightarrow> ulong \<Rightarrow> ulong \<Rightarrow> u32" where
  "le_tablewise bits tab mem crc p len =
     (if len = 0 then crc else le_tablewise bits tab mem ((le_lookup bits tab ^^ (8 div bits)) (crc XOR ucast (mem p))) (p + 1) (len - 1))"
  by pat_completeness auto
termination by (relation "measure (\<lambda>(bits, tab, mem, crc, p, len). unat len)") (auto simp: count_down)

declare le_tablewise.simps [simp del]

function be_tablewise :: "nat \<Rightarrow> u32 list \<Rightarrow> memory \<Rightarrow> u32 \<Rightarrow> ulong \<Rightarrow> ulong \<Rightarrow> u32" where
  "be_tablewise bits tab mem crc p len =
     (if len = 0 then crc else be_tablewise bits tab mem ((be_lookup bits tab ^^ (8 div bits)) (crc XOR push_bit 24 (ucast (mem p)))) (p + 1) (len - 1))"
  by pat_completeness auto
termination by (relation "measure (\<lambda>(bits, tab, mem, crc, p, len). unat len)") (auto simp: count_down)

declare be_tablewise.simps [simp del]

definition crc32_le :: "nat \<Rightarrow> memory \<Rightarrow> u32 \<Rightarrow> ulong \<Rightarrow> ulong \<Rightarrow> u32" where
  "crc32_le le_bits mem crc p len =
     (if le_bits = 1 then le_bitwise CRCPOLY_LE mem crc p len
      else if le_bits = 8 then crc32_body (crc32table_le 8) mem crc p len
      else le_tablewise le_bits (crc32table_le le_bits) mem crc p len)"

definition crc32_be :: "nat \<Rightarrow> nat \<Rightarrow> memory \<Rightarrow> u32 \<Rightarrow> ulong \<Rightarrow> ulong \<Rightarrow> u32" where
  "crc32_be le_bits be_bits mem crc p len =
     (if be_bits = 1 then be_bitwise CRCPOLY_BE mem crc p len
      else if be_bits = 8 then swab32 (crc32_body (crc32table_be le_bits 8) mem (swab32 crc) p len)
      else be_tablewise be_bits (crc32table_be le_bits be_bits) mem crc p len)"

definition bitreverse :: "u32 \<Rightarrow> u32" where
  "bitreverse x =
     (let x = drop_bit 16 x OR push_bit 16 x;
          x = (drop_bit 8 x AND 0x00ff00ff) OR (push_bit 8 x AND 0xff00ff00);
          x = (drop_bit 4 x AND 0x0f0f0f0f) OR (push_bit 4 x AND 0xf0f0f0f0);
          x = (drop_bit 2 x AND 0x33333333) OR (push_bit 2 x AND 0xcccccccc)
      in (drop_bit 1 x AND 0x55555555) OR (push_bit 1 x AND 0xaaaaaaaa))"

section \<open>CRC-32C and CRC-CCITT\<close>

abbreviation (input) CRC32C_POLY_BE :: u32 where "CRC32C_POLY_BE \<equiv> 0x1EDC6F41"
abbreviation (input) CRC32C_POLY_LE :: u32 where "CRC32C_POLY_LE \<equiv> 0x82F63B78"

definition crc32c_table :: "u32 list" where
  "crc32c_table = [
   0x00000000, 0xF26B8303, 0xE13B70F7, 0x1350F3F4, 0xC79A971F, 0x35F1141C, 0x26A1E7E8, 0xD4CA64EB,
   0x8AD958CF, 0x78B2DBCC, 0x6BE22838, 0x9989AB3B, 0x4D43CFD0, 0xBF284CD3, 0xAC78BF27, 0x5E133C24,
   0x105EC76F, 0xE235446C, 0xF165B798, 0x030E349B, 0xD7C45070, 0x25AFD373, 0x36FF2087, 0xC494A384,
   0x9A879FA0, 0x68EC1CA3, 0x7BBCEF57, 0x89D76C54, 0x5D1D08BF, 0xAF768BBC, 0xBC267848, 0x4E4DFB4B,
   0x20BD8EDE, 0xD2D60DDD, 0xC186FE29, 0x33ED7D2A, 0xE72719C1, 0x154C9AC2, 0x061C6936, 0xF477EA35,
   0xAA64D611, 0x580F5512, 0x4B5FA6E6, 0xB93425E5, 0x6DFE410E, 0x9F95C20D, 0x8CC531F9, 0x7EAEB2FA,
   0x30E349B1, 0xC288CAB2, 0xD1D83946, 0x23B3BA45, 0xF779DEAE, 0x05125DAD, 0x1642AE59, 0xE4292D5A,
   0xBA3A117E, 0x4851927D, 0x5B016189, 0xA96AE28A, 0x7DA08661, 0x8FCB0562, 0x9C9BF696, 0x6EF07595,
   0x417B1DBC, 0xB3109EBF, 0xA0406D4B, 0x522BEE48, 0x86E18AA3, 0x748A09A0, 0x67DAFA54, 0x95B17957,
   0xCBA24573, 0x39C9C670, 0x2A993584, 0xD8F2B687, 0x0C38D26C, 0xFE53516F, 0xED03A29B, 0x1F682198,
   0x5125DAD3, 0xA34E59D0, 0xB01EAA24, 0x42752927, 0x96BF4DCC, 0x64D4CECF, 0x77843D3B, 0x85EFBE38,
   0xDBFC821C, 0x2997011F, 0x3AC7F2EB, 0xC8AC71E8, 0x1C661503, 0xEE0D9600, 0xFD5D65F4, 0x0F36E6F7,
   0x61C69362, 0x93AD1061, 0x80FDE395, 0x72966096, 0xA65C047D, 0x5437877E, 0x4767748A, 0xB50CF789,
   0xEB1FCBAD, 0x197448AE, 0x0A24BB5A, 0xF84F3859, 0x2C855CB2, 0xDEEEDFB1, 0xCDBE2C45, 0x3FD5AF46,
   0x7198540D, 0x83F3D70E, 0x90A324FA, 0x62C8A7F9, 0xB602C312, 0x44694011, 0x5739B3E5, 0xA55230E6,
   0xFB410CC2, 0x092A8FC1, 0x1A7A7C35, 0xE811FF36, 0x3CDB9BDD, 0xCEB018DE, 0xDDE0EB2A, 0x2F8B6829,
   0x82F63B78, 0x709DB87B, 0x63CD4B8F, 0x91A6C88C, 0x456CAC67, 0xB7072F64, 0xA457DC90, 0x563C5F93,
   0x082F63B7, 0xFA44E0B4, 0xE9141340, 0x1B7F9043, 0xCFB5F4A8, 0x3DDE77AB, 0x2E8E845F, 0xDCE5075C,
   0x92A8FC17, 0x60C37F14, 0x73938CE0, 0x81F80FE3, 0x55326B08, 0xA759E80B, 0xB4091BFF, 0x466298FC,
   0x1871A4D8, 0xEA1A27DB, 0xF94AD42F, 0x0B21572C, 0xDFEB33C7, 0x2D80B0C4, 0x3ED04330, 0xCCBBC033,
   0xA24BB5A6, 0x502036A5, 0x4370C551, 0xB11B4652, 0x65D122B9, 0x97BAA1BA, 0x84EA524E, 0x7681D14D,
   0x2892ED69, 0xDAF96E6A, 0xC9A99D9E, 0x3BC21E9D, 0xEF087A76, 0x1D63F975, 0x0E330A81, 0xFC588982,
   0xB21572C9, 0x407EF1CA, 0x532E023E, 0xA145813D, 0x758FE5D6, 0x87E466D5, 0x94B49521, 0x66DF1622,
   0x38CC2A06, 0xCAA7A905, 0xD9F75AF1, 0x2B9CD9F2, 0xFF56BD19, 0x0D3D3E1A, 0x1E6DCDEE, 0xEC064EED,
   0xC38D26C4, 0x31E6A5C7, 0x22B65633, 0xD0DDD530, 0x0417B1DB, 0xF67C32D8, 0xE52CC12C, 0x1747422F,
   0x49547E0B, 0xBB3FFD08, 0xA86F0EFC, 0x5A048DFF, 0x8ECEE914, 0x7CA56A17, 0x6FF599E3, 0x9D9E1AE0,
   0xD3D3E1AB, 0x21B862A8, 0x32E8915C, 0xC083125F, 0x144976B4, 0xE622F5B7, 0xF5720643, 0x07198540,
   0x590AB964, 0xAB613A67, 0xB831C993, 0x4A5A4A90, 0x9E902E7B, 0x6CFBAD78, 0x7FAB5E8C, 0x8DC0DD8F,
   0xE330A81A, 0x115B2B19, 0x020BD8ED, 0xF0605BEE, 0x24AA3F05, 0xD6C1BC06, 0xC5914FF2, 0x37FACCF1,
   0x69E9F0D5, 0x9B8273D6, 0x88D28022, 0x7AB90321, 0xAE7367CA, 0x5C18E4C9, 0x4F48173D, 0xBD23943E,
   0xF36E6F75, 0x0105EC76, 0x12551F82, 0xE03E9C81, 0x34F4F86A, 0xC69F7B69, 0xD5CF889D, 0x27A40B9E,
   0x79B737BA, 0x8BDCB4B9, 0x988C474D, 0x6AE7C44E, 0xBE2DA0A5, 0x4C4623A6, 0x5F16D052, 0xAD7D5351]"

function crc32c_loop :: "memory \<Rightarrow> u32 \<Rightarrow> ulong \<Rightarrow> ulong \<Rightarrow> u32" where
  "crc32c_loop mem crc data len =
     (if len = 0 then crc
      else crc32c_loop mem (crc32c_table ! unat ((crc XOR ucast (mem data)) AND 0xFF) XOR drop_bit 8 crc) (data + 1) (len - 1))"
  by pat_completeness auto
termination by (relation "measure (\<lambda>(mem, crc, data, len). unat len)") (auto simp: count_down)

declare crc32c_loop.simps [simp del]

definition crc32c_le :: "nat \<Rightarrow> memory \<Rightarrow> u32 \<Rightarrow> ulong \<Rightarrow> ulong \<Rightarrow> u32" where
  "crc32c_le le_bits mem seed data len =
     (if le_bits = 1 then le_bitwise CRC32C_POLY_LE mem seed data len else crc32c_loop mem seed data len)"

definition crc32c_be :: "memory \<Rightarrow> u32 \<Rightarrow> ulong \<Rightarrow> ulong \<Rightarrow> u32" where
  "crc32c_be mem crc p len = be_bitwise CRC32C_POLY_BE mem crc p len"

definition crc_ccitt_table :: "u16 list" where
  "crc_ccitt_table = [
   0x0000, 0x1189, 0x2312, 0x329b, 0x4624, 0x57ad, 0x6536, 0x74bf,
   0x8c48, 0x9dc1, 0xaf5a, 0xbed3, 0xca6c, 0xdbe5, 0xe97e, 0xf8f7,
   0x1081, 0x0108, 0x3393, 0x221a, 0x56a5, 0x472c, 0x75b7, 0x643e,
   0x9cc9, 0x8d40, 0xbfdb, 0xae52, 0xdaed, 0xcb64, 0xf9ff, 0xe876,
   0x2102, 0x308b, 0x0210, 0x1399, 0x6726, 0x76af, 0x4434, 0x55bd,
   0xad4a, 0xbcc3, 0x8e58, 0x9fd1, 0xeb6e, 0xfae7, 0xc87c, 0xd9f5,
   0x3183, 0x200a, 0x1291, 0x0318, 0x77a7, 0x662e, 0x54b5, 0x453c,
   0xbdcb, 0xac42, 0x9ed9, 0x8f50, 0xfbef, 0xea66, 0xd8fd, 0xc974,
   0x4204, 0x538d, 0x6116, 0x709f, 0x0420, 0x15a9, 0x2732, 0x36bb,
   0xce4c, 0xdfc5, 0xed5e, 0xfcd7, 0x8868, 0x99e1, 0xab7a, 0xbaf3,
   0x5285, 0x430c, 0x7197, 0x601e, 0x14a1, 0x0528, 0x37b3, 0x263a,
   0xdecd, 0xcf44, 0xfddf, 0xec56, 0x98e9, 0x8960, 0xbbfb, 0xaa72,
   0x6306, 0x728f, 0x4014, 0x519d, 0x2522, 0x34ab, 0x0630, 0x17b9,
   0xef4e, 0xfec7, 0xcc5c, 0xddd5, 0xa96a, 0xb8e3, 0x8a78, 0x9bf1,
   0x7387, 0x620e, 0x5095, 0x411c, 0x35a3, 0x242a, 0x16b1, 0x0738,
   0xffcf, 0xee46, 0xdcdd, 0xcd54, 0xb9eb, 0xa862, 0x9af9, 0x8b70,
   0x8408, 0x9581, 0xa71a, 0xb693, 0xc22c, 0xd3a5, 0xe13e, 0xf0b7,
   0x0840, 0x19c9, 0x2b52, 0x3adb, 0x4e64, 0x5fed, 0x6d76, 0x7cff,
   0x9489, 0x8500, 0xb79b, 0xa612, 0xd2ad, 0xc324, 0xf1bf, 0xe036,
   0x18c1, 0x0948, 0x3bd3, 0x2a5a, 0x5ee5, 0x4f6c, 0x7df7, 0x6c7e,
   0xa50a, 0xb483, 0x8618, 0x9791, 0xe32e, 0xf2a7, 0xc03c, 0xd1b5,
   0x2942, 0x38cb, 0x0a50, 0x1bd9, 0x6f66, 0x7eef, 0x4c74, 0x5dfd,
   0xb58b, 0xa402, 0x9699, 0x8710, 0xf3af, 0xe226, 0xd0bd, 0xc134,
   0x39c3, 0x284a, 0x1ad1, 0x0b58, 0x7fe7, 0x6e6e, 0x5cf5, 0x4d7c,
   0xc60c, 0xd785, 0xe51e, 0xf497, 0x8028, 0x91a1, 0xa33a, 0xb2b3,
   0x4a44, 0x5bcd, 0x6956, 0x78df, 0x0c60, 0x1de9, 0x2f72, 0x3efb,
   0xd68d, 0xc704, 0xf59f, 0xe416, 0x90a9, 0x8120, 0xb3bb, 0xa232,
   0x5ac5, 0x4b4c, 0x79d7, 0x685e, 0x1ce1, 0x0d68, 0x3ff3, 0x2e7a,
   0xe70e, 0xf687, 0xc41c, 0xd595, 0xa12a, 0xb0a3, 0x8238, 0x93b1,
   0x6b46, 0x7acf, 0x4854, 0x59dd, 0x2d62, 0x3ceb, 0x0e70, 0x1ff9,
   0xf78f, 0xe606, 0xd49d, 0xc514, 0xb1ab, 0xa022, 0x92b9, 0x8330,
   0x7bc7, 0x6a4e, 0x58d5, 0x495c, 0x3de3, 0x2c6a, 0x1ef1, 0x0f78]"

definition crc_ccitt_byte :: "u16 \<Rightarrow> u8 \<Rightarrow> u16" where
  "crc_ccitt_byte crc c = drop_bit 8 crc XOR crc_ccitt_table ! unat ((crc XOR ucast c) AND 0xff)"

function crc_ccitt :: "memory \<Rightarrow> u16 \<Rightarrow> ulong \<Rightarrow> ulong \<Rightarrow> u16" where
  "crc_ccitt mem crc buffer len =
     (if len = 0 then crc else crc_ccitt mem (crc_ccitt_byte crc (mem buffer)) (buffer + 1) (len - 1))"
  by pat_completeness auto
termination by (relation "measure (\<lambda>(mem, crc, buffer, len). unat len)") (auto simp: count_down)

declare crc_ccitt.simps [simp del]

end
