(* ===== verification/CrcProps.thy ===== *)
theory CrcProps
  imports Crc
begin

text \<open>
  The proofs for \<open>Crc\<close>. One step of the division is linear, so a table of the results for all short inputs replaces several steps: the locale \<open>crc_table\<close>
  states what a table must hold and is interpreted for each table of the sources, generated or written out. \<open>absorb\<close> is the check byte by byte, to which all
  variants are related.
\<close>

unbundle bit_operations_syntax

section \<open>The division is linear\<close>

lemma and_one_bit: "x AND 1 \<noteq> 0 \<longleftrightarrow> bit x 0" for x :: "'a::len word"
  by (simp add: and_one_eq odd_iff_mod_2_eq_one bit_0)

lemma and_top_bit: "x AND 0x80000000 \<noteq> 0 \<longleftrightarrow> bit x 31" for x :: u32
  using and_exp_eq_0_iff_not_bit [of x 31] by simp

lemma le_bit_xor: "crc_le_bit p (x XOR y) = crc_le_bit p x XOR crc_le_bit p y"
  by (rule bit_word_eqI) (auto simp: crc_le_bit_def and_one_bit bit_simps)

lemma be_bit_xor: "crc_be_bit p (x XOR y) = crc_be_bit p x XOR crc_be_bit p y"
  by (rule bit_word_eqI) (auto simp: crc_be_bit_def and_top_bit bit_simps)

lemma funpow_xor:
  fixes f :: "'a::len word \<Rightarrow> 'a word"
  assumes "\<And>x y. f (x XOR y) = f x XOR f y"
  shows "(f ^^ n) (x XOR y) = (f ^^ n) x XOR (f ^^ n) y"
  by (induction n) (simp_all add: assms)

lemma le_bit_shift:
  fixes y :: "'a::len word"
  assumes "\<And>m. LENGTH('a) - n \<le> m \<Longrightarrow> \<not> bit y m" "n \<le> LENGTH('a)"
  shows "(crc_le_bit p ^^ n) (push_bit n y) = y"
  using assms
proof (induction n)
  case (Suc n)
  have nb: "\<not> bit y (LENGTH('a) - Suc n)" using Suc.prems by simp
  have "Suc k < LENGTH('a)" if "k < LENGTH('a)" "n \<le> k" "bit y (k - n)" for k
  proof (rule ccontr)
    assume "\<not> Suc k < LENGTH('a)"
    then have "k - n = LENGTH('a) - Suc n" using that(1) by linarith
    then show False using that(3) nb by simp
  qed
  then have "crc_le_bit p (push_bit (Suc n) y) = push_bit n y"
    by (intro bit_word_eqI) (use Suc.prems(2) in \<open>auto simp: crc_le_bit_def and_one_bit bit_simps not_less Suc_diff_le simp del: push_bit_Suc\<close>)
  then show ?case using Suc.IH Suc.prems unfolding funpow_Suc_right by simp
qed simp

lemma be_bit_shift:
  assumes "\<And>m. 32 - n \<le> m \<Longrightarrow> \<not> bit y m" "n \<le> 32"
  shows "(crc_be_bit p ^^ n) y = push_bit n y"
  using assms
proof (induction n)
  case (Suc n)
  have "\<not> bit (push_bit n y) 31" using Suc.prems by (simp add: bit_simps)
  then have "crc_be_bit p (push_bit n y) = push_bit (Suc n) y"
    by (simp add: crc_be_bit_def and_top_bit)
  then show ?case using Suc by simp
qed simp

section \<open>Tables\<close>

text \<open>What a table for \<open>n\<close> bits has to hold, and that a lookup then does the work of \<open>n\<close> steps.\<close>

locale crc_table =
  fixes n :: nat and S :: "'a::len word \<Rightarrow> 'a word" and tab :: "'a word list"
  assumes fits: "n \<le> LENGTH('a)"
    and linear: "S (x XOR y) = S x XOR S y"
    and shift: "(\<And>m. LENGTH('a) - n \<le> m \<Longrightarrow> \<not> bit y m) \<Longrightarrow> S (push_bit n y) = y"
    and entry: "k < 2 ^ n \<Longrightarrow> tab ! k = S (of_nat k)"
begin

lemma lookup: "tab ! unat (crc AND mask n) XOR drop_bit n crc = S crc"
proof -
  have "S (push_bit n (drop_bit n crc)) = drop_bit n crc" using fits by (intro shift) (auto simp: bit_simps dest!: bit_imp_le_length)
  moreover have "unat (crc AND mask n) < 2 ^ n"
  proof -
    have "unat (crc AND mask n) = take_bit n (unat crc)" by (simp flip: take_bit_eq_mask add: unsigned_take_bit_eq)
    then show ?thesis by (simp add: take_bit_eq_mod)
  qed
  then have "tab ! unat (crc AND mask n) = S (crc AND mask n)" using entry by simp
  moreover have "(crc AND mask n) XOR push_bit n (drop_bit n crc) = crc"
    by (rule bit_word_eqI) (auto simp: bit_simps)
  ultimately show ?thesis using linear [of "crc AND mask n" "push_bit n (drop_bit n crc)"] by simp
qed

end

text \<open>The generator uses that the entry of a sum of different powers of two is the sum of their entries.\<close>

definition additive :: "(nat \<Rightarrow> 'a::len word) \<Rightarrow> bool" where
  "additive T \<longleftrightarrow> (\<forall>m j. \<not> bit j m \<longrightarrow> T (2 ^ m + j) = T (2 ^ m) XOR T j)"

lemma of_nat_xor:
  assumes "\<not> bit j m"
  shows "(of_nat (2 ^ m + j) :: 'a::len word) = of_nat (2 ^ m) XOR of_nat j"
proof -
  have "(of_nat (2 ^ m) :: 'a word) AND of_nat j = 0"
    by (rule bit_word_eqI) (use assms in \<open>auto simp: bit_simps\<close>)
  then show ?thesis by (simp add: disjunctive_add_eq_xor)
qed

lemma additive_le:
  fixes S :: "'b::len word \<Rightarrow> 'a::len word"
  assumes "\<And>x y. S (x XOR y) = S x XOR S y"
  shows "additive (\<lambda>k. S (of_nat k))"
  unfolding additive_def by (intro allI impI) (subst of_nat_xor, assumption, rule assms)

lemma additive_be:
  fixes B :: "'b::len word \<Rightarrow> 'a::len word"
  assumes "\<And>x y. B (x XOR y) = B x XOR B y"
  shows "additive (\<lambda>k. B (push_bit r (of_nat k)))"
  unfolding additive_def by (intro allI impI) (subst of_nat_xor, assumption, simp only: assms push_bit_xor)

lemma not_bit_multiple: "2 ^ Suc m dvd j \<Longrightarrow> \<not> bit j m" for j :: nat
  by (auto simp: bit_iff_odd elim!: dvdE)

lemma not_bit_less: "j < 2 ^ m \<Longrightarrow> \<not> bit j m" for j :: nat
  by (simp add: bit_iff_odd)

lemma le_inner_spec:
  assumes "additive T" "i = 2 ^ m" "crc = T i" "2 * i dvd j" "length tab = sz"
    "\<And>k. k < sz \<Longrightarrow> 2 * i dvd k \<or> i dvd k \<and> k < j \<Longrightarrow> tab ! k = T k"
  shows "length (le_inner sz i crc j tab) = sz \<and> (\<forall>k < sz. i dvd k \<longrightarrow> le_inner sz i crc j tab ! k = T k)"
  using assms
proof (induction sz i crc j tab rule: le_inner.induct)
  case (1 sz i crc j tab)
  show ?case
  proof (cases "j < sz")
    case True
    let ?tab = "tab[i + j := crc XOR tab ! j]"
    have T: "T (i + j) = crc XOR tab ! j"
      using 1(2-5,7) True not_bit_multiple [of m j] unfolding additive_def by simp
    have "?tab ! k = T k" if k: "k < sz" "2 * i dvd k \<or> i dvd k \<and> k < j + 2 * i" for k
    proof (cases "k = i + j")
      case True
      then show ?thesis using T k(1) 1(6) by simp
    next
      case False
      obtain q where q: "j = 2 * i * q" using 1(5) by (elim dvdE)
      have "2 * i dvd k \<or> i dvd k \<and> k < j"
      proof (rule disjCI)
        assume n: "\<not> (i dvd k \<and> k < j)"
        show "2 * i dvd k"
        proof (rule ccontr)
          assume "\<not> 2 * i dvd k"
          then obtain r where r: "k = i * r" "k < j + 2 * i" "j \<le> k" using k(2) n by auto
          moreover have "0 < i" using 1(3) by simp
          ultimately have "i * r < i * (2 * q + 2)" "i * (2 * q) \<le> i * r" using q by (simp_all add: algebra_simps)
          then have "r < 2 * q + 2" "2 * q \<le> r" using \<open>0 < i\<close> by (simp_all only: mult_less_cancel1 mult_le_cancel1)
          then have "r = 2 * q \<or> r = 2 * q + 1" by linarith
          then show False using r(1) q False \<open>\<not> 2 * i dvd k\<close> by (auto simp: algebra_simps)
        qed
      qed
      then show ?thesis using 1(7) k(1) False by simp
    qed
    moreover have "0 < i" "2 * i dvd j + 2 * i" using 1(3,5) by simp_all
    ultimately show ?thesis using 1(1-4,6) True by (subst (1 2) le_inner.simps) simp
  next
    case False
    then show ?thesis using 1(6,7) by (subst (1 2) le_inner.simps) auto
  qed
qed

lemma le_outer_spec:
  assumes "additive T" "length tab = sz" "\<And>k. k < sz \<Longrightarrow> 2 ^ Suc m dvd k \<Longrightarrow> tab ! k = T k"
    and "\<And>q. q \<le> m \<Longrightarrow> T (2 ^ q) = (crc_le_bit CRCPOLY_LE ^^ (Suc m - q)) crc"
  shows "length (le_outer sz (2 ^ m) crc tab) = sz \<and> (\<forall>k < sz. le_outer sz (2 ^ m) crc tab ! k = T k)"
  using assms
proof (induction m arbitrary: crc tab)
  case 0
  then show ?case using le_inner_spec [of T 1 0 "crc_le_bit CRCPOLY_LE crc" 0 tab sz]
    by (simp add: le_outer.simps [of sz "Suc 0"] le_outer.simps [of sz 0] Let_def)
next
  case (Suc m)
  let ?crc = "crc_le_bit CRCPOLY_LE crc"
  have i: "length (le_inner sz (2 ^ Suc m) ?crc 0 tab) = sz \<and>
      (\<forall>k < sz. 2 ^ Suc m dvd k \<longrightarrow> le_inner sz (2 ^ Suc m) ?crc 0 tab ! k = T k)"
    using Suc.prems Suc.prems(4) [of "Suc m"] by (intro le_inner_spec [where m = "Suc m"]) (auto simp: mult.commute)
  have "T (2 ^ q) = (crc_le_bit CRCPOLY_LE ^^ (Suc m - q)) ?crc" if "q \<le> m" for q
    using Suc.prems(4) [of q] that by (simp add: Suc_diff_le funpow_swap1)
  then show ?case using Suc.IH [of "le_inner sz (2 ^ Suc m) ?crc 0 tab" ?crc] Suc.prems(1) i
    by (simp add: le_outer.simps [of sz "2 * 2 ^ m"] Let_def)
qed

lemma crc32init_le_entry:
  assumes "0 < n" "n \<le> 32" "k < 2 ^ n"
  shows "crc32init_le n ! k = (crc_le_bit CRCPOLY_LE ^^ n) (of_nat k)"
proof -
  let ?S = "crc_le_bit CRCPOLY_LE ^^ n"
  have "?S (of_nat (2 ^ q)) = (crc_le_bit CRCPOLY_LE ^^ (Suc (n - 1) - q)) 1" if q: "q \<le> n - 1" for q
  proof -
    have "(crc_le_bit CRCPOLY_LE ^^ q) (push_bit q 1) = 1" using q assms by (intro le_bit_shift) (auto simp: bit_simps)
    moreover have n: "n = (n - q) + q" "Suc (n - 1) - q = n - q" using q assms(1) by linarith+
    have "?S = (crc_le_bit CRCPOLY_LE ^^ (n - q)) \<circ> (crc_le_bit CRCPOLY_LE ^^ q)" by (subst n(1)) (rule funpow_add)
    ultimately show ?thesis using n(2) by (simp add: push_bit_eq_mult)
  qed
  moreover have "additive (\<lambda>k. ?S (of_nat k))" by (intro additive_le funpow_xor le_bit_xor)
  moreover have "(replicate (2 ^ n) 0)[0 := 0] ! k = ?S (of_nat k)" if "k < 2 ^ n" "2 ^ Suc (n - 1) dvd k" for k
  proof -
    have "k = 0" using that assms(1) by (auto dest: dvd_imp_le)
    moreover have "?S 0 = 0" using funpow_xor [of "crc_le_bit CRCPOLY_LE" n 0 0, OF le_bit_xor] by simp
    ultimately show ?thesis by simp
  qed
  ultimately show ?thesis
    using le_outer_spec [of "\<lambda>k. ?S (of_nat k)" "(replicate (2 ^ n) 0)[0 := 0]" "2 ^ n" "n - 1" 1] assms(3)
    by (simp add: crc32init_le_def)
qed

lemma be_inner_spec:
  assumes "additive T" "i = 2 ^ m" "crc = T i" "j \<le> i" "length tab = sz"
    "\<And>k. k < sz \<Longrightarrow> k < i + j \<Longrightarrow> tab ! k = T k"
  shows "length (be_inner i crc j tab) = sz \<and> (\<forall>k < sz. k < 2 * i \<longrightarrow> be_inner i crc j tab ! k = T k)"
  using assms
proof (induction i crc j tab rule: be_inner.induct)
  case (1 i crc j tab)
  show ?case
  proof (cases "j < i")
    case True
    let ?tab = "tab[i + j := crc XOR tab ! j]"
    have "?tab ! k = T k" if k: "k < sz" "k < i + (j + 1)" for k
    proof (cases "k = i + j")
      case True
      have "T (i + j) = T i XOR T j"
        using 1(2,3) \<open>j < i\<close> not_bit_less [of j m] unfolding additive_def by simp
      then show ?thesis using True k(1) 1(4,6,7) \<open>j < i\<close> by simp
    qed (use 1(7) k in simp)
    then show ?thesis using 1(1-4,6) True by (subst (1 2) be_inner.simps) simp
  next
    case False
    then show ?thesis using 1(5-7) by (subst (1 2) be_inner.simps) auto
  qed
qed

lemma be_outer_spec:
  assumes "additive T" "length tab = 2 ^ n" "m \<le> n" "\<And>k. k < 2 ^ m \<Longrightarrow> tab ! k = T k"
    and "\<And>q. m \<le> q \<Longrightarrow> q < n \<Longrightarrow> T (2 ^ q) = (crc_be_bit CRCPOLY_BE ^^ (Suc q - m)) crc"
  shows "length (be_outer (2 ^ n) (2 ^ m) crc tab) = 2 ^ n \<and> (\<forall>k < 2 ^ n. be_outer (2 ^ n) (2 ^ m) crc tab ! k = T k)"
  using assms
proof (induction "n - m" arbitrary: m crc tab)
  case 0
  then show ?case by (simp add: be_outer.simps)
next
  case (Suc d)
  let ?crc = "crc_be_bit CRCPOLY_BE crc"
  have m: "m < n" using Suc.hyps(2) by simp
  have i: "length (be_inner (2 ^ m) ?crc 0 tab) = 2 ^ n \<and> (\<forall>k < 2 ^ n. k < 2 * 2 ^ m \<longrightarrow> be_inner (2 ^ m) ?crc 0 tab ! k = T k)"
    using Suc.prems Suc.prems(5) [of m] m by (intro be_inner_spec) auto
  have lt: "k < 2 ^ n" if "k < 2 ^ Suc m" for k :: nat using that m power_increasing [of "Suc m" n "2 :: nat"] by simp
  have "T (2 ^ q) = (crc_be_bit CRCPOLY_BE ^^ (Suc q - Suc m)) ?crc" if "Suc m \<le> q" "q < n" for q
    using Suc.prems(5) [of q] that by (simp add: Suc_diff_le funpow_swap1)
  then have "length (be_outer (2 ^ n) (2 ^ Suc m) ?crc (be_inner (2 ^ m) ?crc 0 tab)) = 2 ^ n \<and>
      (\<forall>k < 2 ^ n. be_outer (2 ^ n) (2 ^ Suc m) ?crc (be_inner (2 ^ m) ?crc 0 tab) ! k = T k)"
    using Suc.hyps(2) Suc.prems(1) i m lt by (intro Suc.hyps(1)) auto
  then show ?case using m by (simp add: be_outer.simps [of "2 ^ n" "2 ^ m"] Let_def)
qed

lemma crc32init_be_entry:
  assumes "0 < n" "n \<le> 32"
  shows "length (crc32init_be n) = 2 ^ n \<and> (\<forall>k < 2 ^ n. crc32init_be n ! k = (crc_be_bit CRCPOLY_BE ^^ n) (push_bit (32 - n) (of_nat k)))"
proof -
  let ?B = "crc_be_bit CRCPOLY_BE ^^ n" and ?tab = "(replicate (2 ^ n) 0)[0 := 0]"
  let ?T = "\<lambda>k. ?B (push_bit (32 - n) (of_nat k))"
  have "?T (2 ^ q) = (crc_be_bit CRCPOLY_BE ^^ (Suc q - 0)) 0x80000000" if q: "q < n" for q
  proof -
    have x: "push_bit (32 - n) (of_nat (2 ^ q) :: u32) = 2 ^ (32 - n + q)" by (simp add: push_bit_eq_mult power_add)
    have "\<not> bit (2 ^ (32 - n + q) :: u32) m" if "32 - (n - Suc q) \<le> m" for m
      using that q assms(2) by (auto simp: bit_simps)
    then have "(crc_be_bit CRCPOLY_BE ^^ (n - Suc q)) (2 ^ (32 - n + q)) = push_bit (n - Suc q) (2 ^ (32 - n + q))"
      using q assms(2) by (intro be_bit_shift) auto
    also have "\<dots> = 2 ^ 31"
    proof -
      have "n - Suc q + (32 - n + q) = 31" using q assms(2) by linarith
      then show ?thesis by (metis push_bit_eq_mult power_add mult.commute)
    qed
    finally have "(crc_be_bit CRCPOLY_BE ^^ (n - Suc q)) (2 ^ (32 - n + q)) = 2 ^ 31" .
    moreover have "?B = (crc_be_bit CRCPOLY_BE ^^ Suc q) \<circ> (crc_be_bit CRCPOLY_BE ^^ (n - Suc q))"
      using q by (simp only: funpow_add [symmetric]) simp
    ultimately show ?thesis unfolding x by simp
  qed
  moreover have "additive ?T" by (intro additive_be funpow_xor be_bit_xor)
  moreover have "?tab ! k = ?T k" if "k < 2 ^ 0" for k
    using that funpow_xor [of "crc_be_bit CRCPOLY_BE" n 0 0, OF be_bit_xor] by simp
  ultimately show ?thesis using be_outer_spec [of ?T ?tab n 0 "0x80000000"] by (simp add: crc32init_be_def)
qed

text \<open>A written-out table is right when it doubles correctly eight times.\<close>

definition spread :: "'a::len word \<Rightarrow> 'a word list \<Rightarrow> 'a word list" where
  "spread b t = t @ map ((XOR) b) t"

lemma spread_upt:
  assumes "additive T"
  shows "map T [0..<2 ^ Suc m] = spread (T (2 ^ m)) (map T [0..<2 ^ m])"
proof -
  have "[0..<2 ^ Suc m] = [0..<2 ^ m] @ map (\<lambda>k. k + 2 ^ m) [0..<2 ^ m]"
    unfolding map_add_upt using upt_add_eq_append [of 0 "2 ^ m" "2 ^ m"] by (simp add: mult_2)
  moreover have "T (k + 2 ^ m) = T (2 ^ m) XOR T k" if "k < 2 ^ m" for k
    using assms not_bit_less [OF that] by (simp add: additive_def add.commute)
  ultimately show ?thesis by (simp add: spread_def)
qed

lemma table8:
  assumes "additive T"
  shows "map T [0..<256] = spread (T 128) (spread (T 64) (spread (T 32) (spread (T 16) (spread (T 8) (spread (T 4) (spread (T 2) (spread (T 1) [T 0])))))))"
  using spread_upt [OF assms, of 0] spread_upt [OF assms, of 1] spread_upt [OF assms, of 2] spread_upt [OF assms, of 3]
    spread_upt [OF assms, of 4] spread_upt [OF assms, of 5] spread_upt [OF assms, of 6] spread_upt [OF assms, of 7]
  by simp

lemma le_bit_even: "even x \<Longrightarrow> crc_le_bit p x = drop_bit 1 x"
  and le_bit_odd: "odd x \<Longrightarrow> crc_le_bit p x = drop_bit 1 x XOR p" for x :: "'a::len word"
  by (simp_all add: crc_le_bit_def and_one_eq odd_iff_mod_2_eq_one even_iff_mod_2_eq_zero)

lemma funpow_8: "(f ^^ 8) x = f (f (f (f (f (f (f (f x)))))))"
  by (simp add: numeral_eq_Suc)

lemma crc32c_basis:
  "(crc_le_bit CRC32C_POLY_LE ^^ 8) (1 :: u32) = 0xf26b8303" "(crc_le_bit CRC32C_POLY_LE ^^ 8) (2 :: u32) = 0xe13b70f7" "(crc_le_bit CRC32C_POLY_LE ^^ 8) (4 :: u32) = 0xc79a971f" "(crc_le_bit CRC32C_POLY_LE ^^ 8) (8 :: u32) = 0x8ad958cf" "(crc_le_bit CRC32C_POLY_LE ^^ 8) (16 :: u32) = 0x105ec76f" "(crc_le_bit CRC32C_POLY_LE ^^ 8) (32 :: u32) = 0x20bd8ede" "(crc_le_bit CRC32C_POLY_LE ^^ 8) (64 :: u32) = 0x417b1dbc" "(crc_le_bit CRC32C_POLY_LE ^^ 8) (128 :: u32) = 0x82f63b78"
  by (simp_all add: funpow_8 le_bit_even le_bit_odd)

lemma ccitt_basis:
  "(crc_le_bit 0x8408 ^^ 8) (1 :: u16) = 0x1189" "(crc_le_bit 0x8408 ^^ 8) (2 :: u16) = 0x2312" "(crc_le_bit 0x8408 ^^ 8) (4 :: u16) = 0x4624" "(crc_le_bit 0x8408 ^^ 8) (8 :: u16) = 0x8c48" "(crc_le_bit 0x8408 ^^ 8) (16 :: u16) = 0x1081" "(crc_le_bit 0x8408 ^^ 8) (32 :: u16) = 0x2102" "(crc_le_bit 0x8408 ^^ 8) (64 :: u16) = 0x4204" "(crc_le_bit 0x8408 ^^ 8) (128 :: u16) = 0x8408"
  by (simp_all add: funpow_8 le_bit_even le_bit_odd)

lemma crc32c_table_eq: "crc32c_table = map (\<lambda>k. (crc_le_bit CRC32C_POLY_LE ^^ 8) (of_nat k)) [0..<256]"
proof -
  have "additive (\<lambda>k. (crc_le_bit CRC32C_POLY_LE ^^ 8) (of_nat k))" by (intro additive_le funpow_xor le_bit_xor)
  note t = table8 [OF this]
  have z: "(crc_le_bit CRC32C_POLY_LE ^^ 8) 0 = 0" by (simp add: funpow_8 le_bit_even)
  show ?thesis unfolding t by (simp only: of_nat_numeral of_nat_1 of_nat_0 z crc32c_basis) (simp add: spread_def crc32c_table_def z)
qed

lemma crc_ccitt_table_eq: "crc_ccitt_table = map (\<lambda>k. (crc_le_bit 0x8408 ^^ 8) (of_nat k)) [0..<256]"
proof -
  have "additive (\<lambda>k. (crc_le_bit 0x8408 ^^ 8) (of_nat k :: u16))" by (intro additive_le funpow_xor le_bit_xor)
  note t = table8 [OF this]
  have z: "(crc_le_bit 0x8408 ^^ 8) (0 :: u16) = 0" by (simp add: funpow_8 le_bit_even)
  show ?thesis unfolding t by (simp only: of_nat_numeral of_nat_1 of_nat_0 z ccitt_basis) (simp add: spread_def crc_ccitt_table_def z)
qed

section \<open>Byte by byte\<close>

text \<open>The reference: each byte is added and worked off.\<close>

fun absorb :: "('a::len word \<Rightarrow> 'a word) \<Rightarrow> memory \<Rightarrow> 'a word \<Rightarrow> ulong \<Rightarrow> nat \<Rightarrow> 'a word" where
  "absorb S mem crc p 0 = crc"
| "absorb S mem crc p (Suc k) = absorb S mem (S (crc XOR ucast (mem p))) (p + 1) k"

lemma absorb_add: "absorb S mem crc p (a + b) = absorb S mem (absorb S mem crc p a) (p + of_nat a) b"
  by (induction a arbitrary: crc p) (simp_all add: add.assoc)

lemma unat_Suc_pred: "len \<noteq> 0 \<Longrightarrow> unat len = Suc (unat (len - 1))" for len :: "'a::len word"
  by (simp add: unat_minus_one unat_gt_0)

lemma le_bitwise_absorb: "le_bitwise poly mem crc p len = absorb (crc_le_bit poly ^^ 8) mem crc p (unat len)"
proof (induction "unat len" arbitrary: crc p len)
  case 0
  then show ?case by (subst le_bitwise.simps) (simp add: unat_eq_0)
next
  case (Suc k)
  then have "len \<noteq> 0" by auto
  with Suc show ?case using unat_Suc_pred [of len] by (subst le_bitwise.simps) simp
qed

lemma le_tablewise_absorb:
  assumes "\<And>crc. (le_lookup bits tab ^^ (8 div bits)) crc = S crc"
  shows "le_tablewise bits tab mem crc p len = absorb S mem crc p (unat len)"
proof (induction "unat len" arbitrary: crc p len)
  case 0
  then show ?case by (subst le_tablewise.simps) (simp add: unat_eq_0)
next
  case (Suc k)
  then have "len \<noteq> 0" by auto
  with Suc show ?case using unat_Suc_pred [of len] by (subst le_tablewise.simps) (simp add: assms)
qed

lemma ucast_byte: "drop_bit 8 (ucast (c :: u8) :: 'a::len word) = 0"
  by (rule bit_word_eqI) (auto simp: bit_simps dest: bit_imp_le_length)

lemma or_push: "(\<And>m. k \<le> m \<Longrightarrow> \<not> bit x m) \<Longrightarrow> x OR push_bit k y = x XOR push_bit k y" for x :: "'a::len word"
  by (rule bit_word_eqI) (auto simp: bit_simps)

text \<open>Eight bits at a time, by the byte and by the word.\<close>

locale crc_bytes = crc_table 8 S tab for S :: "u32 \<Rightarrow> u32" and tab
begin

lemma do_crc: "drop_bit 8 x = 0 \<Longrightarrow> DO_CRC tab crc x = S (crc XOR x)"
  using lookup [of "crc XOR x"] by (simp add: DO_CRC_def mask_eq_exp_minus_1 drop_bit_xor)

lemma do_word:
  "DO_CRC tab (DO_CRC tab (DO_CRC tab (DO_CRC tab (crc XOR load32 mem b) 0) 0) 0) 0 = absorb S mem crc b 4"
proof -
  let ?m = "\<lambda>k. ucast (mem (b + k)) :: u32"
  let ?r2 = "?m 2 XOR push_bit 8 (?m 3)"
  let ?r1 = "?m 1 XOR push_bit 8 ?r2"
  have sh: "S (push_bit 8 y) = y" if "\<And>m. 24 \<le> m \<Longrightarrow> \<not> bit y m" for y using shift [of y] that by simp
  have nb: "\<not> bit (?m k) m" if "8 \<le> m" for k m using that by (auto simp: bit_simps dest: bit_imp_le_length)
  have "load32 mem b = ?m 0 OR push_bit 8 (?m 1 OR push_bit 8 (?m 2 OR push_bit 8 (?m 3)))"
    by (simp add: load32_def push_bit_or or.assoc)
  moreover have "?m k OR push_bit 8 y = ?m k XOR push_bit 8 y" for k y using nb by (intro or_push)
  ultimately have "load32 mem b = ?m 0 XOR push_bit 8 ?r1" by (simp only:)
  moreover have "S (push_bit 8 ?r1) = ?r1" using nb by (intro sh) (simp add: bit_simps)
  moreover have "S (push_bit 8 ?r2) = ?r2" using nb by (intro sh) (simp add: bit_simps)
  moreover have "S (push_bit 8 (?m 3)) = ?m 3" using nb by (intro sh) simp
  ultimately show ?thesis
    by (simp add: do_crc linear numeral_eq_Suc add.assoc xor.assoc)
qed

lemma crc_align_absorb:
  assumes "len \<noteq> 0"
  shows "\<exists>k. k \<le> unat len \<and> crc_align tab mem crc b len = (absorb S mem crc b k, b + of_nat k, len - of_nat k)"
  using assms
proof (induction "unat len" arbitrary: crc b len rule: less_induct)
  case less
  have "DO_CRC tab crc (ucast (mem b)) = S (crc XOR ucast (mem b))" by (intro do_crc ucast_byte)
  note e = crc_align.simps [of tab mem crc b len, unfolded this Let_def]
  show ?case
  proof (cases "len - 1 \<noteq> 0 \<and> (b + 1) AND 3 \<noteq> 0")
    case True
    then obtain k where k: "k \<le> unat (len - 1)" "crc_align tab mem (S (crc XOR ucast (mem b))) (b + 1) (len - 1) =
        (absorb S mem (S (crc XOR ucast (mem b))) (b + 1) k, b + 1 + of_nat k, len - 1 - of_nat k)"
      using less.hyps [of "len - 1"] count_down(1) [OF less.prems] by blast
    then show ?thesis using True unat_Suc_pred [OF less.prems] unfolding e by (intro exI [of _ "Suc k"]) (simp add: algebra_simps)
  next
    case False
    then show ?thesis using unat_Suc_pred [OF less.prems] unfolding e by (intro exI [of _ 1]) auto
  qed
qed

lemma crc_words_absorb:
  assumes "len \<noteq> 0"
  shows "crc_words tab mem crc b len = (absorb S mem crc (b + 4) (4 * unat len), b + of_nat (4 * unat len))"
  using assms
proof (induction "unat len" arbitrary: crc b len rule: less_induct)
  case less
  note e = crc_words.simps [of tab mem crc b len, unfolded Let_def do_word]
  have u: "4 * unat len = 4 + 4 * unat (len - 1)" using unat_Suc_pred [OF less.prems] by simp
  show ?case
  proof (cases "len - 1 = 0")
    case True
    then show ?thesis using u unfolding e by simp
  next
    case False
    then have "crc_words tab mem (absorb S mem crc (b + 4) 4) (b + 4) (len - 1) =
        (absorb S mem (absorb S mem crc (b + 4) 4) (b + 4 + 4) (4 * unat (len - 1)), b + 4 + of_nat (4 * unat (len - 1)))"
      using less.hyps [of "len - 1"] count_down(1) [OF less.prems] by blast
    then show ?thesis using False unfolding e u absorb_add by (simp add: add.assoc)
  qed
qed

lemma crc_rest_absorb:
  assumes "len \<noteq> 0"
  shows "crc_rest tab mem crc b len = absorb S mem crc b (unat len)"
  using assms
proof (induction "unat len" arbitrary: crc b len rule: less_induct)
  case less
  have "DO_CRC tab crc (ucast (mem b)) = S (crc XOR ucast (mem b))" by (intro do_crc ucast_byte)
  note e = crc_rest.simps [of tab mem crc b len, unfolded this Let_def]
  show ?case
    using less.hyps [of "len - 1"] count_down(1) [OF less.prems] unat_Suc_pred [OF less.prems] unfolding e
    by (cases "len - 1 = 0") auto
qed

lemma crc32_body_absorb: "crc32_body tab mem crc b len = absorb S mem crc b (unat len)"
proof -
  obtain k where k: "k \<le> unat len" "(if b AND 3 \<noteq> 0 \<and> len \<noteq> 0 then crc_align tab mem crc b len else (crc, b, len)) =
      (absorb S mem crc b k, b + of_nat k, len - of_nat k)" (is "?al = _")
  proof (cases "b AND 3 \<noteq> 0 \<and> len \<noteq> 0")
    case True
    then show thesis using crc_align_absorb [of len mem crc b] that by auto
  next
    case False
    then show thesis by (intro that [of 0]) auto
  qed
  define c1 b1 l1 where "c1 = absorb S mem crc b k" and "b1 = b + of_nat k" and "l1 = len - of_nat k"
  have "unat (of_nat k :: ulong) = k" using k(1) unat_bound [of len] by (simp add: unat_of_nat)
  then have l1: "unat len = k + unat l1" using k(1) by (simp add: l1_def unat_sub word_le_nat_alt)
  have rest: "(if l \<noteq> 0 then crc_rest tab mem c p l else c) = absorb S mem c p (unat l)" for c p l
    using crc_rest_absorb [of l mem c p] by auto
  have "crc32_body tab mem crc b len = absorb S mem c1 b1 (unat l1)"
  proof (cases "l1 \<ge> 4")
    case True
    let ?w = "drop_bit 2 l1"
    have uw: "unat ?w = unat l1 div 4" by (simp add: drop_bit_eq_div unat_div)
    moreover have "4 \<le> unat l1" using True by (simp add: word_le_nat_alt)
    ultimately have "?w \<noteq> 0" using unat_eq_0 [of ?w] by (simp add: div_eq_0_iff)
    note ws = crc_words_absorb [OF this, of mem c1 "b1 - 4"]
    have "unat (l1 AND 3) = unat l1 mod 4"
    proof -
      have "l1 AND 3 = take_bit 2 l1" by (simp add: take_bit_eq_mask mask_eq_exp_minus_1)
      then show ?thesis by (simp add: take_bit_eq_mod unat_mod)
    qed
    then have "unat l1 = 4 * unat ?w + unat (l1 AND 3)" using uw by simp
    then have "absorb S mem c1 b1 (unat l1) =
        absorb S mem (absorb S mem c1 b1 (4 * unat ?w)) (b1 + of_nat (4 * unat ?w)) (unat (l1 AND 3))"
      by (simp only: absorb_add)
    then show ?thesis using True k(2) ws rest
      by (simp add: crc32_body_def c1_def [symmetric] b1_def [symmetric] l1_def [symmetric] Let_def)
  next
    case False
    then show ?thesis using k(2) rest
      by (simp add: crc32_body_def c1_def [symmetric] b1_def [symmetric] l1_def [symmetric] Let_def)
  qed
  then show ?thesis unfolding l1 absorb_add c1_def b1_def .
qed

end

section \<open>The little-endian tables\<close>

lemma le_crc_table: "0 < n \<Longrightarrow> n \<le> 32 \<Longrightarrow> crc_table n (crc_le_bit CRCPOLY_LE ^^ n) (crc32init_le n)"
  by unfold_locales (auto intro: funpow_xor le_bit_xor le_bit_shift crc32init_le_entry)

interpretation le8: crc_bytes "crc_le_bit CRCPOLY_LE ^^ 8" "crc32table_le 8"
  unfolding crc32table_le_def crc_bytes_def by (rule le_crc_table) simp_all

interpretation le4: crc_table 4 "crc_le_bit CRCPOLY_LE ^^ 4" "crc32table_le 4"
  unfolding crc32table_le_def by (rule le_crc_table) simp_all

interpretation le2: crc_table 2 "crc_le_bit CRCPOLY_LE ^^ 2" "crc32table_le 2"
  unfolding crc32table_le_def by (rule le_crc_table) simp_all

interpretation crc32c: crc_table 8 "crc_le_bit CRC32C_POLY_LE ^^ 8" crc32c_table
  by unfold_locales (auto intro: funpow_xor le_bit_xor le_bit_shift simp: crc32c_table_eq)

interpretation ccitt: crc_table 8 "crc_le_bit (0x8408 :: u16) ^^ 8" crc_ccitt_table
  by unfold_locales (auto intro: funpow_xor le_bit_xor le_bit_shift simp: crc_ccitt_table_eq)

lemma le_lookup_4: "(le_lookup 4 (crc32table_le 4) ^^ (8 div 4)) crc = (crc_le_bit CRCPOLY_LE ^^ 8) crc"
proof -
  have "le_lookup 4 (crc32table_le 4) = crc_le_bit CRCPOLY_LE ^^ 4"
    using le4.lookup by (simp add: fun_eq_iff le_lookup_def xor.commute)
  then show ?thesis by (simp add: funpow_mult)
qed

lemma le_lookup_2: "(le_lookup 2 (crc32table_le 2) ^^ (8 div 2)) crc = (crc_le_bit CRCPOLY_LE ^^ 8) crc"
proof -
  have "le_lookup 2 (crc32table_le 2) = crc_le_bit CRCPOLY_LE ^^ 2"
    using le2.lookup by (simp add: fun_eq_iff le_lookup_def xor.commute)
  then show ?thesis by (simp add: funpow_mult)
qed

lemma crc32c_loop_absorb: "crc32c_loop mem crc p len = absorb (crc_le_bit CRC32C_POLY_LE ^^ 8) mem crc p (unat len)"
proof (induction "unat len" arbitrary: crc p len)
  case 0
  then show ?case by (subst crc32c_loop.simps) (simp add: unat_eq_0)
next
  case (Suc k)
  then have "len \<noteq> 0" by auto
  moreover have "crc32c_table ! unat ((crc XOR ucast (mem p)) AND 0xFF) XOR drop_bit 8 crc = (crc_le_bit CRC32C_POLY_LE ^^ 8) (crc XOR ucast (mem p))"
    using crc32c.lookup [of "crc XOR ucast (mem p)"] ucast_byte [of "mem p", where 'a = 32] by (simp add: mask_eq_exp_minus_1 drop_bit_xor)
  ultimately show ?case using Suc unat_Suc_pred [of len] by (subst crc32c_loop.simps) simp
qed

lemma crc_ccitt_absorb: "crc_ccitt mem crc p len = absorb (crc_le_bit 0x8408 ^^ 8) mem crc p (unat len)"
proof (induction "unat len" arbitrary: crc p len)
  case 0
  then show ?case by (subst crc_ccitt.simps) (simp add: unat_eq_0)
next
  case (Suc k)
  then have "len \<noteq> 0" by auto
  moreover have "crc_ccitt_byte crc (mem p) = (crc_le_bit 0x8408 ^^ 8) (crc XOR ucast (mem p))"
    using ccitt.lookup [of "crc XOR ucast (mem p)"] ucast_byte [of "mem p", where 'a = 16]
    by (simp add: crc_ccitt_byte_def mask_eq_exp_minus_1 drop_bit_xor xor.commute)
  ultimately show ?case using Suc unat_Suc_pred [of len] by (subst crc_ccitt.simps) simp
qed

section \<open>The big-endian tables\<close>

lemma byte_cases:
  fixes n :: nat
  assumes "n < 32"
  obtains r where "r < 8" "n = r" | r where "r < 8" "n = 8 + r" | r where "r < 8" "n = 16 + r" | r where "r < 8" "n = 24 + r"
proof -
  consider "n < 8" | "8 \<le> n" "n < 16" | "16 \<le> n" "n < 24" | "24 \<le> n" using assms by linarith
  then show thesis using that(1) [of n] that(2) [of "n - 8"] that(3) [of "n - 16"] that(4) [of "n - 24"] assms by cases auto
qed

lemma bit_swab32:
  assumes "r < 8"
  shows "bit (swab32 x) r \<longleftrightarrow> bit x (24 + r)" "bit (swab32 x) (8 + r) \<longleftrightarrow> bit x (16 + r)"
    "bit (swab32 x) (16 + r) \<longleftrightarrow> bit x (8 + r)" "bit (swab32 x) (24 + r) \<longleftrightarrow> bit x r"
proof -
  have c: "(0xff :: u32) = mask 8" "(0xff00 :: u32) = push_bit 8 (mask 8)" "(0xff0000 :: u32) = push_bit 16 (mask 8)"
    "(0xff000000 :: u32) = push_bit 24 (mask 8)" by (simp_all add: mask_eq_exp_minus_1)
  show "bit (swab32 x) r \<longleftrightarrow> bit x (24 + r)" "bit (swab32 x) (8 + r) \<longleftrightarrow> bit x (16 + r)"
    "bit (swab32 x) (16 + r) \<longleftrightarrow> bit x (8 + r)" "bit (swab32 x) (24 + r) \<longleftrightarrow> bit x r"
    using assms unfolding swab32_def c by (auto simp: bit_simps)
qed

lemma swab32_swab32: "swab32 (swab32 x) = x"
proof (rule bit_word_eqI)
  fix n assume "n < LENGTH(32)"
  then have "n < 32" by simp
  then show "bit (swab32 (swab32 x)) n = bit x n" by (cases n rule: byte_cases) (simp_all add: bit_swab32)
qed

lemma swab32_xor: "swab32 (x XOR y) = swab32 x XOR swab32 y"
proof (rule bit_word_eqI)
  fix n assume "n < LENGTH(32)"
  then have "n < 32" by simp
  then show "bit (swab32 (x XOR y)) n = bit (swab32 x XOR swab32 y) n" by (cases n rule: byte_cases) (simp_all add: bit_swab32 bit_xor_iff)
qed

lemma swab32_byte:
  assumes "\<And>m. 8 \<le> m \<Longrightarrow> \<not> bit x m"
  shows "swab32 x = push_bit 24 x"
proof (rule bit_word_eqI)
  fix n assume "n < LENGTH(32)"
  then have "n < 32" by simp
  then show "bit (swab32 x) n = bit (push_bit 24 x) n" using assms by (cases n rule: byte_cases) (simp_all add: bit_swab32 bit_simps)
qed

lemma swab32_high:
  assumes "\<And>m. 24 \<le> m \<Longrightarrow> \<not> bit y m"
  shows "push_bit 8 (swab32 (push_bit 8 y)) = swab32 y" "\<And>m. 24 \<le> m \<Longrightarrow> \<not> bit (swab32 (push_bit 8 y)) m"
proof -
  show "push_bit 8 (swab32 (push_bit 8 y)) = swab32 y"
  proof (rule bit_word_eqI)
    fix n assume "n < LENGTH(32)"
    then have "n < 32" by simp
    then show "bit (push_bit 8 (swab32 (push_bit 8 y))) n = bit (swab32 y) n"
      using assms by (cases n rule: byte_cases) (auto simp: bit_swab32 bit_simps bit_swab32(1,2) [of _ "push_bit 8 y"])
  qed
  show "\<not> bit (swab32 (push_bit 8 y)) m" if "24 \<le> m" for m
  proof (cases "m < 32")
    case True
    then show ?thesis using that by (cases m rule: byte_cases) (auto simp: bit_swab32 bit_simps)
  qed (auto dest: bit_imp_le_length)
qed

abbreviation be_byte :: "u32 \<Rightarrow> u32" where "be_byte \<equiv> crc_be_bit CRCPOLY_BE ^^ 8"

lemma be_byte_xor: "be_byte (x XOR y) = be_byte x XOR be_byte y"
  by (intro funpow_xor be_bit_xor)

interpretation be8: crc_bytes "\<lambda>x. swab32 (be_byte (swab32 x))" "crc32table_be 8 8"
proof unfold_locales
  show "swab32 (be_byte (swab32 (push_bit 8 y))) = y" if "\<And>m. LENGTH(32) - 8 \<le> m \<Longrightarrow> \<not> bit y m" for y
  proof -
    have nb: "\<And>m. 24 \<le> m \<Longrightarrow> \<not> bit y m" using that by simp
    have "be_byte (swab32 (push_bit 8 y)) = push_bit 8 (swab32 (push_bit 8 y))"
      using swab32_high(2) [OF nb] by (intro be_bit_shift) auto
    then show ?thesis using swab32_high(1) [OF nb] by (simp add: swab32_swab32)
  qed
  show "crc32table_be 8 8 ! k = swab32 (be_byte (swab32 (of_nat k)))" if "k < 2 ^ 8" for k
  proof -
    have "\<not> bit k m" if "8 \<le> m" for m
      using not_bit_less [of k m] \<open>k < 2 ^ 8\<close> power_increasing [OF that, of "2 :: nat"] by linarith
    then have "swab32 (of_nat k) = push_bit 24 (of_nat k)" by (intro swab32_byte) (auto simp: bit_simps)
    then show ?thesis using crc32init_be_entry [of 8] that by (simp add: crc32table_be_def tobe_def)
  qed
qed (simp_all add: swab32_xor be_byte_xor)

fun absorb_be :: "(u32 \<Rightarrow> u32) \<Rightarrow> memory \<Rightarrow> u32 \<Rightarrow> ulong \<Rightarrow> nat \<Rightarrow> u32" where
  "absorb_be B mem crc p 0 = crc"
| "absorb_be B mem crc p (Suc k) = absorb_be B mem (B (crc XOR push_bit 24 (ucast (mem p)))) (p + 1) k"

lemma be_bitwise_absorb: "be_bitwise poly mem crc p len = absorb_be (crc_be_bit poly ^^ 8) mem crc p (unat len)"
proof (induction "unat len" arbitrary: crc p len)
  case 0
  then show ?case by (subst be_bitwise.simps) (simp add: unat_eq_0)
next
  case (Suc k)
  then have "len \<noteq> 0" by auto
  with Suc show ?case using unat_Suc_pred [of len] by (subst be_bitwise.simps) simp
qed

lemma be_tablewise_absorb:
  assumes "\<And>crc. (be_lookup bits tab ^^ (8 div bits)) crc = B crc"
  shows "be_tablewise bits tab mem crc p len = absorb_be B mem crc p (unat len)"
proof (induction "unat len" arbitrary: crc p len)
  case 0
  then show ?case by (subst be_tablewise.simps) (simp add: unat_eq_0)
next
  case (Suc k)
  then have "len \<noteq> 0" by auto
  with Suc show ?case using unat_Suc_pred [of len] by (subst be_tablewise.simps) (simp add: assms)
qed

lemma swab32_ucast: "swab32 (ucast (c :: u8)) = push_bit 24 (ucast c)"
  by (intro swab32_byte) (auto simp: bit_simps dest: bit_imp_le_length)

lemma absorb_swab: "absorb (\<lambda>x. swab32 (B (swab32 x))) mem (swab32 crc) p k = swab32 (absorb_be B mem crc p k)"
  by (induction k arbitrary: crc p) (simp_all add: swab32_xor swab32_swab32 swab32_ucast)

lemma be_lookup_step:
  assumes n: "0 < n" "n \<le> 32"
  shows "be_lookup n (crc32init_be n) crc = (crc_be_bit CRCPOLY_BE ^^ n) crc"
proof -
  let ?B = "crc_be_bit CRCPOLY_BE ^^ n" and ?h = "drop_bit (32 - n) crc" and ?l = "crc AND mask (32 - n)"
  have "unat ?h < 2 ^ n"
  proof -
    have "?h = take_bit n ?h" using n by (intro bit_word_eqI) (auto simp: bit_simps dest: bit_imp_le_length)
    then have "unat ?h = take_bit n (unat ?h)" by (metis unsigned_take_bit_eq)
    then show ?thesis by (metis take_bit_nat_less_exp)
  qed
  then have "crc32init_be n ! unat ?h = ?B (push_bit (32 - n) ?h)" using crc32init_be_entry [OF n] by simp
  moreover have "?B ?l = push_bit n ?l" using n by (intro be_bit_shift) (auto simp: bit_simps)
  moreover have "push_bit n ?l = push_bit n crc" using n by (intro bit_word_eqI) (auto simp: bit_simps)
  moreover have "?l XOR push_bit (32 - n) ?h = crc" by (rule bit_word_eqI) (auto simp: bit_simps)
  moreover have "?B (?l XOR push_bit (32 - n) ?h) = ?B ?l XOR ?B (push_bit (32 - n) ?h)" by (intro funpow_xor be_bit_xor)
  ultimately show ?thesis by (simp add: be_lookup_def)
qed

lemma crc32_be_fits:
  assumes "be_bits \<in> {2, 4, 8}" "le_bits = 8 \<longleftrightarrow> be_bits = 8"
  shows "crc32_be le_bits be_bits mem crc p len = absorb_be be_byte mem crc p (unat len)"
proof (cases "be_bits = 8")
  case True
  then show ?thesis using assms(2) be8.crc32_body_absorb [of mem "swab32 crc" p len] absorb_swab [of be_byte mem crc p "unat len"]
    by (simp add: crc32_be_def swab32_swab32)
next
  case False
  then have b: "be_bits = 2 \<or> be_bits = 4" "le_bits \<noteq> 8" using assms by auto
  have t: "crc32table_be le_bits be_bits = crc32init_be be_bits" using b(2) by (simp add: crc32table_be_def tobe_def [abs_def])
  have "be_lookup be_bits (crc32init_be be_bits) = crc_be_bit CRCPOLY_BE ^^ be_bits" using b(1) by (auto simp: fun_eq_iff be_lookup_step)
  then have "(be_lookup be_bits (crc32init_be be_bits) ^^ (8 div be_bits)) c = be_byte c" for c using b(1) by (auto simp: funpow_mult)
  from be_tablewise_absorb [OF this] show ?thesis using b t by (auto simp: crc32_be_def)
qed

text \<open>With the two numbers mixed, already one byte is enough for a different result.\<close>

lemma be_byte_one: "be_byte 0x01000000 = CRCPOLY_BE"
  by (simp add: funpow_8 crc_be_bit_def)

lemma crc32_be_mixed:
  assumes "le_bits \<in> {1, 2, 4, 8}" "be_bits \<in> {2, 4, 8}" "(le_bits = 8) \<noteq> (be_bits = 8)"
  shows "crc32_be le_bits be_bits (\<lambda>_. 1) 0 0 1 = swab32 CRCPOLY_BE"
proof -
  have z: "swab32 0 = 0" by (simp add: swab32_def)
  have wrap: "(0x100000000 :: u32) = 0" by simp
  have pow: "(f ^^ 2) x = f (f x)" "(f ^^ 4) x = f (f (f (f x)))" for f :: "u32 \<Rightarrow> u32" and x by (simp_all add: numeral_eq_Suc)
  consider "be_bits = 8" "le_bits \<noteq> 8" | "be_bits = 4" "le_bits = 8" | "be_bits = 2" "le_bits = 8" using assms by auto
  then show ?thesis
  proof cases
    case 1
    have "crc32init_be 8 ! 1 = CRCPOLY_BE" using crc32init_be_entry [of 8] be_byte_one by simp
    moreover have "crc32table_be le_bits 8 = crc32init_be 8" using 1 by (simp add: crc32table_be_def tobe_def [abs_def])
    ultimately show ?thesis using 1 z by (simp add: crc32_be_def crc32_body_def crc_rest.simps DO_CRC_def Let_def word_le_nat_alt)
  next
    case 2
    have "crc32init_be 4 ! 0 = 0" "crc32init_be 4 ! 1 = CRCPOLY_BE" "length (crc32init_be 4) = 16"
      using crc32init_be_entry [of 4] by (simp_all add: pow crc_be_bit_def)
    moreover have "drop_bit 28 (0x01000000 :: u32) = 0" "drop_bit 28 (0x10000000 :: u32) = 1" by simp_all
    ultimately show ?thesis using 2 z by (simp add: crc32_be_def be_tablewise.simps be_lookup_def crc32table_be_def tobe_def wrap pow)
  next
    case 3
    have "crc32init_be 2 ! 0 = 0" "crc32init_be 2 ! 1 = CRCPOLY_BE" "length (crc32init_be 2) = 4"
      using crc32init_be_entry [of 2] by (simp_all add: pow crc_be_bit_def)
    moreover have "drop_bit 30 (0x01000000 :: u32) = 0" "drop_bit 30 (0x04000000 :: u32) = 0" "drop_bit 30 (0x10000000 :: u32) = 0"
      "drop_bit 30 (0x40000000 :: u32) = 1" by simp_all
    ultimately show ?thesis using 3 z by (simp add: crc32_be_def be_tablewise.simps be_lookup_def crc32table_be_def tobe_def wrap pow)
  qed
qed

section \<open>Mirror images\<close>

lemma bit_bitreverse:
  assumes "n < 32"
  shows "bit (bitreverse x) n \<longleftrightarrow> bit x (31 - n)"
proof -
  have big: "\<not> bit x k" if "32 \<le> k" for k using that by (auto dest: bit_imp_le_length)
  from assms have "n \<in> {..<32}" by simp
  then show ?thesis unfolding bitreverse_def Let_def bit_or_iff bit_and_iff bit_push_bit_iff bit_drop_bit_eq comp_apply
    by (simp only: lessThan_nat_numeral lessThan_Suc pred_numeral_simps lessThan_0 arith_simps insert_iff empty_iff BitM.simps)
      (elim disjE; simp add: big)
qed

lemma bitreverse_xor: "bitreverse (x XOR y) = bitreverse x XOR bitreverse y"
  by (rule bit_word_eqI) (simp add: bit_bitreverse bit_xor_iff)

lemma bitreverse_bitreverse: "bitreverse (bitreverse x) = x"
  by (rule bit_word_eqI) (simp add: bit_bitreverse)

lemma bitreverse_bit: "bitreverse (crc_le_bit CRCPOLY_LE x) = crc_be_bit CRCPOLY_BE (bitreverse x)"
proof -
  have "bitreverse (drop_bit 1 x) = push_bit 1 (bitreverse x)"
  proof (rule bit_word_eqI)
    fix n assume "n < LENGTH(32)"
    then have n: "n < 32" by simp
    have "\<not> bit x 32" by (auto dest: bit_imp_le_length)
    moreover have "Suc (31 - n) = 31 - (n - 1)" if "1 \<le> n" using that n by linarith
    ultimately show "bit (bitreverse (drop_bit 1 x)) n = bit (push_bit 1 (bitreverse x)) n"
      unfolding bit_push_bit_iff using n by (cases "n = 0") (auto simp: bit_bitreverse bit_simps)
  qed
  moreover have "bitreverse CRCPOLY_LE = CRCPOLY_BE" "bitreverse 0 = 0" by (simp_all add: bitreverse_def)
  moreover have "bitreverse x AND 0x80000000 \<noteq> 0 \<longleftrightarrow> x AND 1 \<noteq> 0"
    unfolding and_one_bit and_top_bit by (simp add: bit_bitreverse)
  ultimately show ?thesis by (simp add: crc_le_bit_def crc_be_bit_def bitreverse_xor)
qed

lemma bitreverse_step: "bitreverse ((crc_le_bit CRCPOLY_LE ^^ k) x) = (crc_be_bit CRCPOLY_BE ^^ k) (bitreverse x)"
  by (induction k) (simp_all add: bitreverse_bit)

definition rev8 :: "u8 \<Rightarrow> u8" where
  "rev8 c = ucast (drop_bit 24 (bitreverse (ucast c)))"

lemma bitreverse_byte: "bitreverse (ucast (c :: u8)) = push_bit 24 (ucast (rev8 c))"
proof (rule bit_word_eqI)
  fix n assume "n < LENGTH(32)"
  then have n: "n < 32" by simp
  show "bit (bitreverse (ucast c)) n = bit (push_bit 24 (ucast (rev8 c)) :: u32) n"
  proof (cases "n < 24")
    case True
    then have "\<not> bit c (31 - n)" by (auto dest: bit_imp_le_length)
    then show ?thesis using n True by (simp add: bit_bitreverse bit_simps)
  next
    case False
    then have "31 - n = 7 - (n - 24)" "n - 24 < 8" using n by linarith+
    then show ?thesis using n False by (simp add: bit_bitreverse bit_simps rev8_def)
  qed
qed

lemma absorb_mirror:
  "absorb_be be_byte (\<lambda>a. rev8 (mem a)) (bitreverse crc) p k = bitreverse (absorb (crc_le_bit CRCPOLY_LE ^^ 8) mem crc p k)"
proof (induction k arbitrary: crc p)
  case (Suc k)
  have "be_byte (bitreverse crc XOR push_bit 24 (ucast (rev8 (mem p)))) = bitreverse ((crc_le_bit CRCPOLY_LE ^^ 8) (crc XOR ucast (mem p)))"
    by (simp add: bitreverse_step bitreverse_xor bitreverse_byte)
  then show ?case by (simp add: Suc)
qed simp

section \<open>Properties\<close>

lemma crc32_le_absorb:
  "le_bits \<in> {1, 2, 4, 8} \<Longrightarrow> crc32_le le_bits mem crc p len = absorb (crc_le_bit CRCPOLY_LE ^^ 8) mem crc p (unat len)"
  using le_tablewise_absorb [OF le_lookup_2, of mem crc p len] le_tablewise_absorb [OF le_lookup_4, of mem crc p len]
  by (auto simp: crc32_le_def le_bitwise_absorb le8.crc32_body_absorb)

text \<open>
  C9: The table-driven code computes the same checks as the code that takes one bit at a time. For every \<^verbatim>\<open>CRC_LE_BITS\<close>, every buffer, at every
  alignment, \<^verbatim>\<open>crc32_le\<close> with the tables of \<^verbatim>\<open>gen_crc32table\<close> and \<^verbatim>\<open>crc32c_le\<close> with its written-out table agree with their variants for one bit,
  and \<^verbatim>\<open>crc_ccitt\<close> with its written-out table with the bit-at-a-time method for 0x8408. And a check can be computed in pieces, with the result for the
  first piece as the seed of the second, as the comment on \<^verbatim>\<open>crc32_le\<close> says.
\<close>

theorem crc_le_variants:
  assumes "le_bits \<in> {1, 2, 4, 8}"
  shows "crc32_le le_bits mem crc p len = crc32_le 1 mem crc p len \<and>
    crc32c_le le_bits mem crc p len = crc32c_le 1 mem crc p len \<and>
    crc_ccitt mem crc' p len = le_bitwise 0x8408 mem crc' p len \<and>
    (unat len + unat len' < 2 ^ 64 \<longrightarrow>
      crc32_le le_bits mem crc p (len + len') = crc32_le le_bits mem (crc32_le le_bits mem crc p len) (p + len) len')"
proof (intro conjI impI)
  show "crc32_le le_bits mem crc p len = crc32_le 1 mem crc p len" using assms by (simp add: crc32_le_absorb)
  show "crc32c_le le_bits mem crc p len = crc32c_le 1 mem crc p len" by (simp add: crc32c_le_def crc32c_loop_absorb le_bitwise_absorb)
  show "crc_ccitt mem crc' p len = le_bitwise 0x8408 mem crc' p len" by (simp add: crc_ccitt_absorb le_bitwise_absorb)
  assume "unat len + unat len' < 2 ^ 64"
  then have "unat (len + len') = unat len + unat len'" by (simp add: unat_word_ariths)
  then show "crc32_le le_bits mem crc p (len + len') = crc32_le le_bits mem (crc32_le le_bits mem crc p len) (p + len) len'"
    using assms by (simp add: crc32_le_absorb absorb_add)
qed

theorem crc_le_variants_witness:
  "crc32_le 8 (\<lambda>_. 1) 0 3 (6 + 5) = crc32_le 1 (\<lambda>_. 1) 0 3 11 \<and>
   crc32_le 8 (\<lambda>_. 1) 0 3 (6 + 5) = crc32_le 8 (\<lambda>_. 1) (crc32_le 8 (\<lambda>_. 1) 0 3 6) (3 + 6) 5"
  using crc_le_variants [of 8 "\<lambda>_. 1" 0 3 "6 + 5"] crc_le_variants [of 8 "\<lambda>_. 1" 0 3 6 _ 5] by simp

text \<open>
  C17: The table-driven \<^verbatim>\<open>crc32_be\<close> agrees with the code for one bit at a time for every buffer if and only if
  \<^verbatim>\<open>CRC_LE_BITS\<close> and \<^verbatim>\<open>CRC_BE_BITS\<close> are both 8 or both smaller. The header accepts all powers of two for each of them, but whether the entries of the big-endian
  table are stored with swapped bytes hangs on \<^verbatim>\<open>CRC_LE_BITS\<close>, while the code that reads them hangs on \<^verbatim>\<open>CRC_BE_BITS\<close>.
\<close>

theorem crc_be_variants:
  assumes "le_bits \<in> {1, 2, 4, 8}" "be_bits \<in> {1, 2, 4, 8}"
  shows "(\<forall>mem crc p len. crc32_be le_bits be_bits mem crc p len = crc32_be le_bits 1 mem crc p len) \<longleftrightarrow>
    be_bits = 1 \<or> (le_bits = 8 \<longleftrightarrow> be_bits = 8)"
proof (cases "be_bits = 1")
  case False
  then have b: "be_bits \<in> {2, 4, 8}" using assms(2) by simp
  have one: "crc32_be le_bits 1 mem crc p len = absorb_be be_byte mem crc p (unat len)" for mem crc p len
    by (simp add: crc32_be_def be_bitwise_absorb)
  show ?thesis
  proof (cases "le_bits = 8 \<longleftrightarrow> be_bits = 8")
    case True
    then show ?thesis using crc32_be_fits [OF b True] one by simp
  next
    case mixed: False
    have "crc32_be le_bits 1 (\<lambda>_. 1) 0 0 1 = CRCPOLY_BE" unfolding one using be_byte_one by simp
    moreover have "swab32 CRCPOLY_BE \<noteq> CRCPOLY_BE" by (simp add: swab32_def)
    ultimately have "crc32_be le_bits be_bits (\<lambda>_. 1) 0 0 1 \<noteq> crc32_be le_bits 1 (\<lambda>_. 1) 0 0 1"
      using crc32_be_mixed [OF assms(1) b] mixed by simp
    then show ?thesis using False mixed by blast
  qed
qed simp

theorem crc_be_variants_witness:
  "(\<forall>mem crc p len. crc32_be 8 8 mem crc p len = crc32_be 8 1 mem crc p len) \<and>
   \<not> (\<forall>mem crc p len. crc32_be 8 4 mem crc p len = crc32_be 8 1 mem crc p len)"
  using crc_be_variants [of 8 8] crc_be_variants [of 8 4] by simp

text \<open>
  C40: \<^verbatim>\<open>bitreverse\<close> puts bit n at 31 - n. Therewith \<^verbatim>\<open>crc32_be\<close> is the mirror image of \<^verbatim>\<open>crc32_le\<close>: with the seed and the bits of every byte of the
  buffer reversed, its result is the reversed result.
\<close>

theorem crc_mirror:
  "(bit (bitreverse x) n \<longleftrightarrow> n < 32 \<and> bit x (31 - n)) \<and>
   crc32_be 8 8 (\<lambda>a. rev8 (mem a)) (bitreverse crc) p len = bitreverse (crc32_le 8 mem crc p len)"
proof
  show "bit (bitreverse x) n \<longleftrightarrow> n < 32 \<and> bit x (31 - n)"
    using bit_bitreverse [of n x] bit_imp_le_length [of "bitreverse x" n] by auto
  show "crc32_be 8 8 (\<lambda>a. rev8 (mem a)) (bitreverse crc) p len = bitreverse (crc32_le 8 mem crc p len)"
    by (simp add: crc32_be_fits absorb_mirror crc32_le_absorb)
qed

end
