(* ===== verification/Spec2Isabelle.thy ===== *)
theory Spec2Isabelle
  imports Prelude Kfifo Rwsem SemSys RadixProps ResourceProps TimerProps VsprintfProps Reserve CrcProps
begin

text \<open>
  A verification development for parts of the Linux 2.6.11.12 kernel under \<^verbatim>\<open>src/linux\<close>. The build that is modelled is x86-64 with
  one processor, no kernel preemption and no debugging options: \<^verbatim>\<open>unsigned long\<close> is a 64-bit word, and the spin locks are no-ops.

  \<^bold>\<open>Conventions.\<close> Each function of the source is a definition of the same name (with a suffix such as \<open>_nolock\<close> for the leading underscores of C), on an explicit
  state. A function that can bring the kernel down returns an \<open>option\<close>: \<open>None\<close> is a crash, which is a \<^verbatim>\<open>BUG_ON\<close>, a null, freed or wild pointer, an access outside an array, or a
  loop that does not end (such loops are \<open>partial_function (option)\<close>). Error numbers are ordinary values. A function that sleeps is cut at its sleeping points into several
  definitions, and a step relation lets other tasks run in between. The results of memory allocation, the contents of user memory and the time are arguments of the operations, so
  that the theorems hold for all of them. Loops that end are recursive functions with a termination proof; no model uses fuel.

  \<^bold>\<open>Parts and theories.\<close>

  \<^item> \<open>Prelude\<close>: machine types, crashes, error numbers, block copies, facts on words and lists, and the locale \<open>invariant_system\<close>, from which the invariants of the step
    relations follow by induction.

  \<^item> \<open>Kfifo\<close> (\<^verbatim>\<open>kernel/kfifo.c\<close>, \<^verbatim>\<open>include/linux/kfifo.h\<close>): the byte queue with free-running 32-bit indices. Putting and getting act on the queue as on a list at every
    position of the indices; the queue works without a lock for one reader and one writer; allocation rounds the size up.

  \<^item> \<open>Rwsem\<close> (\<^verbatim>\<open>lib/rwsem-spinlock.c\<close>): the reader/writer semaphore with any number of tasks, their waiting loops and spurious wake-ups as a step relation. Writers are
    exclusive, releases do not crash, no wake-up is lost.

  \<^item> \<open>IpcUtil\<close> (\<^verbatim>\<open>ipc/util.c\<close>): the table of identifiers. \<open>Sem\<close>, \<open>SemScan\<close>, \<open>SemInv\<close>, \<open>SemCtl\<close>, \<open>SemOp\<close>, \<open>SemSys\<close> (\<^verbatim>\<open>ipc/sem.c\<close>): System V
    semaphores. \<open>Sem\<close> has the data and operations; \<open>SemScan\<close> the scan of the queue of sleeping tasks; \<open>SemInv\<close> the invariant of arrays, undo structures, queues, references and
    tasks; \<open>SemCtl\<close> and \<open>SemOp\<close> that every call keeps it; \<open>SemSys\<close> the step relation of all tasks and the properties: no crash under any interleaving, values in
    range, no lost wake-up, atomic operations, exact undo, identifiers that lead back to their object. The system starts with a table of identifiers that could be allocated, and the limits that \<^verbatim>\<open>sysctl\<close> sets
    are those of \<open>ctls_ok\<close>, under which the size of a set is an \<^verbatim>\<open>int\<close>; without this bound the properties fail. The pointer that \<^verbatim>\<open>grow_ary\<close> reads behind the old table is an argument of \<^verbatim>\<open>semget\<close>.

  \<^item> \<open>Radix\<close>, \<open>RadixProps\<close> (\<^verbatim>\<open>lib/radix-tree.c\<close>): the radix tree with tags and the pool of preloaded nodes. The tree is a map from 64-bit indices; insertion,
    deletion, tagging and both gang lookups are correct for every height, with the exact conditions under which a tree that a failed insertion has left makes them crash; what the preloaded nodes guarantee and what they do not.

  \<^item> \<open>Resource\<close>, \<open>ResourceProps\<close> (\<^verbatim>\<open>kernel/resource.c\<close>): the tree of I/O resources over a store with parent, sibling and child links. Every call keeps the children of a
    resource sorted, disjoint and inside it; request, insertion, allocation, adjustment and the region calls do what they promise, and where ranges wrap around they do not.

  \<^item> \<open>Timer\<close>, \<open>TimerWheel\<close>, \<open>TimerInv\<close>, \<open>TimerProps\<close> (\<^verbatim>\<open>kernel/timer.c\<close>): the five-level timer wheel. \<open>TimerWheel\<close> has the arithmetic of the levels, \<open>TimerInv\<close> the invariant,
    \<open>TimerProps\<close> the contract of a queue of timers as the locale \<open>tick_queue\<close>, its interpretation on the wheel, and the properties: a timer runs exactly once and on time under every
    interleaving, cascades end, \<^verbatim>\<open>schedule_timeout\<close> sleeps long enough.

  \<^item> \<open>Vsprintf\<close>, \<open>VsprintfProps\<close> (\<^verbatim>\<open>lib/vsprintf.c\<close>, \<^verbatim>\<open>lib/ctype.c\<close>): formatted printing and scanning. A reference function gives the text of a format; \<^verbatim>\<open>vsnprintf\<close> writes as much of it as fits and
    nothing else, unless the text runs past the end of the address space; printed integers are read back.

  \<^item> \<open>Cmdline\<close> (\<^verbatim>\<open>lib/cmdline.c\<close>) and \<open>Reserve\<close> (\<^verbatim>\<open>reserve_setup\<close> of \<^verbatim>\<open>kernel/resource.c\<close>): the option parsers, which use the string-to-number functions of \<open>Vsprintf\<close>, and the boot option
    \<^verbatim>\<open>reserve=\<close>, which uses the parsers and the resource tree. Its properties span these components and are proved below.

  \<^item> \<open>Crc\<close>, \<open>CrcProps\<close> (\<^verbatim>\<open>lib/crc32.c\<close>, \<^verbatim>\<open>lib/gen_crc32table.c\<close>, \<^verbatim>\<open>lib/libcrc32c.c\<close>, \<^verbatim>\<open>lib/crc-ccitt.c\<close>): the cyclic redundancy checks over a memory of bytes, with
    the compile-time choices \<^verbatim>\<open>CRC_LE_BITS\<close> and \<^verbatim>\<open>CRC_BE_BITS\<close> as arguments. The table-driven and word-wise code equals the bit-at-a-time code at every alignment, the generated and the written-out tables
    meet the contract of the locale \<open>crc_table\<close>, and the big-endian check mirrors the little-endian one.

  \<^bold>\<open>Deviations found.\<close> Properties also record where the code does not do what it means to: undo adjustments of semaphores that wrap, a preload that is too small for
    some insertions, a tree that is unsafe after a failed first insertion, allocation and adjustment of ranges that wrap or are empty, the size 0 of the printing functions, \<^verbatim>\<open>reserve=\<close> of memory
    between 2 and 4 gigabytes, and the byte order of the big-endian CRC table when \<^verbatim>\<open>CRC_LE_BITS\<close> and \<^verbatim>\<open>CRC_BE_BITS\<close> differ. In the semaphores: \<^verbatim>\<open>grow_ary\<close> reads one pointer behind the old
    table of identifiers and gives back a table that it may not own, and the size of a set of semaphores overflows for limits that \<^verbatim>\<open>sysctl\<close> accepts. And \<^verbatim>\<open>vsnprintf\<close> writes to address 0 when the text runs past the end of the address space.

  \<^bold>\<open>Not modelled.\<close> Of the parts above: the \<^verbatim>\<open>/proc\<close> files, which only print; the copies between user-space layouts; the CPU hot-plug callbacks and the creation of the slab
  caches at boot; the unit test and the big-endian machine code of \<^verbatim>\<open>lib/crc32.c\<close>; of \<^verbatim>\<open>kernel/timer.c\<close> the wall clock with its frequency control, the load averages, \<^verbatim>\<open>nanosleep\<close> and the getters of task fields. The rest of the kernel is not modelled: the scheduler,
  memory management, file systems, network, drivers and architecture code rest on hardware behaviour and on each other; the parts above meet them only through sleeping, allocation and user
  memory, which are steps and arguments of the models.
\<close>

unbundle bit_operations_syntax

section \<open>The boot option \<^verbatim>\<open>reserve=\<close>\<close>

text \<open>
  C38: the boot option \<^verbatim>\<open>reserve=\<close> is harmless whatever the string is. Starting from a well-formed tree with the two roots and free static structures,
  \<^verbatim>\<open>reserve_setup\<close> ends, never crashes, returns 1 and leaves a well-formed tree; at most four regions are ever reserved, the structures counted as reserved hang below one of the roots, and the
  others are still free for a later option.
\<close>

theorem reserve_setup_safe:
  assumes "res_inv s" "{iomem, ioport} \<subseteq> dom s" "inj_on reserve {..<4}" "reserve ` {..<4} \<inter> {iomem, ioport} = {}"
    "reserved \<le> 4" "\<forall>i. reserved \<le> i \<longrightarrow> i < 4 \<longrightarrow> unattached s (reserve i)"
  shows "\<exists>x s'. reserve_setup reserve iomem ioport cur reserved s = Some (1, x, s') \<and> res_inv s' \<and> reserved \<le> x \<and> x \<le> 4 \<and>
    (\<forall>i. x \<le> i \<longrightarrow> i < 4 \<longrightarrow> unattached s' (reserve i)) \<and> (\<forall>i. reserved \<le> i \<longrightarrow> i < x \<longrightarrow> par s' (reserve i) \<in> {Some iomem, Some ioport})"
proof -
  have "reserve_ok reserve iomem ioport reserved reserved s" using assms(1,2,5,6) by (simp add: reserve_ok_def)
  from reserve_loop_ok [OF this assms(3,4), of cur] show ?thesis by (auto simp: reserve_setup_def reserve_ok_def)
qed

text \<open>A store for the witnesses: the ports at address 0, the memory at 1 and the static structures at 2 to 5.\<close>

definition boot_store :: res_store where
  "boot_store = (\<lambda>a. if a = 0 then Some (res_node 0 0xffff None None None)
     else if a = 1 then Some (res_node 0 (- 1) None None None)
     else if a < 6 then Some (res_node 0 0 None None None) else None)"

lemma boot_store_ok: "res_inv boot_store" "{1, 0} \<subseteq> dom boot_store" "\<forall>i. 0 \<le> i \<longrightarrow> i < 4 \<longrightarrow> unattached boot_store (2 + i)"
proof -
  have "dom boot_store \<subseteq> {..<6}" by (auto simp: boot_store_def split: if_splits)
  then have "finite (dom boot_store)" by (rule finite_subset) simp
  then show "res_inv boot_store" by (intro res_initial_inv) (auto simp: res_initial_def unattached_def boot_store_def res_node_def view_defs)
qed (auto simp: boot_store_def unattached_def res_node_def view_defs)

theorem reserve_setup_safe_witness:
  "\<exists>x s'. reserve_setup (\<lambda>i. 2 + i) 1 0 ''0x300,16,oops'' 0 boot_store = Some (1, x, s') \<and> res_inv s' \<and> x \<le> 4"
proof -
  have "inj_on (\<lambda>i. 2 + i :: nat) {..<4}" "(\<lambda>i. 2 + i :: nat) ` {..<4} \<inter> {1, 0} = {}" by (auto simp: inj_on_def)
  from reserve_setup_safe [OF boot_store_ok(1,2) this _ boot_store_ok(3)] show ?thesis by fastforce
qed

text \<open>
  C39: what \<^verbatim>\<open>reserve=start,num\<close> with two decimal numbers reserves. The numbers are cut to 32 bits and widened as signed values: the range that is requested is the one from \<open>start\<close> to
  \<open>start + num - 1\<close> when these are below 2 to the 31, and a range at the top of the 64-bit address space for memory between 2 and 4 gigabytes.
\<close>

theorem reserve_setup_range:
  assumes "x < 4" "s (reserve x) = Some res"
    and "lo = (scast (ucast start :: u32) :: ulong)" "hi = (scast (ucast start + ucast n - 1 :: u32) :: ulong)"
  shows "reserve_setup reserve iomem ioport (digits_of small_digits 10 start @ '','' @ digits_of small_digits 10 n) x s =
    map_option (\<lambda>(err, s'). (1, if err = 0 then x + 1 else x, s'))
      (request_resource (s(reserve x \<mapsto> res\<lparr>res_name := ''reserved'', res_start := lo, res_end := hi, res_flags := 0x80000000, res_child := None\<rparr>))
         (if 0x10000 \<le> lo then iomem else ioport) (reserve x)) \<and>
    (unat start + unat n < 2 ^ 31 \<longrightarrow> 0 < n \<longrightarrow> lo = start \<and> hi = start + n - 1) \<and>
    (2 ^ 31 \<le> unat start \<longrightarrow> unat start < 2 ^ 32 \<longrightarrow> lo = start + 0xffffffff00000000)"
proof (intro conjI impI)
  show "reserve_setup reserve iomem ioport (digits_of small_digits 10 start @ '','' @ digits_of small_digits 10 n) x s =
    map_option (\<lambda>(err, s'). (1, if err = 0 then x + 1 else x, s'))
      (request_resource (s(reserve x \<mapsto> res\<lparr>res_name := ''reserved'', res_start := lo, res_end := hi, res_flags := 0x80000000, res_child := None\<rparr>))
         (if 0x10000 \<le> lo then iomem else ioport) (reserve x))" (is "_ = map_option ?f ?q")
    using assms(1,2) unfolding reserve_setup_def assms(3,4)
    by (subst reserve_loop.simps)
       (cases ?q, simp_all add: assms(3,4) reserve_args_decimal [simplified] reserve_loop.simps [of _ _ _ "[]"] reserve_args_Nil split_def)
  assume n: "unat start + unat n < 2 ^ 31" "0 < n"
  show "lo = start" using n(1) unfolding assms(3) by (intro scast_ucast_small) linarith
  have "unat (start + n - 1) < 2 ^ 31"
  proof -
    have "unat (start + n) = unat start + unat n" using n(1) by (simp add: unat_word_ariths)
    moreover have "0 < unat n" using n(2) by (simp add: unat_gt_0)
    moreover then have "start + n \<noteq> 0" using calculation by (metis add_gr_0 less_irrefl unat_0)
    ultimately show ?thesis using n(1) unat_minus_one [of "start + n"] by linarith
  qed
  then show "hi = start + n - 1" unfolding assms(4) ucast_sum by (rule scast_ucast_small)
next
  assume "2 ^ 31 \<le> unat start" "unat start < 2 ^ 32"
  then show "lo = start + 0xffffffff00000000" unfolding assms(3) by (rule scast_ucast_high)
qed

theorem reserve_setup_range_witness:
  "map_option (\<lambda>(r, x, s). (x, start_of s 2, end_of s 2, par s 2)) (reserve_setup (\<lambda>i. 2 + i) 1 0 ''3758096384,4096'' 0 boot_store) =
     Some (1, 0xffffffffe0000000, 0xffffffffe0000fff, Some 1)"
proof -
  have d: "digits_of small_digits 10 3758096384 = ''3758096384''" "digits_of small_digits 10 4096 = ''4096''" by code_simp+
  have r: "(\<lambda>i. 2 + i) (0 :: nat) = (2 :: nat)" by simp
  have b: "boot_store ((\<lambda>i. 2 + i) 0) = Some (res_node 0 0 None None None)" by (simp add: boot_store_def)
  have q: "map_option (\<lambda>(err, s). (err, start_of s 2, end_of s 2, par s 2)) (request_resource (boot_store(2 \<mapsto> (res_node 0 0 None None None)\<lparr>res_name := ''reserved'',
    res_start := scast (ucast (3758096384 :: ulong) :: u32), res_end := scast (ucast (3758096384 :: ulong) + ucast (4096 :: ulong) - 1 :: u32),
    res_flags := 0x80000000, res_child := None\<rparr>)) 1 2) = Some (0, 0xffffffffe0000000, 0xffffffffe0000fff, Some 1)" by code_simp
  note range = reserve_setup_range [where reserve = "\<lambda>i. 2 + i" and x = 0 and s = boot_store and start = 3758096384 and n = 4096 and iomem = 1 and ioport = 0,
    OF _ b refl refl, unfolded d r]
  have "(0x10000 :: ulong) \<le> scast (ucast (3758096384 :: ulong) :: u32)" by code_simp
  then show ?thesis using range q by (auto split: option.splits simp: option.map_comp comp_def split_def)
qed

end
